(* ===== verification/Prelude.thy ===== *)
theory Prelude
  imports Main "HOL-Library.Word"
begin

text \<open>
  Shared vocabulary of the development: machine integer types, C conversions between
  widths, byte blocks with \<open>memcpy\<close>, results of \<open>malloc\<close> and \<open>realloc\<close>, the error codes of
  \<open>framework/io_handler.h\<close>, and the two lemma collections every component uses:
  \<open>block_simps\<close> for reads and writes of byte blocks and \<open>c_int_simps\<close> for C integers.
  The interface locales stand in the theory of the component that offers the interface.
\<close>

unbundle bit_operations_syntax

named_theorems block_simps
named_theorems c_int_simps

section \<open>Machine integers\<close>

type_synonym byte = "8 word"
type_synonym u16 = "16 word"
type_synonym u32 = "32 word"
type_synonym u64 = "64 word"

text \<open>
  Conversion of a wider C integer to \<open>int\<close> (32 bits, two's complement), to \<open>int16_t\<close>
  and to \<open>int8_t\<close>: gcc keeps the low bits.
\<close>

definition to_int32 :: "int \<Rightarrow> int" where
  "to_int32 x = signed_take_bit 31 x"

definition to_int16 :: "int \<Rightarrow> int" where
  "to_int16 x = signed_take_bit 15 x"

definition to_int8 :: "int \<Rightarrow> int" where
  "to_int8 x = signed_take_bit 7 x"

lemma to_int32_id [c_int_simps]:
  "- (2 ^ 31) \<le> x \<Longrightarrow> x < 2 ^ 31 \<Longrightarrow> to_int32 x = x"
  by (simp add: to_int32_def signed_take_bit_int_eq_self)

lemma to_int16_id [c_int_simps]:
  "- (2 ^ 15) \<le> x \<Longrightarrow> x < 2 ^ 15 \<Longrightarrow> to_int16 x = x"
  by (simp add: to_int16_def signed_take_bit_int_eq_self)

lemma to_int8_id [c_int_simps]:
  "- (2 ^ 7) \<le> x \<Longrightarrow> x < 2 ^ 7 \<Longrightarrow> to_int8 x = x"
  by (simp add: to_int8_def signed_take_bit_int_eq_self)

lemma to_int32_range: "- (2 ^ 31) \<le> to_int32 x \<and> to_int32 x < 2 ^ 31"
  using signed_take_bit_int_greater_eq_minus_exp [of 31 x] signed_take_bit_int_less_exp [of 31 x]
  by (simp add: to_int32_def)

text \<open>C's integer division and remainder truncate towards zero.\<close>

definition c_div :: "int \<Rightarrow> int \<Rightarrow> int" where
  "c_div a b = sgn a * sgn b * (\<bar>a\<bar> div \<bar>b\<bar>)"

definition c_mod :: "int \<Rightarrow> int \<Rightarrow> int" where
  "c_mod a b = a - b * c_div a b"

lemma c_div_nonneg [c_int_simps]: "0 \<le> a \<Longrightarrow> 0 < b \<Longrightarrow> c_div a b = a div b"
  by (cases "a = 0") (simp_all add: c_div_def)

lemma c_mod_nonneg [c_int_simps]: "0 \<le> a \<Longrightarrow> 0 < b \<Longrightarrow> c_mod a b = a mod b"
  by (simp add: c_mod_def c_div_nonneg minus_mult_div_eq_mod)

section \<open>Byte blocks\<close>

text \<open>\<open>blit mem off xs\<close> is \<open>memcpy(mem + off, xs, length xs)\<close>; \<open>region mem off n\<close> reads.\<close>

definition blit :: "'a list \<Rightarrow> nat \<Rightarrow> 'a list \<Rightarrow> 'a list" where
  "blit mem off xs = take off mem @ xs @ drop (off + length xs) mem"

definition region :: "'a list \<Rightarrow> nat \<Rightarrow> nat \<Rightarrow> 'a list" where
  "region mem off n = take n (drop off mem)"

lemma length_blit [block_simps]:
  "off + length xs \<le> length mem \<Longrightarrow> length (blit mem off xs) = length mem"
  by (simp add: blit_def)

lemma length_region [block_simps]:
  "off + n \<le> length mem \<Longrightarrow> length (region mem off n) = n"
  by (simp add: region_def)

lemma region_0 [block_simps]: "region mem off 0 = []"
  by (simp add: region_def)

lemma region_all [block_simps]: "region mem 0 (length mem) = mem"
  by (simp add: region_def)

lemma region_blit_same [block_simps]:
  "off \<le> length mem \<Longrightarrow> region (blit mem off xs) off (length xs) = xs"
  by (simp add: region_def blit_def)

lemma region_blit_before [block_simps]:
  "a + n \<le> off \<Longrightarrow> off \<le> length mem \<Longrightarrow> region (blit mem off xs) a n = region mem a n"
  by (auto simp: region_def blit_def drop_take min_def)

lemma region_blit_after [block_simps]:
  "off + length xs \<le> a \<Longrightarrow> off + length xs \<le> length mem \<Longrightarrow>
   region (blit mem off xs) a n = region mem a n"
  by (simp add: region_def blit_def)

text \<open>Writing right behind a region extends what is read from it.\<close>

lemma region_blit_append [block_simps]:
  "a \<le> off \<Longrightarrow> off \<le> length mem \<Longrightarrow>
   region (blit mem off xs) a (off - a + length xs) = region mem a (off - a) @ xs"
  by (simp add: region_def blit_def drop_take)

lemma take_region [block_simps]: "m \<le> n \<Longrightarrow> take m (region mem off n) = region mem off m"
  by (simp add: region_def min_def)

lemma drop_region [block_simps]: "drop m (region mem off n) = region mem (off + m) (n - m)"
  by (simp add: region_def drop_take add.commute)

lemma region_append [block_simps]:
  "region mem off m @ region mem (off + m) n = region mem off (m + n)"
  by (simp add: region_def take_add add.commute)

lemma region_take [block_simps]: "off + n \<le> m \<Longrightarrow> region (take m mem) off n = region mem off n"
  by (simp add: region_def drop_take min_def)

lemma region_append_left [block_simps]:
  "off + n \<le> length xs \<Longrightarrow> region (xs @ ys) off n = region xs off n"
  by (simp add: region_def)

section \<open>The heap allocator\<close>

text \<open>
  \<open>malloc\<close> and \<open>realloc\<close> either fail (\<open>None\<close>) or give the address of a block with
  unspecified contents. Address 0 is \<open>NULL\<close>.
\<close>

type_synonym alloc_result = "(int \<times> byte list) option"

definition alloc_ok :: "int \<Rightarrow> alloc_result \<Rightarrow> bool" where
  "alloc_ok n r = (case r of None \<Rightarrow> True | Some (p, blk) \<Rightarrow> 0 < p \<and> int (length blk) = n)"

definition realloc_block :: "byte list \<Rightarrow> byte list \<Rightarrow> byte list" where
  "realloc_block old fresh = take (length fresh) old @ drop (length old) fresh"

lemma length_realloc_block [simp]: "length (realloc_block old fresh) = length fresh"
  by (simp add: realloc_block_def)

lemma region_realloc_block [block_simps]:
  "off + n \<le> length old \<Longrightarrow> off + n \<le> length fresh \<Longrightarrow>
   region (realloc_block old fresh) off n = region old off n"
  by (simp add: realloc_block_def region_append_left region_take)

section \<open>Error codes of io_handler.h\<close>

definition ERROR_TYPE_NONE :: int where "ERROR_TYPE_NONE = 0"
definition ERROR_TYPE_SYSTEM :: int where "ERROR_TYPE_SYSTEM = 1"
definition ERROR_TYPE_MEMORY :: int where "ERROR_TYPE_MEMORY = 2"
definition ERROR_TYPE_REQUEST :: int where "ERROR_TYPE_REQUEST = 3"
definition ERROR_TYPE_TIMEOUT :: int where "ERROR_TYPE_TIMEOUT = 4"
definition ERROR_TYPE_PEER_CLOSE :: int where "ERROR_TYPE_PEER_CLOSE = 5"
definition ERROR_TYPE_ACTIVE_CLOSE :: int where "ERROR_TYPE_ACTIVE_CLOSE = 6"

lemmas error_type_defs =
  ERROR_TYPE_NONE_def ERROR_TYPE_SYSTEM_def ERROR_TYPE_MEMORY_def ERROR_TYPE_REQUEST_def
  ERROR_TYPE_TIMEOUT_def ERROR_TYPE_PEER_CLOSE_def ERROR_TYPE_ACTIVE_CLOSE_def

text \<open>The values of \<open>errno\<close> that the sources test for.\<close>

datatype errno = EAGAIN | EINTR | EMFILE | ENFILE | ECONNABORTED | EOTHER int

text \<open>Outcomes of \<open>send\<close> and \<open>write\<close> on a socket: the bytes accepted, or an error.\<close>

datatype send_result = Sent nat | SendErr errno

section \<open>Memory safety as a result\<close>

text \<open>
  \<open>OutOfBounds\<close>: the code reads or writes past a block it was given, or sets up a stream of
  negative length.
\<close>

datatype 'a checked = Fine 'a | OutOfBounds

section \<open>C strings\<close>

text \<open>What a \<open>char*\<close> function sees of a byte array: everything before the terminating 0.\<close>

definition c_str :: "byte list \<Rightarrow> byte list" where
  "c_str bs = takeWhile (\<lambda>c. c \<noteq> 0) bs"

definition str_ok :: "byte list \<Rightarrow> bool" where
  "str_ok s \<longleftrightarrow> 0 \<notin> set s"

lemma c_str_id: "str_ok s \<Longrightarrow> c_str s = s"
  by (auto simp: c_str_def str_ok_def takeWhile_eq_all_conv)

lemma c_str_terminated: "str_ok s \<Longrightarrow> c_str (s @ 0 # rest) = s"
  by (induction s) (auto simp: c_str_def str_ok_def)

text \<open>\<open>atoi\<close> as glibc has it: \<open>strtol\<close> saturates to 64 bits and the result is cut to an \<open>int\<close>.\<close>

definition is_digit :: "byte \<Rightarrow> bool" where
  "is_digit c \<longleftrightarrow> 48 \<le> c \<and> c \<le> 57"

definition is_space :: "byte \<Rightarrow> bool" where
  "is_space c \<longleftrightarrow> c = 32 \<or> 9 \<le> c \<and> c \<le> 13"

definition digits_value :: "byte list \<Rightarrow> int" where
  "digits_value ds = foldl (\<lambda>a c. a * 10 + (uint c - 48)) 0 ds"

definition strtol :: "byte list \<Rightarrow> int" where
  "strtol s =
     (let p = dropWhile is_space s;
          neg = (p \<noteq> [] \<and> hd p = 45);
          q = (if p \<noteq> [] \<and> (hd p = 45 \<or> hd p = 43) then tl p else p);
          v = digits_value (takeWhile is_digit q);
          w = (if neg then - v else v)
      in max (- (2 ^ 63)) (min (2 ^ 63 - 1) w))"

definition atoi :: "byte list \<Rightarrow> int" where
  "atoi s = to_int32 (strtol s)"

lemma atoi_example: "atoi [32, 45, 52, 50, 120] = -42"
  by (simp add: atoi_def strtol_def digits_value_def is_space_def is_digit_def to_int32_id Let_def)

section \<open>Printing numbers\<close>

text \<open>The bytes of a literal, and the decimal digits that \<open>printf\<close> and \<open>ostream\<close> give.\<close>

definition ascii :: "string \<Rightarrow> byte list" where
  "ascii s = map of_char s"

fun dec_digits :: "nat \<Rightarrow> byte list" where
  "dec_digits n = (if n < 10 then [48 + of_nat n] else dec_digits (n div 10) @ [48 + of_nat (n mod 10)])"

declare dec_digits.simps [simp del]

lemma length_dec_digits: "n < 10 ^ k \<Longrightarrow> 0 < k \<Longrightarrow> length (dec_digits n) \<le> k"
proof (induction n arbitrary: k rule: dec_digits.induct)
  case (1 n)
  show ?case
  proof (cases "n < 10")
    case True
    then show ?thesis using 1(3) by (subst dec_digits.simps) simp
  next
    case False
    with 1(2) obtain m where k: "k = Suc m" "0 < m" by (cases k; cases "k - 1") auto
    have "n div 10 < 10 ^ m" using 1(2) k by (simp add: less_mult_imp_div_less mult.commute)
    from 1(1) [OF False this k(2)] False k show ?thesis by (subst dec_digits.simps) simp
  qed
qed

lemma digit_byte:
  assumes "d < 10"
  shows "is_digit (48 + of_nat d)" "uint (48 + of_nat d :: byte) = 48 + int d"
proof -
  have "d \<in> {0, 1, 2, 3, 4, 5, 6, 7, 8, 9}" using assms by auto
  then show "is_digit (48 + of_nat d)" "uint (48 + of_nat d :: byte) = 48 + int d"
    by (auto simp: is_digit_def)
qed

lemma dec_digits_ne [simp]: "dec_digits n \<noteq> []"
  by (subst dec_digits.simps) simp

lemma dec_digits_are_digits: "c \<in> set (dec_digits n) \<Longrightarrow> is_digit c"
proof (induction n rule: dec_digits.induct)
  case (1 n)
  then show ?case
    using digit_byte(1) [of n] digit_byte(1) [of "n mod 10"]
    by (subst (asm) (2) dec_digits.simps) (auto split: if_splits)
qed

lemma digits_value_snoc: "digits_value (ds @ [c]) = digits_value ds * 10 + (uint c - 48)"
  by (simp add: digits_value_def)

lemma digits_value_dec: "digits_value (dec_digits n) = int n"
proof (induction n rule: dec_digits.induct)
  case (1 n)
  show ?case
  proof (cases "n < 10")
    case True
    then show ?thesis
      using digit_byte(2) [of n] by (subst dec_digits.simps) (simp add: digits_value_def)
  next
    case False
    have "int (n div 10) * 10 + int (n mod 10) = int n" by presburger
    with 1 [OF False] False digit_byte(2) [of "n mod 10"] show ?thesis
      by (subst dec_digits.simps) (simp add: digits_value_snoc)
  qed
qed

text \<open>A signed number as \<open>ostream\<close> prints it.\<close>

definition show_int :: "int \<Rightarrow> byte list" where
  "show_int i = (if i < 0 then 45 # dec_digits (nat (- i)) else dec_digits (nat i))"

end
