(* ===== verification/Buffer.thy ===== *)
theory Buffer
  imports Prelude
begin

text \<open>
  \<open>framework/buffer.h\<close> and \<open>framework/buffer.cpp\<close>: a heap block with a read pointer and a
  write pointer. The four pointers are addresses (0 is \<open>NULL\<close>) and \<open>block\<close> holds the bytes
  of the \<open>malloc\<close>ed block at \<open>m_begin\<close>. The results of \<open>malloc\<close> and \<open>realloc\<close> are arguments.
  \<open>pending\<close> is the abstraction: the bytes written and not yet consumed. The lemmas say
  what each operation does to \<open>pending\<close> and that each one keeps \<open>buf_inv\<close>.
\<close>

section \<open>State and operations\<close>

record buffer =
  m_begin :: int
  m_end :: int
  m_data :: int
  m_space :: int
  block :: "byte list"

definition buffer_new :: buffer where
  "buffer_new = \<lparr>m_begin = 0, m_end = 0, m_data = 0, m_space = 0, block = []\<rparr>"

definition buffer_init :: "alloc_result \<Rightarrow> int \<Rightarrow> buffer \<Rightarrow> int \<times> buffer" where
  "buffer_init r n b =
     (if n < 8 \<or> m_begin b \<noteq> 0 then (-1, b)
      else (case r of
              None \<Rightarrow> (-2, b)
            | Some (p, blk) \<Rightarrow>
                (0, b\<lparr>m_begin := p, m_end := p + n, m_data := p, m_space := p, block := blk\<rparr>)))"

definition buffer_fini :: "buffer \<Rightarrow> buffer" where
  "buffer_fini b =
     (if m_begin b \<noteq> 0
      then b\<lparr>m_begin := 0, m_end := 0, m_data := 0, m_space := 0, block := []\<rparr>
      else b)"

text \<open>
  \<open>realloc\<close> may extend the block in place or move it: the two branches of the source. The
  sizes that reach it are positive (\<open>realloc(p, 0)\<close> would free the block).
\<close>

definition buffer_resize :: "alloc_result \<Rightarrow> int \<Rightarrow> buffer \<Rightarrow> int \<times> buffer" where
  "buffer_resize r n b =
     (if m_space b - m_begin b > n then (-1, b)
      else (case r of
              None \<Rightarrow> (-2, b)
            | Some (p, fresh) \<Rightarrow>
                let blk = realloc_block (block b) fresh in
                if p = m_begin b then (0, b\<lparr>m_end := m_begin b + n, block := blk\<rparr>)
                else (0, b\<lparr>m_data := p + (m_data b - m_begin b),
                           m_space := p + (m_space b - m_begin b),
                           m_begin := p, m_end := p + n, block := blk\<rparr>)))"

definition capacity :: "buffer \<Rightarrow> int" where
  "capacity b = m_end b - m_begin b"

definition data_size :: "buffer \<Rightarrow> int" where
  "data_size b = m_space b - m_data b"

definition space_size :: "buffer \<Rightarrow> int" where
  "space_size b = m_end b - m_space b"

definition buffer_adjust :: "buffer \<Rightarrow> buffer" where
  "buffer_adjust b =
     (if m_begin b \<noteq> 0 \<and> m_data b - m_begin b > c_div (m_end b - m_begin b) 2
      then let count = m_space b - m_data b in
           b\<lparr>block := blit (block b) 0 (region (block b) (nat (m_data b - m_begin b)) (nat count)),
             m_data := m_begin b, m_space := m_begin b + count\<rparr>
      else b)"

definition push_data :: "int \<Rightarrow> buffer \<Rightarrow> int \<times> buffer" where
  "push_data count b =
     (if count < 1 \<or> count > space_size b then (-1, b)
      else (0, b\<lparr>m_space := m_space b + count\<rparr>))"

definition pop_data :: "int \<Rightarrow> buffer \<Rightarrow> int \<times> buffer" where
  "pop_data count b =
     (if count < 1 \<or> count > data_size b then (-1, b)
      else let b1 = b\<lparr>m_data := m_data b + count\<rparr> in
           if m_data b1 = m_space b1
           then (0, b1\<lparr>m_data := m_begin b1, m_space := m_begin b1\<rparr>)
           else (0, b1))"

definition buffer_clear :: "buffer \<Rightarrow> buffer" where
  "buffer_clear b = b\<lparr>m_data := m_begin b, m_space := m_begin b\<rparr>"

text \<open>What callers do between \<open>space()\<close> and \<open>push_data\<close>: store bytes at the write pointer.\<close>

definition store_at_space :: "byte list \<Rightarrow> buffer \<Rightarrow> buffer" where
  "store_at_space xs b = b\<lparr>block := blit (block b) (nat (m_space b - m_begin b)) xs\<rparr>"

text \<open>The bytes a caller reads from \<open>data()\<close>, \<open>data_size()\<close> of them.\<close>

definition pending :: "buffer \<Rightarrow> byte list" where
  "pending b = region (block b) (nat (m_data b - m_begin b)) (nat (m_space b - m_data b))"

section \<open>Invariant\<close>

definition buf_inv :: "buffer \<Rightarrow> bool" where
  "buf_inv b \<longleftrightarrow>
     (if m_begin b = 0 then m_end b = 0 \<and> m_data b = 0 \<and> m_space b = 0 \<and> block b = []
      else 0 < m_begin b \<and> m_begin b \<le> m_data b \<and> m_data b \<le> m_space b \<and> m_space b \<le> m_end b
           \<and> int (length (block b)) = m_end b - m_begin b
           \<and> (m_data b = m_space b \<longrightarrow> m_data b = m_begin b))"

lemma buf_inv_order:
  assumes "buf_inv b"
  shows "m_begin b \<le> m_data b" "m_data b \<le> m_space b" "m_space b \<le> m_end b" "0 \<le> m_begin b"
    "int (length (block b)) = m_end b - m_begin b"
  using assms by (auto simp: buf_inv_def split: if_splits)

lemma buf_inv_sizes:
  assumes "buf_inv b"
  shows "0 \<le> data_size b" "0 \<le> space_size b" "data_size b + space_size b \<le> capacity b"
  using buf_inv_order [OF assms] by (auto simp: data_size_def space_size_def capacity_def)

lemma length_pending:
  assumes "buf_inv b"
  shows "int (length (pending b)) = data_size b"
  using buf_inv_order [OF assms] by (simp add: pending_def data_size_def region_def)

lemma data_size_pos_iff: "buf_inv b \<Longrightarrow> 0 < data_size b \<longleftrightarrow> pending b \<noteq> []"
  by (metis length_pending of_nat_0_less_iff length_greater_0_conv)

lemma buffer_new_inv [simp]: "buf_inv buffer_new"
  by (simp add: buf_inv_def buffer_new_def)

lemma pending_new [simp]: "pending buffer_new = []"
  by (simp add: pending_def buffer_new_def region_def)

text \<open>An empty buffer has its pointers at the start, so all of it is free.\<close>

lemma empty_space:
  assumes "buf_inv b" "pending b = []"
  shows "space_size b = capacity b"
proof -
  have "m_data b = m_space b"
    using length_pending [OF assms(1)] assms(2) by (simp add: data_size_def)
  then show ?thesis
    using assms(1) by (auto simp: buf_inv_def space_size_def capacity_def split: if_splits)
qed

section \<open>Each operation keeps the invariant and acts on the pending bytes\<close>

lemma buffer_init_ok:
  assumes "buffer_init r n b = (0, b')" "alloc_ok n r"
  shows "buf_inv b' \<and> pending b' = [] \<and> space_size b' = n \<and> capacity b' = n"
  using assms
  by (auto simp: buffer_init_def alloc_ok_def buf_inv_def pending_def space_size_def capacity_def
      region_def split: if_splits option.splits)

lemma buffer_fini_ok: "buf_inv b \<Longrightarrow> buf_inv (buffer_fini b) \<and> pending (buffer_fini b) = []"
  by (auto simp: buffer_fini_def buf_inv_def pending_def region_def)

lemma buffer_clear_ok:
  "buf_inv b \<Longrightarrow> buf_inv (buffer_clear b) \<and> pending (buffer_clear b) = []
     \<and> space_size (buffer_clear b) = capacity b"
  by (auto simp: buffer_clear_def buf_inv_def pending_def region_def space_size_def capacity_def)

lemma buffer_fill:
  assumes inv: "buf_inv b" and xs: "xs \<noteq> []" "int (length xs) \<le> space_size b"
    and push: "push_data (int (length xs)) (store_at_space xs b) = (ret, b')"
  shows "ret = 0 \<and> buf_inv b' \<and> pending b' = pending b @ xs
    \<and> space_size b' = space_size b - int (length xs) \<and> capacity b' = capacity b"
proof -
  note o = buf_inv_order [OF inv]
  from xs have len: "1 \<le> length xs" by (cases xs) auto
  from push len xs(2) have b': "ret = 0"
    "b' = b\<lparr>block := blit (block b) (nat (m_space b - m_begin b)) xs, m_space := m_space b + int (length xs)\<rparr>"
    by (auto simp: push_data_def store_at_space_def space_size_def split: if_splits)
  have fits: "nat (m_space b - m_begin b) + length xs \<le> length (block b)"
    using o xs(2) by (simp add: space_size_def nat_diff_distrib)
  have "region (blit (block b) (nat (m_space b - m_begin b)) xs) (nat (m_data b - m_begin b))
      (nat (m_space b - m_begin b) - nat (m_data b - m_begin b) + length xs)
    = region (block b) (nat (m_data b - m_begin b)) (nat (m_space b - m_begin b) - nat (m_data b - m_begin b)) @ xs"
    using o fits by (intro region_blit_append) auto
  moreover have "nat (m_space b - m_begin b) - nat (m_data b - m_begin b) = nat (m_space b - m_data b)"
    using o by (simp add: nat_diff_distrib [symmetric])
  moreover have "nat (m_space b + int (length xs) - m_data b) = nat (m_space b - m_data b) + length xs"
    using o by (simp add: nat_add_distrib [symmetric] algebra_simps)
  ultimately have "pending b' = pending b @ xs"
    by (simp add: pending_def b')
  moreover have "buf_inv b'"
    using inv o xs(2) len fits
    by (auto simp: b' buf_inv_def space_size_def length_blit split: if_splits)
  ultimately show ?thesis
    using b' by (simp add: space_size_def capacity_def)
qed

lemma pop_data_ok:
  assumes inv: "buf_inv b" and pop: "pop_data n b = (0, b')"
  shows "buf_inv b' \<and> pending b' = drop (nat n) (pending b) \<and> capacity b' = capacity b
    \<and> space_size b \<le> space_size b'"
proof -
  note o = buf_inv_order [OF inv]
  from pop have n: "1 \<le> n" "n \<le> m_space b - m_data b"
    by (auto simp: pop_data_def data_size_def split: if_splits)
  show ?thesis
  proof (cases "m_data b + n = m_space b")
    case True
    with pop n have "b' = b\<lparr>m_data := m_begin b, m_space := m_begin b\<rparr>"
      by (auto simp: pop_data_def data_size_def Let_def split: if_splits)
    moreover have "drop (nat n) (pending b) = []"
      using length_pending [OF inv] True by (simp add: data_size_def)
    ultimately show ?thesis
      using inv o n
      by (auto simp: buf_inv_def pending_def region_def capacity_def space_size_def)
  next
    case False
    with pop n have b': "b' = b\<lparr>m_data := m_data b + n\<rparr>"
      by (auto simp: pop_data_def data_size_def Let_def split: if_splits)
    have "nat (m_data b + n - m_begin b) = nat (m_data b - m_begin b) + nat n"
      using o n by (simp add: nat_add_distrib [symmetric] algebra_simps)
    moreover have "nat (m_space b - (m_data b + n)) = nat (m_space b - m_data b) - nat n"
      using o n by (simp add: nat_diff_distrib [symmetric] algebra_simps)
    ultimately show ?thesis
      using inv o n False
      by (auto simp: b' buf_inv_def pending_def drop_region capacity_def space_size_def)
  qed
qed

lemma pop_data_ret:
  "buf_inv b \<Longrightarrow> 1 \<le> n \<Longrightarrow> n \<le> int (length (pending b)) \<Longrightarrow> \<exists>b'. pop_data n b = (0, b')"
  by (auto simp: pop_data_def length_pending Let_def)

lemma buffer_resize_ok:
  assumes inv: "buf_inv b" and rs: "buffer_resize r n b = (0, b')" and r: "alloc_ok n r" and n: "0 < n"
  shows "buf_inv b' \<and> pending b' = pending b \<and> capacity b' = n
    \<and> space_size b' = space_size b + (n - capacity b)"
proof -
  note o = buf_inv_order [OF inv]
  from rs obtain p fresh where r_eq: "r = Some (p, fresh)" and le: "m_space b - m_begin b \<le> n"
    by (auto simp: buffer_resize_def split: if_splits option.splits)
  from r have p: "0 < p" and len: "int (length fresh) = n"
    by (auto simp: alloc_ok_def r_eq)
  have reg: "region (realloc_block (block b) fresh) (nat (m_data b - m_begin b)) (nat (m_space b - m_data b))
     = region (block b) (nat (m_data b - m_begin b)) (nat (m_space b - m_data b))"
    using o le len by (intro region_realloc_block) (auto simp: nat_add_distrib [symmetric])
  show ?thesis
    using rs inv o le p len reg n
    by (auto simp: buffer_resize_def r_eq Let_def buf_inv_def pending_def capacity_def
        space_size_def split: if_splits)
qed

lemma buffer_resize_keeps:
  assumes "buffer_resize r n b = (ret, b')" "ret \<noteq> 0"
  shows "b' = b"
  using assms by (auto simp: buffer_resize_def Let_def split: if_splits option.splits)

lemma buffer_adjust_ok:
  assumes inv: "buf_inv b"
  shows "buf_inv (buffer_adjust b) \<and> pending (buffer_adjust b) = pending b
    \<and> capacity (buffer_adjust b) = capacity b \<and> space_size b \<le> space_size (buffer_adjust b)"
proof (cases "m_begin b \<noteq> 0 \<and> m_data b - m_begin b > c_div (m_end b - m_begin b) 2")
  case True
  note o = buf_inv_order [OF inv]
  let ?ys = "region (block b) (nat (m_data b - m_begin b)) (nat (m_space b - m_data b))"
  have len: "length ?ys = nat (m_space b - m_data b)"
    using o by (simp add: region_def)
  have eq: "buffer_adjust b = b\<lparr>block := blit (block b) 0 ?ys, m_data := m_begin b,
      m_space := m_begin b + (m_space b - m_data b)\<rparr>"
    using True by (simp add: buffer_adjust_def Let_def)
  have "region (blit (block b) 0 ?ys) 0 (length ?ys) = ?ys"
    by (rule region_blit_same) simp
  then have "pending (buffer_adjust b) = pending b"
    by (simp add: eq pending_def len)
  moreover have "length (blit (block b) 0 ?ys) = length (block b)"
    using o len by (intro length_blit) simp
  ultimately show ?thesis
    using inv o by (auto simp: eq buf_inv_def capacity_def space_size_def split: if_splits)
next
  case False
  then show ?thesis using inv by (auto simp: buffer_adjust_def)
qed

text \<open>
  After compaction the unread data starts in the first half of the block, so the free
  space is at least half of what the pending bytes leave.
\<close>

lemma buffer_adjust_offset:
  assumes "buf_inv b" "m_begin b \<noteq> 0"
  shows "m_data (buffer_adjust b) - m_begin (buffer_adjust b) \<le> capacity b div 2"
  using buf_inv_order [OF assms(1)] assms(2)
  by (auto simp: buffer_adjust_def capacity_def c_div_nonneg Let_def)

section \<open>Making room\<close>

text \<open>
  An allocator answers every request size; \<open>alloc_sound\<close> is what \<open>malloc\<close> promises,
  \<open>alloc_total\<close> adds that it does not fail.
\<close>

definition alloc_sound :: "(int \<Rightarrow> alloc_result) \<Rightarrow> bool" where
  "alloc_sound alloc \<longleftrightarrow> (\<forall>n > 0. alloc_ok n (alloc n))"

definition alloc_total :: "(int \<Rightarrow> alloc_result) \<Rightarrow> bool" where
  "alloc_total alloc \<longleftrightarrow> (\<forall>n > 0. alloc n \<noteq> None \<and> alloc_ok n (alloc n))"

lemma alloc_total_sound: "alloc_total alloc \<Longrightarrow> alloc_sound alloc"
  by (simp add: alloc_total_def alloc_sound_def)

text \<open>
  The senders' guard \<open>m_sbuf.space_size() < size && m_sbuf.resize(m_sbuf.capacity() + size) != 0\<close>. The sum
  is taken without the 32 bits of \<open>int\<close>: the two differ only when a buffer would grow to 2 GB, where the
  sum of the source overflows.
\<close>

definition ensure_space :: "(int \<Rightarrow> alloc_result) \<Rightarrow> int \<Rightarrow> buffer \<Rightarrow> int \<times> buffer" where
  "ensure_space alloc n b =
     (if space_size b < n then buffer_resize (alloc (capacity b + n)) (capacity b + n) b else (0, b))"

lemma ensure_space_ok:
  assumes inv: "buf_inv b" and al: "alloc_sound alloc" and e: "ensure_space alloc n b = (ret, b')"
  shows "buf_inv b' \<and> pending b' = pending b \<and> (ret = 0 \<longrightarrow> n \<le> space_size b') \<and> (ret \<noteq> 0 \<longrightarrow> b' = b)"
proof (cases "space_size b < n")
  case True
  with e have rs: "buffer_resize (alloc (capacity b + n)) (capacity b + n) b = (ret, b')"
    by (simp add: ensure_space_def)
  have pos: "0 < capacity b + n"
    using True buf_inv_sizes [OF inv] by linarith
  then have ok: "alloc_ok (capacity b + n) (alloc (capacity b + n))"
    using al by (simp add: alloc_sound_def)
  show ?thesis
  proof (cases "ret = 0")
    case True
    with buffer_resize_ok [OF inv _ ok pos] rs
    have "buf_inv b' \<and> pending b' = pending b \<and> space_size b' = space_size b + (capacity b + n - capacity b)"
      by simp
    then show ?thesis using True buf_inv_sizes(2) [OF inv] by simp
  next
    case False
    with buffer_resize_keeps [OF rs] inv show ?thesis by simp
  qed
next
  case False
  with e inv show ?thesis by (simp add: ensure_space_def)
qed

section \<open>Properties\<close>

text \<open>C9: The buffer is a byte queue. Storing at \<open>space()\<close> and pushing appends exactly the stored bytes,
  popping removes a prefix, \<open>resize\<close> (whether \<open>realloc\<close> moves the block, extends it in place or
  fails) and \<open>adjust\<close> leave the unread bytes alone; every operation keeps the pointers ordered, and
  a successful resize adds exactly the growth to the free space.\<close>

theorem buffer_refines_queue:
  assumes "buf_inv b"
  shows "(\<forall>xs. xs \<noteq> [] \<and> int (length xs) \<le> space_size b \<longrightarrow>
      (case push_data (int (length xs)) (store_at_space xs b) of (ret, b') \<Rightarrow>
        ret = 0 \<and> buf_inv b' \<and> pending b' = pending b @ xs))
    \<and> (\<forall>n. 1 \<le> n \<and> n \<le> int (length (pending b)) \<longrightarrow>
      (case pop_data n b of (ret, b') \<Rightarrow> ret = 0 \<and> buf_inv b' \<and> pending b' = drop (nat n) (pending b)))
    \<and> (\<forall>n r. 0 < n \<and> alloc_ok n r \<longrightarrow>
      (case buffer_resize r n b of (ret, b') \<Rightarrow>
        buf_inv b' \<and> pending b' = pending b
        \<and> (ret = 0 \<longrightarrow> capacity b' = n \<and> space_size b' = space_size b + (n - capacity b))))
    \<and> buf_inv (buffer_adjust b) \<and> pending (buffer_adjust b) = pending b
    \<and> space_size b \<le> space_size (buffer_adjust b)"
proof (intro conjI allI impI)
  fix xs :: "byte list" assume "xs \<noteq> [] \<and> int (length xs) \<le> space_size b"
  then show "case push_data (int (length xs)) (store_at_space xs b) of (ret, b') \<Rightarrow>
      ret = 0 \<and> buf_inv b' \<and> pending b' = pending b @ xs"
    using buffer_fill [OF assms, of xs] by (auto split: prod.split)
next
  fix n assume n: "1 \<le> n \<and> n \<le> int (length (pending b))"
  then obtain b' where "pop_data n b = (0, b')" using pop_data_ret [OF assms] by blast
  then show "case pop_data n b of (ret, b') \<Rightarrow> ret = 0 \<and> buf_inv b' \<and> pending b' = drop (nat n) (pending b)"
    using pop_data_ok [OF assms] by simp
next
  fix n r assume n: "0 < n \<and> alloc_ok n r"
  obtain ret b' where rs: "buffer_resize r n b = (ret, b')" by fastforce
  show "case buffer_resize r n b of (ret, b') \<Rightarrow>
      buf_inv b' \<and> pending b' = pending b
      \<and> (ret = 0 \<longrightarrow> capacity b' = n \<and> space_size b' = space_size b + (n - capacity b))"
    using n rs assms buffer_resize_ok [OF assms, of r n b'] buffer_resize_keeps [OF rs]
    by (cases "ret = 0") auto
qed (use buffer_adjust_ok [OF assms] in auto)

theorem buffer_refines_queue_witness:
  "\<exists>b b'. buffer_init (Some (4096, replicate 8 0)) 8 buffer_new = (0, b)
     \<and> push_data (int (length [7, 8, 9 :: byte])) (store_at_space [7, 8, 9] b) = (0, b')
     \<and> buf_inv b' \<and> pending b' = [7, 8, 9]"
proof -
  let ?b = "\<lparr>m_begin = 4096, m_end = 4104, m_data = 4096, m_space = 4096, block = replicate 8 (0 :: byte)\<rparr>"
  have i: "buffer_init (Some (4096, replicate 8 0)) 8 buffer_new = (0, ?b)"
    by (simp add: buffer_init_def buffer_new_def)
  have inv: "buf_inv ?b" by (simp add: buf_inv_def)
  have p: "pending ?b = []" by (simp add: pending_def region_def)
  have prem: "[7, 8, 9 :: byte] \<noteq> [] \<and> int (length [7, 8, 9 :: byte]) \<le> space_size ?b"
    by (simp add: space_size_def)
  obtain ret b' where e: "push_data (int (length [7, 8, 9 :: byte])) (store_at_space [7, 8, 9] ?b) = (ret, b')"
    by (metis surj_pair)
  have r: "ret = 0 \<and> buf_inv b' \<and> pending b' = pending ?b @ [7, 8, 9]"
    using buffer_refines_queue [OF inv, THEN conjunct1, THEN spec, THEN mp, OF prem]
    unfolding e prod.case .
  show ?thesis
    using i e [unfolded conjunct1 [OF r]] conjunct2 [OF r, unfolded p append_Nil] by blast
qed

end
