(* ===== verification/Framing.thy ===== *)
theory Framing
  imports Prelude
begin

text \<open>
  The contract between a stream handler and the concrete connection class: the virtual
  methods \<open>get_packet_info\<close> and \<open>process_packet\<close> of \<open>framework/tcp_data_handler.h\<close>
  (\<open>get_info\<close> and \<open>process\<close> of \<open>framework/packet_processor.h\<close>). \<open>frame_run\<close> is the abstract
  specification of framing: it consumes packets from the front of a byte list. The locale
  \<open>framer\<close> states what a connection class promises, and proves once that framing does not
  depend on how TCP cuts the stream into segments.
\<close>

section \<open>Packets and callbacks\<close>

text \<open>\<open>struct packet_info\<close>; \<open>pi_data\<close> holds the unread bytes that start at the pointer \<open>data\<close>.\<close>

record packet_info =
  pi_size :: int
  pi_type :: int
  pi_data :: "byte list"

text \<open>\<open>packet_info pi = {0}\<close>.\<close>

definition packet_info_zero :: packet_info where
  "packet_info_zero = \<lparr>pi_size = 0, pi_type = 0, pi_data = []\<rparr>"

type_synonym 'u info_fn = "'u \<Rightarrow> byte list \<Rightarrow> int \<times> packet_info \<times> 'u"
type_synonym 'u proc_fn = "'u \<Rightarrow> packet_info \<Rightarrow> int \<times> 'u"

text \<open>
  How a handler leaves its loop: \<open>Event e\<close> means that it called \<open>handle_error(e)\<close> and
  returned at once.
\<close>

datatype outcome = Done | Event int

definition MAX_PACKET :: int where "MAX_PACKET = 4194304"

section \<open>The specification: framing of a byte list\<close>

function frame_run :: "'u info_fn \<Rightarrow> 'u proc_fn \<Rightarrow> 'u \<Rightarrow> byte list \<Rightarrow> outcome \<times> byte list \<times> 'u" where
  "frame_run info proc u bs =
     (if bs = [] then (Done, [], u)
      else case info u bs of (ret, pinfo, u1) \<Rightarrow>
        if ret \<noteq> 0 then (Event ret, bs, u1)
        else if pi_size pinfo < 1 \<or> pi_size pinfo > MAX_PACKET
        then (Event ERROR_TYPE_REQUEST, bs, u1)
        else if pi_size pinfo \<le> int (length bs)
        then (case proc u1 pinfo of (ret2, u2) \<Rightarrow>
               if ret2 \<noteq> 0 then (Event ret2, bs, u2)
               else frame_run info proc u2 (drop (nat (pi_size pinfo)) bs))
        else (Done, bs, u1))"
  by pat_completeness auto
termination
  by (relation "measure (\<lambda>(info, proc, u, bs). length bs)") auto

declare frame_run.simps [simp del]

lemma frame_run_Nil [simp]: "frame_run info proc u [] = (Done, [], u)"
  by (simp add: frame_run.simps)

text \<open>One unfolding per branch.\<close>

lemma frame_run_ret:
  "bs \<noteq> [] \<Longrightarrow> info u bs = (ret, pinfo, u1) \<Longrightarrow> ret \<noteq> 0 \<Longrightarrow>
   frame_run info proc u bs = (Event ret, bs, u1)"
  by (subst frame_run.simps) simp

lemma frame_run_bad:
  "bs \<noteq> [] \<Longrightarrow> info u bs = (0, pinfo, u1) \<Longrightarrow> pi_size pinfo < 1 \<or> pi_size pinfo > MAX_PACKET \<Longrightarrow>
   frame_run info proc u bs = (Event ERROR_TYPE_REQUEST, bs, u1)"
  by (subst frame_run.simps) auto

lemma frame_run_fail:
  "bs \<noteq> [] \<Longrightarrow> info u bs = (0, pinfo, u1) \<Longrightarrow> 1 \<le> pi_size pinfo \<Longrightarrow> pi_size pinfo \<le> MAX_PACKET \<Longrightarrow>
   pi_size pinfo \<le> int (length bs) \<Longrightarrow> proc u1 pinfo = (ret2, u2) \<Longrightarrow> ret2 \<noteq> 0 \<Longrightarrow>
   frame_run info proc u bs = (Event ret2, bs, u2)"
  by (subst frame_run.simps) auto

lemma frame_run_step:
  "bs \<noteq> [] \<Longrightarrow> info u bs = (0, pinfo, u1) \<Longrightarrow> 1 \<le> pi_size pinfo \<Longrightarrow> pi_size pinfo \<le> MAX_PACKET \<Longrightarrow>
   pi_size pinfo \<le> int (length bs) \<Longrightarrow> proc u1 pinfo = (0, u2) \<Longrightarrow>
   frame_run info proc u bs = frame_run info proc u2 (drop (nat (pi_size pinfo)) bs)"
  by (subst frame_run.simps) auto

lemma frame_run_wait:
  "bs \<noteq> [] \<Longrightarrow> info u bs = (0, pinfo, u1) \<Longrightarrow> 1 \<le> pi_size pinfo \<Longrightarrow> pi_size pinfo \<le> MAX_PACKET \<Longrightarrow>
   int (length bs) < pi_size pinfo \<Longrightarrow>
   frame_run info proc u bs = (Done, bs, u1)"
  by (subst frame_run.simps) auto

lemmas frame_run_branches = frame_run_ret frame_run_bad frame_run_fail frame_run_step frame_run_wait

section \<open>The interface of a connection class\<close>

locale framer =
  fixes info :: "'u \<Rightarrow> byte list \<Rightarrow> int \<times> packet_info \<times> 'u"
    and proc :: "'u \<Rightarrow> packet_info \<Rightarrow> int \<times> 'u"
  assumes info_error_stable:
      "info u bs = (ret, pinfo, u1) \<Longrightarrow> ret \<noteq> 0 \<Longrightarrow> \<exists>q. info u (bs @ ys) = (ret, q, u1)"
    and info_size_stable:
      "info u bs = (0, pinfo, u1) \<Longrightarrow> pi_size pinfo < 1 \<or> pi_size pinfo > MAX_PACKET \<Longrightarrow>
       \<exists>q. info u (bs @ ys) = (0, q, u1) \<and> (pi_size q < 1 \<or> pi_size q > MAX_PACKET)"
    and info_packet_stable:
      "info u bs = (0, pinfo, u1) \<Longrightarrow> 1 \<le> pi_size pinfo \<Longrightarrow> pi_size pinfo \<le> int (length bs) \<Longrightarrow>
       \<exists>q. info u (bs @ ys) = (0, q, u1) \<and> pi_size q = pi_size pinfo \<and> proc u1 q = proc u1 pinfo"
    and info_wait_pure:
      "info u bs = (0, pinfo, u1) \<Longrightarrow> 1 \<le> pi_size pinfo \<Longrightarrow> int (length bs) < pi_size pinfo \<Longrightarrow> u1 = u"
begin

text \<open>
  Bytes that arrive later never change what was already framed: running on \<open>bs @ ys\<close> is
  running on \<open>bs\<close> and, if that ended waiting for more, on the rest followed by \<open>ys\<close>.
\<close>

lemma frame_run_append:
  "frame_run info proc u (bs @ ys) =
     (case frame_run info proc u bs of
        (Done, rest, u') \<Rightarrow> frame_run info proc u' (rest @ ys)
      | (Event e, rest, u') \<Rightarrow> (Event e, rest @ ys, u'))"
proof (induction "length bs" arbitrary: u bs rule: less_induct)
  case less
  show ?case
  proof (cases "bs = []")
    case True
    then show ?thesis by simp
  next
    case ne: False
    then have ne': "bs @ ys \<noteq> []" by simp
    obtain ret pinfo u1 where i: "info u bs = (ret, pinfo, u1)" by (cases "info u bs")
    consider (err) "ret \<noteq> 0" | (bad) "ret = 0" "pi_size pinfo < 1 \<or> pi_size pinfo > MAX_PACKET"
      | (full) "ret = 0" "1 \<le> pi_size pinfo" "pi_size pinfo \<le> MAX_PACKET" "pi_size pinfo \<le> int (length bs)"
      | (wait) "ret = 0" "1 \<le> pi_size pinfo" "pi_size pinfo \<le> MAX_PACKET" "int (length bs) < pi_size pinfo"
      by linarith
    then show ?thesis
    proof cases
      case err
      with i obtain q where "info u (bs @ ys) = (ret, q, u1)"
        using info_error_stable by blast
      with err i ne ne' show ?thesis by (simp add: frame_run_ret)
    next
      case bad
      with i obtain q where "info u (bs @ ys) = (0, q, u1)" "pi_size q < 1 \<or> pi_size q > MAX_PACKET"
        using info_size_stable by blast
      with bad i ne ne' show ?thesis by (simp add: frame_run_bad)
    next
      case full
      with i obtain q where q: "info u (bs @ ys) = (0, q, u1)" "pi_size q = pi_size pinfo"
          "proc u1 q = proc u1 pinfo"
        using info_packet_stable by blast
      obtain ret2 u2 where p: "proc u1 pinfo = (ret2, u2)" by (cases "proc u1 pinfo")
      show ?thesis
      proof (cases "ret2 = 0")
        case True
        let ?rest = "drop (nat (pi_size pinfo)) bs"
        have l: "frame_run info proc u bs = frame_run info proc u2 ?rest"
          using full i ne p True by (intro frame_run_step) auto
        have "frame_run info proc u (bs @ ys) = frame_run info proc u2 (drop (nat (pi_size pinfo)) (bs @ ys))"
          using full q ne' p True by (subst frame_run_step) auto
        also have "drop (nat (pi_size pinfo)) (bs @ ys) = ?rest @ ys"
          using full by simp
        also have "frame_run info proc u2 (?rest @ ys) =
            (case frame_run info proc u2 ?rest of
               (Done, rest, u') \<Rightarrow> frame_run info proc u' (rest @ ys)
             | (Event e, rest, u') \<Rightarrow> (Event e, rest @ ys, u'))"
          using full ne by (intro less) auto
        finally show ?thesis by (simp only: l)
      next
        case False
        with full i ne ne' p q show ?thesis by (simp add: frame_run_fail)
      qed
    next
      case wait
      with i have "u1 = u" using info_wait_pure by blast
      with wait i ne show ?thesis by (simp add: frame_run_wait)
    qed
  qed
qed

lemma frame_run_done_idem:
  "frame_run info proc u bs = (Done, rest, u') \<Longrightarrow> frame_run info proc u' rest = (Done, rest, u')"
  using frame_run_append [of u bs "[]"] by simp

end

end
