(* ===== verification/Reactor.thy ===== *)
theory Reactor
  imports Prelude
begin

text \<open>
  \<open>framework/epoll_reactor.h\<close> and \<open>.cpp\<close>: the table of handlers indexed by file descriptor,
  next to the interest set that the kernel keeps for the epoll descriptor. \<open>reactor_inv\<close> says
  that the two agree; every operation keeps it. \<open>run_once\<close> dispatches the events of one
  \<open>epoll_wait\<close> and records which callbacks it made; it is compared with a replay of the requests that the bits of
  the events stand for.
\<close>

section \<open>Event masks\<close>

definition EPOLLIN :: u32 where "EPOLLIN = 0x001"
definition EPOLLPRI :: u32 where "EPOLLPRI = 0x002"
definition EPOLLOUT :: u32 where "EPOLLOUT = 0x004"
definition EPOLLERR :: u32 where "EPOLLERR = 0x008"
definition EPOLLHUP :: u32 where "EPOLLHUP = 0x010"
definition EPOLLONESHOT :: u32 where "EPOLLONESHOT = 0x40000000"

definition EVENT_READ :: u32 where "EVENT_READ = EPOLLIN"
definition EVENT_WRITE :: u32 where "EVENT_WRITE = EPOLLOUT"
definition EVENT_ONESHOT :: u32 where "EVENT_ONESHOT = EPOLLONESHOT"

lemmas epoll_defs = EPOLLIN_def EPOLLPRI_def EPOLLOUT_def EPOLLERR_def EPOLLHUP_def
  EPOLLONESHOT_def EVENT_READ_def EVENT_WRITE_def EVENT_ONESHOT_def

definition MIN_FD_SIZE :: int where "MIN_FD_SIZE = 8"

section \<open>State and operations\<close>

text \<open>
  A handler is a reference (\<open>None\<close> is \<open>NULL\<close>). \<open>m_handlers\<close> is \<open>None\<close> while the array is not
  allocated. \<open>interest\<close> is the kernel's side: the events registered per descriptor.
\<close>

type_synonym handler = nat

record reactor =
  m_maxfd :: int
  m_epfd :: int
  m_handlers :: "handler option list option"
  interest :: "int \<rightharpoonup> u32"

definition reactor_new :: reactor where
  "reactor_new = \<lparr>m_maxfd = 0, m_epfd = -1, m_handlers = None, interest = Map.empty\<rparr>"

text \<open>\<open>ep\<close> is the result of \<open>epoll_create\<close>, \<open>mem\<close> whether \<open>malloc\<close> succeeded.\<close>

definition reactor_init :: "int \<Rightarrow> bool \<Rightarrow> int \<Rightarrow> reactor \<Rightarrow> int \<times> reactor" where
  "reactor_init ep mem maxfd r =
     (if maxfd < MIN_FD_SIZE \<or> m_epfd r \<ge> 0 then (-1, r)
      else let r1 = r\<lparr>m_epfd := ep, interest := Map.empty\<rparr> in
        if ep < 0 then (-1, r1)
        else if \<not> mem then (-1, r1)
        else (0, r1\<lparr>m_handlers := Some (replicate (nat maxfd) None), m_maxfd := maxfd\<rparr>))"

definition reactor_fini :: "reactor \<Rightarrow> reactor" where
  "reactor_fini r =
     (if m_epfd r \<ge> 0
      then r\<lparr>m_epfd := -1, m_handlers := None, interest := Map.empty\<rparr>
      else r)"

text \<open>
  \<open>get_handler\<close> reads the array without looking at \<open>m_epfd\<close>: \<open>Inl ()\<close> stands for the read
  through a \<open>NULL\<close> array.
\<close>

definition get_handler :: "int \<Rightarrow> reactor \<Rightarrow> unit + handler option" where
  "get_handler fd r =
     (if fd < 0 \<or> fd \<ge> m_maxfd r then Inr None
      else case m_handlers r of None \<Rightarrow> Inl () | Some hs \<Rightarrow> Inr (hs ! nat fd))"

definition event_mask :: "u32 \<Rightarrow> u32" where
  "event_mask event_type =
     (let ev = (if event_type AND EVENT_READ \<noteq> 0 then EPOLLIN else 0);
          ev = (if event_type AND EVENT_WRITE \<noteq> 0 then ev OR EPOLLOUT else ev)
      in if event_type AND EVENT_ONESHOT \<noteq> 0 then ev OR EPOLLONESHOT else ev)"

definition set_handler :: "int \<Rightarrow> handler option \<Rightarrow> reactor \<Rightarrow> reactor" where
  "set_handler fd h r = r\<lparr>m_handlers := map_option (\<lambda>hs. hs[nat fd := h]) (m_handlers r)\<rparr>"

text \<open>
  \<open>epoll_ctl\<close>: the kernel refuses to add a descriptor twice and to modify one it does not
  hold; \<open>ok\<close> is False when it fails for a reason of its own.
\<close>

definition add_handler :: "bool \<Rightarrow> int \<Rightarrow> handler option \<Rightarrow> u32 \<Rightarrow> reactor \<Rightarrow> int \<times> reactor" where
  "add_handler ok fd h event_type r =
     (if h = None \<or> m_epfd r < 0 then (-1, r)
      else if fd < 0 \<or> fd \<ge> m_maxfd r then (-2, r)
      else if \<not> ok \<or> interest r fd \<noteq> None then (-3, r)
      else (0, set_handler fd h (r\<lparr>interest := (interest r)(fd \<mapsto> event_mask event_type)\<rparr>)))"

definition mod_handler :: "bool \<Rightarrow> int \<Rightarrow> handler option \<Rightarrow> u32 \<Rightarrow> reactor \<Rightarrow> int \<times> reactor" where
  "mod_handler ok fd h event_type r =
     (if h = None \<or> m_epfd r < 0 then (-1, r)
      else if fd < 0 \<or> fd \<ge> m_maxfd r then (-2, r)
      else if \<not> ok \<or> interest r fd = None then (-3, r)
      else (0, set_handler fd h (r\<lparr>interest := (interest r)(fd \<mapsto> event_mask event_type)\<rparr>)))"

definition del_handler :: "int \<Rightarrow> reactor \<Rightarrow> reactor" where
  "del_handler fd r =
     (if m_epfd r < 0 then r
      else if fd < 0 \<or> fd \<ge> m_maxfd r then r
      else set_handler fd None (r\<lparr>interest := (interest r)(fd := None)\<rparr>))"

section \<open>Dispatch\<close>

text \<open>
  The callbacks run on a world of type \<open>'w\<close> that contains the reactor (\<open>rx\<close>): a callback can
  add, change and remove handlers, also its own. \<open>call h k fd\<close> is the virtual call
  \<open>h->on_error(fd)\<close>, \<open>on_write\<close> or \<open>on_read\<close>. The list collects the calls in order.

  The code tests \<open>m_handlers[fd] != NULL\<close> without looking at the table or at the range:
  \<open>table_read\<close> is \<open>OutOfBounds\<close> when the array is gone or ends before \<open>fd\<close>. The array of
  events lies in the same block as the table, so after a \<open>fini\<close> in a callback also the next
  access to an event leaves the memory (\<open>events_alive\<close>).
\<close>

datatype callback = OnError | OnWrite | OnRead

type_synonym call = "handler \<times> callback \<times> int"

definition table_read :: "reactor \<Rightarrow> int \<Rightarrow> handler option checked" where
  "table_read r fd =
     (case m_handlers r of
        None \<Rightarrow> OutOfBounds
      | Some hs \<Rightarrow> if fd < 0 \<or> int (length hs) \<le> fd then OutOfBounds else Fine (hs ! nat fd))"

definition handler_at :: "reactor \<Rightarrow> int \<Rightarrow> handler option" where
  "handler_at r fd = (case table_read r fd of OutOfBounds \<Rightarrow> None | Fine h \<Rightarrow> h)"

lemma handler_at_cases:
  "handler_at r fd =
     (case m_handlers r of
        None \<Rightarrow> None
      | Some hs \<Rightarrow> if fd < 0 \<or> int (length hs) \<le> fd then None else hs ! nat fd)"
  by (simp add: handler_at_def table_read_def split: option.splits)

definition events_alive :: "('w \<Rightarrow> reactor) \<Rightarrow> 'w \<Rightarrow> bool" where
  "events_alive rx w \<longleftrightarrow> m_handlers (rx w) \<noteq> None"

definition invoke ::
  "('w \<Rightarrow> reactor) \<Rightarrow> (handler \<Rightarrow> callback \<Rightarrow> int \<Rightarrow> 'w \<Rightarrow> 'w) \<Rightarrow> callback \<Rightarrow> int \<Rightarrow>
   'w \<times> call list \<Rightarrow> ('w \<times> call list) checked" where
  "invoke rx call k fd s =
     (case s of (w, tr) \<Rightarrow>
        case table_read (rx w) fd of
          OutOfBounds \<Rightarrow> OutOfBounds
        | Fine None \<Rightarrow> Fine (w, tr)
        | Fine (Some h) \<Rightarrow> Fine (call h k fd w, tr @ [(h, k, fd)]))"

definition dispatch_event ::
  "('w \<Rightarrow> reactor) \<Rightarrow> (handler \<Rightarrow> callback \<Rightarrow> int \<Rightarrow> 'w \<Rightarrow> 'w) \<Rightarrow> int \<times> u32 \<Rightarrow>
   'w \<times> call list \<Rightarrow> ('w \<times> call list) checked" where
  "dispatch_event rx call ev s =
     (case ev of (fd, events) \<Rightarrow>
        if \<not> events_alive rx (fst s) then OutOfBounds
        else if events AND (EPOLLPRI OR EPOLLERR OR EPOLLHUP) \<noteq> 0 then invoke rx call OnError fd s
        else case (if events AND EPOLLOUT \<noteq> 0 then invoke rx call OnWrite fd s else Fine s) of
               OutOfBounds \<Rightarrow> OutOfBounds
             | Fine s1 \<Rightarrow>
                 if \<not> events_alive rx (fst s1) then OutOfBounds
                 else if events AND EPOLLIN \<noteq> 0 then invoke rx call OnRead fd s1
                 else Fine s1)"

fun dispatch_events ::
  "('w \<Rightarrow> reactor) \<Rightarrow> (handler \<Rightarrow> callback \<Rightarrow> int \<Rightarrow> 'w \<Rightarrow> 'w) \<Rightarrow> (int \<times> u32) list \<Rightarrow>
   'w \<times> call list \<Rightarrow> ('w \<times> call list) checked" where
  "dispatch_events rx call [] s = Fine s"
| "dispatch_events rx call (ev # evs) s =
     (case dispatch_event rx call ev s of
        OutOfBounds \<Rightarrow> OutOfBounds
      | Fine s1 \<Rightarrow> dispatch_events rx call evs s1)"

text \<open>\<open>answer\<close> is what \<open>epoll_wait\<close> says: the events of this round, \<open>None\<close> for -1.\<close>

definition run_once ::
  "('w \<Rightarrow> reactor) \<Rightarrow> (handler \<Rightarrow> callback \<Rightarrow> int \<Rightarrow> 'w \<Rightarrow> 'w) \<Rightarrow> (int \<times> u32) list option \<Rightarrow>
   'w \<Rightarrow> (int \<times> 'w \<times> call list) checked" where
  "run_once rx call answer w =
     (case answer of
        None \<Rightarrow> Fine (-1, w, [])
      | Some evs \<Rightarrow>
          case dispatch_events rx call evs (w, []) of
            OutOfBounds \<Rightarrow> OutOfBounds
          | Fine (w', tr) \<Rightarrow> Fine (int (length evs), w', tr))"

section \<open>The table and the kernel agree\<close>

definition reactor_inv :: "reactor \<Rightarrow> bool" where
  "reactor_inv r \<longleftrightarrow>
     (case m_handlers r of
        None \<Rightarrow> interest r = Map.empty \<and> (m_epfd r < 0 \<or> m_maxfd r = 0)
      | Some hs \<Rightarrow> 0 \<le> m_epfd r \<and> MIN_FD_SIZE \<le> m_maxfd r \<and> int (length hs) = m_maxfd r
          \<and> (\<forall>fd. interest r fd \<noteq> None \<longleftrightarrow> 0 \<le> fd \<and> fd < m_maxfd r \<and> hs ! nat fd \<noteq> None))"

lemma reactor_inv_new [simp]: "reactor_inv reactor_new"
  by (simp add: reactor_inv_def reactor_new_def)

lemma reactor_inv_fini: "reactor_inv r \<Longrightarrow> reactor_inv (reactor_fini r)"
  by (auto simp: reactor_inv_def reactor_fini_def split: option.splits)

lemma reactor_inv_init:
  "reactor_init ep mem maxfd reactor_new = (ret, r) \<Longrightarrow> reactor_inv r"
  by (auto simp: reactor_inv_def reactor_init_def reactor_new_def MIN_FD_SIZE_def Let_def
      split: if_splits)

lemma reactor_inv_set:
  assumes "reactor_inv r" "0 \<le> m_epfd r" "0 \<le> fd" "fd < m_maxfd r" "(h = None) = (e = None)"
  shows "reactor_inv (set_handler fd h (r\<lparr>interest := (interest r)(fd := e)\<rparr>))"
  using assms
  by (auto simp: reactor_inv_def set_handler_def nth_list_update nat_eq_iff split: option.splits)

lemma reactor_inv_add: "reactor_inv r \<Longrightarrow> add_handler ok fd h ev r = (ret, r') \<Longrightarrow> reactor_inv r'"
  by (auto simp: add_handler_def split: if_splits intro: reactor_inv_set)

lemma reactor_inv_mod: "reactor_inv r \<Longrightarrow> mod_handler ok fd h ev r = (ret, r') \<Longrightarrow> reactor_inv r'"
  by (auto simp: mod_handler_def split: if_splits intro: reactor_inv_set)

lemma reactor_inv_del: "reactor_inv r \<Longrightarrow> reactor_inv (del_handler fd r)"
  by (auto simp: del_handler_def intro: reactor_inv_set)

lemma interest_registered:
  assumes "reactor_inv r" "interest r fd \<noteq> None"
  shows "handler_at r fd \<noteq> None \<and> 0 \<le> fd \<and> fd < m_maxfd r \<and> 0 \<le> m_epfd r"
proof -
  obtain hs where hs: "m_handlers r = Some hs" using assms by (auto simp: reactor_inv_def split: option.splits)
  with assms have "0 \<le> fd" "fd < m_maxfd r" "hs ! nat fd \<noteq> None" "0 \<le> m_epfd r" "int (length hs) = m_maxfd r"
    unfolding reactor_inv_def by auto
  then show ?thesis by (simp add: handler_at_cases hs)
qed

lemma mod_handler_registered:
  "reactor_inv r \<Longrightarrow> interest r fd \<noteq> None \<Longrightarrow>
   mod_handler True fd (Some h) ev r
     = (0, set_handler fd (Some h) (r\<lparr>interest := (interest r)(fd \<mapsto> event_mask ev)\<rparr>))"
  using interest_registered [of r fd] by (auto simp: mod_handler_def)

lemma interest_set_handler [simp]: "interest (set_handler fd h r) = interest r"
  by (simp add: set_handler_def)

lemma del_handler_gone:
  "reactor_inv r \<Longrightarrow> 0 \<le> fd \<Longrightarrow> fd < m_maxfd r \<Longrightarrow> handler_at (del_handler fd r) fd = None"
  by (auto simp: del_handler_def handler_at_cases set_handler_def reactor_inv_def split: option.splits)

lemma add_handler_at:
  assumes "reactor_inv r" "add_handler ok fd (Some h) ev r = (0, r')"
  shows "handler_at r' fd = Some h \<and> interest r fd = None \<and> interest r' = (interest r)(fd \<mapsto> event_mask ev)
    \<and> 0 \<le> fd \<and> fd < m_maxfd r'"
  using assms
  by (auto simp: add_handler_def handler_at_cases set_handler_def reactor_inv_def split: if_splits option.splits)

lemma event_mask_read [simp]: "event_mask EVENT_READ = EPOLLIN"
  by (simp add: event_mask_def epoll_defs)

lemma event_mask_read_write [simp]: "event_mask (EVENT_READ OR EVENT_WRITE) = EPOLLIN OR EPOLLOUT"
  by (simp add: event_mask_def epoll_defs)

lemma handler_at_table: "m_handlers r = Some hs \<Longrightarrow> 0 \<le> fd \<Longrightarrow> fd < int (length hs) \<Longrightarrow> handler_at r fd = hs ! nat fd"
  by (simp add: handler_at_cases)

section \<open>What the events ask for\<close>

text \<open>
  \<open>requests\<close> says by the numbers of the bits which callbacks one event asks for: bit 1 is priority
  data, 3 an error, 4 a hang-up, 2 room to write, 0 data to read. \<open>replay\<close> gives every request to
  the handler that the table holds for the descriptor at that moment, and to nobody when the slot
  is empty.
\<close>

definition requests :: "int \<times> u32 \<Rightarrow> (callback \<times> int) list" where
  "requests ev =
     (case ev of (fd, e) \<Rightarrow>
        if bit e 1 \<or> bit e 3 \<or> bit e 4 then [(OnError, fd)]
        else (if bit e 2 then [(OnWrite, fd)] else []) @ (if bit e 0 then [(OnRead, fd)] else []))"

fun replay ::
  "('w \<Rightarrow> reactor) \<Rightarrow> (handler \<Rightarrow> callback \<Rightarrow> int \<Rightarrow> 'w \<Rightarrow> 'w) \<Rightarrow> (callback \<times> int) list \<Rightarrow>
   'w \<times> call list \<Rightarrow> 'w \<times> call list" where
  "replay rx call [] s = s"
| "replay rx call ((k, fd) # ks) (w, tr) =
     (case handler_at (rx w) fd of
        None \<Rightarrow> replay rx call ks (w, tr)
      | Some h \<Rightarrow> replay rx call ks (call h k fd w, tr @ [(h, k, fd)]))"

definition table_size :: "reactor \<Rightarrow> nat option" where
  "table_size r = map_option length (m_handlers r)"

definition keeps_table :: "('w \<Rightarrow> reactor) \<Rightarrow> (handler \<Rightarrow> callback \<Rightarrow> int \<Rightarrow> 'w \<Rightarrow> 'w) \<Rightarrow> bool" where
  "keeps_table rx call \<longleftrightarrow> (\<forall>h k fd w. table_size (rx (call h k fd w)) = table_size (rx w))"

lemma mask_bits:
  "((e :: u32) AND EPOLLIN \<noteq> 0) = bit e 0" "(e AND EPOLLOUT \<noteq> 0) = bit e 2"
  "(e AND (EPOLLPRI OR EPOLLERR OR EPOLLHUP) \<noteq> 0) = (bit e 1 \<or> bit e 3 \<or> bit e 4)"
proof -
  have b: "push_bit 0 (1 :: u32) = EPOLLIN" "push_bit 1 (1 :: u32) = EPOLLPRI" "push_bit 2 (1 :: u32) = EPOLLOUT"
    "push_bit 3 (1 :: u32) = EPOLLERR" "push_bit 4 (1 :: u32) = EPOLLHUP"
    by (simp_all add: epoll_defs push_bit_eq_mult)
  note at = bit_iff_and_push_bit_not_eq_0 [of e]
  show "(e AND EPOLLIN \<noteq> 0) = bit e 0" "(e AND EPOLLOUT \<noteq> 0) = bit e 2"
    unfolding at b by simp_all
  show "(e AND (EPOLLPRI OR EPOLLERR OR EPOLLHUP) \<noteq> 0) = (bit e 1 \<or> bit e 3 \<or> bit e 4)"
    unfolding at b by (simp add: bit.conj_disj_distrib or_eq_0_iff)
qed

lemma table_size_ops:
  "table_size (snd (add_handler ok fd h ev r)) = table_size r" "table_size (snd (mod_handler ok fd h ev r)) = table_size r"
  "table_size (del_handler fd r) = table_size r"
  by (simp_all add: add_handler_def mod_handler_def del_handler_def set_handler_def table_size_def
      option.map_comp comp_def)

lemma interest_in_table: "reactor_inv r \<Longrightarrow> interest r fd \<noteq> None \<Longrightarrow> \<exists>n. table_size r = Some n \<and> 0 \<le> fd \<and> fd < int n"
  by (auto simp: reactor_inv_def table_size_def split: option.splits)

lemma invoke_in_table:
  assumes "table_size (rx w) = Some n" "0 \<le> fd" "fd < int n"
  shows "invoke rx call k fd (w, tr) = Fine (replay rx call [(k, fd)] (w, tr))"
  using assms by (auto simp: invoke_def handler_at_def table_read_def table_size_def split: option.splits)

lemma replay_append: "replay rx call (xs @ ys) s = replay rx call ys (replay rx call xs s)"
  by (induction rx call xs s rule: replay.induct) (auto split: option.splits)

lemma replay_keeps_table:
  "keeps_table rx call \<Longrightarrow> table_size (rx (fst (replay rx call ks s))) = table_size (rx (fst s))"
  by (induction rx call ks s rule: replay.induct) (auto simp: keeps_table_def split: option.splits)

lemma dispatch_replays:
  assumes "keeps_table rx call" "table_size (rx w) = Some n" "0 \<le> fd" "fd < int n"
  shows "dispatch_event rx call (fd, e) (w, tr) = Fine (replay rx call (requests (fd, e)) (w, tr))"
proof -
  have alive: "events_alive rx w' \<longleftrightarrow> table_size (rx w') \<noteq> None" for w'
    by (simp add: events_alive_def table_size_def)
  obtain w1 tr1 where w1: "replay rx call [(OnWrite, fd)] (w, tr) = (w1, tr1)"
    by (cases "replay rx call [(OnWrite, fd)] (w, tr)")
  have s1: "table_size (rx w1) = Some n"
    using replay_keeps_table [OF assms(1), of "[(OnWrite, fd)]" "(w, tr)"] w1 assms(2) by simp
  note inv = invoke_in_table [where rx = rx, OF assms(2-4)] invoke_in_table [where rx = rx, OF s1 assms(3,4)]
  have both: "replay rx call [(OnWrite, fd), (OnRead, fd)] (w, tr) = replay rx call [(OnRead, fd)] (w1, tr1)"
    using replay_append [of rx call "[(OnWrite, fd)]" "[(OnRead, fd)]" "(w, tr)"] w1 by simp
  show ?thesis
    using s1 assms(2) w1 by (simp add: dispatch_event_def requests_def mask_bits alive inv both del: replay.simps(2))
qed

lemma dispatch_all_replays:
  "keeps_table rx call \<Longrightarrow> table_size (rx w) = Some n \<Longrightarrow> \<forall>ev\<in>set evs. 0 \<le> fst ev \<and> fst ev < int n \<Longrightarrow>
   dispatch_events rx call evs (w, tr) = Fine (replay rx call (concat (map requests evs)) (w, tr))"
proof (induction evs arbitrary: w tr)
  case Nil
  then show ?case by simp
next
  case (Cons ev evs)
  obtain w1 tr1 where r: "replay rx call (requests ev) (w, tr) = (w1, tr1)"
    by (cases "replay rx call (requests ev) (w, tr)")
  have "table_size (rx w1) = Some n"
    using replay_keeps_table [OF Cons.prems(1), of "requests ev" "(w, tr)"] r Cons.prems(2) by simp
  then show ?case
    using Cons dispatch_replays [OF Cons.prems(1,2), of "fst ev" "snd ev" tr] r by (simp add: replay_append)
qed

section \<open>Properties\<close>

text \<open>C12: The handler table and the kernel's interest set never disagree: registering, changing and
  removing a handler keep the invariant that a descriptor is watched if and only if it lies in the
  table's range and its slot holds a handler, whatever \<open>epoll_ctl\<close> answers.\<close>

theorem reactor_table_invariant:
  assumes "reactor_inv r"
  shows "reactor_inv (snd (add_handler ok fd h ev r)) \<and> reactor_inv (snd (mod_handler ok fd h ev r))
    \<and> reactor_inv (del_handler fd r) \<and> reactor_inv (reactor_fini r)
    \<and> (fst (add_handler ok fd h ev r) = 0 \<longrightarrow>
        handler_at (snd (add_handler ok fd h ev r)) fd = h
        \<and> interest (snd (add_handler ok fd h ev r)) fd = Some (event_mask ev))"
proof -
  have "handler_at (snd (add_handler ok fd h ev r)) fd = h
      \<and> interest (snd (add_handler ok fd h ev r)) fd = Some (event_mask ev)"
    if "fst (add_handler ok fd h ev r) = 0"
    using that assms
    by (auto simp: add_handler_def handler_at_cases set_handler_def reactor_inv_def
        split: if_splits option.splits)
  then show ?thesis
    using reactor_inv_add [OF assms] reactor_inv_mod [OF assms] reactor_inv_del [OF assms]
      reactor_inv_fini [OF assms]
    by (metis prod.collapse)
qed

theorem reactor_table_invariant_witness:
  "\<exists>r. reactor_init 5 True 8 reactor_new = (0, r) \<and> reactor_inv (snd (add_handler True 3 (Some 1) EVENT_READ r))
     \<and> handler_at (snd (add_handler True 3 (Some 1) EVENT_READ r)) 3 = Some 1"
proof -
  obtain r where r: "reactor_init 5 True 8 reactor_new = (0, r)"
    by (simp add: reactor_init_def reactor_new_def MIN_FD_SIZE_def Let_def)
  then have inv: "reactor_inv r" by (rule reactor_inv_init)
  have "fst (add_handler True 3 (Some 1) EVENT_READ r) = 0"
    using r by (auto simp: reactor_init_def reactor_new_def MIN_FD_SIZE_def Let_def add_handler_def)
  with reactor_table_invariant [OF inv, of True 3 "Some 1" EVENT_READ] r show ?thesis by blast
qed

text \<open>C32: \<open>run_once\<close> works off exactly what \<open>epoll_wait\<close> reported. For events of watched descriptors
  and callbacks that add, change and remove handlers but do not shut the reactor down, it stays inside
  the table, answers the number of events, and makes the callbacks that the bits of the events stand
  for in their order: only \<open>on_error\<close> for priority data, an error or a hang-up, otherwise \<open>on_write\<close>
  before \<open>on_read\<close>; each goes to the handler that holds the slot at that moment and is left out when
  the slot has been emptied in the meantime. When \<open>epoll_wait\<close> fails it answers -1 and calls nobody.\<close>

theorem run_once_calls_registered:
  assumes "reactor_inv (rx w)" "keeps_table rx call" "\<forall>ev\<in>set evs. interest (rx w) (fst ev) \<noteq> None"
  shows "run_once rx call (Some evs) w
      = Fine (int (length evs), replay rx call (concat (map requests evs)) (w, []))
    \<and> run_once rx call None w = Fine (-1, w, [])"
proof -
  have run: "dispatch_events rx call evs (w, []) = Fine (replay rx call (concat (map requests evs)) (w, []))"
  proof (cases evs)
    case Nil
    then show ?thesis by simp
  next
    case (Cons ev es)
    then obtain n where n: "table_size (rx w) = Some n" using interest_in_table [OF assms(1)] assms(3) by fastforce
    have "\<forall>ev\<in>set evs. 0 \<le> fst ev \<and> fst ev < int n" using interest_in_table [OF assms(1)] assms(3) n by fastforce
    with dispatch_all_replays [OF assms(2) n] show ?thesis by blast
  qed
  then show ?thesis by (simp add: run_once_def split_beta)
qed

text \<open>The callback of the witness removes the handler it was called on: the read request of the same
  event and the hang-up behind it find an empty slot.\<close>

theorem run_once_calls_registered_witness:
  "\<exists>w'. run_once (\<lambda>r. r) (\<lambda>h k fd r. del_handler fd r) (Some [(3, EPOLLOUT OR EPOLLIN), (3, EPOLLHUP)])
      (snd (add_handler True 3 (Some 7) EVENT_READ (snd (reactor_init 5 True 8 reactor_new))))
     = Fine (2, w', [(7, OnWrite, 3)])"
proof -
  let ?r0 = "snd (reactor_init 5 True 8 reactor_new)"
  let ?r = "snd (add_handler True 3 (Some 7) EVENT_READ ?r0)"
  have inv: "reactor_inv ?r" by (rule reactor_inv_add [OF reactor_inv_init]) (rule prod.collapse [symmetric])+
  have slot: "handler_at ?r 3 = Some 7" and watched: "interest ?r 3 \<noteq> None"
    by (simp_all add: add_handler_def reactor_init_def reactor_new_def MIN_FD_SIZE_def set_handler_def
        handler_at_cases Let_def)
  then have gone: "handler_at (del_handler 3 ?r) 3 = None"
    using interest_registered [OF inv watched] by (intro del_handler_gone [OF inv]) auto
  have reqs: "concat (map requests [(3, EPOLLOUT OR EPOLLIN), (3, EPOLLHUP)]) = [(OnWrite, 3), (OnRead, 3), (OnError, 3)]"
    by (simp add: requests_def epoll_defs)
  have "keeps_table (\<lambda>r. r) (\<lambda>(h :: handler) (k :: callback) fd r. del_handler fd r)"
    by (simp add: keeps_table_def table_size_ops)
  from run_once_calls_registered [OF inv this, of "[(3, EPOLLOUT OR EPOLLIN), (3, EPOLLHUP)]"] watched
  show ?thesis unfolding reqs by (simp add: slot gone)
qed

section \<open>Facts behind the findings\<close>

text \<open>\<open>fini\<close> keeps \<open>m_maxfd\<close>, so a later \<open>get_handler\<close> reads through the \<open>NULL\<close> table.\<close>

lemma get_handler_after_fini:
  "0 \<le> m_epfd r \<Longrightarrow> 0 \<le> fd \<Longrightarrow> fd < m_maxfd r \<Longrightarrow> get_handler fd (reactor_fini r) = Inl ()"
  by (simp add: get_handler_def reactor_fini_def)

text \<open>\<open>run_once\<close> looks neither at the table nor at the range: a \<open>fini\<close> in a callback makes it read
  the next event through \<open>NULL\<close>, also when the event itself is used up.\<close>

lemma fini_in_callback_faults:
  assumes "dispatch_event rx call ev s = Fine (w, tr)" "m_handlers (rx w) = None"
  shows "dispatch_events rx call (ev # ev' # evs) s = OutOfBounds"
  using assms by (cases ev') (simp add: dispatch_event_def events_alive_def)

lemma event_out_of_range:
  assumes "m_handlers (rx w) = Some hs" "int (length hs) \<le> fd" "bit e 0"
  shows "run_once rx call (Some [(fd, e)]) w = OutOfBounds"
  using assms by (simp add: run_once_def dispatch_event_def invoke_def table_read_def events_alive_def mask_bits)

end
