(* ===== verification/TcpDataHandler.thy ===== *)
theory TcpDataHandler
  imports Buffer Framing Reactor
begin

text \<open>
  \<open>framework/tcp_data_handler.h\<close> and \<open>.cpp\<close>: a connected socket with a receive buffer, a send
  buffer and a registration in the reactor. The reading half works on the receive buffer and on
  the rest of the world of the connection (\<open>'u\<close>, what the virtual methods
  \<open>get_packet_info\<close> and \<open>process_packet\<close> can see and change). The writing half works on the
  send buffer and the reactor. What the socket delivers and accepts is an argument.
\<close>

section \<open>The reading half\<close>

text \<open>
  The incoming side of a socket: the segments that wait to be read and what \<open>recv\<close> answers when
  there are none. One \<open>recv\<close> takes bytes of the first segment only, so a list of segments
  describes any way of cutting the stream.
\<close>

datatype sock_end = PeerClosed | SockErr errno

record socket_in =
  segments :: "byte list list"
  sock_end :: sock_end

datatype recv_result = Received "byte list" | RecvErr errno

definition recv :: "nat \<Rightarrow> socket_in \<Rightarrow> recv_result \<times> socket_in" where
  "recv n s =
     (case segments s of
        [] \<Rightarrow> (case sock_end s of PeerClosed \<Rightarrow> (Received [], s) | SockErr e \<Rightarrow> (RecvErr e, s))
      | x # xs \<Rightarrow> (Received (take n x),
                   s\<lparr>segments := (if drop n x = [] then xs else drop n x # xs)\<rparr>))"

definition stream :: "socket_in \<Rightarrow> byte list" where
  "stream s = concat (segments s)"

lemma pop_data_shrinks:
  "1 \<le> n \<Longrightarrow> n \<le> data_size b \<Longrightarrow> data_size (snd (pop_data n b)) < data_size b"
  by (auto simp: pop_data_def data_size_def Let_def)

text \<open>The inner loop of \<open>on_read\<close>: \<open>while(m_rbuf.data_size() > 0)\<close>.\<close>

function parse_loop ::
  "'u info_fn \<Rightarrow> 'u proc_fn \<Rightarrow> (int \<Rightarrow> alloc_result) \<Rightarrow> buffer \<Rightarrow> 'u \<Rightarrow> outcome \<times> buffer \<times> 'u" where
  "parse_loop info proc alloc b u =
     (if data_size b > 0
      then (case info u (pending b) of (ret, pinfo, u1) \<Rightarrow>
        if ret \<noteq> 0 then (Event ret, b, u1)
        else if pi_size pinfo < 1 \<or> pi_size pinfo > 4194304 then (Event ERROR_TYPE_REQUEST, b, u1)
        else if data_size b \<ge> pi_size pinfo
        then (case proc u1 pinfo of (ret2, u2) \<Rightarrow>
               if ret2 \<noteq> 0 then (Event ret2, b, u2)
               else parse_loop info proc alloc (snd (pop_data (pi_size pinfo) b)) u2)
        else if space_size b < pi_size pinfo - data_size b
        then (case buffer_resize (alloc (capacity b + pi_size pinfo)) (capacity b + pi_size pinfo) b of
                (ret3, b3) \<Rightarrow>
                  if ret3 \<noteq> 0 then (Event ERROR_TYPE_MEMORY, b3, u1) else (Done, b3, u1))
        else (Done, b, u1))
      else (Done, b, u))"
  by pat_completeness auto

termination
  by (relation "measure (\<lambda>(info, proc, alloc, b, u). nat (data_size b))")
    (auto simp: nat_less_iff not_less intro: pop_data_shrinks)

declare parse_loop.simps [simp del]

lemma length_drop_segment: "take n x \<noteq> [] \<Longrightarrow> length (drop n x) < length x"
  by (cases n; cases x) auto

text \<open>
  \<open>on_read\<close>: the loop \<open>do ... while(m_readall_flag)\<close>. It ends because every further turn has
  taken at least one byte from the socket.
\<close>

function on_read ::
  "'u info_fn \<Rightarrow> 'u proc_fn \<Rightarrow> (int \<Rightarrow> alloc_result) \<Rightarrow> bool \<Rightarrow> buffer \<Rightarrow> 'u \<Rightarrow> socket_in \<Rightarrow>
   outcome \<times> buffer \<times> 'u \<times> socket_in" where
  "on_read info proc alloc readall b u s =
     (case recv (nat (space_size b)) s of
        (Received xs, s1) \<Rightarrow>
          if xs = [] then (Event ERROR_TYPE_PEER_CLOSE, b, u, s1)
          else (let b1 = snd (push_data (int (length xs)) (store_at_space xs b)) in
            case parse_loop info proc alloc b1 u of
              (Event e, b2, u2) \<Rightarrow> (Event e, b2, u2, s1)
            | (Done, b2, u2) \<Rightarrow>
                let b3 = buffer_adjust b2 in
                if readall then on_read info proc alloc readall b3 u2 s1
                else (Done, b3, u2, s1))
      | (RecvErr e, s1) \<Rightarrow>
          if e \<noteq> EAGAIN \<and> e \<noteq> EINTR then (Event ERROR_TYPE_SYSTEM, b, u, s1)
          else (Done, b, u, s1))"
  by pat_completeness auto
termination
  by (relation "measure (\<lambda>(info, proc, alloc, readall, b, u, s). length (stream s))")
    (auto simp: recv_def stream_def split: list.splits sock_end.splits if_splits
      dest: length_drop_segment)

declare on_read.simps [simp del]

section \<open>The writing half\<close>

text \<open>
  The fields of the object that the writing half uses. \<open>self\<close> is the reference the handler
  registers itself under, \<open>has_reactor\<close> is \<open>m_reactor != NULL\<close>.
\<close>

record tcp_handler =
  self :: handler
  rbuf :: buffer
  sbuf :: buffer
  id_fd :: int
  id_timestamp :: int
  has_reactor :: bool
  max_write_size :: int
  readall_flag :: bool

definition MIN_WRITE_SIZE :: int where "MIN_WRITE_SIZE = 2 ^ 10"
definition MAX_WRITE_SIZE :: int where "MAX_WRITE_SIZE = 2 ^ 24"

definition tcp_new :: "handler \<Rightarrow> tcp_handler" where
  "tcp_new me = \<lparr>self = me, rbuf = buffer_new, sbuf = buffer_new, id_fd = -1, id_timestamp = 0,
     has_reactor = False, max_write_size = MAX_WRITE_SIZE, readall_flag = False\<rparr>"

definition set_max_write_size :: "int \<Rightarrow> tcp_handler \<Rightarrow> tcp_handler" where
  "set_max_write_size n h =
     h\<lparr>max_write_size := (if n < MIN_WRITE_SIZE then MIN_WRITE_SIZE else n)\<rparr>"

text \<open>
  \<open>init(reactor, fd, buf_size)\<close> with \<open>reactor\<close> present; \<open>now\<close> is \<open>time(0)\<close>, \<open>ra\<close> and \<open>sa\<close> the
  allocator for the two buffers.
\<close>

definition tcp_init ::
  "(int \<Rightarrow> alloc_result) \<Rightarrow> (int \<Rightarrow> alloc_result) \<Rightarrow> bool \<Rightarrow> int \<Rightarrow> int \<Rightarrow> int \<Rightarrow>
   tcp_handler \<Rightarrow> reactor \<Rightarrow> int \<times> tcp_handler \<times> reactor" where
  "tcp_init ra sa ok now fd buf_size h r =
     (if id_fd h \<ge> 0 \<or> fd < 0 then (-1, h, r)
      else case buffer_resize (ra buf_size) buf_size (rbuf h) of (ret1, rb) \<Rightarrow>
        if ret1 \<noteq> 0 then (-2, h\<lparr>rbuf := rb\<rparr>, r)
        else case buffer_resize (sa buf_size) buf_size (sbuf h) of (ret2, sb) \<Rightarrow>
          if ret2 \<noteq> 0 then (-2, h\<lparr>rbuf := rb, sbuf := sb\<rparr>, r)
          else case add_handler ok fd (Some (self h)) EVENT_READ r of (ret3, r') \<Rightarrow>
            if ret3 \<noteq> 0 then (-3, h\<lparr>rbuf := rb, sbuf := sb\<rparr>, r')
            else (0, h\<lparr>rbuf := rb, sbuf := sb, has_reactor := True, id_fd := fd,
                       id_timestamp := now, readall_flag := True\<rparr>, r'))"

text \<open>
  \<open>init(reactor, host, port, buf_size)\<close> with a host; \<open>sock\<close> is the answer of \<open>create_tcp_client\<close>, which
  is only called for an object that is not open. The list holds the descriptors it closes.
\<close>

definition tcp_init_host ::
  "(int \<Rightarrow> alloc_result) \<Rightarrow> (int \<Rightarrow> alloc_result) \<Rightarrow> bool \<Rightarrow> int \<Rightarrow> int \<Rightarrow> int \<Rightarrow>
   tcp_handler \<Rightarrow> reactor \<Rightarrow> int \<times> tcp_handler \<times> reactor \<times> int list" where
  "tcp_init_host ra sa ok now sock buf_size h r =
     (if id_fd h \<ge> 0 then (-1, h, r, [])
      else if sock < 0 then (-2, h, r, [])
      else case tcp_init ra sa ok now sock buf_size h r of (ret, h1, r1) \<Rightarrow>
        (ret, h1, r1, if ret \<noteq> 0 then [sock] else []))"

text \<open>The new socket belongs to the object when it answers 0, and is closed in every other case.\<close>

lemma tcp_init_host_settles:
  assumes "id_fd h < 0" "0 \<le> sock" "tcp_init_host ra sa ok now sock buf_size h r = (ret, h', r', closed)"
  shows "if ret = 0 then id_fd h' = sock \<and> closed = [] else id_fd h' = id_fd h \<and> closed = [sock]"
  using assms by (auto simp: tcp_init_host_def tcp_init_def split: prod.splits if_splits)

text \<open>\<open>fini(release)\<close>; the list holds the descriptors it closes.\<close>

definition tcp_fini :: "bool \<Rightarrow> tcp_handler \<Rightarrow> reactor \<Rightarrow> tcp_handler \<times> reactor \<times> int list" where
  "tcp_fini release h r =
     (case (if id_fd h \<ge> 0
            then (h\<lparr>id_fd := -1, id_timestamp := 0, has_reactor := False,
                    rbuf := buffer_clear (rbuf h), sbuf := buffer_clear (sbuf h)\<rparr>,
                  del_handler (id_fd h) r, [id_fd h])
            else (h, r, [])) of (h1, r1, closed) \<Rightarrow>
        if release then (h1\<lparr>rbuf := buffer_fini (rbuf h1), sbuf := buffer_fini (sbuf h1)\<rparr>, r1, closed)
        else (h1, r1, closed))"

text \<open>
  \<open>on_write\<close>; \<open>res\<close> is the answer of \<open>send\<close>. The byte list is what the socket accepted.
\<close>

definition on_write ::
  "send_result \<Rightarrow> bool \<Rightarrow> int \<Rightarrow> tcp_handler \<Rightarrow> reactor \<Rightarrow>
   outcome \<times> byte list \<times> tcp_handler \<times> reactor" where
  "on_write res ok fd h r =
     (case (if data_size (sbuf h) > 0
            then (let to_send = (if data_size (sbuf h) > max_write_size h then max_write_size h
                                 else data_size (sbuf h))
                  in case res of
                       Sent n \<Rightarrow>
                         if n > 0
                         then (Done, take (min n (nat to_send)) (pending (sbuf h)),
                               h\<lparr>sbuf := buffer_adjust (snd (pop_data (int (min n (nat to_send))) (sbuf h)))\<rparr>)
                         else (Done, [], h)
                     | SendErr e \<Rightarrow>
                         if e \<noteq> EAGAIN \<and> e \<noteq> EINTR then (Event ERROR_TYPE_SYSTEM, [], h)
                         else (Done, [], h))
            else (Done, [], h)) of
        (Event e, out, h1) \<Rightarrow> (Event e, out, h1, r)
      | (Done, out, h1) \<Rightarrow>
          if data_size (sbuf h1) = 0
          then (Done, out, h1, snd (mod_handler ok fd (Some (self h1)) EVENT_READ r))
          else (Done, out, h1, r))"

text \<open>\<open>send(data, size, delay_flag)\<close>.\<close>

definition tcp_send ::
  "(int \<Rightarrow> alloc_result) \<Rightarrow> send_result \<Rightarrow> bool \<Rightarrow> byte list \<Rightarrow> bool \<Rightarrow> tcp_handler \<Rightarrow> reactor \<Rightarrow>
   int \<times> byte list \<times> tcp_handler \<times> reactor" where
  "tcp_send alloc res ok data delay h r =
     (if id_fd h < 0 then (-1, [], h, r)
      else let n = int (length data) in
        case ensure_space alloc n (sbuf h) of (ret, sb) \<Rightarrow>
        if ret \<noteq> 0 then (-1, [], h, r)
        else let h1 = h\<lparr>sbuf := sb\<rparr> in
          case (if data_size sb = 0 \<and> \<not> delay
                then (case res of
                        Sent k \<Rightarrow> Some (min k (length data))
                      | SendErr e \<Rightarrow> if e \<noteq> EAGAIN \<and> e \<noteq> EINTR then None else Some 0)
                else Some 0) of
            None \<Rightarrow> (-1, [], h1, r)
          | Some sent \<Rightarrow>
              if data_size sb = 0 \<and> \<not> delay \<and> sent = length data then (0, take sent data, h1, r)
              else (0, take sent data,
                    h1\<lparr>sbuf := snd (push_data (int (length data - sent))
                                     (store_at_space (drop sent data) sb))\<rparr>,
                    snd (mod_handler ok (id_fd h) (Some (self h)) (EVENT_READ OR EVENT_WRITE) r)))"

text \<open>
  \<open>send(packet*, delay_flag)\<close>. \<open>need\<close> is \<open>p->encode_size()\<close> and \<open>encode\<close> is \<open>p->encode(space, size)\<close>:
  the bytes it wrote, or \<open>None\<close> for a result below 1.
\<close>

definition tcp_send_packet ::
  "(int \<Rightarrow> alloc_result) \<Rightarrow> send_result \<Rightarrow> bool \<Rightarrow> int \<Rightarrow> (int \<Rightarrow> byte list option) \<Rightarrow> bool \<Rightarrow>
   tcp_handler \<Rightarrow> reactor \<Rightarrow> int \<times> outcome \<times> byte list \<times> tcp_handler \<times> reactor" where
  "tcp_send_packet alloc res ok need encode delay h r =
     (if id_fd h < 0 then (-1, Done, [], h, r)
      else if need < 1 then (-1, Done, [], h, r)
      else case ensure_space alloc need (sbuf h) of (ret, sb) \<Rightarrow>
        if ret \<noteq> 0 then (-1, Done, [], h, r)
        else case encode (space_size sb) of
               None \<Rightarrow> (-1, Done, [], h\<lparr>sbuf := sb\<rparr>, r)
             | Some bytes \<Rightarrow>
                 let h1 = h\<lparr>sbuf := snd (push_data (int (length bytes)) (store_at_space bytes sb))\<rparr>;
                     r1 = snd (mod_handler ok (id_fd h) (Some (self h)) (EVENT_READ OR EVENT_WRITE) r)
                 in if delay then (0, Done, [], h1, r1)
                    else (case on_write res ok (id_fd h1) h1 r1 of (ev, out, h2, r2) \<Rightarrow> (0, ev, out, h2, r2)))"

section \<open>The inner loop implements the framing specification\<close>

lemma resize_total:
  assumes "buf_inv b" "alloc_total alloc" "0 < n" "capacity b \<le> n"
  shows "\<exists>b'. buffer_resize (alloc n) n b = (0, b')"
  using assms buf_inv_order [OF assms(1)]
  by (fastforce simp: buffer_resize_def alloc_total_def capacity_def Let_def split: option.splits)

text \<open>Growing by the size of the packet that is waited for always gives room for its rest.\<close>

lemma grow_room:
  assumes "buf_inv b" "alloc_total alloc" "0 \<le> capacity b" "1 \<le> k" "data_size b < k"
    "buffer_resize (alloc (capacity b + k)) (capacity b + k) b = (ret, b')"
  shows "ret = 0 \<and> buf_inv b' \<and> pending b' = pending b \<and> 0 < space_size b' \<and> capacity b' = capacity b + k"
proof -
  have pos: "0 < capacity b + k" using assms(3,4) by simp
  have ret: "ret = 0"
    using resize_total [OF assms(1,2) pos] assms(4,6) by auto
  have "alloc_ok (capacity b + k) (alloc (capacity b + k))"
    using assms(2) pos by (simp add: alloc_total_def)
  from buffer_resize_ok [OF assms(1) _ this pos] assms(6) ret
  have "buf_inv b' \<and> pending b' = pending b \<and> capacity b' = capacity b + k
      \<and> space_size b' = space_size b + (capacity b + k - capacity b)"
    by simp
  then show ?thesis
    using ret assms(4) buf_inv_sizes(2) [OF assms(1)] by simp
qed

lemma parse_loop_refines:
  assumes "buf_inv b" "0 < capacity b" "alloc_total alloc"
    and "parse_loop info proc alloc b u = (x, b', u')"
  shows "frame_run info proc u (pending b) = (x, pending b', u') \<and> buf_inv b' \<and> 0 < capacity b'
    \<and> (x = Done \<longrightarrow> 0 < space_size b')"
  using assms
proof (induction "length (pending b)" arbitrary: b u rule: less_induct)
  case less
  note inv = less.prems(1) and cap = less.prems(2) and al = less.prems(3) and run = less.prems(4)
  note len = length_pending [OF inv]
  show ?case
  proof (cases "pending b = []")
    case True
    with len run have "x = Done" "b' = b" "u' = u"
      by (simp_all add: parse_loop.simps)
    with True cap inv show ?thesis by (simp add: empty_space)
  next
    case ne: False
    then have pos: "0 < data_size b" using inv by (simp add: data_size_pos_iff)
    obtain ret pinfo u1 where i: "info u (pending b) = (ret, pinfo, u1)"
      by (cases "info u (pending b)")
    note run' = run [unfolded parse_loop.simps [of info proc alloc b u], simplified pos i, simplified]
    consider (err) "ret \<noteq> 0" | (bad) "ret = 0" "pi_size pinfo < 1 \<or> pi_size pinfo > MAX_PACKET"
      | (full) "ret = 0" "1 \<le> pi_size pinfo" "pi_size pinfo \<le> MAX_PACKET" "pi_size pinfo \<le> int (length (pending b))"
      | (wait) "ret = 0" "1 \<le> pi_size pinfo" "pi_size pinfo \<le> MAX_PACKET" "int (length (pending b)) < pi_size pinfo"
      by linarith
    then show ?thesis
    proof cases
      case err
      with run' i ne inv cap show ?thesis by (auto simp: frame_run_ret)
    next
      case bad
      with run' have "x = Event ERROR_TYPE_REQUEST" "b' = b" "u' = u1"
        by (auto simp: MAX_PACKET_def)
      with bad i ne inv cap show ?thesis by (auto simp: frame_run_bad)
    next
      case full
      obtain ret2 u2 where p: "proc u1 pinfo = (ret2, u2)" by (cases "proc u1 pinfo")
      show ?thesis
      proof (cases "ret2 = 0")
        case True
        from pop_data_ret [OF inv full(2,4)] obtain b1 where b1: "pop_data (pi_size pinfo) b = (0, b1)" by blast
        from pop_data_ok [OF inv b1] have b1_ok: "buf_inv b1"
            "pending b1 = drop (nat (pi_size pinfo)) (pending b)" "capacity b1 = capacity b"
          by auto
        from full run' p True len b1 have run1: "parse_loop info proc alloc b1 u2 = (x, b', u')"
          by (simp add: MAX_PACKET_def)
        have "length (pending b1) < length (pending b)"
          using b1_ok ne full(2) by simp
        from less.hyps [OF this b1_ok(1) _ al run1] cap b1_ok
        have "frame_run info proc u2 (pending b1) = (x, pending b', u') \<and> buf_inv b' \<and> 0 < capacity b'
            \<and> (x = Done \<longrightarrow> 0 < space_size b')"
          by simp
        with full i ne p True b1_ok show ?thesis by (simp add: frame_run_step)
      next
        case False
        with full run' p len have "x = Event ret2" "b' = b" "u' = u2"
          by (auto simp: MAX_PACKET_def)
        with full i ne p False inv cap show ?thesis by (simp add: frame_run_fail)
      qed
    next
      case wait
      then have spec: "frame_run info proc u (pending b) = (Done, pending b, u1)"
        using i ne by (simp add: frame_run_wait)
      show ?thesis
      proof (cases "space_size b < pi_size pinfo - data_size b")
        case True
        obtain ret3 b3 where r: "buffer_resize (alloc (capacity b + pi_size pinfo)) (capacity b + pi_size pinfo) b = (ret3, b3)"
          by (cases "buffer_resize (alloc (capacity b + pi_size pinfo)) (capacity b + pi_size pinfo) b")
        from grow_room [OF inv al _ wait(2) _ r] wait len cap
        have g: "ret3 = 0" "buf_inv b3" "pending b3 = pending b" "0 < space_size b3"
            "capacity b3 = capacity b + pi_size pinfo"
          by auto
        from wait run' True r g(1) len have "x = Done" "b' = b3" "u' = u1"
          by (auto simp: MAX_PACKET_def)
        with g spec cap wait show ?thesis by simp
      next
        case False
        with wait run' len have "x = Done" "b' = b" "u' = u1"
          by (auto simp: MAX_PACKET_def)
        with spec False wait len inv cap show ?thesis by simp
      qed
    qed
  qed
qed

section \<open>Reading does not depend on the segmentation of the stream\<close>

text \<open>What \<open>recv\<close> does to the stream.\<close>

lemma recv_segment:
  assumes "segments s = y # ys" "[] \<notin> set (segments s)" "0 < n" "recv n s = (res, s1)"
  shows "\<exists>xs. res = Received xs \<and> xs \<noteq> [] \<and> length xs \<le> n \<and> stream s = xs @ stream s1
    \<and> [] \<notin> set (segments s1) \<and> sock_end s1 = sock_end s"
  using assms by (auto simp: recv_def stream_def split: if_splits)

lemma recv_empty:
  "segments s = [] \<Longrightarrow> recv n s = (case sock_end s of PeerClosed \<Rightarrow> (Received [], s) | SockErr e \<Rightarrow> (RecvErr e, s))"
  by (simp add: recv_def)

text \<open>One turn of the loop, when the socket has data.\<close>

lemma on_read_turn:
  assumes "segments s = y # ys" "[] \<notin> set (segments s)" "buf_inv b" "0 < space_size b"
  obtains xs s1 b1 where "xs \<noteq> []" "stream s = xs @ stream s1" "[] \<notin> set (segments s1)"
    "sock_end s1 = sock_end s" "buf_inv b1" "pending b1 = pending b @ xs" "capacity b1 = capacity b"
    "on_read info proc alloc readall b u s =
       (case parse_loop info proc alloc b1 u of
          (Event e, b2, u2) \<Rightarrow> (Event e, b2, u2, s1)
        | (Done, b2, u2) \<Rightarrow>
            if readall then on_read info proc alloc readall (buffer_adjust b2) u2 s1
            else (Done, buffer_adjust b2, u2, s1))"
proof -
  obtain res s1 where r: "recv (nat (space_size b)) s = (res, s1)"
    by (cases "recv (nat (space_size b)) s")
  with recv_segment [OF assms(1,2) _ r] assms(4) obtain xs where xs: "res = Received xs" "xs \<noteq> []"
      "length xs \<le> nat (space_size b)" "stream s = xs @ stream s1" "[] \<notin> set (segments s1)"
      "sock_end s1 = sock_end s"
    by auto
  obtain ret b1 where p: "push_data (int (length xs)) (store_at_space xs b) = (ret, b1)"
    by (cases "push_data (int (length xs)) (store_at_space xs b)")
  with buffer_fill [OF assms(3) xs(2) _ p] xs(3) assms(4)
  have b1: "buf_inv b1" "pending b1 = pending b @ xs" "capacity b1 = capacity b" by auto
  have "on_read info proc alloc readall b u s =
       (case parse_loop info proc alloc b1 u of
          (Event e, b2, u2) \<Rightarrow> (Event e, b2, u2, s1)
        | (Done, b2, u2) \<Rightarrow>
            if readall then on_read info proc alloc readall (buffer_adjust b2) u2 s1
            else (Done, buffer_adjust b2, u2, s1))"
    using r xs(1,2) p
    by (subst on_read.simps) (simp add: Let_def split: outcome.splits prod.splits)
  with that xs b1 show ?thesis by blast
qed

lemma on_read_empty:
  "segments s = [] \<Longrightarrow> on_read info proc alloc readall b u s =
     (case sock_end s of
        PeerClosed \<Rightarrow> (Event ERROR_TYPE_PEER_CLOSE, b, u, s)
      | SockErr e \<Rightarrow> if e \<noteq> EAGAIN \<and> e \<noteq> EINTR then (Event ERROR_TYPE_SYSTEM, b, u, s) else (Done, b, u, s))"
  by (subst on_read.simps) (simp add: recv_empty split: sock_end.splits)

definition would_block :: "socket_in \<Rightarrow> bool" where
  "would_block s \<longleftrightarrow> [] \<notin> set (segments s) \<and> (sock_end s = SockErr EAGAIN \<or> sock_end s = SockErr EINTR)"

text \<open>
  The specification of \<open>on_read\<close> over the whole stream: the unread bytes of the buffer followed
  by the bytes of the socket are framed; after an error the rest is untouched, otherwise what is
  left can go on.
\<close>

definition read_spec ::
  "'u info_fn \<Rightarrow> 'u proc_fn \<Rightarrow> 'u \<Rightarrow> byte list \<Rightarrow> outcome \<times> byte list \<times> 'u \<Rightarrow> bool" where
  "read_spec info proc u bs res =
     (case res of
        (Done, rest, u') \<Rightarrow> frame_run info proc u bs = frame_run info proc u' rest
      | (Event e, rest, u') \<Rightarrow> frame_run info proc u bs = (Event e, rest, u'))"

context framer begin

lemma on_read_refines:
  assumes "buf_inv b" "0 < space_size b" "alloc_total alloc" "would_block s"
    and "on_read info proc alloc readall b u s = (x, b', u', s')"
  shows "read_spec info proc u (pending b @ stream s) (x, pending b' @ stream s', u')
    \<and> buf_inv b' \<and> (x = Done \<longrightarrow> 0 < space_size b' \<and> (readall \<longrightarrow> stream s' = []))"
  using assms
proof (induction "length (stream s)" arbitrary: b u s rule: less_induct)
  case less
  note inv = less.prems(1) and sp = less.prems(2) and al = less.prems(3)
    and wb = less.prems(4) and run = less.prems(5)
  show ?case
  proof (cases "segments s")
    case Nil
    with wb run inv sp show ?thesis
      by (auto simp: on_read_empty would_block_def read_spec_def stream_def)
  next
    case (Cons y ys)
    from wb have ne: "[] \<notin> set (segments s)" by (simp add: would_block_def)
    obtain xs s1 b1 where t: "xs \<noteq> []" "stream s = xs @ stream s1" "[] \<notin> set (segments s1)"
      "sock_end s1 = sock_end s" "buf_inv b1" "pending b1 = pending b @ xs" "capacity b1 = capacity b"
      and eq: "on_read info proc alloc readall b u s =
       (case parse_loop info proc alloc b1 u of
          (Event e, b2, u2) \<Rightarrow> (Event e, b2, u2, s1)
        | (Done, b2, u2) \<Rightarrow>
            if readall then on_read info proc alloc readall (buffer_adjust b2) u2 s1
            else (Done, buffer_adjust b2, u2, s1))"
      by (rule on_read_turn [OF Cons ne inv sp])
    obtain y2 b2 u2 where pl: "parse_loop info proc alloc b1 u = (y2, b2, u2)"
      by (cases "parse_loop info proc alloc b1 u")
    have cap: "0 < capacity b1"
      using sp t(7) buf_inv_sizes [OF inv] by linarith
    from parse_loop_refines [OF t(5) cap al pl]
    have fr: "frame_run info proc u (pending b @ xs) = (y2, pending b2, u2)"
      and b2: "buf_inv b2" "y2 = Done \<longrightarrow> 0 < space_size b2"
      by (simp_all add: t(6))
    have app: "frame_run info proc u (pending b @ stream s) =
        (case y2 of Done \<Rightarrow> frame_run info proc u2 (pending b2 @ stream s1)
         | Event e \<Rightarrow> (Event e, pending b2 @ stream s1, u2))"
      using frame_run_append [of u "pending b @ xs" "stream s1"] fr t(2)
      by (simp split: outcome.splits)
    show ?thesis
    proof (cases y2)
      case (Event e)
      with run eq pl have "x = Event e" "b' = b2" "u' = u2" "s' = s1" by auto
      with app Event b2 show ?thesis by (simp add: read_spec_def)
    next
      case Done
      note adj = buffer_adjust_ok [OF b2(1)]
      have sp3: "0 < space_size (buffer_adjust b2)" using adj b2(2) Done by linarith
      show ?thesis
      proof (cases readall)
        case True
        have lt: "length (stream s1) < length (stream s)" using t(1,2) by simp
        have wb1: "would_block s1" using wb t(3,4) by (simp add: would_block_def)
        have run1: "on_read info proc alloc readall (buffer_adjust b2) u2 s1 = (x, b', u', s')"
          using run eq pl Done True by simp
        from less.hyps [OF lt _ sp3 al wb1 run1] adj
        have "read_spec info proc u2 (pending b2 @ stream s1) (x, pending b' @ stream s', u')
            \<and> buf_inv b' \<and> (x = Done \<longrightarrow> 0 < space_size b' \<and> (readall \<longrightarrow> stream s' = []))"
          by simp
        then show ?thesis using app Done by (simp add: read_spec_def split: outcome.splits)
      next
        case False
        with run eq pl Done have "x = Done" "b' = buffer_adjust b2" "u' = u2" "s' = s1" by auto
        with app Done adj sp3 False show ?thesis by (simp add: read_spec_def)
      qed
    qed
  qed
qed

text \<open>A buffer is settled when its unread bytes are an incomplete packet.\<close>

lemma on_read_settled:
  assumes "buf_inv b" "0 < space_size b" "alloc_total alloc" "would_block s"
    and "frame_run info proc u (pending b) = (Done, pending b, u)"
    and "on_read info proc alloc True b u s = (x, b', u', s')"
  shows "frame_run info proc u (pending b @ stream s) = (x, pending b' @ stream s', u')"
  using assms
proof (induction "length (stream s)" arbitrary: b u s rule: less_induct)
  case less
  show ?case
  proof (cases "segments s")
    case Nil
    with less.prems show ?thesis
      by (auto simp: on_read_empty would_block_def stream_def)
  next
    case (Cons y ys)
    from less.prems(4) have ne: "[] \<notin> set (segments s)" by (simp add: would_block_def)
    obtain xs s1 b1 where t: "xs \<noteq> []" "stream s = xs @ stream s1" "[] \<notin> set (segments s1)"
      "sock_end s1 = sock_end s" "buf_inv b1" "pending b1 = pending b @ xs" "capacity b1 = capacity b"
      and eq: "on_read info proc alloc True b u s =
       (case parse_loop info proc alloc b1 u of
          (Event e, b2, u2) \<Rightarrow> (Event e, b2, u2, s1)
        | (Done, b2, u2) \<Rightarrow>
            if True then on_read info proc alloc True (buffer_adjust b2) u2 s1
            else (Done, buffer_adjust b2, u2, s1))"
      by (rule on_read_turn [OF Cons ne less.prems(1,2)])
    obtain y2 b2 u2 where pl: "parse_loop info proc alloc b1 u = (y2, b2, u2)"
      by (cases "parse_loop info proc alloc b1 u")
    have cap: "0 < capacity b1"
      using less.prems(2) t(7) buf_inv_sizes [OF less.prems(1)] by linarith
    from parse_loop_refines [OF t(5) cap less.prems(3) pl]
    have fr: "frame_run info proc u (pending b @ xs) = (y2, pending b2, u2)"
      and b2: "buf_inv b2" "y2 = Done \<longrightarrow> 0 < space_size b2"
      by (simp_all add: t(6))
    have app: "frame_run info proc u (pending b @ stream s) =
        (case y2 of Done \<Rightarrow> frame_run info proc u2 (pending b2 @ stream s1)
         | Event e \<Rightarrow> (Event e, pending b2 @ stream s1, u2))"
      using frame_run_append [of u "pending b @ xs" "stream s1"] fr t(2)
      by (simp split: outcome.splits)
    show ?thesis
    proof (cases y2)
      case (Event e)
      with less.prems(6) eq pl have "x = Event e" "b' = b2" "u' = u2" "s' = s1" by auto
      with app Event show ?thesis by simp
    next
      case Done
      note adj = buffer_adjust_ok [OF b2(1)]
      have sp3: "0 < space_size (buffer_adjust b2)" using adj b2(2) Done by linarith
      have lt: "length (stream s1) < length (stream s)" using t(1,2) by simp
      have wb1: "would_block s1" using less.prems(4) t(3,4) by (simp add: would_block_def)
      have settled: "frame_run info proc u2 (pending (buffer_adjust b2)) = (Done, pending (buffer_adjust b2), u2)"
        using fr Done adj frame_run_done_idem by simp
      have run1: "on_read info proc alloc True (buffer_adjust b2) u2 s1 = (x, b', u', s')"
        using less.prems(6) eq pl Done by simp
      from less.hyps [OF lt _ sp3 less.prems(3) wb1 settled run1] adj app Done
      show ?thesis by simp
    qed
  qed
qed

text \<open>So two ways of cutting the same stream give the same result.\<close>

lemma on_read_segmentation:
  assumes "buf_inv b" "0 < space_size b" "alloc_total alloc"
    and "frame_run info proc u (pending b) = (Done, pending b, u)"
    and "would_block s1" "would_block s2" "stream s1 = stream s2"
    and "on_read info proc alloc True b u s1 = (x1, b1, u1, t1)"
    and "on_read info proc alloc True b u s2 = (x2, b2, u2, t2)"
  shows "x1 = x2 \<and> u1 = u2 \<and> pending b1 @ stream t1 = pending b2 @ stream t2"
  using on_read_settled [OF assms(1-3,5,4,8)] on_read_settled [OF assms(1-3,6,4,9)] assms(7)
  by simp

end

section \<open>The sending half loses, repeats and reorders nothing\<close>

lemma on_write_stream_lemma:
  assumes inv: "buf_inv (sbuf h)" and w: "0 < max_write_size h"
    and run: "on_write res ok fd h r = (x, out, h', r')"
  shows "buf_inv (sbuf h') \<and> out @ pending (sbuf h') = pending (sbuf h)
    \<and> length out \<le> nat (max_write_size h)"
proof (cases "data_size (sbuf h) > 0")
  case False
  with run inv show ?thesis by (auto simp: on_write_def split: if_splits)
next
  case True
  let ?k = "if data_size (sbuf h) > max_write_size h then max_write_size h else data_size (sbuf h)"
  have k: "1 \<le> ?k" "?k \<le> data_size (sbuf h)" using True w by auto
  show ?thesis
  proof (cases "\<exists>n. res = Sent n \<and> n > 0")
    case False
    with run inv show ?thesis
      by (cases res) (auto simp: on_write_def split: if_splits)
  next
    case True
    then obtain n where n: "res = Sent n" "n > 0" by blast
    let ?m = "min n (nat ?k)"
    have m: "1 \<le> int ?m" "int ?m \<le> data_size (sbuf h)" using k n by auto
    with pop_data_ret [OF inv m(1)] length_pending [OF inv]
    obtain sb where sb: "pop_data (int ?m) (sbuf h) = (0, sb)" by auto
    note ok' = pop_data_ok [OF inv sb]
    note adj = buffer_adjust_ok [of sb]
    have "x = Done" "out = take ?m (pending (sbuf h))" "sbuf h' = buffer_adjust sb"
      using run n \<open>data_size (sbuf h) > 0\<close> sb
      by (auto simp: on_write_def Let_def split: if_splits)
    with ok' adj k m show ?thesis by auto
  qed
qed

text \<open>What \<open>send\<close> does once it has room: finished directly, refused, or the tail is queued.\<close>

definition send_tail :: "bool \<Rightarrow> byte list \<Rightarrow> nat \<Rightarrow> buffer \<Rightarrow> tcp_handler \<Rightarrow> reactor \<Rightarrow>
   int \<times> byte list \<times> tcp_handler \<times> reactor" where
  "send_tail ok data k sb h r =
     (0, take k data,
      h\<lparr>sbuf := snd (push_data (int (length data - k)) (store_at_space (drop k data) sb))\<rparr>,
      snd (mod_handler ok (id_fd h) (Some (self h)) (EVENT_READ OR EVENT_WRITE) r))"

lemma tcp_send_cases:
  assumes "\<not> id_fd h < 0" "ensure_space alloc (int (length data)) (sbuf h) = (0, sb)"
  shows "tcp_send alloc res ok data delay h r =
      (if data_size sb = 0 \<and> \<not> delay
       then (case res of
               Sent k \<Rightarrow> if min k (length data) = length data then (0, data, h\<lparr>sbuf := sb\<rparr>, r)
                         else send_tail ok data (min k (length data)) sb h r
             | SendErr e \<Rightarrow> if e \<noteq> EAGAIN \<and> e \<noteq> EINTR then (-1, [], h\<lparr>sbuf := sb\<rparr>, r)
                            else if data = [] then (0, [], h\<lparr>sbuf := sb\<rparr>, r) else send_tail ok data 0 sb h r)
       else send_tail ok data 0 sb h r)"
  using assms unfolding tcp_send_def Let_def send_tail_def
  by (simp split: send_result.split)

lemma tcp_send_stream_lemma:
  assumes inv: "buf_inv (sbuf h)" and al: "alloc_sound alloc"
    and run: "tcp_send alloc res ok data delay h r = (ret, out, h', r')"
  shows "buf_inv (sbuf h') \<and>
    (if ret = 0 then out @ pending (sbuf h') = pending (sbuf h) @ data
     else out = [] \<and> pending (sbuf h') = pending (sbuf h))"
proof (cases "id_fd h < 0")
  case True
  with run inv show ?thesis by (simp add: tcp_send_def)
next
  case fd: False
  let ?n = "int (length data)"
  obtain rr sb where rs: "ensure_space alloc ?n (sbuf h) = (rr, sb)" by fastforce
  note room = ensure_space_ok [OF inv al rs]
  show ?thesis
  proof (cases "rr = 0")
    case False
    with run fd rs inv show ?thesis by (simp add: tcp_send_def Let_def)
  next
    case True
    with room have sb: "buf_inv sb \<and> pending sb = pending (sbuf h) \<and> ?n \<le> space_size sb"
      by simp
    have push: "buf_inv sb2 \<and> pending sb2 = pending sb @ ys"
      if "length ys \<le> length data" "ys \<noteq> [] \<or> data = []"
        "sb2 = snd (push_data (int (length ys)) (store_at_space ys sb))" for ys sb2
    proof (cases "ys = []")
      case True
      then show ?thesis using that sb by (simp add: push_data_def store_at_space_def blit_def)
    next
      case False
      obtain q sb3 where q: "push_data (int (length ys)) (store_at_space ys sb) = (q, sb3)"
        by fastforce
      with buffer_fill [OF _ False _ q] sb that show ?thesis by auto
    qed
    note eq = tcp_send_cases [OF fd rs [unfolded True], of res ok delay r]
    show ?thesis
    proof (cases "data_size sb = 0 \<and> \<not> delay")
      case True
      then have empty: "pending (sbuf h) = []" using sb length_pending by force
      show ?thesis
      proof (cases res)
        case (Sent k)
        with run eq True sb empty push [of "drop (min k (length data)) data"] show ?thesis
          by (auto split: if_splits simp: min_def send_tail_def)
      next
        case (SendErr e)
        with run eq True sb empty push [of data] show ?thesis
          by (auto split: if_splits simp: send_tail_def)
      qed
    next
      case False
      with run eq have "ret = 0" "out = []"
        "sbuf h' = snd (push_data (int (length data)) (store_at_space data sb))"
        by (auto simp: send_tail_def)
      with push [of data] sb show ?thesis by auto
    qed
  qed
qed

lemma on_write_keeps:
  "on_write res ok fd h r = (x, out, h', r') \<Longrightarrow> max_write_size h' = max_write_size h \<and> id_fd h' = id_fd h"
  by (auto simp: on_write_def Let_def split: if_splits send_result.splits)

text \<open>What a socket that takes \<open>n\<close> bytes gets.\<close>

lemma on_write_sent:
  assumes inv: "buf_inv (sbuf h)" and w: "0 < max_write_size h"
    and run: "on_write (Sent n) ok fd h r = (x, out, h', r')"
  shows "x = Done \<and> out = take (min n (nat (max_write_size h))) (pending (sbuf h))"
proof (cases "data_size (sbuf h) > 0 \<and> n > 0")
  case True
  with run length_pending [OF inv] show ?thesis
    by (auto simp: on_write_def Let_def min_def split: if_splits)
next
  case False
  then have "pending (sbuf h) = [] \<or> n = 0" using length_pending [OF inv] by (cases "pending (sbuf h)") auto
  with run False show ?thesis by (auto simp: on_write_def Let_def split: if_splits)
qed

text \<open>Sending a packet: what it encoded to is queued behind the rest, then the front leaves.\<close>

lemma send_packet_stream:
  assumes inv: "buf_inv (sbuf h)" and al: "alloc_sound alloc" and w: "0 < max_write_size h"
    and enc: "\<And>n bs. encode n = Some bs \<Longrightarrow> bs \<noteq> [] \<and> int (length bs) \<le> n"
    and run: "tcp_send_packet alloc res ok need encode delay h r = (ret, ev, out, h', r')"
  shows "buf_inv (sbuf h') \<and> max_write_size h' = max_write_size h \<and> id_fd h' = id_fd h
    \<and> (if ret = 0 then \<exists>n bs. encode n = Some bs \<and> need \<le> n \<and> out @ pending (sbuf h') = pending (sbuf h) @ bs
       else ev = Done \<and> out = [] \<and> pending (sbuf h') = pending (sbuf h))"
proof (cases "id_fd h < 0 \<or> need < 1")
  case True
  with run inv show ?thesis by (auto simp: tcp_send_packet_def split: if_splits)
next
  case go: False
  obtain rr sb where rs: "ensure_space alloc need (sbuf h) = (rr, sb)" by fastforce
  note room = ensure_space_ok [OF inv al rs]
  show ?thesis
  proof (cases "rr = 0 \<and> encode (space_size sb) \<noteq> None")
    case False
    with run go rs room inv show ?thesis by (auto simp: tcp_send_packet_def split: option.splits if_splits)
  next
    case True
    then obtain bs where bs: "encode (space_size sb) = Some bs" by blast
    obtain q sb2 where q: "push_data (int (length bs)) (store_at_space bs sb) = (q, sb2)" by fastforce
    from buffer_fill [OF _ _ _ q] room enc [OF bs] have sb2: "buf_inv sb2" "pending sb2 = pending (sbuf h) @ bs" by auto
    let ?h1 = "h\<lparr>sbuf := sb2\<rparr>"
    let ?r1 = "snd (mod_handler ok (id_fd h) (Some (self h)) (EVENT_READ OR EVENT_WRITE) r)"
    obtain x o1 h2 r2 where ow: "on_write res ok (id_fd h) ?h1 ?r1 = (x, o1, h2, r2)" by (metis prod_cases4)
    have eq: "(ret, ev, out, h', r') = (if delay then (0, Done, [], ?h1, ?r1) else (0, x, o1, h2, r2))"
      using run go rs True bs q ow by (cases delay) (simp_all add: tcp_send_packet_def Let_def)
    from on_write_stream_lemma [OF _ _ ow] on_write_keeps [OF ow] sb2 w
    have "buf_inv (sbuf h2)" "o1 @ pending (sbuf h2) = pending (sbuf h) @ bs"
      "max_write_size h2 = max_write_size h" "id_fd h2 = id_fd h"
      by simp_all
    with eq sb2 bs room True show ?thesis by (cases delay) auto
  qed
qed

section \<open>Queued bytes always have a wake-up\<close>

text \<open>
  While the connection is open it is watched, and if bytes are queued the kernel is asked for
  write events: otherwise \<open>on_write\<close> would never run and the bytes would stay forever.
\<close>

definition wake_inv :: "tcp_handler \<Rightarrow> reactor \<Rightarrow> bool" where
  "wake_inv h r \<longleftrightarrow>
     (\<exists>ev. interest r (id_fd h) = Some ev \<and> (pending (sbuf h) \<noteq> [] \<longrightarrow> ev AND EPOLLOUT \<noteq> 0))"

lemma epollout_set: "(EPOLLIN OR EPOLLOUT) AND EPOLLOUT \<noteq> 0"
  by (simp add: epoll_defs)

lemma wake_inv_mod:
  assumes "reactor_inv r" "interest r fd \<noteq> None"
  shows "interest (snd (mod_handler True fd (Some me) ev r)) fd = Some (event_mask ev)"
  using mod_handler_registered [OF assms, of me ev] by simp

lemma wake_inv_send_tail:
  assumes "reactor_inv r" "wake_inv h r" "send_tail True data k sb h r = (ret, out, h', r')"
  shows "wake_inv h' r' \<and> reactor_inv r'"
proof -
  have reg: "interest r (id_fd h) \<noteq> None" using assms(2) by (auto simp: wake_inv_def)
  have "id_fd h' = id_fd h"
    "r' = snd (mod_handler True (id_fd h) (Some (self h)) (EVENT_READ OR EVENT_WRITE) r)"
    using assms(3) by (auto simp: send_tail_def)
  then show ?thesis
    using wake_inv_mod [OF assms(1) reg, of "self h" "EVENT_READ OR EVENT_WRITE"]
      reactor_inv_mod [OF assms(1)] epollout_set
    by (auto simp: wake_inv_def) (metis prod.collapse)
qed

lemma wake_inv_send:
  assumes r: "reactor_inv r" and w: "wake_inv h r" and inv: "buf_inv (sbuf h)" and al: "alloc_sound alloc"
    and run: "tcp_send alloc res True data delay h r = (ret, out, h', r')"
  shows "wake_inv h' r' \<and> reactor_inv r'"
proof (cases "id_fd h < 0")
  case True
  with run r w show ?thesis by (simp add: tcp_send_def)
next
  case fd: False
  obtain rr sb where rs: "ensure_space alloc (int (length data)) (sbuf h) = (rr, sb)" by fastforce
  note room = ensure_space_ok [OF inv al rs]
  show ?thesis
  proof (cases "rr = 0")
    case False
    with run fd rs r w show ?thesis by (simp add: tcp_send_def Let_def)
  next
    case True
    have keep: "wake_inv (h\<lparr>sbuf := sb\<rparr>) r"
      using w room by (simp add: wake_inv_def)
    from run tcp_send_cases [OF fd rs [unfolded True], of res True delay r]
    have "(h', r') = (h\<lparr>sbuf := sb\<rparr>, r) \<or> (\<exists>k. send_tail True data k sb h r = (ret, out, h', r'))"
      by (auto split: if_splits send_result.splits)
    then show ?thesis
      using keep r wake_inv_send_tail [OF r w] by auto
  qed
qed

lemma wake_inv_on_write:
  assumes r: "reactor_inv r" and w: "wake_inv h r" and inv: "buf_inv (sbuf h)" and m: "0 < max_write_size h"
    and run: "on_write res True (id_fd h) h r = (x, out, h', r')"
  shows "wake_inv h' r' \<and> reactor_inv r'"
proof -
  note st = on_write_stream_lemma [OF inv m run]
  have reg: "interest r (id_fd h) \<noteq> None" using w by (auto simp: wake_inv_def)
  have fd: "id_fd h' = id_fd h"
    and r': "r' = r \<or> data_size (sbuf h') = 0 \<and> r' = snd (mod_handler True (id_fd h) (Some (self h')) EVENT_READ r)"
    using run by (auto simp: on_write_def Let_def split: if_splits send_result.splits)
  from r' show ?thesis
  proof
    assume "r' = r"
    with w st fd r show ?thesis by (auto simp: wake_inv_def)
  next
    assume e: "data_size (sbuf h') = 0 \<and> r' = snd (mod_handler True (id_fd h) (Some (self h')) EVENT_READ r)"
    then have "pending (sbuf h') = []" using st length_pending by fastforce
    with e fd wake_inv_mod [OF r reg, of "self h'" EVENT_READ] reactor_inv_mod [OF r]
    show ?thesis by (auto simp: wake_inv_def) (metis prod.collapse)
  qed
qed

text \<open>The packet version of \<open>send\<close>: the encoder writes something and stays in the room it is given.\<close>

lemma wake_inv_send_packet:
  assumes r: "reactor_inv r" and w: "wake_inv h r" and inv: "buf_inv (sbuf h)" and m: "0 < max_write_size h"
    and al: "alloc_sound alloc" and enc: "\<And>n bs. encode n = Some bs \<Longrightarrow> bs \<noteq> [] \<and> int (length bs) \<le> n"
    and run: "tcp_send_packet alloc res True need encode delay h r = (ret, x, out, h', r')"
  shows "wake_inv h' r' \<and> reactor_inv r'"
proof (cases "id_fd h < 0 \<or> need < 1")
  case True
  with run r w show ?thesis by (simp add: tcp_send_packet_def split: if_splits)
next
  case fd: False
  obtain rr sb where rs: "ensure_space alloc need (sbuf h) = (rr, sb)" by fastforce
  note room = ensure_space_ok [OF inv al rs]
  show ?thesis
  proof (cases "rr = 0 \<and> encode (space_size sb) \<noteq> None")
    case False
    with run fd rs r w room show ?thesis
      by (cases "rr = 0") (auto simp: tcp_send_packet_def wake_inv_def)
  next
    case True
    then obtain bs where bs: "encode (space_size sb) = Some bs" by auto
    define h1 where "h1 = h\<lparr>sbuf := snd (push_data (int (length bs)) (store_at_space bs sb))\<rparr>"
    define r1 where "r1 = snd (mod_handler True (id_fd h) (Some (self h)) (EVENT_READ OR EVENT_WRITE) r)"
    have reg: "interest r (id_fd h) \<noteq> None" using w by (auto simp: wake_inv_def)
    have r1: "reactor_inv r1" unfolding r1_def using reactor_inv_mod [OF r] by (metis prod.collapse)
    have w1: "wake_inv h1 r1"
      using wake_inv_mod [OF r reg, of "self h" "EVENT_READ OR EVENT_WRITE"] epollout_set
      by (simp add: wake_inv_def h1_def r1_def)
    have b1: "buf_inv (sbuf h1)" "0 < max_write_size h1"
      using buffer_fill [of sb bs] room enc [OF bs] m by (simp_all add: h1_def) (metis prod.collapse)
    have "(h', r') = (h1, r1) \<or> (\<exists>x' out'. on_write res True (id_fd h1) h1 r1 = (x', out', h', r'))"
      using run fd rs True bs by (auto simp: tcp_send_packet_def Let_def h1_def r1_def split: if_splits prod.splits)
    then show ?thesis using w1 r1 wake_inv_on_write [OF r1 w1 b1] by auto
  qed
qed

section \<open>Properties\<close>

text \<open>C1: The receive loop of \<open>tcp_data_handler::on_read\<close> frames correctly. On the unread bytes it
  behaves exactly like the list specification \<open>frame_run\<close> (same outcome, same remainder, same packets
  handed to the application), it ends for every input, and when it ends waiting for more data the
  receive buffer has free space, so the next \<open>recv\<close> never asks for 0 bytes (which would look like a
  closed peer). The receive buffer is grown as needed when the allocator answers.\<close>

theorem parse_loop_frames:
  assumes "buf_inv b" "0 < capacity b" "alloc_total alloc"
    and "parse_loop info proc alloc b u = (x, b', u')"
  shows "frame_run info proc u (pending b) = (x, pending b', u') \<and> buf_inv b'
    \<and> (x = Done \<longrightarrow> 0 < space_size b')"
  using parse_loop_refines [OF assms] by blast

text \<open>A framing of two-byte packets that collects the packets, on a full buffer of eight bytes.\<close>

definition sample_buffer :: buffer where
  "sample_buffer = \<lparr>m_begin = 64, m_end = 72, m_data = 64, m_space = 72, block = [1, 2, 3, 4, 5, 6, 7, 8]\<rparr>"

definition sample_alloc :: "int \<Rightarrow> alloc_result" where
  "sample_alloc n = Some (128, replicate (nat n) 0)"

definition sample_info :: "byte list list info_fn" where
  "sample_info u bs = (0, \<lparr>pi_size = (if length bs < 4 then 6 else 3), pi_type = 0, pi_data = bs\<rparr>, u)"

definition sample_proc :: "byte list list proc_fn" where
  "sample_proc u p = (0, u @ [take (nat (pi_size p)) (pi_data p)])"

lemma sample_alloc_total: "alloc_total sample_alloc"
  by (simp add: alloc_total_def sample_alloc_def alloc_ok_def)

theorem parse_loop_frames_witness:
  "\<exists>b'. parse_loop sample_info sample_proc sample_alloc sample_buffer [] = (Done, b', [[1, 2, 3], [4, 5, 6]])
     \<and> pending b' = [7, 8] \<and> 0 < space_size b'"
proof -
  obtain x b' u' where run: "parse_loop sample_info sample_proc sample_alloc sample_buffer [] = (x, b', u')"
    by (metis prod_cases3)
  have p: "pending sample_buffer = [1, 2, 3, 4, 5, 6, 7, 8]"
    by (simp add: sample_buffer_def pending_def region_def)
  have f: "frame_run sample_info sample_proc [] [1, 2, 3, 4, 5, 6, 7, 8] = (Done, [7, 8], [[1, 2, 3], [4, 5, 6]])"
    by (simp add: frame_run.simps sample_info_def sample_proc_def MAX_PACKET_def)
  have "buf_inv sample_buffer" "0 < capacity sample_buffer"
    by (simp_all add: sample_buffer_def buf_inv_def capacity_def)
  from parse_loop_frames [OF this sample_alloc_total run] run show ?thesis
    unfolding p f by auto
qed

text \<open>C4: \<open>tcp_data_handler::send\<close> is a faithful byte pipe. When it answers 0, what the socket accepted
  now followed by what is queued equals what was queued before followed by the new data: nothing is
  lost, repeated or reordered, whether the socket takes all, a part or nothing. When it answers -1,
  nothing was sent and the queue is unchanged.\<close>

theorem tcp_send_stream:
  assumes "buf_inv (sbuf h)" "alloc_sound alloc"
    and "tcp_send alloc res ok data delay h r = (ret, out, h', r')"
  shows "buf_inv (sbuf h') \<and>
    (if ret = 0 then out @ pending (sbuf h') = pending (sbuf h) @ data
     else out = [] \<and> pending (sbuf h') = pending (sbuf h))"
  by (rule tcp_send_stream_lemma [OF assms])

definition sample_handler :: tcp_handler where
  "sample_handler = (tcp_new 1)\<lparr>id_fd := 3, has_reactor := True,
     sbuf := \<lparr>m_begin = 64, m_end = 72, m_data = 64, m_space = 64, block = replicate 8 0\<rparr>\<rparr>"

definition sample_reactor :: reactor where
  "sample_reactor = snd (add_handler True 3 (Some 1) EVENT_READ (snd (reactor_init 5 True 8 reactor_new)))"

lemma sample_handler_inv: "buf_inv (sbuf sample_handler)" "pending (sbuf sample_handler) = []"
    "0 < max_write_size sample_handler" "id_fd sample_handler = 3"
  by (simp_all add: sample_handler_def buf_inv_def pending_def region_def tcp_new_def MAX_WRITE_SIZE_def)

lemma sample_reactor_inv: "reactor_inv sample_reactor" "interest sample_reactor 3 = Some EPOLLIN"
proof -
  obtain ret r where i: "reactor_init 5 True 8 reactor_new = (ret, r)" by fastforce
  then have "reactor_inv r" by (rule reactor_inv_init)
  then show "reactor_inv sample_reactor"
    using i reactor_inv_add unfolding sample_reactor_def by (metis prod.collapse snd_conv)
  show "interest sample_reactor 3 = Some EPOLLIN"
    by (simp add: sample_reactor_def add_handler_def reactor_init_def reactor_new_def
        MIN_FD_SIZE_def Let_def)
qed

theorem tcp_send_stream_witness:
  "\<exists>h' r'. tcp_send sample_alloc (Sent 2) True [1, 2, 3, 4, 5] False sample_handler sample_reactor = (0, [1, 2], h', r')
     \<and> pending (sbuf h') = [3, 4, 5]"
proof -
  obtain ret out h' r' where run:
    "tcp_send sample_alloc (Sent 2) True [1, 2, 3, 4, 5] False sample_handler sample_reactor = (ret, out, h', r')"
    by (metis prod_cases4)
  then have "ret = 0" "out = [1, 2]"
    by (simp_all add: tcp_send_def sample_handler_def tcp_new_def ensure_space_def space_size_def
        data_size_def Let_def)
  moreover have "buf_inv (sbuf h') \<and>
    (if ret = 0 then out @ pending (sbuf h') = pending (sbuf sample_handler) @ [1, 2, 3, 4, 5]
     else out = [] \<and> pending (sbuf h') = pending (sbuf sample_handler))"
    by (rule tcp_send_stream [OF sample_handler_inv(1) alloc_total_sound [OF sample_alloc_total] run])
  ultimately have "pending (sbuf h') = [3, 4, 5]"
    unfolding sample_handler_inv(2) by simp
  with run \<open>ret = 0\<close> \<open>out = [1, 2]\<close> show ?thesis by blast
qed

text \<open>\<open>tcp_data_handler::on_write\<close> drains the queue from its front: what the socket accepted followed
  by what stays queued is what was queued before, at most \<open>m_max_write_size\<close> bytes go out per event,
  and a refusal by the socket changes nothing.\<close>

lemma on_write_stream:
  assumes "buf_inv (sbuf h)" "0 < max_write_size h"
    and "on_write res ok fd h r = (x, out, h', r')"
  shows "buf_inv (sbuf h') \<and> out @ pending (sbuf h') = pending (sbuf h)
    \<and> length out \<le> nat (max_write_size h) \<and> ((\<nexists>n. res = Sent n) \<longrightarrow> out = [])"
proof -
  have "(\<nexists>n. res = Sent n) \<longrightarrow> out = []"
    using assms(3) by (cases res) (auto simp: on_write_def split: if_splits)
  then show ?thesis using on_write_stream_lemma [OF assms] by blast
qed

definition sample_queued :: tcp_handler where
  "sample_queued = sample_handler\<lparr>sbuf :=
     \<lparr>m_begin = 64, m_end = 72, m_data = 64, m_space = 68, block = [1, 2, 3, 4, 0, 0, 0, 0]\<rparr>\<rparr>"

lemma sample_queued_inv: "buf_inv (sbuf sample_queued)" "pending (sbuf sample_queued) = [1, 2, 3, 4]"
    "0 < max_write_size sample_queued" "id_fd sample_queued = 3"
  by (simp_all add: sample_queued_def sample_handler_def buf_inv_def pending_def region_def tcp_new_def
      MAX_WRITE_SIZE_def)

lemma on_write_stream_witness:
  "\<exists>h' r'. on_write (Sent 3) True 3 sample_queued sample_reactor = (Done, [1, 2, 3], h', r')
     \<and> pending (sbuf h') = [4]"
proof -
  obtain x out h' r' where run: "on_write (Sent 3) True 3 sample_queued sample_reactor = (x, out, h', r')"
    by (metis prod_cases4)
  have "data_size (sbuf sample_queued) = 4" "max_write_size sample_queued = 16777216"
    by (simp_all add: sample_queued_def sample_handler_def data_size_def tcp_new_def MAX_WRITE_SIZE_def)
  with run have "x = Done" "out = [1, 2, 3]"
    by (auto simp: on_write_def Let_def sample_queued_inv split: if_splits)
  moreover from on_write_stream [OF sample_queued_inv(1,3) run]
  have "out @ pending (sbuf h') = [1, 2, 3, 4]" unfolding sample_queued_inv(2) by blast
  ultimately show ?thesis using run by auto
qed

text \<open>C11: No lost wake-up. As long as \<open>epoll_ctl\<close> succeeds (its result is ignored by the code), both ways to send,
  of bytes and of a packet (whose encoder stays in the room it is given), and draining in \<open>on_write\<close> keep
  the invariant that an open connection is watched by the reactor and that queued bytes come with
  a registration for write events.\<close>

theorem queued_bytes_are_watched:
  assumes "reactor_inv r" "wake_inv h r" "buf_inv (sbuf h)" "0 < max_write_size h" "alloc_sound alloc"
    and "\<And>n bs. encode n = Some bs \<Longrightarrow> bs \<noteq> [] \<and> int (length bs) \<le> n"
    and "tcp_send alloc res True data delay h r = (ret, out, h1, r1)"
    and "on_write res' True (id_fd h) h r = (x, out', h2, r2)"
    and "tcp_send_packet alloc res True need encode delay h r = (ret', x', out'', h3, r3)"
  shows "wake_inv h1 r1 \<and> reactor_inv r1 \<and> wake_inv h2 r2 \<and> reactor_inv r2 \<and> wake_inv h3 r3 \<and> reactor_inv r3"
  using wake_inv_send [OF assms(1,2,3,5,7)] wake_inv_on_write [OF assms(1,2,3,4,8)]
    wake_inv_send_packet [OF assms(1-5) assms(6) assms(9)] by blast

theorem queued_bytes_are_watched_witness:
  "\<exists>h1 r1 h3 r3. tcp_send sample_alloc (Sent 2) True [1, 2, 3, 4, 5] False sample_handler sample_reactor = (0, [1, 2], h1, r1)
     \<and> wake_inv h1 r1
     \<and> tcp_send_packet sample_alloc (Sent 2) True 3 (\<lambda>n. if n < 3 then None else Some [7, 8, 9]) False
         sample_handler sample_reactor = (0, Done, [7, 8], h3, r3)
     \<and> wake_inv h3 r3"
proof -
  let ?enc = "\<lambda>n. if n < (3 :: int) then None else Some [7, 8, 9 :: byte]"
  obtain ret out h' r' where run:
    "tcp_send sample_alloc (Sent 2) True [1, 2, 3, 4, 5] False sample_handler sample_reactor = (ret, out, h', r')"
    by (metis prod_cases4)
  then have sent: "ret = 0" "out = [1, 2]"
    by (simp_all add: tcp_send_def sample_handler_def tcp_new_def ensure_space_def space_size_def
        data_size_def Let_def)
  obtain x out' h2 r2 where run2:
    "on_write (Sent 1) True (id_fd sample_handler) sample_handler sample_reactor = (x, out', h2, r2)"
    by (metis prod_cases4)
  obtain ret3 x3 out3 h3 r3 where run3:
    "tcp_send_packet sample_alloc (Sent 2) True 3 ?enc False sample_handler sample_reactor = (ret3, x3, out3, h3, r3)"
    by (metis prod_cases5)
  then have packet: "ret3 = 0" "x3 = Done" "out3 = [7, 8]"
    by (auto simp: tcp_send_packet_def on_write_def sample_handler_def tcp_new_def ensure_space_def space_size_def
        data_size_def push_data_def store_at_space_def pop_data_def pending_def blit_def MAX_WRITE_SIZE_def
        buffer_adjust_def region_def Let_def split: prod.splits if_splits)
  have "wake_inv sample_handler sample_reactor"
    by (simp add: wake_inv_def sample_handler_inv sample_reactor_inv)
  have enc: "bs \<noteq> [] \<and> int (length bs) \<le> n" if "?enc n = Some bs" for n bs using that by (auto split: if_splits)
  from queued_bytes_are_watched [OF sample_reactor_inv(1) \<open>wake_inv sample_handler sample_reactor\<close> sample_handler_inv(1,3)
      alloc_total_sound [OF sample_alloc_total] enc run run2 run3]
  show ?thesis using run run3 sent packet by blast
qed

end
