(* ===== verification/Packet.thy ===== *)
theory Packet
  imports Prelude
begin

text \<open>
  The wire format: the byte-order macros of \<open>framework/packet.h\<close>, the packed heads and the
  packet templates of \<open>public/game_packet.h\<close>, the stream buffer of \<open>public/aliased_buf.h\<close>
  that the templates serialise through, and the message ids of \<open>public/message.h\<close>.
  A message body is a parameter: \<open>ser\<close> gives the bytes that \<open>SerializeToOstream\<close> writes
  (\<open>None\<close> when it refuses), \<open>parse\<close> is \<open>ParseFromIstream\<close> on a whole stream. The locale
  \<open>body_codec\<close> states what the templates rely on. The machine is little-endian.
\<close>

section \<open>Byte order\<close>

definition bswap_16 :: "u16 \<Rightarrow> u16" where
  "bswap_16 x = push_bit 8 x OR drop_bit 8 x"

definition bswap_32 :: "u32 \<Rightarrow> u32" where
  "bswap_32 x = push_bit 24 x OR (push_bit 8 x AND 0x00ff0000) OR (drop_bit 8 x AND 0x0000ff00)
     OR drop_bit 24 x"

definition hton_int16 :: "u16 \<Rightarrow> u16" where "hton_int16 x = bswap_16 x"
definition hton_int32 :: "u32 \<Rightarrow> u32" where "hton_int32 x = bswap_32 x"
definition ntoh_int16 :: "u16 \<Rightarrow> u16" where "ntoh_int16 x = bswap_16 x"
definition ntoh_int32 :: "u32 \<Rightarrow> u32" where "ntoh_int32 x = bswap_32 x"

lemma bswap_16_invol: "bswap_16 (bswap_16 x) = x"
  by (rule bit_word_eqI) (auto simp: bswap_16_def bit_simps)

lemma bswap_masks: "(0x00ff0000::u32) = push_bit 16 (mask 8)" "(0x0000ff00::u32) = push_bit 8 (mask 8)"
  by (simp_all add: mask_eq_exp_minus_1 push_bit_eq_mult)

lemma bit_bswap_32:
  "bit (bswap_32 x) n \<longleftrightarrow>
     n < 32 \<and> bit x (if n < 8 then n + 24 else if n < 16 then n + 8 else if n < 24 then n - 8 else n - 24)"
proof -
  have big: "\<not> bit x k" if "32 \<le> k" for k
    using that bit_imp_le_length [of x k] by auto
  consider "n < 8" | "8 \<le> n" "n < 16" | "16 \<le> n" "n < 24" | "24 \<le> n" "n < 32" | "32 \<le> n"
    by linarith
  then show ?thesis
    unfolding bswap_32_def bswap_masks by cases (auto simp: bit_simps big add.commute)
qed

lemma bswap_32_invol: "bswap_32 (bswap_32 x) = x"
  by (rule bit_word_eqI) (auto simp: bit_bswap_32)

lemma ntoh_hton [simp]: "ntoh_int16 (hton_int16 x) = x" "ntoh_int32 (hton_int32 y) = y"
  by (simp_all add: ntoh_int16_def hton_int16_def ntoh_int32_def hton_int32_def
      bswap_16_invol bswap_32_invol)

section \<open>Fields of packed heads in memory\<close>

definition le16 :: "u16 \<Rightarrow> byte list" where
  "le16 w = [ucast w, ucast (drop_bit 8 w)]"

definition of_le16 :: "byte list \<Rightarrow> u16" where
  "of_le16 bs = ucast (bs ! 0) OR push_bit 8 (ucast (bs ! 1))"

definition le32 :: "u32 \<Rightarrow> byte list" where
  "le32 w = [ucast w, ucast (drop_bit 8 w), ucast (drop_bit 16 w), ucast (drop_bit 24 w)]"

definition of_le32 :: "byte list \<Rightarrow> u32" where
  "of_le32 bs = ucast (bs ! 0) OR push_bit 8 (ucast (bs ! 1)) OR push_bit 16 (ucast (bs ! 2))
     OR push_bit 24 (ucast (bs ! 3))"

definition poke16 :: "nat \<Rightarrow> u16 \<Rightarrow> byte list \<Rightarrow> byte list" where
  "poke16 off v mem = blit mem off (le16 v)"

definition peek16 :: "nat \<Rightarrow> byte list \<Rightarrow> u16" where
  "peek16 off mem = of_le16 (region mem off 2)"

definition poke32 :: "nat \<Rightarrow> u32 \<Rightarrow> byte list \<Rightarrow> byte list" where
  "poke32 off v mem = blit mem off (le32 v)"

definition peek32 :: "nat \<Rightarrow> byte list \<Rightarrow> u32" where
  "peek32 off mem = of_le32 (region mem off 4)"

lemma of_le16_le16 [simp]: "of_le16 (le16 w) = w"
  unfolding of_le16_def le16_def by (rule bit_word_eqI) (auto simp: bit_simps)

lemma of_le32_le32 [simp]: "of_le32 (le32 w) = w"
proof (rule bit_word_eqI)
  fix n assume "n < LENGTH(32)"
  then consider "n < 8" | "8 \<le> n" "n < 16" | "16 \<le> n" "n < 24" | "24 \<le> n" "n < 32" by fastforce
  then show "bit (of_le32 (le32 w)) n = bit w n"
    unfolding of_le32_def le32_def by cases (auto simp: bit_simps)
qed

lemma length_le [simp]: "length (le16 v) = 2" "length (le32 w) = 4"
  by (simp_all add: le16_def le32_def)

lemma length_poke [block_simps]:
  "off + 2 \<le> length mem \<Longrightarrow> length (poke16 off v mem) = length mem"
  "off + 4 \<le> length mem \<Longrightarrow> length (poke32 off w mem) = length mem"
  by (simp_all add: poke16_def poke32_def length_blit)

lemma peek_poke_same [block_simps]:
  "off \<le> length mem \<Longrightarrow> peek16 off (poke16 off v mem) = v"
  "off \<le> length mem \<Longrightarrow> peek32 off (poke32 off w mem) = w"
  using region_blit_same [of off mem "le16 v"] region_blit_same [of off mem "le32 w"]
  by (simp_all add: peek16_def poke16_def peek32_def poke32_def)

lemma region_poke_other [block_simps]:
  "off + 2 \<le> length mem \<Longrightarrow> a + n \<le> off \<or> off + 2 \<le> a \<Longrightarrow> region (poke16 off v mem) a n = region mem a n"
  "off + 4 \<le> length mem \<Longrightarrow> a + n \<le> off \<or> off + 4 \<le> a \<Longrightarrow> region (poke32 off w mem) a n = region mem a n"
  by (auto simp: poke16_def poke32_def region_blit_before region_blit_after)

lemma peek_poke_other [block_simps]:
  "off + 2 \<le> length mem \<Longrightarrow> a + 2 \<le> off \<or> off + 2 \<le> a \<Longrightarrow> peek16 a (poke16 off v mem) = peek16 a mem"
  "off + 4 \<le> length mem \<Longrightarrow> a + 2 \<le> off \<or> off + 4 \<le> a \<Longrightarrow> peek16 a (poke32 off w mem) = peek16 a mem"
  "off + 2 \<le> length mem \<Longrightarrow> a + 4 \<le> off \<or> off + 2 \<le> a \<Longrightarrow> peek32 a (poke16 off v mem) = peek32 a mem"
  "off + 4 \<le> length mem \<Longrightarrow> a + 4 \<le> off \<or> off + 4 \<le> a \<Longrightarrow> peek32 a (poke32 off w mem) = peek32 a mem"
  by (simp_all add: peek16_def peek32_def region_poke_other)

section \<open>The stream buffer aliased_buf\<close>

text \<open>
  The get and put areas both cover the \<open>buf_size\<close> bytes of the block; \<open>gpos\<close> and \<open>ppos\<close> are
  \<open>gptr - eback\<close> and \<open>pptr - pbase\<close>.
\<close>

record aliased_buf =
  buf_size :: int
  gpos :: int
  ppos :: int

definition aliased_buf_new :: "int \<Rightarrow> aliased_buf" where
  "aliased_buf_new n = \<lparr>buf_size = n, gpos = 0, ppos = 0\<rparr>"

datatype seekdir = Seek_beg | Seek_cur | Seek_end

definition seekoff :: "int \<Rightarrow> seekdir \<Rightarrow> bool \<Rightarrow> bool \<Rightarrow> aliased_buf \<Rightarrow> int \<times> aliased_buf" where
  "seekoff off way md_in md_out s =
     (let newoffi = (if way = Seek_cur
                     then (if md_out then ppos s + off else if md_in then gpos s + off else 0)
                     else if way = Seek_end then (if md_in then buf_size s + off else 0)
                     else 0);
          newoffo = (if way = Seek_end then (if md_out then buf_size s + off else 0) else 0);
          (ret1, s1) = (if md_in \<and> newoffi \<ge> 0 \<and> newoffi < buf_size s
                        then (newoffi, s\<lparr>gpos := newoffi\<rparr>) else (-1, s))
      in if md_out \<and> newoffo \<ge> 0 \<and> newoffo < buf_size s
         then (newoffi, s1\<lparr>ppos := newoffi\<rparr>) else (ret1, s1))"

text \<open>\<open>output.tellp()\<close> on a good stream: \<open>seekoff(0, cur, out)\<close>.\<close>

definition tellp :: "aliased_buf \<Rightarrow> int" where
  "tellp s = fst (seekoff 0 Seek_cur False True s)"

text \<open>
  Writing through \<open>std::ostream\<close>: \<open>overflow\<close> gives \<open>eof\<close> at the end of the block, so a write
  that does not fit fails.
\<close>

definition put_bytes :: "byte list \<Rightarrow> aliased_buf \<Rightarrow> aliased_buf option" where
  "put_bytes xs s =
     (if ppos s + int (length xs) \<le> buf_size s then Some (s\<lparr>ppos := ppos s + int (length xs)\<rparr>) else None)"

lemma tellp_put:
  "put_bytes xs (aliased_buf_new n) = Some s \<Longrightarrow> tellp s = (if 0 < n then int (length xs) else -1)"
  by (auto simp: put_bytes_def aliased_buf_new_def tellp_def seekoff_def Let_def split: if_splits)

section \<open>Message ids\<close>

definition MSG_TYPE_REQUEST :: int where "MSG_TYPE_REQUEST = 0"
definition MSG_TYPE_RESPONSE :: int where "MSG_TYPE_RESPONSE = 1"
definition MSG_TYPE_NOTIFY :: int where "MSG_TYPE_NOTIFY = 2"
definition MSG_ACTION_PLAYER_LOGIN :: int where "MSG_ACTION_PLAYER_LOGIN = 1"

definition CSMSG_PLAYER_LOGIN_REQ :: int where
  "CSMSG_PLAYER_LOGIN_REQ = (push_bit 2 MSG_ACTION_PLAYER_LOGIN) OR MSG_TYPE_REQUEST"

definition CSMSG_PLAYER_LOGIN_REP :: int where
  "CSMSG_PLAYER_LOGIN_REP = (push_bit 2 MSG_ACTION_PLAYER_LOGIN) OR MSG_TYPE_RESPONSE"

text \<open>The message ids that \<open>message.h\<close> gives to the two packet types.\<close>

definition cs_player_login_request_type :: int where
  "cs_player_login_request_type = CSMSG_PLAYER_LOGIN_REQ"

definition cs_player_login_response_type :: int where
  "cs_player_login_response_type = CSMSG_PLAYER_LOGIN_REQ"

lemmas msg_defs = MSG_TYPE_REQUEST_def MSG_TYPE_RESPONSE_def MSG_TYPE_NOTIFY_def
  MSG_ACTION_PLAYER_LOGIN_def CSMSG_PLAYER_LOGIN_REQ_def CSMSG_PLAYER_LOGIN_REP_def
  cs_player_login_request_type_def cs_player_login_response_type_def

text \<open>The bit fields of \<open>msgid_type\<close>.\<close>

definition msgid_msg_type :: "u16 \<Rightarrow> u16" where "msgid_msg_type v = take_bit 2 v"
definition msgid_action_id :: "u16 \<Rightarrow> u16" where "msgid_action_id v = take_bit 10 (drop_bit 2 v)"
definition msgid_module :: "u16 \<Rightarrow> u16" where "msgid_module v = drop_bit 12 v"

section \<open>Heads\<close>

definition ss_head_size :: int where "ss_head_size = 16"
definition cs_head_bytes :: int where "cs_head_bytes = 4"
definition cs_head_plus_bytes :: int where "cs_head_plus_bytes = 12"

definition cs_head_have_plus :: "u16 \<Rightarrow> bool" where
  "cs_head_have_plus msgid \<longleftrightarrow> uint (msgid AND 0x3) \<noteq> MSG_TYPE_NOTIFY"

definition cs_head_size :: "u16 \<Rightarrow> int" where
  "cs_head_size msgid = (if cs_head_have_plus msgid then cs_head_plus_bytes else cs_head_bytes)"

lemmas head_size_defs = ss_head_size_def cs_head_bytes_def cs_head_plus_bytes_def cs_head_size_def

lemma cs_head_size_bounds: "4 \<le> cs_head_size m \<and> cs_head_size m \<le> 12"
  by (simp add: head_size_defs)

section \<open>Server packets: ss_packet\<close>

record 'b ss_packet =
  ss_key :: u32
  ss_seq :: u32
  ss_tick :: u32
  ss_body :: 'b

text \<open>
  Serialising a body into the block behind a head of \<open>hs\<close> bytes: the memory after the call and
  the position of the stream, \<open>None\<close> where \<open>encode\<close> returns -1.
\<close>

definition serialize_body ::
  "('b \<Rightarrow> byte list option) \<Rightarrow> 'b \<Rightarrow> int \<Rightarrow> byte list \<Rightarrow> int \<Rightarrow> (byte list \<times> int) option" where
  "serialize_body ser b hs mem n =
     (case ser b of
        None \<Rightarrow> None
      | Some xs \<Rightarrow>
          (case put_bytes xs (aliased_buf_new (n - hs)) of
             None \<Rightarrow> None
           | Some s \<Rightarrow> if tellp s < 0 then None else Some (blit mem (nat hs) xs, tellp s)))"

definition ss_encode ::
  "('b \<Rightarrow> byte list option) \<Rightarrow> int \<Rightarrow> 'b ss_packet \<Rightarrow> byte list \<Rightarrow> int \<Rightarrow> int \<times> byte list" where
  "ss_encode ser pt p mem n =
     (if n < ss_head_size then (-1, mem)
      else case serialize_body ser (ss_body p) ss_head_size mem n of
             None \<Rightarrow> (-1, mem)
           | Some (mem1, pos) \<Rightarrow>
               let sz = ss_head_size + pos in
               if sz \<ge> 65535 then (-1, mem1)
               else (sz, poke32 12 (hton_int32 (ss_tick p)) (poke32 8 (hton_int32 (ss_seq p))
                          (poke32 4 (hton_int32 (ss_key p)) (poke16 2 (hton_int16 (word_of_int pt))
                            (poke16 0 (hton_int16 (word_of_int sz)) mem1))))))"

definition ss_decode ::
  "(byte list \<Rightarrow> 'b option) \<Rightarrow> int \<Rightarrow> byte list \<Rightarrow> int \<Rightarrow> 'b ss_packet \<Rightarrow> (int \<times> 'b ss_packet) checked" where
  "ss_decode parse pt data n p =
     (if n < ss_head_size then Fine (-1, p)
      else if uint (ntoh_int16 (peek16 2 data)) \<noteq> pt then Fine (-1, p)
      else let p1 = p\<lparr>ss_key := ntoh_int32 (peek32 4 data), ss_seq := ntoh_int32 (peek32 8 data),
                      ss_tick := ntoh_int32 (peek32 12 data)\<rparr>;
               sz = uint (ntoh_int16 (peek16 0 data))
           in if sz < ss_head_size \<or> sz > int (length data) then OutOfBounds
              else case parse (region data (nat ss_head_size) (nat (sz - ss_head_size))) of
                     None \<Rightarrow> Fine (-1, p1)
                   | Some b \<Rightarrow> Fine (sz, p1\<lparr>ss_body := b\<rparr>))"

definition ss_encode_size :: "('b \<Rightarrow> int) \<Rightarrow> 'b ss_packet \<Rightarrow> int" where
  "ss_encode_size byte_size p =
     (let need_size = ss_head_size + byte_size (ss_body p) in if need_size \<ge> 65535 then -1 else need_size)"

definition decode_size :: "byte list \<Rightarrow> int" where
  "decode_size data = uint (ntoh_int16 (peek16 0 data))"

section \<open>Client packets: cs_packet\<close>

record 'b cs_packet =
  cs_code :: u16
  cs_reserved :: u16
  cs_seq :: u32
  cs_body :: 'b

definition cs_encode ::
  "('b \<Rightarrow> byte list option) \<Rightarrow> int \<Rightarrow> 'b cs_packet \<Rightarrow> byte list \<Rightarrow> int \<Rightarrow> int \<times> byte list" where
  "cs_encode ser pt p mem n =
     (let hs = cs_head_size (word_of_int pt) in
      if n < hs then (-1, mem)
      else case serialize_body ser (cs_body p) hs mem n of
             None \<Rightarrow> (-1, mem)
           | Some (mem1, pos) \<Rightarrow>
               let sz = hs + pos in
               if sz \<ge> 65535 then (-1, mem1)
               else let mem2 = poke16 2 (hton_int16 (word_of_int pt))
                                 (poke16 0 (hton_int16 (word_of_int sz)) mem1) in
                 (sz, if cs_head_have_plus (word_of_int pt)
                      then poke32 8 (hton_int32 (cs_seq p)) (poke16 6 (hton_int16 (cs_reserved p))
                             (poke16 4 (hton_int16 (cs_code p)) mem2))
                      else mem2))"

definition cs_decode ::
  "(byte list \<Rightarrow> 'b option) \<Rightarrow> int \<Rightarrow> byte list \<Rightarrow> int \<Rightarrow> 'b cs_packet \<Rightarrow> (int \<times> 'b cs_packet) checked" where
  "cs_decode parse pt data n p =
     (let hs = cs_head_size (word_of_int pt) in
      if n < hs then Fine (-1, p)
      else if uint (ntoh_int16 (peek16 2 data)) \<noteq> pt then Fine (-1, p)
      else let sz = uint (ntoh_int16 (peek16 0 data));
               p1 = (if cs_head_have_plus (word_of_int pt)
                     then p\<lparr>cs_code := ntoh_int16 (peek16 4 data), cs_reserved := ntoh_int16 (peek16 6 data),
                            cs_seq := ntoh_int32 (peek32 8 data)\<rparr>
                     else p)
           in if sz < hs \<or> sz > int (length data) then OutOfBounds
              else case parse (region data (nat hs) (nat (sz - hs))) of
                     None \<Rightarrow> Fine (-1, p1)
                   | Some b \<Rightarrow> Fine (sz, p1\<lparr>cs_body := b\<rparr>))"

definition cs_encode_size :: "('b \<Rightarrow> int) \<Rightarrow> int \<Rightarrow> 'b cs_packet \<Rightarrow> int" where
  "cs_encode_size byte_size pt p =
     (let need_size = cs_head_size (word_of_int pt) + byte_size (cs_body p)
      in if need_size \<ge> 65535 then -1 else need_size)"

text \<open>The body without content.\<close>

definition null_body_serialize :: "unit \<Rightarrow> byte list option" where
  "null_body_serialize b = Some []"

definition null_body_parse :: "byte list \<Rightarrow> unit option" where
  "null_body_parse xs = Some ()"

definition null_body_byte_size :: "unit \<Rightarrow> int" where
  "null_body_byte_size b = 0"

text \<open>\<open>cs_packet::decode_size\<close>, and the map position that fits into one number.\<close>

definition cs_decode_size :: "byte list \<Rightarrow> int" where
  "cs_decode_size data = uint (ntoh_int16 (peek16 0 data))"

record position_type =
  map_id :: u32
  pos_x :: u16
  pos_y :: u16

definition position_value :: "position_type \<Rightarrow> u64" where
  "position_value p = ucast (map_id p) OR push_bit 32 (ucast (pos_x p)) OR push_bit 48 (ucast (pos_y p))"

definition value_position :: "u64 \<Rightarrow> position_type" where
  "value_position v = \<lparr>map_id = ucast v, pos_x = ucast (drop_bit 32 v), pos_y = ucast (drop_bit 48 v)\<rparr>"

lemma position_round_trip: "value_position (position_value p) = p" "position_value (value_position v) = v"
proof -
  have "ucast (position_value p) = map_id p" "ucast (drop_bit 32 (position_value p)) = pos_x p"
    "ucast (drop_bit 48 (position_value p)) = pos_y p"
    by (rule bit_word_eqI; auto simp: position_value_def bit_simps dest: bit_imp_le_length)+
  then show "value_position (position_value p) = p" by (simp add: value_position_def)
  show "position_value (value_position v) = v"
  proof (rule bit_word_eqI)
    fix n assume "n < LENGTH(64)"
    then consider "n < 32" | "32 \<le> n" "n < 48" | "48 \<le> n" "n < 64" by fastforce
    then show "bit (position_value (value_position v)) n = bit v n"
      by cases (auto simp: position_value_def value_position_def bit_simps)
  qed
qed

section \<open>The interface of a message body\<close>

locale body_codec =
  fixes ser :: "'b \<Rightarrow> byte list option"
    and parse :: "byte list \<Rightarrow> 'b option"
    and byte_size :: "'b \<Rightarrow> int"
  assumes parse_ser: "ser b = Some xs \<Longrightarrow> parse xs = Some b"
    and ser_size: "ser b = Some xs \<Longrightarrow> byte_size b = int (length xs)"

lemma serialize_body_fits:
  assumes "ser b = Some xs" "hs + int (length xs) \<le> n" "hs < n"
  shows "serialize_body ser b hs mem n = Some (blit mem (nat hs) xs, int (length xs))"
proof -
  obtain s where s: "put_bytes xs (aliased_buf_new (n - hs)) = Some s"
    using assms by (auto simp: put_bytes_def aliased_buf_new_def)
  then show ?thesis
    using assms tellp_put [OF s] by (simp add: serialize_body_def)
qed

lemma serialize_body_Some:
  assumes "serialize_body ser b hs mem n = Some (mem1, pos)"
  shows "\<exists>xs. ser b = Some xs \<and> mem1 = blit mem (nat hs) xs \<and> pos = int (length xs)
    \<and> hs + pos \<le> n \<and> hs < n"
proof -
  from assms obtain xs s where s: "ser b = Some xs" "put_bytes xs (aliased_buf_new (n - hs)) = Some s"
      "\<not> tellp s < 0" "mem1 = blit mem (nat hs) xs" "pos = tellp s"
    by (auto simp: serialize_body_def split: option.splits if_splits)
  moreover from s have "hs + int (length xs) \<le> n"
    by (auto simp: put_bytes_def aliased_buf_new_def split: if_splits)
  ultimately show ?thesis using tellp_put [OF s(2)] by (auto split: if_splits)
qed

lemma uint_word_of_int_16: "0 \<le> x \<Longrightarrow> x < 65536 \<Longrightarrow> uint (word_of_int x :: u16) = x"
  by (simp add: uint_word_of_int)

text \<open>The memory after a head was written over a block that already holds the body.\<close>

lemma ss_head_image:
  assumes "16 + length xs \<le> length mem"
    and "m = poke32 12 t (poke32 8 s (poke32 4 k (poke16 2 i (poke16 0 l (blit mem 16 xs)))))"
  shows "length m = length mem" "peek16 0 m = l" "peek16 2 m = i" "peek32 4 m = k" "peek32 8 m = s"
    "peek32 12 m = t" "region m 16 (length xs) = xs"
  using assms by (simp_all add: block_simps)

lemma cs_head_plus_image:
  assumes "12 + length xs \<le> length mem"
    and "m = poke32 8 s (poke16 6 r (poke16 4 c (poke16 2 i (poke16 0 l (blit mem 12 xs)))))"
  shows "length m = length mem" "peek16 0 m = l" "peek16 2 m = i" "peek16 4 m = c" "peek16 6 m = r"
    "peek32 8 m = s" "region m 12 (length xs) = xs"
  using assms by (simp_all add: block_simps)

lemma cs_head_image:
  assumes "4 + length xs \<le> length mem" "m = poke16 2 i (poke16 0 l (blit mem 4 xs))"
  shows "length m = length mem" "peek16 0 m = l" "peek16 2 m = i" "region m 4 (length xs) = xs"
  using assms by (simp_all add: block_simps)

context body_codec begin

lemma ss_round_trip:
  assumes enc: "ss_encode ser pt p mem n = (sz, mem')" "sz \<noteq> -1"
    and mem: "n \<le> int (length mem)" and pt: "0 \<le> pt" "pt < 65536"
  shows "ss_decode parse pt mem' sz q = Fine (sz, p)"
proof -
  from enc obtain mem1 pos where b: "\<not> n < ss_head_size"
      "serialize_body ser (ss_body p) ss_head_size mem n = Some (mem1, pos)"
      "ss_head_size + pos < 65535" "sz = ss_head_size + pos"
      "mem' = poke32 12 (hton_int32 (ss_tick p)) (poke32 8 (hton_int32 (ss_seq p))
                (poke32 4 (hton_int32 (ss_key p)) (poke16 2 (hton_int16 (word_of_int pt))
                  (poke16 0 (hton_int16 (word_of_int sz)) mem1))))"
    by (auto simp: ss_encode_def Let_def split: if_splits option.splits)
  from serialize_body_Some [OF b(2)] obtain xs where xs: "ser (ss_body p) = Some xs"
      "mem1 = blit mem 16 xs" "pos = int (length xs)" "16 + pos \<le> n"
    by (auto simp: ss_head_size_def)
  have room: "16 + length xs \<le> length mem" using xs mem by simp
  note img = ss_head_image [OF room b(5) [unfolded xs(2)]]
  have sz: "uint (word_of_int sz :: u16) = sz"
    using b xs by (intro uint_word_of_int_16) (auto simp: ss_head_size_def)
  have "uint (word_of_int pt :: u16) = pt" using pt by (rule uint_word_of_int_16)
  moreover have "region mem' 16 (nat (sz - 16)) = xs"
    using img b(4) xs by (simp add: ss_head_size_def)
  ultimately show ?thesis
    using b xs room img sz parse_ser [OF xs(1)]
    by (simp add: ss_decode_def Let_def ss_head_size_def)
qed

lemma cs_round_trip:
  assumes enc: "cs_encode ser pt p mem n = (sz, mem')" "sz \<noteq> -1"
    and mem: "n \<le> int (length mem)" and pt: "0 \<le> pt" "pt < 65536"
    and plus: "cs_head_have_plus (word_of_int pt)"
  shows "cs_decode parse pt mem' sz q = Fine (sz, p)"
proof -
  have hs: "cs_head_size (word_of_int pt) = 12" using plus by (simp add: head_size_defs)
  from enc plus obtain mem1 pos where b: "\<not> n < 12"
      "serialize_body ser (cs_body p) 12 mem n = Some (mem1, pos)"
      "12 + pos < 65535" "sz = 12 + pos"
      "mem' = poke32 8 (hton_int32 (cs_seq p)) (poke16 6 (hton_int16 (cs_reserved p))
                (poke16 4 (hton_int16 (cs_code p)) (poke16 2 (hton_int16 (word_of_int pt))
                  (poke16 0 (hton_int16 (word_of_int sz)) mem1))))"
    by (auto simp: cs_encode_def hs Let_def split: if_splits option.splits)
  from serialize_body_Some [OF b(2)] obtain xs where xs: "ser (cs_body p) = Some xs"
      "mem1 = blit mem 12 xs" "pos = int (length xs)" "12 + pos \<le> n"
    by auto
  have room: "12 + length xs \<le> length mem" using xs mem by simp
  note img = cs_head_plus_image [OF room b(5) [unfolded xs(2)]]
  have sz: "uint (word_of_int sz :: u16) = sz"
    using b xs by (intro uint_word_of_int_16) auto
  have "uint (word_of_int pt :: u16) = pt" using pt by (rule uint_word_of_int_16)
  moreover have "region mem' 12 (nat (sz - 12)) = xs"
    using img b(4) xs by simp
  ultimately show ?thesis
    using b xs room img sz plus parse_ser [OF xs(1)]
    by (simp add: cs_decode_def Let_def hs)
qed

lemma cs_round_trip_notify:
  assumes enc: "cs_encode ser pt p mem n = (sz, mem')" "sz \<noteq> -1"
    and mem: "n \<le> int (length mem)" and pt: "0 \<le> pt" "pt < 65536"
    and plus: "\<not> cs_head_have_plus (word_of_int pt)"
  shows "cs_decode parse pt mem' sz q = Fine (sz, q\<lparr>cs_body := cs_body p\<rparr>)"
proof -
  have hs: "cs_head_size (word_of_int pt) = 4" using plus by (simp add: head_size_defs)
  from enc plus obtain mem1 pos where b: "\<not> n < 4"
      "serialize_body ser (cs_body p) 4 mem n = Some (mem1, pos)"
      "4 + pos < 65535" "sz = 4 + pos"
      "mem' = poke16 2 (hton_int16 (word_of_int pt)) (poke16 0 (hton_int16 (word_of_int sz)) mem1)"
    by (auto simp: cs_encode_def hs Let_def split: if_splits option.splits)
  from serialize_body_Some [OF b(2)] obtain xs where xs: "ser (cs_body p) = Some xs"
      "mem1 = blit mem 4 xs" "pos = int (length xs)" "4 + pos \<le> n"
    by auto
  have room: "4 + length xs \<le> length mem" using xs mem by simp
  note img = cs_head_image [OF room b(5) [unfolded xs(2)]]
  have sz: "uint (word_of_int sz :: u16) = sz"
    using b xs by (intro uint_word_of_int_16) auto
  have "uint (word_of_int pt :: u16) = pt" using pt by (rule uint_word_of_int_16)
  moreover have "region mem' 4 (nat (sz - 4)) = xs"
    using img b(4) xs by simp
  ultimately show ?thesis
    using b xs room img sz plus parse_ser [OF xs(1)]
    by (simp add: cs_decode_def Let_def hs)
qed

text \<open>
  \<open>encode_size\<close> is enough room, except that an empty body needs one byte more than it says.
\<close>

lemma ss_encode_fits:
  assumes "ser (ss_body p) = Some xs" "ss_encode_size byte_size p = need" "need \<noteq> -1"
    and "need \<le> n" "xs \<noteq> [] \<or> need < n"
  shows "fst (ss_encode ser pt p mem n) = need"
proof -
  have need: "need = 16 + int (length xs)" "need < 65535"
    using assms(1-3) ser_size [OF assms(1)]
    by (auto simp: ss_encode_size_def ss_head_size_def Let_def split: if_splits)
  then have "16 < n" using assms(4,5) by (cases xs) auto
  with need assms serialize_body_fits [of ser "ss_body p" xs 16 n mem] show ?thesis
    by (simp add: ss_encode_def ss_head_size_def Let_def)
qed

lemma cs_encode_fits:
  assumes "ser (cs_body p) = Some xs" "cs_encode_size byte_size pt p = need" "need \<noteq> -1"
    and "need \<le> n" "xs \<noteq> [] \<or> need < n"
  shows "fst (cs_encode ser pt p mem n) = need"
proof -
  have need: "need = cs_head_size (word_of_int pt) + int (length xs)" "need < 65535"
    using assms(1-3) ser_size [OF assms(1)]
    by (auto simp: cs_encode_size_def Let_def split: if_splits)
  then have "cs_head_size (word_of_int pt) < n" using assms(4,5) by (cases xs) auto
  with need assms serialize_body_fits [of ser "cs_body p" xs "cs_head_size (word_of_int pt)" n mem]
  show ?thesis by (simp add: cs_encode_def Let_def)
qed

end

interpretation null_body: body_codec null_body_serialize null_body_parse null_body_byte_size
  by unfold_locales (auto simp: null_body_serialize_def null_body_parse_def null_body_byte_size_def)

section \<open>Properties\<close>

text \<open>C22: A server packet survives the wire. Whatever \<open>ss_packet::encode\<close> accepts, \<open>decode\<close> with the
  same packet type gives back: it consumes exactly the encoded size and restores key, seq, tick and
  body, for every body codec whose parser inverts its serialiser.\<close>

theorem ss_packet_round_trip:
  assumes "\<And>b xs. ser b = Some xs \<Longrightarrow> parse xs = Some b"
    and "ss_encode ser pt p mem n = (sz, mem')" "sz \<noteq> -1"
    and "n \<le> int (length mem)" "0 \<le> pt" "pt < 65536"
  shows "ss_decode parse pt mem' sz q = Fine (sz, p)"
proof -
  have c: "body_codec ser parse (\<lambda>b. int (length (the (ser b))))"
    using assms(1) by unfold_locales simp_all
  show ?thesis by (rule body_codec.ss_round_trip [OF c assms(2-)])
qed

theorem ss_packet_round_trip_witness:
  "\<exists>mem'. ss_encode Some 5 \<lparr>ss_key = 7, ss_seq = 9, ss_tick = 0xdeadbeef, ss_body = [1, 2, 3]\<rparr>
       (replicate 32 0) 32 = (19, mem')
     \<and> ss_decode Some 5 mem' 19 \<lparr>ss_key = 0, ss_seq = 0, ss_tick = 0, ss_body = []\<rparr>
       = Fine (19, \<lparr>ss_key = 7, ss_seq = 9, ss_tick = 0xdeadbeef, ss_body = [1, 2, 3]\<rparr>)"
proof -
  let ?p = "\<lparr>ss_key = 7, ss_seq = 9, ss_tick = 0xdeadbeef, ss_body = [1, 2, 3 :: byte]\<rparr>"
  obtain sz mem' where e: "ss_encode Some 5 ?p (replicate 32 0) 32 = (sz, mem')"
    by fastforce
  then have sz: "sz = 19"
    by (simp add: ss_encode_def serialize_body_def put_bytes_def aliased_buf_new_def tellp_def
        seekoff_def ss_head_size_def Let_def)
  from ss_packet_round_trip [OF _ e] sz
  have "ss_decode Some 5 mem' sz \<lparr>ss_key = 0, ss_seq = 0, ss_tick = 0, ss_body = []\<rparr> = Fine (sz, ?p)"
    by simp
  with e sz show ?thesis by blast
qed

text \<open>C21: A client packet survives the wire. A request or response carries code, reserved and seq; a
  notification has the short head, and decoding it leaves those three fields of the receiver alone.\<close>

theorem cs_packet_round_trip:
  assumes "\<And>b xs. ser b = Some xs \<Longrightarrow> parse xs = Some b"
    and "cs_encode ser pt p mem n = (sz, mem')" "sz \<noteq> -1"
    and "n \<le> int (length mem)" "0 \<le> pt" "pt < 65536"
  shows "cs_decode parse pt mem' sz q =
    Fine (sz, if cs_head_have_plus (word_of_int pt) then p else q\<lparr>cs_body := cs_body p\<rparr>)"
proof -
  have c: "body_codec ser parse (\<lambda>b. int (length (the (ser b))))"
    using assms(1) by unfold_locales simp_all
  show ?thesis
    using body_codec.cs_round_trip [OF c assms(2-)] body_codec.cs_round_trip_notify [OF c assms(2-)]
    by simp
qed

theorem cs_packet_round_trip_witness:
  "\<exists>mem'. cs_encode Some CSMSG_PLAYER_LOGIN_REQ
       \<lparr>cs_code = 0, cs_reserved = 3, cs_seq = 41, cs_body = [9, 8]\<rparr> (replicate 20 0) 20 = (14, mem')
     \<and> cs_decode Some CSMSG_PLAYER_LOGIN_REQ mem' 14 \<lparr>cs_code = 1, cs_reserved = 1, cs_seq = 1, cs_body = []\<rparr>
       = Fine (14, \<lparr>cs_code = 0, cs_reserved = 3, cs_seq = 41, cs_body = [9, 8]\<rparr>)"
proof -
  let ?p = "\<lparr>cs_code = 0, cs_reserved = 3, cs_seq = 41, cs_body = [9, 8 :: byte]\<rparr>"
  have pt: "CSMSG_PLAYER_LOGIN_REQ = 4" by (simp add: msg_defs)
  have plus: "cs_head_have_plus (4 :: u16)" by (simp add: cs_head_have_plus_def msg_defs)
  obtain sz mem' where e: "cs_encode Some 4 ?p (replicate 20 0) 20 = (sz, mem')"
    by fastforce
  then have sz: "sz = 14"
    by (simp add: cs_encode_def serialize_body_def put_bytes_def aliased_buf_new_def tellp_def
        seekoff_def head_size_defs plus Let_def)
  from cs_packet_round_trip [OF _ e] sz plus
  have "cs_decode Some 4 mem' sz \<lparr>cs_code = 1, cs_reserved = 1, cs_seq = 1, cs_body = []\<rparr> = Fine (sz, ?p)"
    by simp
  with e sz show ?thesis by (auto simp: pt)
qed

text \<open>The size contract of a client packet. When \<open>encode_size\<close> answers a size and the send buffer
  has that much room, \<open>encode\<close> succeeds and produces exactly that size, provided the body is not
  empty or one more byte is free: \<open>aliased_buf\<close> cannot tell its position in a stream of length 0.\<close>

lemma cs_encode_size_enough:
  assumes "ser (cs_body p) = Some xs" "byte_size (cs_body p) = int (length xs)"
    and "cs_encode_size byte_size pt p = need" "need \<noteq> -1" "need \<le> n"
  shows "fst (cs_encode ser pt p mem n) = (if xs = [] \<and> need = n then -1 else need)"
proof (cases "xs = [] \<and> need = n")
  case True
  then have "need = cs_head_size (word_of_int pt)"
    using assms by (auto simp: cs_encode_size_def Let_def split: if_splits)
  with True assms(1) show ?thesis
    by (simp add: cs_encode_def serialize_body_def put_bytes_def aliased_buf_new_def tellp_def
        seekoff_def Let_def)
next
  case False
  have need: "need = cs_head_size (word_of_int pt) + int (length xs)" "need < 65535"
    using assms(2-4) by (auto simp: cs_encode_size_def Let_def split: if_splits)
  then have "cs_head_size (word_of_int pt) < n" using assms(5) False by (cases xs) auto
  with need assms(1,5) serialize_body_fits [of ser "cs_body p" xs "cs_head_size (word_of_int pt)" n mem]
  show ?thesis using False by (auto simp: cs_encode_def Let_def)
qed

lemma cs_encode_size_enough_witness:
  "fst (cs_encode null_body_serialize CSMSG_PLAYER_LOGIN_REQ
      \<lparr>cs_code = 0, cs_reserved = 0, cs_seq = 1, cs_body = ()\<rparr> (replicate 12 0) 12) = -1
   \<and> fst (cs_encode null_body_serialize CSMSG_PLAYER_LOGIN_REQ
      \<lparr>cs_code = 0, cs_reserved = 0, cs_seq = 1, cs_body = ()\<rparr> (replicate 13 0) 13) = 12"
proof -
  let ?p = "\<lparr>cs_code = 0, cs_reserved = 0, cs_seq = 1, cs_body = ()\<rparr>"
  have need: "cs_encode_size null_body_byte_size CSMSG_PLAYER_LOGIN_REQ ?p = 12"
    by (simp add: cs_encode_size_def null_body_byte_size_def head_size_defs cs_head_have_plus_def msg_defs)
  have ser: "null_body_serialize (cs_body ?p) = Some []" "null_body_byte_size (cs_body ?p) = int (length [])"
    by (simp_all add: null_body_serialize_def null_body_byte_size_def)
  show ?thesis
    using cs_encode_size_enough [where ser = null_body_serialize and p = ?p and byte_size = null_body_byte_size and n = 12
        and mem = "replicate 12 0", OF ser need]
      cs_encode_size_enough [where ser = null_body_serialize and p = ?p and byte_size = null_body_byte_size and n = 13
        and mem = "replicate 13 0", OF ser need]
    by simp
qed

section \<open>Facts behind the findings\<close>

lemma login_response_has_request_id:
  "cs_player_login_response_type = cs_player_login_request_type \<and> cs_player_login_response_type \<noteq> CSMSG_PLAYER_LOGIN_REP"
  by (simp add: msg_defs)

text \<open>Seeking relative to the end moves the put pointer to the start, past any bound check on it.\<close>

lemma seekoff_end_goes_to_start:
  "0 < n \<Longrightarrow> p \<le> n \<Longrightarrow> seekoff (-1) Seek_end False True \<lparr>buf_size = n, gpos = 0, ppos = p\<rparr>
     = (0, \<lparr>buf_size = n, gpos = 0, ppos = 0\<rparr>)"
  by (simp add: seekoff_def Let_def)

lemma seekoff_cur_leaves_block:
  "seekoff 100 Seek_cur False True \<lparr>buf_size = 10, gpos = 0, ppos = 5\<rparr>
     = (105, \<lparr>buf_size = 10, gpos = 0, ppos = 105\<rparr>)"
  by (simp add: seekoff_def Let_def)

text \<open>A head whose length field is below the head size makes \<open>decode\<close> leave its block.\<close>

lemma ss_decode_short_length:
  assumes "16 \<le> n" "uint (ntoh_int16 (peek16 2 data)) = pt" "uint (ntoh_int16 (peek16 0 data)) < 16"
  shows "ss_decode parse pt data n p = OutOfBounds"
  using assms by (simp add: ss_decode_def ss_head_size_def Let_def)

end
