(* ===== verification/TimerWheel.thy ===== *)
theory TimerWheel
  imports Prelude
begin

text \<open>
  \<open>framework/timer_manager.h\<close> and \<open>.cpp\<close>: a two-level timing wheel. The low array has one slot
  per tick of the current cycle, the high array one slot per later cycle. A timer is a reference;
  a slot is the list of its timers in ring order (the theory LinkRing shows that the pointer
  operations on the rings are these list operations). A callback is a list of calls of the timer
  interface that may depend on the whole state.
\<close>

section \<open>State\<close>

type_synonym timer = nat

record wheel =
  has_arrays :: bool
  low_array :: "timer list list"
  high_array :: "timer list list"
  expired :: "timer \<Rightarrow> int"
  curr_expired :: int
  next_expired :: int
  slot_bits :: nat
  slot_size :: int
  slot_mask :: int
  max_expired :: int
  low_pos :: int
  high_pos :: int

definition wheel_new :: "(timer \<Rightarrow> int) \<Rightarrow> wheel" where
  "wheel_new e = \<lparr>has_arrays = False, low_array = [], high_array = [], expired = e,
     curr_expired = 0, next_expired = 0, slot_bits = 0, slot_size = 0, slot_mask = 0,
     max_expired = 0, low_pos = 0, high_pos = 0\<rparr>"

text \<open>
  \<open>init\<close>. \<open>m_step_slot_size\<close> is an \<open>int16_t\<close>, \<open>m_max_expired\<close> an \<open>int32_t\<close>. \<open>None\<close> stands for
  the exception that \<open>new base_timer[n]\<close> throws for a negative \<open>n\<close>.
\<close>

definition timer_init :: "int \<Rightarrow> int \<Rightarrow> wheel \<Rightarrow> (int \<times> wheel) option" where
  "timer_init start_time bits s =
     (if bits < 3 \<or> bits > 20 then Some (-1, s)
      else if has_arrays s then Some (-2, s)
      else let b = nat bits; sz = to_int16 (push_bit b 1) in
        if sz * 2 < 0 then None
        else Some (0, s\<lparr>slot_bits := b, slot_size := sz, slot_mask := NOT (push_bit b (NOT 0)),
                    max_expired := to_int32 (push_bit b sz),
                    curr_expired := start_time, next_expired := start_time + sz,
                    low_pos := 0, high_pos := 0, has_arrays := True,
                    low_array := replicate (nat sz) [], high_array := replicate (nat sz) []\<rparr>))"

definition timer_fini :: "wheel \<Rightarrow> wheel" where
  "timer_fini s =
     (if has_arrays s then s\<lparr>has_arrays := False, low_array := [], high_array := []\<rparr> else s)"

section \<open>Operations on timers\<close>

text \<open>\<open>is_running\<close>: the timer is a member of a ring.\<close>

definition linked :: "timer \<Rightarrow> wheel \<Rightarrow> bool" where
  "linked t s \<longleftrightarrow> t \<in> set (concat (low_array s)) \<or> t \<in> set (concat (high_array s))"

text \<open>\<open>set_expired\<close> returns -1 on both paths.\<close>

definition set_expired :: "timer \<Rightarrow> int \<Rightarrow> wheel \<Rightarrow> int \<times> wheel" where
  "set_expired t e s = (if linked t s then (-1, s) else (-1, s\<lparr>expired := (expired s)(t := e)\<rparr>))"

text \<open>\<open>base_timer_insert(head->m_prev, t, head)\<close> and \<open>base_timer_remove(t)\<close>.\<close>

definition insert_low :: "nat \<Rightarrow> timer \<Rightarrow> wheel \<Rightarrow> wheel" where
  "insert_low i t s = s\<lparr>low_array := (low_array s)[i := low_array s ! i @ [t]]\<rparr>"

definition insert_high :: "nat \<Rightarrow> timer \<Rightarrow> wheel \<Rightarrow> wheel" where
  "insert_high i t s = s\<lparr>high_array := (high_array s)[i := high_array s ! i @ [t]]\<rparr>"

definition unlink :: "timer \<Rightarrow> wheel \<Rightarrow> wheel" where
  "unlink t s = s\<lparr>low_array := map (filter (\<lambda>x. x \<noteq> t)) (low_array s),
                  high_array := map (filter (\<lambda>x. x \<noteq> t)) (high_array s)\<rparr>"

definition add_timer :: "timer \<Rightarrow> wheel \<Rightarrow> int \<times> wheel" where
  "add_timer t s =
     (if \<not> has_arrays s \<or> linked t s then (-1, s)
      else let interval = to_int32 (expired s t - curr_expired s) in
        if interval < 1 \<or> interval > max_expired s then (-2, s)
        else let s1 = (if interval \<ge> slot_size s
                       then insert_high (nat ((drop_bit (slot_bits s) (interval + low_pos s) - 1 + high_pos s)
                              AND slot_mask s)) t s
                       else insert_low (nat ((interval + low_pos s) AND slot_mask s)) t s)
             in (0, if next_expired s1 > expired s1 t then s1\<lparr>next_expired := expired s1 t\<rparr> else s1))"

definition del_timer :: "timer \<Rightarrow> wheel \<Rightarrow> wheel" where
  "del_timer t s = (if linked t s then unlink t s else s)"

section \<open>Callbacks\<close>

datatype timer_call = SetExpired timer int | AddTimer timer | DelTimer timer

fun do_call :: "timer_call \<Rightarrow> wheel \<Rightarrow> wheel" where
  "do_call (SetExpired t e) s = snd (set_expired t e s)"
| "do_call (AddTimer t) s = snd (add_timer t s)"
| "do_call (DelTimer t) s = del_timer t s"

type_synonym 'w on_timeout = "timer \<Rightarrow> wheel \<Rightarrow> 'w \<Rightarrow> timer_call list \<times> 'w"

text \<open>A firing: the timer, the time it was set to and the counter of the wheel at the call.\<close>

type_synonym firing = "timer \<times> int \<times> int"

section \<open>The loop\<close>

text \<open>The inner loop: a callback may add and remove timers, so its end is a theorem.\<close>

partial_function (option) fire_slot ::
  "'w on_timeout \<Rightarrow> wheel \<Rightarrow> 'w \<Rightarrow> firing list \<Rightarrow> (wheel \<times> 'w \<times> firing list) option" where
  "fire_slot cb s w log =
     (case low_array s ! nat (low_pos s) of
        [] \<Rightarrow> Some (s, w, log)
      | t # ts \<Rightarrow>
          (let s1 = unlink t s; r = cb t s1 w
           in fire_slot cb (fold do_call (fst r) s1) (snd r)
                (log @ [(t, expired s t, curr_expired s)])))"

text \<open>Moving the timers of the current high slot to the low array.\<close>

definition move_down :: "timer \<Rightarrow> wheel \<Rightarrow> wheel" where
  "move_down t s =
     (let s1 = unlink t s
      in insert_low (nat ((to_int32 (expired s1 t - curr_expired s1 + low_pos s1)) AND slot_mask s1)) t s1)"

definition cascade :: "wheel \<Rightarrow> wheel" where
  "cascade s =
     (let s1 = fold move_down (high_array s ! nat (high_pos s)) s
      in s1\<lparr>high_pos := (high_pos s1 + 1) AND slot_mask s1\<rparr>)"

definition tick :: "wheel \<Rightarrow> wheel" where
  "tick s =
     (let s1 = s\<lparr>curr_expired := curr_expired s + 1, low_pos := (low_pos s + 1) AND slot_mask s\<rparr>
      in if low_pos s1 = 0 then cascade s1 else s1)"

partial_function (option) run_loop ::
  "'w on_timeout \<Rightarrow> int \<Rightarrow> wheel \<Rightarrow> 'w \<Rightarrow> firing list \<Rightarrow> (wheel \<times> 'w \<times> firing list) option" where
  "run_loop cb now s w log =
     (if curr_expired s < now
      then (case fire_slot cb s w log of
              None \<Rightarrow> None
            | Some (s1, w1, log1) \<Rightarrow> run_loop cb now (tick s1) w1 log1)
      else Some (s, w, log))"

definition skip_ahead :: "int \<Rightarrow> wheel \<Rightarrow> wheel" where
  "skip_ahead now s =
     (let skip = to_int32 ((if now > next_expired s then next_expired s else now) - curr_expired s - 1)
      in if skip > 0
         then s\<lparr>curr_expired := curr_expired s + skip,
                high_pos := (high_pos s + drop_bit (slot_bits s) (low_pos s + skip)) AND slot_mask s,
                low_pos := (low_pos s + skip) AND slot_mask s\<rparr>
         else s)"

text \<open>The search for the first slot in use: the index it stops at.\<close>

definition first_used :: "wheel \<Rightarrow> int" where
  "first_used s =
     low_pos s + int (length (takeWhile (\<lambda>xs. xs = []) (drop (nat (low_pos s)) (low_array s))))"

definition update_next :: "wheel \<Rightarrow> wheel" where
  "update_next s =
     (if next_expired s < curr_expired s
      then s\<lparr>next_expired := curr_expired s + first_used s - low_pos s\<rparr>
      else s)"

definition run_until :: "'w on_timeout \<Rightarrow> int \<Rightarrow> wheel \<Rightarrow> 'w \<Rightarrow> (wheel \<times> 'w \<times> firing list) option" where
  "run_until cb now s w =
     (case run_loop cb now (skip_ahead now s) w [] of
        None \<Rightarrow> None
      | Some (s1, w1, log) \<Rightarrow> Some (update_next s1, w1, log))"


section \<open>Invariant\<close>

text \<open>
  \<open>geometry\<close>: sizes and positions. \<open>placed\<close>: the low slot \<open>i\<close> holds the timers that expire when
  the low position next reaches \<open>i\<close>, the high slot \<open>j\<close> those of the cycle in which the high
  position leaves \<open>j\<close>. \<open>next_ok\<close>: no timer is due before \<open>m_next_expired\<close>, which lies in the
  current cycle.
\<close>

definition geometry :: "wheel \<Rightarrow> bool" where
  "geometry s \<longleftrightarrow> has_arrays s \<and> 3 \<le> slot_bits s \<and> slot_bits s \<le> 14
     \<and> slot_size s = 2 ^ slot_bits s \<and> slot_mask s = mask (slot_bits s)
     \<and> max_expired s = 2 ^ (2 * slot_bits s)
     \<and> int (length (low_array s)) = slot_size s \<and> int (length (high_array s)) = slot_size s
     \<and> 0 \<le> low_pos s \<and> low_pos s < slot_size s \<and> 0 \<le> high_pos s \<and> high_pos s < slot_size s"

definition cycle_base :: "wheel \<Rightarrow> int" where
  "cycle_base s = curr_expired s - low_pos s"

definition low_placed :: "wheel \<Rightarrow> bool" where
  "low_placed s \<longleftrightarrow> (\<forall>i < length (low_array s). \<forall>t \<in> set (low_array s ! i).
     expired s t = curr_expired s + (int i - low_pos s) mod slot_size s)"

definition high_placed :: "wheel \<Rightarrow> bool" where
  "high_placed s \<longleftrightarrow> (\<forall>j < length (high_array s). \<forall>t \<in> set (high_array s ! j).
     (expired s t - cycle_base s) div slot_size s = (int j - high_pos s) mod slot_size s + 1)"

definition single :: "wheel \<Rightarrow> bool" where
  "single s \<longleftrightarrow> distinct (concat (low_array s) @ concat (high_array s))"

definition next_ok :: "wheel \<Rightarrow> bool" where
  "next_ok s \<longleftrightarrow> next_expired s \<le> cycle_base s + slot_size s
     \<and> (\<forall>t. linked t s \<longrightarrow> next_expired s \<le> expired s t)"

definition wheel_inv :: "wheel \<Rightarrow> bool" where
  "wheel_inv s \<longleftrightarrow> geometry s \<and> low_placed s \<and> high_placed s \<and> single s \<and> next_ok s"

text \<open>The interval to the timer fits the \<open>int\<close> that \<open>add_timer\<close> computes it in.\<close>

definition near :: "timer \<Rightarrow> wheel \<Rightarrow> bool" where
  "near t s \<longleftrightarrow> - (2 ^ 31) \<le> expired s t - curr_expired s \<and> expired s t - curr_expired s < 2 ^ 31"

lemma geometry_size:
  assumes "geometry s"
  shows "8 \<le> slot_size s" "slot_size s \<le> 16384" "0 < slot_size s"
  using assms power_increasing [of 3 "slot_bits s" "2 :: int"]
    power_increasing [of "slot_bits s" 14 "2 :: int"]
  by (simp_all add: geometry_def)

lemma max_slots: "geometry s \<Longrightarrow> max_expired s = slot_size s * slot_size s"
  by (simp add: geometry_def mult_2 power_add)

lemma and_slot_mask: "geometry s \<Longrightarrow> x AND slot_mask s = x mod slot_size s"
  by (simp add: geometry_def flip: take_bit_eq_mask take_bit_eq_mod)

lemma drop_slot_bits: "geometry s \<Longrightarrow> drop_bit (slot_bits s) x = x div slot_size s"
  by (simp add: geometry_def drop_bit_eq_div)

lemma nat_mod_lt: "0 < (m::int) \<Longrightarrow> nat (x mod m) < nat m"
  by (simp add: nat_less_eq_zless)

lemma timer_init_inv:
  assumes "timer_init start bits (wheel_new e) = Some (ret, s)" "3 \<le> bits" "bits \<le> 14"
  shows "ret = 0 \<and> wheel_inv s \<and> curr_expired s = start \<and> start \<le> next_expired s \<and> (\<forall>t. \<not> linked t s)"
proof -
  have b: "3 \<le> nat bits" "nat bits \<le> 14" using assms(2,3) by auto
  have p: "(2::int) ^ nat bits \<le> 2 ^ 14" "(2::int) ^ 3 \<le> 2 ^ nat bits"
    using b by (intro power_increasing; simp)+
  have sz: "to_int16 (2 ^ nat bits) = 2 ^ nat bits" using p by (simp add: to_int16_id)
  have "(2::int) ^ (2 * nat bits) \<le> 2 ^ 28" using b by (intro power_increasing) auto
  then have mx: "to_int32 (2 ^ nat bits * 2 ^ nat bits) = 2 ^ (2 * nat bits)"
    unfolding mult_2 power_add by (intro to_int32_id) (auto intro: order_trans [of _ 0])
  have mk: "NOT (push_bit (nat bits) (NOT 0)) = (mask (nat bits) :: int)"
    by (simp add: push_bit_minus_one_eq_not_mask)
  have p1: "push_bit (nat bits) 1 = (2 :: int) ^ nat bits"
    by (simp add: push_bit_eq_mult)
  have p2: "push_bit (nat bits) (2 ^ nat bits :: int) = 2 ^ nat bits * 2 ^ nat bits"
    by (simp add: push_bit_eq_mult)
  have "s = \<lparr>has_arrays = True, low_array = replicate (nat (2 ^ nat bits)) [],
      high_array = replicate (nat (2 ^ nat bits)) [], expired = e, curr_expired = start,
      next_expired = start + 2 ^ nat bits, slot_bits = nat bits, slot_size = 2 ^ nat bits,
      slot_mask = mask (nat bits), max_expired = 2 ^ (2 * nat bits), low_pos = 0, high_pos = 0\<rparr> \<and> ret = 0"
    using assms by (auto simp: timer_init_def wheel_new_def Let_def p1 sz mk p2 mx split: if_splits)
  then show ?thesis
    using b by (auto simp: wheel_inv_def geometry_def low_placed_def high_placed_def single_def
        next_ok_def linked_def cycle_base_def concat_replicate_trivial)
qed


section \<open>Lists of slots\<close>

lemma slot_member: "i < length xss \<Longrightarrow> t \<in> set (xss ! i) \<Longrightarrow> t \<in> set (concat xss)"
  using nth_mem by fastforce

lemma slot_of: "t \<in> set (concat xss) \<Longrightarrow> \<exists>i < length xss. t \<in> set (xss ! i)"
  by (metis UN_E in_set_conv_nth set_concat)

lemma set_concat_snoc:
  "i < length xss \<Longrightarrow> set (concat (xss[i := xss ! i @ [t]])) = insert t (set (concat xss))"
  by (induction xss arbitrary: i) (auto split: nat.splits)

lemma distinct_concat_snoc:
  "i < length xss \<Longrightarrow> distinct (concat (xss[i := xss ! i @ [t]]))
     \<longleftrightarrow> distinct (concat xss) \<and> t \<notin> set (concat xss)"
proof (induction xss arbitrary: i)
  case (Cons xs xss)
  show ?case
  proof (cases i)
    case 0
    then show ?thesis by auto
  next
    case (Suc k)
    with Cons.prems have k: "k < length xss" by simp
    from set_concat_snoc [OF k] Cons.IH [OF k] Suc show ?thesis by auto
  qed
qed simp

lemma concat_filter: "concat (map (filter P) xss) = filter P (concat xss)"
  by (induction xss) auto

lemma filter_absent: "t \<notin> set (concat xss) \<Longrightarrow> map (filter (\<lambda>x. x \<noteq> t)) xss = xss"
  by (induction xss) (auto simp: filter_id_conv)

lemma filter_head_slot:
  assumes "distinct (concat xss)" "i < length xss" "xss ! i = t # ts"
  shows "map (filter (\<lambda>x. x \<noteq> t)) xss = xss[i := ts]"
  using assms
proof (induction xss arbitrary: i)
  case (Cons xs xss)
  show ?case
  proof (cases i)
    case 0
    with Cons.prems have "xs = t # ts" "t \<notin> set (concat xss)" "t \<notin> set ts" by auto
    with 0 show ?thesis using filter_absent [of t xss] by (auto simp: filter_id_conv)
  next
    case (Suc k)
    with Cons.prems have k: "k < length xss" "xss ! k = t # ts" "distinct (concat xss)" by auto
    then have "t \<in> set (concat xss)" using slot_member [OF k(1), of t] by simp
    with Cons.prems have "t \<notin> set xs" by auto
    then show ?thesis using Cons.IH [OF k(3,1,2)] Suc by (auto simp: filter_id_conv)
  qed
qed simp

section \<open>The operations keep the invariant\<close>

lemma unlink_sel [simp]:
  "has_arrays (unlink t s) = has_arrays s" "expired (unlink t s) = expired s"
  "curr_expired (unlink t s) = curr_expired s" "next_expired (unlink t s) = next_expired s"
  "slot_bits (unlink t s) = slot_bits s" "slot_size (unlink t s) = slot_size s"
  "slot_mask (unlink t s) = slot_mask s" "max_expired (unlink t s) = max_expired s"
  "low_pos (unlink t s) = low_pos s" "high_pos (unlink t s) = high_pos s"
  "cycle_base (unlink t s) = cycle_base s"
  by (simp_all add: unlink_def cycle_base_def)

lemma linked_unlink: "linked x (unlink t s) \<longleftrightarrow> linked x s \<and> x \<noteq> t"
  by (auto simp: linked_def unlink_def)

lemma unlink_inv:
  assumes "wheel_inv s"
  shows "wheel_inv (unlink t s)"
proof -
  have "geometry (unlink t s)"
    using assms by (simp add: wheel_inv_def geometry_def unlink_def)
  moreover have "low_placed (unlink t s)" "high_placed (unlink t s)"
    using assms by (simp_all add: wheel_inv_def low_placed_def high_placed_def)
      (simp_all add: unlink_def)
  moreover have "single (unlink t s)"
    using assms by (auto simp: wheel_inv_def single_def unlink_def concat_filter)
  moreover have "next_ok (unlink t s)"
    using assms by (simp add: wheel_inv_def next_ok_def linked_unlink)
  ultimately show ?thesis by (simp add: wheel_inv_def)
qed

lemma unlink_low: "low_array (unlink t s) = map (filter (\<lambda>x. x \<noteq> t)) (low_array s)"
  by (simp add: unlink_def)

text \<open>What no timer call changes: everything but the slots, \<open>expired\<close> and \<open>m_next_expired\<close>.\<close>

definition same_time :: "wheel \<Rightarrow> wheel \<Rightarrow> bool" where
  "same_time s s' \<longleftrightarrow> curr_expired s' = curr_expired s \<and> low_pos s' = low_pos s
     \<and> high_pos s' = high_pos s \<and> slot_size s' = slot_size s \<and> length (low_array s') = length (low_array s)"

lemma same_time_refl [simp]: "same_time s s"
  by (simp add: same_time_def)

lemma same_time_trans: "same_time s s1 \<Longrightarrow> same_time s1 s2 \<Longrightarrow> same_time s s2"
  by (simp add: same_time_def)

lemma same_time_unlink [simp]: "same_time s (unlink t s)"
  by (simp add: same_time_def unlink_def)


lemma insert_sel [simp]:
  "curr_expired (insert_low i t s) = curr_expired s" "curr_expired (insert_high i t s) = curr_expired s"
  "expired (insert_low i t s) = expired s" "expired (insert_high i t s) = expired s"
  "next_expired (insert_low i t s) = next_expired s" "next_expired (insert_high i t s) = next_expired s"
  "slot_size (insert_low i t s) = slot_size s" "slot_size (insert_high i t s) = slot_size s"
  "slot_mask (insert_low i t s) = slot_mask s" "high_pos (insert_low i t s) = high_pos s"
  "high_pos (insert_high i t s) = high_pos s"
  "low_pos (insert_low i t s) = low_pos s" "low_pos (insert_high i t s) = low_pos s"
  "slot_bits (insert_low i t s) = slot_bits s" "slot_bits (insert_high i t s) = slot_bits s"
  "cycle_base (insert_low i t s) = cycle_base s" "cycle_base (insert_high i t s) = cycle_base s"
  by (simp_all add: insert_low_def insert_high_def cycle_base_def)

lemma insert_geometry:
  "geometry s \<Longrightarrow> geometry (insert_low i t s)" "geometry s \<Longrightarrow> geometry (insert_high i t s)"
  by (simp_all add: geometry_def insert_low_def insert_high_def)

lemma linked_insert:
  "i < length (low_array s) \<Longrightarrow> linked x (insert_low i t s) \<longleftrightarrow> linked x s \<or> x = t"
  "j < length (high_array s) \<Longrightarrow> linked x (insert_high j t s) \<longleftrightarrow> linked x s \<or> x = t"
  by (auto simp: linked_def insert_low_def insert_high_def set_concat_snoc simp del: set_concat)

lemma single_insert:
  "i < length (low_array s) \<Longrightarrow> \<not> linked t s \<Longrightarrow> single s \<Longrightarrow> single (insert_low i t s)"
  "j < length (high_array s) \<Longrightarrow> \<not> linked t s \<Longrightarrow> single s \<Longrightarrow> single (insert_high j t s)"
  by (auto simp: linked_def insert_low_def insert_high_def single_def set_concat_snoc
      distinct_concat_snoc simp del: set_concat)

lemma insert_low_placed:
  "i < length (low_array s) \<Longrightarrow> low_placed s \<Longrightarrow>
   expired s t = curr_expired s + (int i - low_pos s) mod slot_size s \<Longrightarrow> low_placed (insert_low i t s)"
  by (auto simp: low_placed_def insert_low_def nth_list_update)

lemma insert_high_placed:
  "j < length (high_array s) \<Longrightarrow> high_placed s \<Longrightarrow>
   (expired s t - cycle_base s) div slot_size s = (int j - high_pos s) mod slot_size s + 1 \<Longrightarrow>
   high_placed (insert_high j t s)"
  by (auto simp: high_placed_def insert_high_def nth_list_update cycle_base_def)

lemma insert_other_placed:
  "low_placed s \<Longrightarrow> low_placed (insert_high j t s)" "high_placed s \<Longrightarrow> high_placed (insert_low i t s)"
  by (simp_all add: low_placed_def high_placed_def insert_low_def insert_high_def cycle_base_def)

text \<open>Where \<open>add_timer\<close> puts a timer.\<close>

definition low_slot :: "timer \<Rightarrow> wheel \<Rightarrow> nat" where
  "low_slot t s = nat ((expired s t - curr_expired s + low_pos s) mod slot_size s)"

definition high_slot :: "timer \<Rightarrow> wheel \<Rightarrow> nat" where
  "high_slot t s =
     nat (((expired s t - curr_expired s + low_pos s) div slot_size s - 1 + high_pos s) mod slot_size s)"

definition lower_next :: "timer \<Rightarrow> wheel \<Rightarrow> wheel" where
  "lower_next t s = s\<lparr>next_expired := min (next_expired s) (expired s t)\<rparr>"

lemma add_timer_cases:
  assumes "geometry s" "near t s" "\<not> linked t s"
  obtains (far) "expired s t - curr_expired s < 1 \<or> expired s t - curr_expired s > max_expired s"
      "add_timer t s = (-2, s)"
    | (low) "1 \<le> expired s t - curr_expired s" "expired s t - curr_expired s < slot_size s"
      "add_timer t s = (0, lower_next t (insert_low (low_slot t s) t s))"
    | (high) "slot_size s \<le> expired s t - curr_expired s" "expired s t - curr_expired s \<le> max_expired s"
      "add_timer t s = (0, lower_next t (insert_high (high_slot t s) t s))"
proof -
  have d: "to_int32 (expired s t - curr_expired s) = expired s t - curr_expired s"
    using assms(2) by (simp add: near_def to_int32_id)
  have a: "has_arrays s" using assms(1) by (simp add: geometry_def)
  have m: "(if next_expired s' > expired s' t then s'\<lparr>next_expired := expired s' t\<rparr> else s') = lower_next t s'"
    for s' by (simp add: lower_next_def min_def)
  show ?thesis
  proof (cases "expired s t - curr_expired s < 1 \<or> expired s t - curr_expired s > max_expired s")
    case True
    then show ?thesis using far assms(3) a by (simp add: add_timer_def d Let_def)
  next
    case False
    then show ?thesis using low high assms(3) a
      unfolding add_timer_def d Let_def m and_slot_mask [OF assms(1)] drop_slot_bits [OF assms(1)]
        low_slot_def high_slot_def
      by (cases "slot_size s \<le> expired s t - curr_expired s") auto
  qed
qed

lemma lower_next_sel [simp]:
  "low_array (lower_next t s) = low_array s" "high_array (lower_next t s) = high_array s"
  "expired (lower_next t s) = expired s" "curr_expired (lower_next t s) = curr_expired s"
  "low_pos (lower_next t s) = low_pos s" "high_pos (lower_next t s) = high_pos s"
  "slot_size (lower_next t s) = slot_size s" "linked x (lower_next t s) = linked x s"
  by (simp_all add: lower_next_def linked_def)

text \<open>Lowering \<open>m_next_expired\<close> to the added timer restores \<open>next_ok\<close>.\<close>

lemma lower_next_inv:
  assumes "geometry s" "low_placed s" "high_placed s" "single s" "next_expired s \<le> cycle_base s + slot_size s"
    and "\<And>x. linked x s \<Longrightarrow> x \<noteq> t \<Longrightarrow> next_expired s \<le> expired s x"
  shows "wheel_inv (lower_next t s)"
proof -
  have "min (next_expired s) (expired s t) \<le> expired s x" if "linked x s" for x
    using assms(6) [OF that] by (cases "x = t") auto
  moreover have "cycle_base (lower_next t s) = cycle_base s" by (simp add: cycle_base_def)
  moreover have "geometry (lower_next t s)" "single (lower_next t s)"
    using assms(1,4) by (simp_all add: geometry_def single_def lower_next_def)
  ultimately show ?thesis
    using assms by (simp add: wheel_inv_def low_placed_def high_placed_def next_ok_def)
      (simp add: lower_next_def min.coboundedI1)
qed

lemma slot_bounds:
  assumes "geometry s"
  shows "low_slot t s < length (low_array s)" "high_slot t s < length (high_array s)"
  using assms geometry_size(3) [OF assms]
  by (auto simp: geometry_def low_slot_def high_slot_def nat_less_iff)

lemma mod_shift: "0 \<le> (d::int) \<Longrightarrow> d < m \<Longrightarrow> (int (nat ((d + p) mod m)) - p) mod m = d"
  by (simp add: mod_diff_left_eq)

lemma div_below:
  assumes "0 < (m::int)" "x < k * m"
  shows "x div m < k"
proof (rule ccontr)
  assume "\<not> x div m < k"
  then have "k * m \<le> x div m * m" using assms(1) by (simp add: mult_right_mono)
  also have "\<dots> \<le> x" using assms(1) by (metis div_mult_mod_eq le_add_same_cancel1 pos_mod_sign)
  finally show False using assms(2) by simp
qed

lemma add_timer_inv:
  assumes inv: "wheel_inv s" and n: "near t s \<or> linked t s" and a: "add_timer t s = (ret, s')"
  shows "wheel_inv s' \<and> same_time s s' \<and> expired s' = expired s
    \<and> low_array s' ! nat (low_pos s) = low_array s ! nat (low_pos s)
    \<and> (\<forall>x. linked x s' \<longleftrightarrow> linked x s \<or> ret = 0 \<and> x = t)"
proof (cases "linked t s")
  case True
  then show ?thesis using a inv by (auto simp: add_timer_def)
next
  case False
  with n have near: "near t s" by simp
  from inv have g: "geometry s" and p: "low_placed s" "high_placed s" "single s" "next_ok s"
    by (simp_all add: wheel_inv_def)
  note b = slot_bounds [OF g, of t]
  let ?d = "expired s t - curr_expired s"
  from p(4) have nx: "next_expired s \<le> cycle_base s + slot_size s"
      "\<And>x. linked x s \<Longrightarrow> next_expired s \<le> expired s x"
    by (auto simp: next_ok_def)
  from g near False show ?thesis
  proof (cases rule: add_timer_cases)
    case far
    then show ?thesis using a inv by simp
  next
    case low
    have e: "(int (low_slot t s) - low_pos s) mod slot_size s = ?d"
      using low unfolding low_slot_def by (intro mod_shift) auto
    then have pl: "low_placed (insert_low (low_slot t s) t s)"
      using b p by (intro insert_low_placed) auto
    have "wheel_inv (lower_next t (insert_low (low_slot t s) t s))"
      using g p b False nx linked_insert(1) [OF b(1)]
      by (intro lower_next_inv insert_geometry pl insert_other_placed single_insert) auto
    moreover have "low_slot t s \<noteq> nat (low_pos s)"
    proof
      assume "low_slot t s = nat (low_pos s)"
      then show False using e low g by (simp add: geometry_def)
    qed
    ultimately show ?thesis
      using a low linked_insert(1) [OF b(1)] by (auto simp: same_time_def insert_low_def)
  next
    case high
    have q: "1 \<le> (?d + low_pos s) div slot_size s" "(?d + low_pos s) div slot_size s - 1 < slot_size s"
    proof -
      show "1 \<le> (?d + low_pos s) div slot_size s"
        using high g geometry_size [OF g] by (simp add: geometry_def pos_imp_zdiv_pos_iff int_one_le_iff_zero_less)
      have "?d + low_pos s < (slot_size s + 1) * slot_size s"
        using high max_slots [OF g] g by (simp add: geometry_def algebra_simps)
      then have "(?d + low_pos s) div slot_size s < slot_size s + 1"
        by (rule div_below [OF geometry_size(3) [OF g]])
      then show "(?d + low_pos s) div slot_size s - 1 < slot_size s" by simp
    qed
    then have "(int (high_slot t s) - high_pos s) mod slot_size s = (?d + low_pos s) div slot_size s - 1"
      unfolding high_slot_def by (intro mod_shift) auto
    then have pl: "high_placed (insert_high (high_slot t s) t s)"
      using b p by (intro insert_high_placed) (auto simp: cycle_base_def diff_diff_eq2 diff_add_eq)
    have "wheel_inv (lower_next t (insert_high (high_slot t s) t s))"
      using g p b False nx linked_insert(2) [OF b(2)]
      by (intro lower_next_inv insert_geometry pl insert_other_placed single_insert) auto
    then show ?thesis
      using a high linked_insert(2) [OF b(2)] by (auto simp: same_time_def insert_high_def)
  qed
qed


lemma del_timer_inv: "wheel_inv s \<Longrightarrow> wheel_inv (del_timer t s)"
  by (simp add: del_timer_def unlink_inv)

lemma set_expired_inv:
  assumes "wheel_inv s"
  shows "wheel_inv (snd (set_expired t e s))"
proof (cases "linked t s")
  case False
  have keep: "((expired s)(t := e)) x = expired s x" if "linked x s" for x
    using False that by auto
  let ?s = "s\<lparr>expired := (expired s)(t := e)\<rparr>"
  have l: "linked x ?s = linked x s" for x by (simp add: linked_def)
  have "i < length (low_array s) \<Longrightarrow> t \<notin> set (low_array s ! i)"
       "i < length (high_array s) \<Longrightarrow> t \<notin> set (high_array s ! i)" for i
    using False slot_member unfolding linked_def by metis+
  then have "low_placed ?s" "high_placed ?s"
    using assms by (auto simp: wheel_inv_def low_placed_def high_placed_def cycle_base_def)
  moreover have "geometry ?s" "single ?s"
    using assms by (simp_all add: wheel_inv_def geometry_def single_def)
  moreover have "next_ok ?s"
    using assms keep l by (simp add: wheel_inv_def next_ok_def cycle_base_def)
  ultimately show ?thesis using False by (simp add: wheel_inv_def set_expired_def)
qed (use assms in \<open>simp add: set_expired_def\<close>)

text \<open>A list of timer calls, each \<open>AddTimer\<close> of which is in range of the \<open>int\<close> interval.\<close>

definition call_near :: "timer_call \<Rightarrow> wheel \<Rightarrow> bool" where
  "call_near c s = (case c of AddTimer t \<Rightarrow> near t s \<or> linked t s | _ \<Rightarrow> True)"

fun calls_near :: "timer_call list \<Rightarrow> wheel \<Rightarrow> bool" where
  "calls_near [] s \<longleftrightarrow> True"
| "calls_near (c # cs) s \<longleftrightarrow> call_near c s \<and> calls_near cs (do_call c s)"

lemma do_call_inv:
  assumes "wheel_inv s" "call_near c s"
  shows "wheel_inv (do_call c s) \<and> same_time s (do_call c s)
    \<and> length (low_array (do_call c s) ! nat (low_pos s)) \<le> length (low_array s ! nat (low_pos s))"
proof (cases c)
  case (SetExpired t e)
  have "same_time s (snd (set_expired t e s))" "low_array (snd (set_expired t e s)) = low_array s"
    by (simp_all add: set_expired_def same_time_def)
  then show ?thesis using SetExpired set_expired_inv [OF assms(1)] by simp
next
  case (AddTimer t)
  obtain ret s' where a: "add_timer t s = (ret, s')" by fastforce
  show ?thesis using add_timer_inv [OF assms(1) _ a] assms(2) AddTimer a by (simp add: call_near_def)
next
  case (DelTimer t)
  have "nat (low_pos s) < length (low_array s)"
    using assms(1) by (simp add: wheel_inv_def geometry_def nat_less_iff)
  then show ?thesis
    using del_timer_inv [OF assms(1)] DelTimer
    by (simp add: del_timer_def unlink_low del: length_filter_le)
      (simp add: length_filter_le)
qed

lemma calls_inv:
  assumes "wheel_inv s" "calls_near cs s"
  shows "wheel_inv (fold do_call cs s) \<and> same_time s (fold do_call cs s)
    \<and> length (low_array (fold do_call cs s) ! nat (low_pos s)) \<le> length (low_array s ! nat (low_pos s))"
  using assms
proof (induction cs arbitrary: s)
  case (Cons c cs)
  from Cons.prems have step: "wheel_inv (do_call c s) \<and> same_time s (do_call c s)
    \<and> length (low_array (do_call c s) ! nat (low_pos s)) \<le> length (low_array s ! nat (low_pos s))"
    by (intro do_call_inv) auto
  with Cons.IH [of "do_call c s"] Cons.prems(2) show ?case
    by (auto simp: same_time_def)
qed simp

text \<open>A timer that no call removes stays linked with the time it was set to.\<close>

lemma do_call_keeps:
  assumes "wheel_inv s" "call_near c s" "c \<noteq> DelTimer x" "linked x s"
  shows "linked x (do_call c s) \<and> expired (do_call c s) x = expired s x"
proof (cases c)
  case (AddTimer t)
  obtain ret s' where a: "add_timer t s = (ret, s')" by fastforce
  show ?thesis using add_timer_inv [OF assms(1) _ a] assms(2,4) AddTimer a by (simp add: call_near_def)
next
  case (SetExpired t e)
  have "linked x (s\<lparr>expired := f\<rparr>)" for f using assms(4) by (simp add: linked_def)
  then show ?thesis using SetExpired assms(4) by (auto simp: set_expired_def)
next
  case (DelTimer t)
  then show ?thesis using assms(3,4) by (auto simp: del_timer_def linked_unlink)
qed

lemma calls_keep:
  assumes "wheel_inv s" "calls_near cs s" "DelTimer x \<notin> set cs" "linked x s"
  shows "linked x (fold do_call cs s) \<and> expired (fold do_call cs s) x = expired s x"
  using assms
proof (induction cs arbitrary: s)
  case (Cons c cs)
  from Cons.prems have "linked x (do_call c s) \<and> expired (do_call c s) x = expired s x"
    and "wheel_inv (do_call c s)"
    using do_call_keeps [of s c x] do_call_inv [of s c] by auto
  with Cons show ?case by auto
qed simp


lemma linked_slots:
  "linked x s \<longleftrightarrow> (\<exists>i < length (low_array s). x \<in> set (low_array s ! i))
     \<or> (\<exists>j < length (high_array s). x \<in> set (high_array s ! j))"
  unfolding linked_def using slot_of slot_member by metis

section \<open>One slot\<close>

text \<open>
  What is asked of the callbacks: whatever state they are called in, their \<open>AddTimer\<close> calls are in
  range. \<open>keeps cb x\<close>: no callback removes the timer \<open>x\<close>.
\<close>

definition cb_near :: "'w on_timeout \<Rightarrow> bool" where
  "cb_near cb \<longleftrightarrow> (\<forall>t s w. wheel_inv s \<and> \<not> linked t s \<longrightarrow> calls_near (fst (cb t s w)) s)"

definition keeps :: "'w on_timeout \<Rightarrow> timer \<Rightarrow> bool" where
  "keeps cb x \<longleftrightarrow> (\<forall>t s w. DelTimer x \<notin> set (fst (cb t s w)))"

text \<open>\<open>settled x s log s'\<close>: a timer of \<open>s\<close> is still set in \<open>s'\<close> or has fired.\<close>

definition settled :: "timer \<Rightarrow> wheel \<Rightarrow> firing list \<Rightarrow> wheel \<Rightarrow> bool" where
  "settled x s log s' \<longleftrightarrow>
     (linked x s \<longrightarrow> linked x s' \<and> expired s' x = expired s x \<or> (\<exists>c. (x, expired s x, c) \<in> set log))"

lemma settled_refl [simp]: "settled x s [] s"
  by (simp add: settled_def)

lemma settled_trans:
  "settled x s log1 s1 \<Longrightarrow> settled x s1 log2 s2 \<Longrightarrow> settled x s (log1 @ log2) s2"
  by (auto simp: settled_def)

lemma low_pos_bound: "wheel_inv s \<Longrightarrow> nat (low_pos s) < length (low_array s)"
  by (simp add: wheel_inv_def geometry_def nat_less_iff)

lemma slot_now:
  assumes "wheel_inv s" "t \<in> set (low_array s ! nat (low_pos s))"
  shows "linked t s" "expired s t = curr_expired s"
proof -
  show "linked t s"
    using slot_member [OF low_pos_bound [OF assms(1)] assms(2)] by (simp add: linked_def)
  have "0 \<le> low_pos s" using assms(1) by (simp add: wheel_inv_def geometry_def)
  then show "expired s t = curr_expired s"
    using assms low_pos_bound [OF assms(1)] by (auto simp: wheel_inv_def low_placed_def)
qed

lemma unlink_low_slot:
  assumes "wheel_inv s" "low_array s ! nat (low_pos s) = t # ts"
  shows "low_array (unlink t s) ! nat (low_pos s) = ts"
proof -
  have "distinct (concat (low_array s))" using assms(1) by (simp add: wheel_inv_def single_def)
  from filter_head_slot [OF this low_pos_bound [OF assms(1)] assms(2)] show ?thesis
    using low_pos_bound [OF assms(1)] by (simp add: unlink_low)
qed

lemma fire_slot_correct:
  assumes "wheel_inv s" "cb_near cb"
  shows "\<exists>s' w' log'. fire_slot cb s w log = Some (s', w', log @ log')
    \<and> wheel_inv s' \<and> same_time s s' \<and> low_array s' ! nat (low_pos s) = []
    \<and> (\<forall>f \<in> set log'. snd f = (curr_expired s, curr_expired s))
    \<and> (\<forall>x. keeps cb x \<longrightarrow> settled x s log' s')"
  using assms(1)
proof (induction "length (low_array s ! nat (low_pos s))" arbitrary: s w log rule: less_induct)
  case less
  show ?case
  proof (cases "low_array s ! nat (low_pos s)")
    case Nil
    then have "fire_slot cb s w log = Some (s, w, log @ [])" by (subst fire_slot.simps) simp
    with Nil less.prems show ?thesis by fastforce
  next
    case (Cons t ts)
    have tm: "linked t s" "expired s t = curr_expired s"
      using slot_now [OF less.prems, of t] Cons by auto
    define s1 where "s1 = unlink t s"
    define r where "r = cb t s1 w"
    define s2 where "s2 = fold do_call (fst r) s1"
    have i1: "wheel_inv s1" "\<not> linked t s1"
      using unlink_inv [OF less.prems] by (simp_all add: s1_def linked_unlink)
    have near: "calls_near (fst r) s1" using assms(2) i1 by (simp add: cb_near_def r_def)
    from calls_inv [OF i1(1) near] have i2: "wheel_inv s2" "same_time s1 s2"
      and len: "length (low_array s2 ! nat (low_pos s1)) \<le> length (low_array s1 ! nat (low_pos s1))"
      by (simp_all add: s2_def)
    have st: "same_time s s2" using i2(2) same_time_trans same_time_unlink unfolding s1_def by blast
    have "length (low_array s2 ! nat (low_pos s2)) < length (low_array s ! nat (low_pos s))"
      using len unlink_low_slot [OF less.prems Cons] Cons st by (simp add: s1_def same_time_def)
    from less.hyps [OF this i2(1)] obtain s' w' log' where
      f: "fire_slot cb s2 (snd r) (log @ [(t, expired s t, curr_expired s)])
            = Some (s', w', (log @ [(t, expired s t, curr_expired s)]) @ log')"
      and i: "wheel_inv s'" "same_time s2 s'" "low_array s' ! nat (low_pos s2) = []"
      and l: "\<forall>f \<in> set log'. snd f = (curr_expired s2, curr_expired s2)"
      and x: "\<forall>x. keeps cb x \<longrightarrow> settled x s2 log' s'" by blast
    have "fire_slot cb s w log = Some (s', w', log @ ((t, expired s t, curr_expired s) # log'))"
      using f Cons by (subst fire_slot.simps) (simp add: Let_def s1_def r_def s2_def)
    moreover have "same_time s s'" using st i(2) by (rule same_time_trans)
    moreover have "settled x s ((t, expired s t, curr_expired s) # log') s'" if "keeps cb x" for x
    proof -
      have "settled x s [(t, expired s t, curr_expired s)] s2"
      proof (cases "x = t \<or> \<not> linked x s")
        case False
        then have "linked x s1" by (simp add: s1_def linked_unlink)
        from calls_keep [OF i1(1) near _ this] that show ?thesis
          by (auto simp: keeps_def r_def s2_def settled_def s1_def)
      qed (auto simp: settled_def)
      from settled_trans [OF this, of log' s'] x that show ?thesis by simp
    qed
    ultimately show ?thesis
      using i l tm st
      by (intro exI [of _ s'] exI [of _ w'] exI [of _ "(t, expired s t, curr_expired s) # log'"] conjI)
        (auto simp: same_time_def)
  qed
qed

section \<open>One tick\<close>

text \<open>Every linked timer of a well-formed wheel is due now or later.\<close>

lemma linked_due:
  assumes "wheel_inv s" "linked t s"
  shows "curr_expired s \<le> expired s t"
proof -
  from assms(1) have g: "geometry s" and p: "low_placed s" "high_placed s" by (simp_all add: wheel_inv_def)
  note pos = geometry_size(3) [OF g]
  from assms(2) show ?thesis unfolding linked_def
  proof
    assume "t \<in> set (concat (low_array s))"
    from slot_of [OF this] obtain i where "i < length (low_array s)" "t \<in> set (low_array s ! i)" by auto
    then have "expired s t = curr_expired s + (int i - low_pos s) mod slot_size s"
      using p(1) by (simp add: low_placed_def)
    then show ?thesis using pos_mod_sign [OF pos] by (simp only: le_add_same_cancel1)
  next
    assume "t \<in> set (concat (high_array s))"
    from slot_of [OF this] obtain j where "j < length (high_array s)" "t \<in> set (high_array s ! j)" by auto
    then have "(expired s t - cycle_base s) div slot_size s = (int j - high_pos s) mod slot_size s + 1"
      using p(2) by (simp add: high_placed_def)
    then have "1 \<le> (expired s t - cycle_base s) div slot_size s"
      using pos_mod_sign [OF pos] by (simp only: le_add_same_cancel2)
    then have "slot_size s \<le> expired s t - cycle_base s"
      using pos by (simp add: pos_imp_zdiv_pos_iff int_one_le_iff_zero_less)
    moreover have "low_pos s < slot_size s" using g by (simp add: geometry_def)
    ultimately show ?thesis by (simp only: cycle_base_def)
  qed
qed


lemma mod_pred:
  assumes "0 < (m::int)" "x mod m \<noteq> 0"
  shows "(x - 1) mod m = x mod m - 1"
proof -
  have "0 \<le> x mod m - 1" "x mod m - 1 < m"
    using assms pos_mod_sign [OF assms(1), of x] pos_mod_bound [OF assms(1), of x] by linarith+
  then have "(x mod m - 1) mod m = x mod m - 1" by (rule mod_pos_pos_trivial)
  then show ?thesis by (simp add: mod_diff_left_eq)
qed

lemma mod_diff_zero:
  assumes "0 \<le> a" "a < m" "0 \<le> b" "b < m" "(a - b) mod m = (0::int)"
  shows "a = b"
proof -
  have "a mod m = b mod m" using assms(5) by (simp add: mod_eq_dvd_iff dvd_eq_mod_eq_0)
  then show ?thesis using assms(1-4) by simp
qed

text \<open>Where \<open>cascade\<close> puts a timer.\<close>

definition down_slot :: "timer \<Rightarrow> wheel \<Rightarrow> nat" where
  "down_slot t s = nat (to_int32 (expired s t - curr_expired s + low_pos s) AND slot_mask s)"

lemma move_down_head:
  assumes "single s" "j < length (high_array s)" "high_array s ! j = t # ts"
  shows "move_down t s = insert_low (down_slot t s) t (s\<lparr>high_array := (high_array s)[j := ts]\<rparr>)"
    and "\<not> linked t (s\<lparr>high_array := (high_array s)[j := ts]\<rparr>)"
    and "single (s\<lparr>high_array := (high_array s)[j := ts]\<rparr>)"
proof -
  have d: "distinct (concat (low_array s))" "distinct (concat (high_array s))"
    using assms(1) by (auto simp: single_def)
  have "t \<in> set (concat (high_array s))" using slot_member [OF assms(2), of t] assms(3) by simp
  then have "t \<notin> set (concat (low_array s))" using assms(1) by (auto simp: single_def)
  then have l: "map (filter (\<lambda>x. x \<noteq> t)) (low_array s) = low_array s" by (rule filter_absent)
  have u: "unlink t s = s\<lparr>high_array := (high_array s)[j := ts]\<rparr>"
    unfolding unlink_def l filter_head_slot [OF d(2) assms(2,3)] by simp
  show "move_down t s = insert_low (down_slot t s) t (s\<lparr>high_array := (high_array s)[j := ts]\<rparr>)"
    using u by (simp add: move_down_def Let_def down_slot_def)
  show "\<not> linked t (s\<lparr>high_array := (high_array s)[j := ts]\<rparr>)"
    using linked_unlink [of t t s] u by simp
  have "single (unlink t s)"
    using d assms(1) by (auto simp: single_def unlink_def concat_filter)
  then show "single (s\<lparr>high_array := (high_array s)[j := ts]\<rparr>)" using u by simp
qed

lemma fold_move_down:
  assumes "single s" "j < length (high_array s)" "high_array s ! j = ts"
    and "\<And>t. t \<in> set ts \<Longrightarrow> down_slot t s < length (low_array s)"
  shows "\<exists>low. fold move_down ts s = s\<lparr>low_array := low, high_array := (high_array s)[j := []]\<rparr>
    \<and> length low = length (low_array s) \<and> single (fold move_down ts s)
    \<and> (\<forall>i < length low. set (low ! i) = set (low_array s ! i) \<union> {t \<in> set ts. down_slot t s = i})"
  using assms
proof (induction ts arbitrary: s)
  case Nil
  then have h: "(high_array s)[j := []] = high_array s" by (metis list_update_id)
  show ?case unfolding h using Nil by (intro exI [of _ "low_array s"]) simp
next
  case (Cons t ts)
  note head = move_down_head [OF Cons.prems(1,2,3)]
  define s0 where "s0 = s\<lparr>high_array := (high_array s)[j := ts]\<rparr>"
  define s1 where "s1 = insert_low (down_slot t s) t s0"
  have step: "move_down t s = s1" using head(1) by (simp add: s0_def s1_def)
  have b: "down_slot t s < length (low_array s0)" using Cons.prems(4) by (simp add: s0_def)
  have s1: "single s1" unfolding s1_def
    using single_insert(1) [OF b] head(2,3) by (simp add: s0_def)
  have same: "down_slot x s1 = down_slot x s" for x
    by (simp add: s1_def s0_def down_slot_def)
  have "\<exists>low. fold move_down ts s1 = s1\<lparr>low_array := low, high_array := (high_array s1)[j := []]\<rparr>
    \<and> length low = length (low_array s1) \<and> single (fold move_down ts s1)
    \<and> (\<forall>i < length low. set (low ! i) = set (low_array s1 ! i) \<union> {t \<in> set ts. down_slot t s1 = i})"
    using Cons.prems(2,4) by (intro Cons.IH [OF s1]) (simp_all add: s1_def s0_def insert_low_def down_slot_def)
  then obtain low where low: "fold move_down ts s1 = s1\<lparr>low_array := low, high_array := (high_array s1)[j := []]\<rparr>"
    "length low = length (low_array s1)" "single (fold move_down ts s1)"
    "\<forall>i < length low. set (low ! i) = set (low_array s1 ! i) \<union> {t \<in> set ts. down_slot t s = i}"
    unfolding same by blast
  have "set (low ! i) = set (low_array s ! i) \<union> {x \<in> set (t # ts). down_slot x s = i}" if "i < length low" for i
    using low(4) that low(2) b by (auto simp: s1_def s0_def insert_low_def nth_list_update)
  moreover have "fold move_down (t # ts) s = s\<lparr>low_array := low, high_array := (high_array s)[j := []]\<rparr>"
    using low(1) by (simp add: step s1_def s0_def insert_low_def)
  ultimately show ?case
    using low(2,3) step by (intro exI [of _ low]) (simp add: s1_def s0_def insert_low_def)
qed


text \<open>Advancing the time by one with an empty current slot keeps the low array placed.\<close>

lemma low_advance:
  assumes inv: "wheel_inv s" and em: "low_array s ! nat (low_pos s) = []"
    and t: "i < length (low_array s)" "t \<in> set (low_array s ! i)"
  shows "expired s t = (curr_expired s + 1) + (int i - (low_pos s + 1)) mod slot_size s"
proof -
  from inv have g: "geometry s" by (simp add: wheel_inv_def)
  note pos = geometry_size(3) [OF g]
  have r: "0 \<le> low_pos s" "low_pos s < slot_size s" "int i < slot_size s"
    using g t(1) unfolding geometry_def by linarith+
  have "(int i - low_pos s) mod slot_size s \<noteq> 0"
  proof
    assume "(int i - low_pos s) mod slot_size s = 0"
    then have "int i = low_pos s" by (rule mod_diff_zero [OF of_nat_0_le_iff r(3) r(1,2)])
    then have "nat (low_pos s) = i" by linarith
    then show False using em t(2) by simp
  qed
  from mod_pred [OF pos this] have "(int i - (low_pos s + 1)) mod slot_size s = (int i - low_pos s) mod slot_size s - 1"
    by (simp add: diff_diff_add)
  moreover have "expired s t = curr_expired s + (int i - low_pos s) mod slot_size s"
    using inv t by (simp add: wheel_inv_def low_placed_def)
  ultimately show ?thesis by simp
qed

lemma high_first:
  assumes "wheel_inv s" "t \<in> set (high_array s ! nat (high_pos s))"
  shows "cycle_base s + slot_size s \<le> expired s t" "expired s t < cycle_base s + 2 * slot_size s"
    "linked t s"
proof -
  from assms(1) have g: "geometry s" by (simp add: wheel_inv_def)
  note pos = geometry_size(3) [OF g]
  have j: "nat (high_pos s) < length (high_array s)" "0 \<le> high_pos s"
    using g by (simp_all add: geometry_def nat_less_iff)
  then show "linked t s" using slot_member [OF j(1) assms(2)] by (simp add: linked_def)
  have q: "(expired s t - cycle_base s) div slot_size s = 1"
    using assms j by (simp add: wheel_inv_def high_placed_def)
  note e = div_mult_mod_eq [of "expired s t - cycle_base s" "slot_size s", unfolded q]
  show "cycle_base s + slot_size s \<le> expired s t" "expired s t < cycle_base s + 2 * slot_size s"
    using e pos_mod_sign [OF pos, of "expired s t - cycle_base s"]
      pos_mod_bound [OF pos, of "expired s t - cycle_base s"] by linarith+
qed

lemma tick_inv:
  assumes inv: "wheel_inv s" and em: "low_array s ! nat (low_pos s) = []"
  shows "wheel_inv (tick s) \<and> curr_expired (tick s) = curr_expired s + 1
    \<and> expired (tick s) = expired s \<and> (\<forall>x. linked x (tick s) \<longleftrightarrow> linked x s)"
proof -
  from inv have g: "geometry s" and p: "low_placed s" "high_placed s" "single s" "next_ok s"
    by (simp_all add: wheel_inv_def)
  note pos = geometry_size(3) [OF g]
  have r: "0 \<le> low_pos s" "low_pos s < slot_size s" using g by (simp_all add: geometry_def)
  define s1 where "s1 = s\<lparr>curr_expired := curr_expired s + 1, low_pos := (low_pos s + 1) AND slot_mask s\<rparr>"
  have lp: "low_pos s1 = (low_pos s + 1) mod slot_size s" by (simp add: s1_def and_slot_mask [OF g])
  have l1: "linked x s1 \<longleftrightarrow> linked x s" for x by (simp add: s1_def linked_def)
  have low1: "low_placed s1"
    unfolding low_placed_def
  proof (intro allI impI ballI)
    fix i t assume "i < length (low_array s1)" "t \<in> set (low_array s1 ! i)"
    then have "expired s t = (curr_expired s + 1) + (int i - (low_pos s + 1)) mod slot_size s"
      by (intro low_advance [OF inv em]) (simp_all add: s1_def)
    then show "expired s1 t = curr_expired s1 + (int i - low_pos s1) mod slot_size s1"
      unfolding lp by (simp add: s1_def mod_diff_right_eq)
  qed
  have sg1: "single s1" using p(3) by (simp add: s1_def single_def)
  show ?thesis
  proof (cases "low_pos s + 1 = slot_size s")
    case False
    then have lp1: "low_pos s1 = low_pos s + 1" using lp r by simp
    have cb: "cycle_base s1 = cycle_base s" using lp1 by (simp add: cycle_base_def s1_def)
    have "geometry s1" using g r lp1 False by (simp add: geometry_def s1_def)
    moreover have "high_placed s1" using p(2) cb by (simp add: high_placed_def) (simp add: s1_def)
    moreover have "next_ok s1" using p(4) cb l1 by (simp add: next_ok_def) (simp add: s1_def)
    moreover have "tick s = s1" using lp1 r by (simp add: tick_def s1_def Let_def)
    ultimately show ?thesis using low1 sg1 l1 by (simp add: wheel_inv_def) (simp add: s1_def)
  next
    case True
    then have lp0: "low_pos s1 = 0" using lp by simp
    have cb: "cycle_base s1 = cycle_base s + slot_size s" using lp0 True by (simp add: cycle_base_def s1_def)
    have g1: "geometry s1" using g lp0 by (simp add: geometry_def s1_def)
    define j where "j = nat (high_pos s)"
    have j: "j < length (high_array s1)" "int j = high_pos s"
      using g by (simp_all add: geometry_def nat_less_iff s1_def j_def)
    define ts where "ts = high_array s1 ! j"
    have ts: "cycle_base s1 \<le> expired s1 t \<and> expired s1 t < cycle_base s1 + slot_size s1" if "t \<in> set ts" for t
      using high_first [OF inv, of t] that by (simp add: ts_def j_def cb) (simp add: s1_def)
    have cc: "cycle_base s1 = curr_expired s1" using lp0 by (simp add: cycle_base_def)
    have ds: "int (down_slot t s1) = expired s1 t - curr_expired s1" if "t \<in> set ts" for t
    proof -
      have "to_int32 (expired s1 t - curr_expired s1 + low_pos s1) = expired s1 t - curr_expired s1"
        using ts [OF that] cc lp0 geometry_size(2) [OF g1] by (simp add: to_int32_id)
      then show ?thesis
        using ts [OF that] cc by (simp add: down_slot_def and_slot_mask [OF g1])
    qed
    have dl: "down_slot t s1 < length (low_array s1)" if "t \<in> set ts" for t
      using ds [OF that] ts [OF that] cc g1 by (simp add: geometry_def)
    from fold_move_down [OF sg1 j(1) ts_def [symmetric] dl] obtain low where
      f: "fold move_down ts s1 = s1\<lparr>low_array := low, high_array := (high_array s1)[j := []]\<rparr>"
      and len: "length low = length (low_array s1)" and sgf: "single (fold move_down ts s1)"
      and low: "\<forall>i < length low. set (low ! i) = set (low_array s1 ! i) \<union> {t \<in> set ts. down_slot t s1 = i}"
      by blast
    define s2 where "s2 = tick s"
    have s2: "s2 = s1\<lparr>low_array := low, high_array := (high_array s1)[j := []],
        high_pos := (high_pos s + 1) mod slot_size s\<rparr>"
    proof -
      have "s2 = (fold move_down ts s1)\<lparr>high_pos := (high_pos (fold move_down ts s1) + 1) AND
          slot_mask (fold move_down ts s1)\<rparr>"
        using lp0 unfolding s2_def tick_def s1_def [symmetric] by (simp add: Let_def cascade_def ts_def j_def) (simp add: s1_def)
      then show ?thesis unfolding f using and_slot_mask [OF g] by (simp add: s1_def)
    qed
    have sel: "expired s2 = expired s1" "curr_expired s2 = curr_expired s1" "low_pos s2 = 0"
        "slot_size s2 = slot_size s1" "cycle_base s2 = cycle_base s1" "next_expired s2 = next_expired s1"
      using lp0 by (simp_all add: s2 cycle_base_def)
    have "single s2" using sgf unfolding f s2 by (simp add: single_def)
    moreover have "geometry s2"
      using g1 len pos by (simp add: geometry_def s2) (simp add: s1_def)
    moreover have "low_placed s2"
      unfolding low_placed_def
    proof (intro allI impI ballI)
      fix i t assume i: "i < length (low_array s2)" and t: "t \<in> set (low_array s2 ! i)"
      show "expired s2 t = curr_expired s2 + (int i - low_pos s2) mod slot_size s2"
      proof (cases "t \<in> set (low_array s1 ! i)")
        case True
        then show ?thesis using low1 i len lp0 unfolding sel low_placed_def by (simp add: s2)
      next
        case False
        then have m: "t \<in> set ts" "down_slot t s1 = i" using low i t by (auto simp: s2)
        then show ?thesis using ds [OF m(1)] ts [OF m(1)] cc unfolding sel by simp
      qed
    qed
    moreover have "high_placed s2"
      unfolding high_placed_def
    proof (intro allI impI ballI)
      fix k t assume k: "k < length (high_array s2)" and t: "t \<in> set (high_array s2 ! k)"
      then have "k \<noteq> j" using j(1) by (auto simp: s2)
      with k t have kj: "k \<noteq> j" "t \<in> set (high_array s ! k)" "k < length (high_array s)"
        by (simp_all add: s2 s1_def)
      then have q: "(expired s t - cycle_base s) div slot_size s = (int k - high_pos s) mod slot_size s + 1"
        using p(2) by (simp add: high_placed_def)
      have "(int k - high_pos s) mod slot_size s \<noteq> 0"
      proof
        assume z: "(int k - high_pos s) mod slot_size s = 0"
        have b: "int k < slot_size s" "0 \<le> high_pos s" "high_pos s < slot_size s"
          using g kj(3) unfolding geometry_def by linarith+
        show False using mod_diff_zero [OF of_nat_0_le_iff b z] kj(1) j(2) by simp
      qed
      from mod_pred [OF pos this]
      have "(int k - (high_pos s + 1)) mod slot_size s = (int k - high_pos s) mod slot_size s - 1"
        by (simp add: diff_diff_add)
      moreover have "(expired s t - (cycle_base s + slot_size s)) div slot_size s
          = (expired s t - cycle_base s) div slot_size s - 1"
        using div_add_self2 [of "slot_size s" "expired s t - (cycle_base s + slot_size s)"] pos
        by (simp add: algebra_simps)
      ultimately show "(expired s2 t - cycle_base s2) div slot_size s2 = (int k - high_pos s2) mod slot_size s2 + 1"
        unfolding sel cb using q by (simp add: s2 s1_def mod_diff_right_eq)
    qed
    moreover have l2: "linked x s2 \<longleftrightarrow> linked x s" for x
    proof -
      have "(\<exists>i < length low. x \<in> set (low ! i)) \<longleftrightarrow>
          (\<exists>i < length (low_array s1). x \<in> set (low_array s1 ! i)) \<or> x \<in> set ts"
        using low len dl [of x] by auto
      moreover have "(\<exists>k < length (high_array s1). x \<in> set ((high_array s1)[j := []] ! k)) \<or> x \<in> set ts
          \<longleftrightarrow> (\<exists>k < length (high_array s1). x \<in> set (high_array s1 ! k))"
        using j(1) by (auto simp: nth_list_update ts_def split: if_splits)
      ultimately have "linked x s2 \<longleftrightarrow> linked x s1"
        unfolding linked_slots by (auto simp: s2)
      then show ?thesis by (simp add: l1)
    qed
    moreover have "next_ok s2"
      using p(4) l2 pos unfolding next_ok_def sel cb by (simp add: s1_def)
    ultimately show ?thesis by (simp add: wheel_inv_def s2_def [symmetric] sel) (simp add: s1_def)
  qed
qed


section \<open>Skipping idle time\<close>

text \<open>Skipping never leaves the current cycle, so no high slot is passed over.\<close>

lemma skip_ahead_inv:
  assumes inv: "wheel_inv s" and idle: "curr_expired s \<le> next_expired s"
    and rg: "curr_expired s - now < 2 ^ 31"
  shows "wheel_inv (skip_ahead now s) \<and> curr_expired s \<le> curr_expired (skip_ahead now s)
    \<and> (curr_expired (skip_ahead now s) = curr_expired s \<or> curr_expired (skip_ahead now s) < now)
    \<and> expired (skip_ahead now s) = expired s \<and> (\<forall>x. linked x (skip_ahead now s) \<longleftrightarrow> linked x s)"
proof -
  from inv have g: "geometry s" and p: "low_placed s" "high_placed s" "single s" "next_ok s"
    by (simp_all add: wheel_inv_def)
  note pos = geometry_size(3) [OF g]
  define k where "k = (if now > next_expired s then next_expired s else now) - curr_expired s - 1"
  have nx: "next_expired s \<le> curr_expired s - low_pos s + slot_size s"
    using p(4) by (simp add: next_ok_def cycle_base_def)
  have r: "0 \<le> low_pos s" "low_pos s < slot_size s" "0 \<le> high_pos s" "high_pos s < slot_size s"
    using g by (simp_all add: geometry_def)
  have up: "low_pos s + k < slot_size s" using nx by (simp add: k_def)
  have t: "to_int32 k = k"
    using idle rg up geometry_size(2) [OF g] r by (intro to_int32_id) (auto simp: k_def split: if_splits)
  show ?thesis
  proof (cases "k > 0")
    case False
    then have "skip_ahead now s = s" using t by (simp add: skip_ahead_def k_def Let_def)
    then show ?thesis using inv by simp
  next
    case True
    define s1 where "s1 = s\<lparr>curr_expired := curr_expired s + k, low_pos := low_pos s + k\<rparr>"
    have "(low_pos s + k) div slot_size s = 0" "(low_pos s + k) mod slot_size s = low_pos s + k"
      using True up r by auto
    then have s1: "skip_ahead now s = s1"
      using True t r unfolding skip_ahead_def k_def [symmetric] and_slot_mask [OF g] drop_slot_bits [OF g]
      by (simp add: Let_def s1_def)
    have due: "curr_expired s + k < expired s x" if "linked x s" for x
      using p(4) that by (auto simp: next_ok_def k_def split: if_splits)
    have cb: "cycle_base s1 = cycle_base s" by (simp add: s1_def cycle_base_def)
    have l1: "linked x s1 \<longleftrightarrow> linked x s" for x by (simp add: s1_def linked_def)
    have "low_placed s1"
      unfolding low_placed_def
    proof (intro allI impI ballI)
      fix i x assume i: "i < length (low_array s1)" and x: "x \<in> set (low_array s1 ! i)"
      then have m: "i < length (low_array s)" "x \<in> set (low_array s ! i)" by (simp_all add: s1_def)
      then have e: "expired s x = curr_expired s + (int i - low_pos s) mod slot_size s"
        using p(1) by (simp add: low_placed_def)
      have "linked x s" using m linked_slots by blast
      from due [OF this] e have "k \<le> (int i - low_pos s) mod slot_size s" by simp
      then have "((int i - low_pos s) mod slot_size s - k) mod slot_size s = (int i - low_pos s) mod slot_size s - k"
        using True pos_mod_bound [OF pos, of "int i - low_pos s"] by (intro mod_pos_pos_trivial) linarith+
      then have "(int i - (low_pos s + k)) mod slot_size s = (int i - low_pos s) mod slot_size s - k"
        by (simp add: mod_diff_left_eq diff_diff_add)
      then show "expired s1 x = curr_expired s1 + (int i - low_pos s1) mod slot_size s1"
        using e by (simp add: s1_def)
    qed
    moreover have "geometry s1" using g r True up by (simp add: geometry_def s1_def)
    moreover have "high_placed s1" using p(2) cb by (simp add: high_placed_def) (simp add: s1_def)
    moreover have "next_ok s1" using p(4) cb l1 by (simp add: next_ok_def) (simp add: s1_def)
    moreover have "single s1" using p(3) by (simp add: s1_def single_def)
    moreover have "curr_expired s + k < now" by (simp add: k_def)
    ultimately show ?thesis using True l1 unfolding s1 wheel_inv_def by (simp add: s1_def)
  qed
qed


section \<open>The whole run\<close>

text \<open>
  Between two runs the wheel is at rest: well formed, and \<open>m_next_expired\<close> not in the past.
\<close>

definition at_rest :: "wheel \<Rightarrow> bool" where
  "at_rest s \<longleftrightarrow> wheel_inv s \<and> curr_expired s \<le> next_expired s"

lemma run_loop_correct:
  assumes "wheel_inv s" "cb_near cb"
  shows "\<exists>s' w' log'. run_loop cb now s w log = Some (s', w', log @ log')
    \<and> wheel_inv s' \<and> curr_expired s' = max (curr_expired s) now
    \<and> (\<forall>(t, e, c) \<in> set log'. e = c \<and> curr_expired s \<le> c \<and> c < now)
    \<and> sorted (map (\<lambda>f. fst (snd f)) log') \<and> (\<forall>x. keeps cb x \<longrightarrow> settled x s log' s')"
  using assms(1)
proof (induction "nat (now - curr_expired s)" arbitrary: s w log rule: less_induct)
  case less
  show ?case
  proof (cases "curr_expired s < now")
    case False
    then have "run_loop cb now s w log = Some (s, w, log @ [])" by (subst run_loop.simps) simp
    with False less.prems show ?thesis by fastforce
  next
    case True
    from fire_slot_correct [OF less.prems assms(2), of w log] obtain s1 w1 log1 where
      f: "fire_slot cb s w log = Some (s1, w1, log @ log1)"
      and i1: "wheel_inv s1" "same_time s s1" "low_array s1 ! nat (low_pos s) = []"
      and l1: "\<forall>f \<in> set log1. snd f = (curr_expired s, curr_expired s)"
      and x1: "\<forall>x. keeps cb x \<longrightarrow> settled x s log1 s1" by blast
    have em: "low_array s1 ! nat (low_pos s1) = []" using i1 by (simp add: same_time_def)
    from tick_inv [OF i1(1) em] have i2: "wheel_inv (tick s1)" "curr_expired (tick s1) = curr_expired s + 1"
      and k2: "expired (tick s1) = expired s1" "\<forall>x. linked x (tick s1) \<longleftrightarrow> linked x s1"
      using i1(2) by (simp_all add: same_time_def)
    have "nat (now - curr_expired (tick s1)) < nat (now - curr_expired s)" using True i2(2) by simp
    from less.hyps [OF this i2(1), of w1 "log @ log1"] obtain s' w' log' where
      r: "run_loop cb now (tick s1) w1 (log @ log1) = Some (s', w', (log @ log1) @ log')"
      and i: "wheel_inv s'" "curr_expired s' = max (curr_expired (tick s1)) now"
      and l: "\<forall>(t, e, c) \<in> set log'. e = c \<and> curr_expired (tick s1) \<le> c \<and> c < now"
      and so: "sorted (map (\<lambda>f. fst (snd f)) log')"
      and x: "\<forall>x. keeps cb x \<longrightarrow> settled x (tick s1) log' s'" by blast
    have "run_loop cb now s w log = Some (s', w', log @ (log1 @ log'))"
      using f r True by (subst run_loop.simps) simp
    moreover have "curr_expired s' = max (curr_expired s) now" using i(2) i2(2) True by simp
    moreover have "\<forall>(t, e, c) \<in> set (log1 @ log'). e = c \<and> curr_expired s \<le> c \<and> c < now"
      using l1 l i2(2) True by force
    moreover have "sorted (map (\<lambda>f. fst (snd f)) (log1 @ log'))"
    proof -
      have c: "map (\<lambda>f. fst (snd f)) log1 = replicate (length log1) (curr_expired s)"
        using l1 by (simp add: map_replicate_const [symmetric])
      show ?thesis using so l l1 i2(2) unfolding map_append c by (force simp: sorted_append)
    qed
    moreover have "settled x s (log1 @ log') s'" if "keeps cb x" for x
    proof -
      have "settled x s1 [] (tick s1)" using k2 by (simp add: settled_def)
      then show ?thesis using x1 x that settled_trans [of x s log1 s1 "[]" "tick s1"]
        by (auto intro: settled_trans)
    qed
    ultimately show ?thesis using i(1) by blast
  qed
qed

lemma empty_slots:
  assumes "i < first_used s" "low_pos s \<le> i" "0 \<le> low_pos s"
  shows "low_array s ! nat i = []"
proof -
  let ?xs = "drop (nat (low_pos s)) (low_array s)"
  have n: "nat i - nat (low_pos s) < length (takeWhile (\<lambda>xs. xs = []) ?xs)"
    using assms by (simp add: first_used_def)
  then have "?xs ! (nat i - nat (low_pos s)) = []"
    by (metis (mono_tags, lifting) nth_mem set_takeWhileD takeWhile_nth)
  moreover have "nat (low_pos s) \<le> length (low_array s)"
    using n length_takeWhile_le [of "\<lambda>xs. xs = []" ?xs] by simp
  ultimately show ?thesis using assms by (simp add: nat_le_eq_zle)
qed

lemma first_used_bounds:
  assumes "geometry s"
  shows "low_pos s \<le> first_used s" "first_used s \<le> slot_size s"
proof -
  show "low_pos s \<le> first_used s" by (simp add: first_used_def)
  show "first_used s \<le> slot_size s"
    using assms length_takeWhile_le [of "\<lambda>xs. xs = []" "drop (nat (low_pos s)) (low_array s)"]
    unfolding first_used_def geometry_def length_drop by linarith
qed

lemma update_next_at_rest:
  assumes inv: "wheel_inv s"
  shows "at_rest (update_next s) \<and> curr_expired (update_next s) = curr_expired s
    \<and> expired (update_next s) = expired s \<and> (\<forall>x. linked x (update_next s) \<longleftrightarrow> linked x s)"
proof (cases "next_expired s < curr_expired s")
  case False
  then show ?thesis using inv by (simp add: update_next_def at_rest_def)
next
  case True
  from inv have g: "geometry s" and p: "low_placed s" "high_placed s" "single s" "next_ok s"
    by (simp_all add: wheel_inv_def)
  note pos = geometry_size(3) [OF g] and fu = first_used_bounds [OF g]
  have r: "0 \<le> low_pos s" "low_pos s < slot_size s" using g by (simp_all add: geometry_def)
  have "curr_expired s + first_used s - low_pos s \<le> expired s x" if lx: "linked x s" for x
  proof -
    from lx consider (low) i where "i < length (low_array s)" "x \<in> set (low_array s ! i)"
      | (high) j where "j < length (high_array s)" "x \<in> set (high_array s ! j)"
      unfolding linked_slots by blast
    then show ?thesis
    proof cases
      case low
      then have e: "expired s x = curr_expired s + (int i - low_pos s) mod slot_size s"
        using p(1) by (simp add: low_placed_def)
      have i: "int i < slot_size s" using g low(1) unfolding geometry_def by linarith
      show ?thesis
      proof (cases "low_pos s \<le> int i")
        case True
        then have "(int i - low_pos s) mod slot_size s = int i - low_pos s"
          using i r by (intro mod_pos_pos_trivial) auto
        moreover have "first_used s \<le> int i"
        proof (rule ccontr)
          assume "\<not> first_used s \<le> int i"
          then have "low_array s ! nat (int i) = []" using True r by (intro empty_slots) auto
          then show False using low(2) by simp
        qed
        ultimately show ?thesis using e by simp
      next
        case False
        then have "(int i - low_pos s + slot_size s) mod slot_size s = int i - low_pos s + slot_size s"
          using i r by (intro mod_pos_pos_trivial) auto
        then have "(int i - low_pos s) mod slot_size s = int i - low_pos s + slot_size s" by simp
        then show ?thesis using e fu by simp
      qed
    next
      case high
      then have "(expired s x - cycle_base s) div slot_size s = (int j - high_pos s) mod slot_size s + 1"
        using p(2) by (simp add: high_placed_def)
      then have "1 \<le> (expired s x - cycle_base s) div slot_size s"
        using pos_mod_sign [OF pos] by (simp only: le_add_same_cancel2)
      then have "slot_size s \<le> expired s x - cycle_base s"
        using pos by (simp add: pos_imp_zdiv_pos_iff int_one_le_iff_zero_less)
      then show ?thesis using fu by (simp add: cycle_base_def)
    qed
  qed
  moreover define s1 where "s1 = s\<lparr>next_expired := curr_expired s + first_used s - low_pos s\<rparr>"
  have "update_next s = s1" using True by (simp add: update_next_def s1_def)
  moreover have "linked x s1 \<longleftrightarrow> linked x s" for x by (simp add: s1_def linked_def)
  moreover have "geometry s1" "low_placed s1" "single s1" "cycle_base s1 = cycle_base s"
    using g p by (simp_all add: s1_def geometry_def low_placed_def single_def cycle_base_def)
  moreover have "high_placed s1" using p(2) by (simp add: s1_def high_placed_def cycle_base_def)
  ultimately show ?thesis using fu
    by (simp add: at_rest_def wheel_inv_def next_ok_def) (simp add: s1_def cycle_base_def)
qed


lemma run_until_correct:
  assumes rest: "at_rest s" and cb: "cb_near cb" and rg: "curr_expired s - now < 2 ^ 31"
  obtains s' w' log where "run_until cb now s w = Some (s', w', log)" "at_rest s'"
    "curr_expired s' = max (curr_expired s) now"
    "\<forall>(t, e, c) \<in> set log. e = c \<and> curr_expired s \<le> c \<and> c < now"
    "sorted (map (\<lambda>f. fst (snd f)) log)" "\<forall>x. keeps cb x \<longrightarrow> settled x s log s'"
proof -
  define s0 where "s0 = skip_ahead now s"
  from skip_ahead_inv [of s now] rest rg have s0: "wheel_inv s0" "curr_expired s \<le> curr_expired s0"
      "curr_expired s0 = curr_expired s \<or> curr_expired s0 < now" "expired s0 = expired s"
      "\<forall>x. linked x s0 \<longleftrightarrow> linked x s"
    by (auto simp: at_rest_def s0_def)
  from run_loop_correct [OF s0(1) cb, of now w "[]"] obtain s1 w1 log where
    r: "run_loop cb now s0 w [] = Some (s1, w1, log)"
    and s1: "wheel_inv s1" "curr_expired s1 = max (curr_expired s0) now"
    and l: "\<forall>(t, e, c) \<in> set log. e = c \<and> curr_expired s0 \<le> c \<and> c < now"
    and so: "sorted (map (\<lambda>f. fst (snd f)) log)"
    and x: "\<forall>x. keeps cb x \<longrightarrow> settled x s0 log s1" by auto
  note u = update_next_at_rest [OF s1(1)]
  have "run_until cb now s w = Some (update_next s1, w1, log)"
    using r by (simp add: run_until_def s0_def)
  moreover have "curr_expired (update_next s1) = max (curr_expired s) now"
    using u s1(2) s0(2,3) by auto
  moreover have "\<forall>(t, e, c) \<in> set log. e = c \<and> curr_expired s \<le> c \<and> c < now"
    using l s0(2) by fastforce
  moreover have "\<forall>x. keeps cb x \<longrightarrow> settled x s log (update_next s1)"
    using x u s0(4,5) by (simp add: settled_def)
  ultimately show thesis using that u so by blast
qed

lemma add_timer_rest:
  assumes "at_rest s" "near t s \<or> linked t s" "add_timer t s = (ret, s')"
  shows "at_rest s'"
proof -
  from assms(1) have i: "wheel_inv s" "geometry s" "curr_expired s \<le> next_expired s"
    by (simp_all add: at_rest_def wheel_inv_def)
  have "curr_expired s' \<le> next_expired s'"
  proof (cases "linked t s")
    case True
    then show ?thesis using assms(3) i by (auto simp: add_timer_def)
  next
    case False
    with assms(2) have "near t s" by simp
    from i(2) this False show ?thesis
    proof (cases rule: add_timer_cases)
      case high
      then show ?thesis using assms(3) i(3) geometry_size(3) [OF i(2)] by (simp add: lower_next_def)
    qed (use assms(3) i(3) in \<open>simp_all add: lower_next_def\<close>)
  qed
  then show ?thesis using add_timer_inv [OF i(1) assms(2,3)] by (simp add: at_rest_def)
qed

lemma do_call_rest:
  assumes "at_rest s" "call_near c s"
  shows "at_rest (do_call c s)"
proof (cases c)
  case (AddTimer t)
  then show ?thesis using add_timer_rest [OF assms(1), of t] assms(2)
    by (metis call_near_def do_call.simps(2) prod.collapse timer_call.simps(11))
next
  case (SetExpired t e)
  then show ?thesis
    using assms(1) set_expired_inv [of s t e] by (auto simp: at_rest_def set_expired_def split: if_splits)
next
  case (DelTimer t)
  then show ?thesis
    using assms(1) del_timer_inv [of s t] by (auto simp: at_rest_def del_timer_def split: if_splits)
qed

lemma calls_rest: "at_rest s \<Longrightarrow> calls_near cs s \<Longrightarrow> at_rest (fold do_call cs s)"
proof (induction cs arbitrary: s)
  case (Cons c cs)
  from Cons.prems have "at_rest (do_call c s)" by (intro do_call_rest) auto
  with Cons show ?case by simp
qed simp

lemma timer_init_rest:
  "timer_init start bits (wheel_new e) = Some (0, s) \<Longrightarrow> 3 \<le> bits \<Longrightarrow> bits \<le> 14 \<Longrightarrow>
   at_rest s \<and> curr_expired s = start \<and> (\<forall>t. \<not> linked t s)"
  using timer_init_inv by (simp add: at_rest_def)

section \<open>Callbacks that are in range only in a good world\<close>

text \<open>
  A relation \<open>Q\<close> between the world and the log that every callback keeps holds at the end of a run.
\<close>

definition log_kept :: "('w \<Rightarrow> firing list \<Rightarrow> bool) \<Rightarrow> 'w on_timeout \<Rightarrow> bool" where
  "log_kept Q cb \<longleftrightarrow> (\<forall>t s w log e c. Q w log \<longrightarrow> Q (snd (cb t s w)) (log @ [(t, e, c)]))"

lemma fire_slot_log:
  assumes "fire_slot cb s w log = Some (s', w', log')" "log_kept Q cb" "Q w log"
  shows "Q w' log'"
  using assms(2,3) fire_slot.raw_induct [OF _ assms(1), of "\<lambda>cb s w log (s', w', log').
    log_kept Q cb \<longrightarrow> Q w log \<longrightarrow> Q w' log'"]
  by (fastforce simp: Let_def log_kept_def split: list.splits)

lemma run_loop_log:
  assumes "run_loop cb now s w log = Some (s', w', log')" "log_kept Q cb" "Q w log"
  shows "Q w' log'"
  using assms(2,3) run_loop.raw_induct [OF _ assms(1), of "\<lambda>cb now s w log (s', w', log').
    log_kept Q cb \<longrightarrow> Q w log \<longrightarrow> Q w' log'"]
  by (fastforce split: if_splits option.splits dest: fire_slot_log)

lemma run_until_log:
  "run_until cb now s w = Some (s', w', log) \<Longrightarrow> log_kept Q cb \<Longrightarrow> Q w [] \<Longrightarrow> Q w' log"
  by (auto simp: run_until_def split: option.splits dest: run_loop_log)

text \<open>The reach of the wheel never changes.\<close>

lemma do_call_reach [simp]: "max_expired (do_call c s) = max_expired s"
  by (cases c)
    (simp_all add: set_expired_def add_timer_def del_timer_def unlink_def insert_low_def insert_high_def Let_def)

lemma calls_reach [simp]: "max_expired (fold do_call cs s) = max_expired s"
  by (induction cs arbitrary: s) simp_all

lemma fold_move_down_reach: "max_expired (fold move_down ts s) = max_expired s"
  by (induction ts arbitrary: s) (simp_all add: move_down_def unlink_def insert_low_def Let_def)

lemma tick_reach [simp]: "max_expired (tick s) = max_expired s"
  by (simp add: tick_def cascade_def Let_def fold_move_down_reach)

lemma unlink_reach [simp]: "max_expired (unlink t s) = max_expired s"
  by (simp add: unlink_def)

lemma fire_slot_reach:
  assumes "fire_slot cb s w log = Some (s', w', log')"
  shows "max_expired s' = max_expired s"
  using fire_slot.raw_induct [OF _ assms, of "\<lambda>cb s w log (s', w', log'). max_expired s' = max_expired s"]
  by (fastforce simp: Let_def split: list.splits)

lemma run_loop_reach:
  assumes "run_loop cb now s w log = Some (s', w', log')"
  shows "max_expired s' = max_expired s"
  using run_loop.raw_induct [OF _ assms, of "\<lambda>cb now s w log (s', w', log'). max_expired s' = max_expired s"]
  by (fastforce split: if_splits option.splits dest: fire_slot_reach)

lemma run_until_reach: "run_until cb now s w = Some (s', w', log) \<Longrightarrow> max_expired s' = max_expired s"
  by (auto simp: run_until_def skip_ahead_def update_next_def Let_def split: option.splits dest!: run_loop_reach)

text \<open>A callback that does nothing in a world outside \<open>P\<close>: runs from inside \<open>P\<close> do not notice.\<close>

definition guard_cb :: "('w \<Rightarrow> bool) \<Rightarrow> 'w on_timeout \<Rightarrow> 'w on_timeout" where
  "guard_cb P cb t s w = (if P w then cb t s w else ([], w))"

lemma fire_slot_guard:
  assumes "fire_slot (guard_cb P cb) s w log = Some y" "\<forall>t s w. P w \<longrightarrow> P (snd (cb t s w))" "P w"
  shows "fire_slot cb s w log = Some y"
proof -
  have "cb' = guard_cb P cb \<longrightarrow> P w \<longrightarrow> fire_slot cb s w log = Some y"
    if "fire_slot cb' s w log = Some y" for cb' :: "'a on_timeout" and s w log y
  proof (rule fire_slot.raw_induct [OF _ that,
        of "\<lambda>cb' s w log y. cb' = guard_cb P cb \<longrightarrow> P w \<longrightarrow> fire_slot cb s w log = Some y"])
    fix f cb' s w log y
    assume 1: "\<And>cb' s w log y. f cb' s w log = Some y \<Longrightarrow>
        cb' = guard_cb P cb \<longrightarrow> P w \<longrightarrow> fire_slot cb s w log = Some y"
      "(case low_array s ! nat (low_pos s) of
        [] \<Rightarrow> Some (s, w, log)
      | t # ts \<Rightarrow>
          (let s1 = unlink t s; r = cb' t s1 w
           in f cb' (fold do_call (fst r) s1) (snd r)
                (log @ [(t, expired s t, curr_expired s)]))) = Some y"
    show "cb' = guard_cb P cb \<longrightarrow> P w \<longrightarrow> fire_slot cb s w log = Some y"
    proof (intro impI)
      assume cb': "cb' = guard_cb P cb" and w: "P w"
      show "fire_slot cb s w log = Some y"
        using 1 cb' w assms(2)
        by (subst fire_slot.simps) (auto simp: Let_def guard_cb_def split: list.splits)
    qed
  qed
  with assms(1,3) show ?thesis by blast
qed

lemma run_loop_guard:
  assumes "run_loop (guard_cb P cb) now s w log = Some y" "\<forall>t s w. P w \<longrightarrow> P (snd (cb t s w))" "P w"
  shows "run_loop cb now s w log = Some y"
proof -
  have kept: "log_kept (\<lambda>w log. P w) (guard_cb P cb)"
    using assms(2) by (simp add: log_kept_def guard_cb_def)
  have "cb' = guard_cb P cb \<longrightarrow> P w \<longrightarrow> run_loop cb now s w log = Some y"
    if "run_loop cb' now s w log = Some y" for cb' :: "'a on_timeout" and now s w log y
  proof (rule run_loop.raw_induct [OF _ that,
        of "\<lambda>cb' now s w log y. cb' = guard_cb P cb \<longrightarrow> P w \<longrightarrow> run_loop cb now s w log = Some y"])
    fix f cb' now s w log y
    assume 1: "\<And>cb' now s w log y. f cb' now s w log = Some y \<Longrightarrow>
        cb' = guard_cb P cb \<longrightarrow> P w \<longrightarrow> run_loop cb now s w log = Some y"
      "(if curr_expired s < now
        then (case fire_slot cb' s w log of
                None \<Rightarrow> None
              | Some (s1, w1, log1) \<Rightarrow> f cb' now (tick s1) w1 log1)
        else Some (s, w, log)) = Some y"
    show "cb' = guard_cb P cb \<longrightarrow> P w \<longrightarrow> run_loop cb now s w log = Some y"
    proof (intro impI)
      assume cb': "cb' = guard_cb P cb" and w: "P w"
      show "run_loop cb now s w log = Some y"
      proof (cases "curr_expired s < now")
        case True
        with 1(2) obtain s1 w1 log1 where
          f: "fire_slot cb' s w log = Some (s1, w1, log1)" "f cb' now (tick s1) w1 log1 = Some y"
          by (auto split: option.splits)
        have "P w1" using fire_slot_log [OF f(1)] kept w by (simp add: cb')
        moreover have "fire_slot cb s w log = Some (s1, w1, log1)"
          using fire_slot_guard [OF _ assms(2) w] f(1) cb' by blast
        ultimately show ?thesis using 1(1) [OF f(2)] cb' True by (subst run_loop.simps) simp
      next
        case False
        with 1(2) show ?thesis by (subst run_loop.simps) simp
      qed
    qed
  qed
  with assms(1,3) show ?thesis by blast
qed

lemma run_until_guard:
  assumes "run_until (guard_cb P cb) now s w = Some y" "\<forall>t s w. P w \<longrightarrow> P (snd (cb t s w))" "P w"
  shows "run_until cb now s w = Some y"
  using assms(1) run_loop_guard [OF _ assms(2,3)]
  by (auto simp: run_until_def split: option.splits)

section \<open>Properties\<close>

text \<open>C18: The timer operations keep the wheel well formed. \<open>init\<close> with 3 to 14 slot bits (it accepts up to 20,
  see \<open>init_15_bits_throws\<close> and \<open>init_16_bits_no_slots\<close>) gives a wheel at rest; \<open>set_expired\<close>,
  \<open>add_timer\<close> and \<open>del_timer\<close> in any order, where every timer that is added is less than 2 ^ 31 ms away from
  the counter (\<open>calls_near\<close>; a farther one lands in a wrong slot, \<open>far_timer_taken_for_near\<close>), keep
  every timer in exactly one slot, the slot that belongs to its time, and keep \<open>m_next_expired\<close> at or before
  every pending timer and not in the past.\<close>

theorem timer_calls_keep_wheel:
  assumes "timer_init start bits (wheel_new e) = Some (0, s)" "3 \<le> bits" "bits \<le> 14"
    and "calls_near cs s"
  shows "at_rest (fold do_call cs s)"
  using calls_rest timer_init_rest [OF assms(1-3)] assms(4) by blast

definition sample_calls :: "timer_call list" where
  "sample_calls = [SetExpired 3 5, AddTimer 3, SetExpired 4 20, AddTimer 4, AddTimer 4]"

definition sample_wheel :: wheel where
  "sample_wheel = snd (the (timer_init 0 3 (wheel_new (\<lambda>t. 0))))"

lemma sample_wheel_init: "timer_init 0 3 (wheel_new (\<lambda>t. 0)) = Some (0, sample_wheel)"
  by (simp add: sample_wheel_def timer_init_def wheel_new_def to_int16_id Let_def)

lemma sample_calls_run:
  "calls_near sample_calls sample_wheel"
  "linked 3 (fold do_call sample_calls sample_wheel)" "linked 4 (fold do_call sample_calls sample_wheel)"
  "expired (fold do_call sample_calls sample_wheel) 3 = 5"
  "expired (fold do_call sample_calls sample_wheel) 4 = 20"
  "curr_expired (fold do_call sample_calls sample_wheel) = 0"
  "high_array (fold do_call sample_calls sample_wheel) ! 1 = [4]"
  by code_simp+

theorem timer_calls_keep_wheel_witness:
  "at_rest (fold do_call sample_calls sample_wheel)
   \<and> high_array (fold do_call sample_calls sample_wheel) ! 1 = [4]"
  using timer_calls_keep_wheel [OF sample_wheel_init _ _ sample_calls_run(1)] sample_calls_run(7) by simp

text \<open>C2: A run of the timer loop is exact and complete. Assumed of the callbacks (\<open>cb_near\<close>): whatever state they
  are called in, a timer that they add is less than 2 ^ 31 ms away from the counter at that call. So a
  callback sets a timer before it adds it, as every callback under \<open>src\<close> does; one that adds a timer set elsewhere
  is not covered, and farther timers do not fire at their time (\<open>far_timer_taken_for_near\<close>). Otherwise they
  are free to set, add and remove any timer. Then \<open>run_until(now)\<close> returns; it fires in the order of time, each timer exactly when
  the counter has reached the value it was set to, none early and none from a skipped slot; afterwards
  the counter is at \<open>now\<close>, no pending timer is overdue and the wheel is at rest again.\<close>

theorem timer_run_exact:
  assumes "at_rest s" "cb_near cb" "curr_expired s - now < 2 ^ 31"
  shows "\<exists>s' w' log. run_until cb now s w = Some (s', w', log) \<and> at_rest s'
    \<and> curr_expired s' = max (curr_expired s) now
    \<and> (\<forall>(t, e, c) \<in> set log. e = c \<and> curr_expired s \<le> c \<and> c < now)
    \<and> sorted (map (\<lambda>f. fst (snd f)) log)
    \<and> (\<forall>t. linked t s' \<longrightarrow> now \<le> expired s' t)"
proof -
  obtain s' w' log where r: "run_until cb now s w = Some (s', w', log)" "at_rest s'"
    "curr_expired s' = max (curr_expired s) now"
    "\<forall>(t, e, c) \<in> set log. e = c \<and> curr_expired s \<le> c \<and> c < now"
    "sorted (map (\<lambda>f. fst (snd f)) log)" "\<forall>x. keeps cb x \<longrightarrow> settled x s log s'"
    by (rule run_until_correct [OF assms])
  have "now \<le> expired s' t" if "linked t s'" for t
    using linked_due [OF _ that] r(2,3) by (simp add: at_rest_def)
  with r show ?thesis by blast
qed

definition sample_periodic :: "unit on_timeout" where
  "sample_periodic t s w = ([SetExpired t (curr_expired s + 4), AddTimer t], w)"

lemma sample_periodic_near: "cb_near sample_periodic"
  by (auto simp: cb_near_def sample_periodic_def set_expired_def near_def call_near_def)

lemma sample_at_rest: "at_rest (fold do_call sample_calls sample_wheel)"
  using calls_rest timer_init_rest [OF sample_wheel_init] sample_calls_run(1) by simp

theorem timer_run_exact_witness:
  "\<exists>s' w' log. run_until sample_periodic 30 (fold do_call sample_calls sample_wheel) () = Some (s', w', log)
     \<and> at_rest s' \<and> curr_expired s' = 30"
  using timer_run_exact [OF sample_at_rest sample_periodic_near, of 30 "()"] sample_calls_run(6) by auto

text \<open>C10: No timer is lost. A timer that is pending and due before \<open>now\<close> fires in the run, at its time, unless a
  callback removes it. The callbacks add timers as in the previous property (\<open>cb_near\<close>).\<close>

theorem timer_due_fires:
  assumes "at_rest s" "cb_near cb" "curr_expired s - now < 2 ^ 31"
    and "linked x s" "expired s x < now" "keeps cb x"
    and "run_until cb now s w = Some (s', w', log)"
  shows "(x, expired s x, expired s x) \<in> set log"
proof -
  obtain s1 w1 log1 where r: "run_until cb now s w = Some (s1, w1, log1)" "at_rest s1"
    "curr_expired s1 = max (curr_expired s) now"
    "\<forall>(t, e, c) \<in> set log1. e = c \<and> curr_expired s \<le> c \<and> c < now"
    "\<forall>x. keeps cb x \<longrightarrow> settled x s log1 s1"
    by (rule run_until_correct [OF assms(1-3)])
  have "\<not> (linked x s1 \<and> expired s1 x = expired s x)"
    using linked_due [of s1 x] r(2,3) assms(5) by (auto simp: at_rest_def)
  then obtain c where "(x, expired s x, c) \<in> set log1"
    using r(5) assms(4,6) by (auto simp: settled_def)
  with r(1,4) assms(7) show ?thesis by fastforce
qed

theorem timer_due_fires_witness:
  "\<exists>s' w' log. run_until sample_periodic 30 (fold do_call sample_calls sample_wheel) () = Some (s', w', log)
     \<and> (3, 5, 5) \<in> set log \<and> (4, 20, 20) \<in> set log"
proof -
  obtain s' w' log where r:
    "run_until sample_periodic 30 (fold do_call sample_calls sample_wheel) () = Some (s', w', log)"
    using timer_run_exact [OF sample_at_rest sample_periodic_near, of 30 "()"] sample_calls_run(6) by auto
  have k: "keeps sample_periodic x" for x by (simp add: keeps_def sample_periodic_def)
  have "(3, 5, 5) \<in> set log"
    using timer_due_fires [OF sample_at_rest sample_periodic_near _ sample_calls_run(2) _ k r]
    by (simp add: sample_calls_run(4,6))
  moreover have "(4, 20, 20) \<in> set log"
    using timer_due_fires [OF sample_at_rest sample_periodic_near _ sample_calls_run(3) _ k r]
    by (simp add: sample_calls_run(5,6))
  ultimately show ?thesis using r by blast
qed

section \<open>Facts behind the findings\<close>

text \<open>
  \<open>init\<close> accepts up to 20 slot bits, but the slot count is an \<open>int16_t\<close>: with 15 bits it is negative
  and the allocation throws, with more it is 0, so both arrays are empty.
\<close>

lemma init_15_bits_throws: "timer_init start 15 (wheel_new e) = None"
  by (simp add: timer_init_def wheel_new_def to_int16_def Let_def)

lemma init_16_bits_no_slots:
  "\<exists>s. timer_init start 16 (wheel_new e) = Some (0, s) \<and> low_array s = [] \<and> slot_mask s = 65535"
  by (simp add: timer_init_def wheel_new_def to_int16_def Let_def) code_simp

text \<open>The interval is cut to an \<open>int\<close>: a timer 2 ^ 32 + 5 ahead is taken for one 5 ahead.\<close>

lemma far_timer_taken_for_near:
  "low_array (snd (add_timer 1 (snd (set_expired 1 4294967301 sample_wheel)))) ! 5 = [1]"
  by code_simp

lemma set_expired_always_fails: "fst (set_expired t e s) = -1"
  by (simp add: set_expired_def)

end
