(* ===== verification/LinkRing.thy ===== *)
theory LinkRing
  imports TimerWheel
begin

text \<open>
  The pointer level of \<open>framework/timer_manager.h\<close>: \<open>base_timer\<close> objects linked into rings through
  \<open>m_next\<close> and \<open>m_prev\<close>. \<open>ring h p xs\<close> says that the slot head \<open>p\<close> and the timers \<open>xs\<close> form a
  ring in the heap \<open>h\<close>; the lemmas show that inserting, removing, testing for emptiness and taking
  the first timer are the list operations that the theory TimerWheel uses for a slot.
\<close>

section \<open>The heap of timers\<close>

type_synonym ptr = nat

record links =
  m_next :: "ptr \<Rightarrow> ptr option"
  m_prev :: "ptr \<Rightarrow> ptr option"

definition base_timer_insert :: "ptr \<Rightarrow> ptr \<Rightarrow> ptr \<Rightarrow> links \<Rightarrow> links" where
  "base_timer_insert p c n h =
     (let h1 = h\<lparr>m_next := (m_next h)(p := Some c)\<rparr>;
          h2 = h1\<lparr>m_prev := (m_prev h1)(c := Some p), m_next := (m_next h1)(c := Some n)\<rparr>
      in h2\<lparr>m_prev := (m_prev h2)(n := Some c)\<rparr>)"

text \<open>\<open>None\<close>: the function reads through a \<open>NULL\<close> pointer.\<close>

definition base_timer_remove :: "ptr \<Rightarrow> links \<Rightarrow> links option" where
  "base_timer_remove t h =
     (case m_prev h t of
        None \<Rightarrow> None
      | Some p \<Rightarrow>
          let h1 = h\<lparr>m_next := (m_next h)(p := m_next h t)\<rparr> in
          (case m_next h1 t of
             None \<Rightarrow> None
           | Some n \<Rightarrow>
               let h2 = h1\<lparr>m_prev := (m_prev h1)(n := m_prev h1 t)\<rparr> in
               Some (h2\<lparr>m_prev := (m_prev h2)(t := None), m_next := (m_next h2)(t := None)\<rparr>)))"

definition is_running :: "ptr \<Rightarrow> links \<Rightarrow> bool" where
  "is_running t h \<longleftrightarrow> m_next h t \<noteq> None \<or> m_prev h t \<noteq> None"

text \<open>The constructor and the destructor: an object that is linked leaves its ring.\<close>

definition base_timer_new :: "ptr \<Rightarrow> links \<Rightarrow> links" where
  "base_timer_new t h = h\<lparr>m_next := (m_next h)(t := None), m_prev := (m_prev h)(t := None)\<rparr>"

definition base_timer_destroy :: "ptr \<Rightarrow> links \<Rightarrow> links option" where
  "base_timer_destroy t h =
     (if m_prev h t \<noteq> None \<and> m_next h t \<noteq> None then base_timer_remove t h else Some h)"

text \<open>The statement \<open>base_timer_insert(head->m_prev, timer, head)\<close>.\<close>

definition insert_before_head :: "ptr \<Rightarrow> ptr \<Rightarrow> links \<Rightarrow> links option" where
  "insert_before_head p t h = map_option (\<lambda>l. base_timer_insert l t p h) (m_prev h p)"

text \<open>The loop of \<open>init\<close>: every slot head points to itself.\<close>

definition init_head :: "ptr \<Rightarrow> links \<Rightarrow> links" where
  "init_head p h = h\<lparr>m_next := (m_next h)(p := Some p), m_prev := (m_prev h)(p := Some p)\<rparr>"

section \<open>Rings\<close>

fun seg :: "links \<Rightarrow> ptr \<Rightarrow> ptr list \<Rightarrow> ptr \<Rightarrow> bool" where
  "seg h a [] b \<longleftrightarrow> m_next h a = Some b \<and> m_prev h b = Some a"
| "seg h a (x # xs) b \<longleftrightarrow> m_next h a = Some x \<and> m_prev h x = Some a \<and> seg h x xs b"

definition ring :: "links \<Rightarrow> ptr \<Rightarrow> ptr list \<Rightarrow> bool" where
  "ring h p xs \<longleftrightarrow> seg h p xs p \<and> distinct (p # xs)"

lemma seg_append: "seg h a (xs @ y # ys) b \<longleftrightarrow> seg h a xs y \<and> seg h y ys b"
  by (induction xs arbitrary: a) auto

lemma seg_snoc: "seg h a (xs @ [y]) b \<longleftrightarrow> seg h a xs y \<and> m_next h y = Some b \<and> m_prev h b = Some y"
  by (simp add: seg_append)

lemma seg_ends: "seg h a xs b \<Longrightarrow> m_next h a = Some (case xs of [] \<Rightarrow> b | x # _ \<Rightarrow> x)
    \<and> m_prev h b = Some (if xs = [] then a else last xs)"
  by (induction xs arbitrary: a) (auto split: list.splits)

text \<open>Only the successor of \<open>a # xs\<close> and the predecessor of \<open>xs @ [b]\<close> matter to a segment.\<close>

lemma seg_frame:
  assumes "seg h a xs b" "\<forall>p \<in> set (a # xs). m_next h' p = m_next h p"
    and "\<forall>p \<in> set (xs @ [b]). m_prev h' p = m_prev h p"
  shows "seg h' a xs b"
  using assms by (induction xs arbitrary: a) auto

lemma ring_frame:
  assumes "ring h p xs" "\<forall>q \<in> set (p # xs). m_next h' q = m_next h q \<and> m_prev h' q = m_prev h q"
  shows "ring h' p xs"
  using assms seg_frame [of h p xs p h'] by (auto simp: ring_def)

lemma ring_linked: "ring h p xs \<Longrightarrow> x \<in> set (p # xs) \<Longrightarrow> m_next h x \<noteq> None \<and> m_prev h x \<noteq> None"
proof -
  have "seg h a xs b \<Longrightarrow> x \<in> set xs \<Longrightarrow> m_next h x \<noteq> None \<and> m_prev h x \<noteq> None" for a b
    by (induction xs arbitrary: a) (auto dest: seg_ends)
  then show "ring h p xs \<Longrightarrow> x \<in> set (p # xs) \<Longrightarrow> m_next h x \<noteq> None \<and> m_prev h x \<noteq> None"
    using seg_ends by (fastforce simp: ring_def)
qed

section \<open>The pointer operations are list operations\<close>

lemma ring_init: "ring (init_head p h) p []"
  by (simp add: ring_def init_head_def)

lemma ring_insert:
  assumes r: "ring h p xs" and c: "c \<notin> set (p # xs)"
  obtains h' where "insert_before_head p c h = Some h'" "ring h' p (xs @ [c])"
    "\<forall>q. q \<notin> set (c # p # xs) \<longrightarrow> m_next h' q = m_next h q \<and> m_prev h' q = m_prev h q"
proof -
  define l where "l = (if xs = [] then p else last xs)"
  have s: "seg h p xs p" "distinct (p # xs)" using r by (simp_all add: ring_def)
  have l: "m_prev h p = Some l" using seg_ends [OF s(1)] by (simp add: l_def)
  define h' where "h' = base_timer_insert l c p h"
  have lm: "l \<in> set (p # xs)" by (simp add: l_def)
  have nx: "m_next h' q = (if q = c then Some p else if q = l then Some c else m_next h q)"
    and pv: "m_prev h' q = (if q = p then Some c else if q = c then Some l else m_prev h q)" for q
    by (auto simp: h'_def base_timer_insert_def Let_def)
  have "seg h' p xs c"
  proof (cases "xs = []")
    case True
    then show ?thesis using nx pv c by (simp add: l_def)
  next
    case False
    then obtain ys where ys: "xs = ys @ [l]" by (metis append_butlast_last_id l_def)
    have "seg h p ys l" using s(1) by (simp add: ys seg_snoc)
    moreover have "\<forall>q \<in> set (p # ys). m_next h' q = m_next h q"
      "\<forall>q \<in> set (ys @ [l]). m_prev h' q = m_prev h q"
      using s(2) c nx pv by (auto simp: ys)
    ultimately have "seg h' p ys l" by (rule seg_frame)
    then show ?thesis using c nx pv s(2) by (auto simp: ys seg_snoc)
  qed
  then have "ring h' p (xs @ [c])"
    using s(2) c nx pv by (auto simp: ring_def seg_snoc)
  moreover have "insert_before_head p c h = Some h'" by (simp add: insert_before_head_def l h'_def)
  moreover have "\<forall>q. q \<notin> set (c # p # xs) \<longrightarrow> m_next h' q = m_next h q \<and> m_prev h' q = m_prev h q"
    using nx pv lm by auto
  ultimately show thesis using that by blast
qed

lemma seg_relink:
  assumes "seg h a (xs @ t # ys) b" "distinct (xs @ t # ys)" "a \<notin> set (xs @ t # ys)" "b \<notin> set (xs @ t # ys)"
  obtains p n where "m_prev h t = Some p" "m_next h t = Some n" "p \<in> set (a # xs)" "n \<in> set (ys @ [b])"
    "\<And>h'. m_next h' p = Some n \<Longrightarrow> m_prev h' n = Some p \<Longrightarrow>
      \<forall>q. q \<noteq> p \<and> q \<noteq> t \<longrightarrow> m_next h' q = m_next h q \<Longrightarrow>
      \<forall>q. q \<noteq> n \<and> q \<noteq> t \<longrightarrow> m_prev h' q = m_prev h q \<Longrightarrow> seg h' a (xs @ ys) b"
proof -
  from assms(1) have s: "seg h a xs t" "seg h t ys b" by (simp_all add: seg_append)
  define p where "p = (if xs = [] then a else last xs)"
  define n where "n = (case ys of [] \<Rightarrow> b | y # _ \<Rightarrow> y)"
  have pn: "m_prev h t = Some p" "m_next h t = Some n"
    using seg_ends [OF s(1)] seg_ends [OF s(2)] by (simp_all add: p_def n_def)
  have mem: "p \<in> set (a # xs)" "n \<in> set (ys @ [b])" by (auto simp: p_def n_def split: list.splits)
  have "seg h' a (xs @ ys) b" if u: "m_next h' p = Some n" "m_prev h' n = Some p"
      "\<forall>q. q \<noteq> p \<and> q \<noteq> t \<longrightarrow> m_next h' q = m_next h q"
      "\<forall>q. q \<noteq> n \<and> q \<noteq> t \<longrightarrow> m_prev h' q = m_prev h q" for h'
  proof -
    have left: "seg h' a xs n"
    proof (cases "xs = []")
      case True
      then show ?thesis using u by (simp add: p_def)
    next
      case False
      then obtain zs where zs: "xs = zs @ [p]" by (metis append_butlast_last_id p_def)
      have "seg h' a zs p"
        using s(1) u(3,4) assms(2-4) mem(2) unfolding zs seg_snoc
        by (intro seg_frame [of h a zs p h']) auto
      then show ?thesis using u by (simp add: zs seg_snoc)
    qed
    show ?thesis
    proof (cases ys)
      case Nil
      then show ?thesis using left by (simp add: n_def)
    next
      case (Cons y zs)
      have "seg h' y zs b"
        using s(2) u(3,4) assms(2-4) mem(1) unfolding Cons
        by (intro seg_frame [of h y zs b h']) (auto simp: n_def Cons)
      then show ?thesis using left by (simp add: Cons n_def seg_append)
    qed
  qed
  then show thesis using that pn mem by blast
qed

lemma ring_remove:
  assumes r: "ring h p (xs @ t # ys)"
  obtains h' where "base_timer_remove t h = Some h'" "ring h' p (xs @ ys)" "\<not> is_running t h'"
    "\<forall>q. q \<notin> set (p # xs @ t # ys) \<longrightarrow> m_next h' q = m_next h q \<and> m_prev h' q = m_prev h q"
proof -
  from r have s: "seg h p (xs @ t # ys) p" "distinct (xs @ t # ys)" "p \<notin> set (xs @ t # ys)"
    by (auto simp: ring_def)
  show thesis
  proof (rule seg_relink [OF s s(3)])
    fix a b
    assume ab: "m_prev h t = Some a" "m_next h t = Some b" "a \<in> set (p # xs)" "b \<in> set (ys @ [p])"
      and relink: "\<And>h'. m_next h' a = Some b \<Longrightarrow> m_prev h' b = Some a \<Longrightarrow>
        \<forall>q. q \<noteq> a \<and> q \<noteq> t \<longrightarrow> m_next h' q = m_next h q \<Longrightarrow>
        \<forall>q. q \<noteq> b \<and> q \<noteq> t \<longrightarrow> m_prev h' q = m_prev h q \<Longrightarrow> seg h' p (xs @ ys) p"
    have ne: "a \<noteq> t" "b \<noteq> t" using ab(3,4) s(2,3) by auto
    define h' where "h' = \<lparr>m_next = (m_next h)(a := Some b, t := None), m_prev = (m_prev h)(b := Some a, t := None)\<rparr>"
    have rm: "base_timer_remove t h = Some h'"
      using ab(1,2) ne by (simp add: base_timer_remove_def Let_def h'_def)
    have "seg h' p (xs @ ys) p" using ne by (intro relink) (simp_all add: h'_def)
    then have "ring h' p (xs @ ys)" using s(2,3) by (simp add: ring_def)
    moreover have "\<not> is_running t h'" by (simp add: is_running_def h'_def)
    moreover have "\<forall>q. q \<notin> set (p # xs @ t # ys) \<longrightarrow> m_next h' q = m_next h q \<and> m_prev h' q = m_prev h q"
      using ab(3,4) by (auto simp: h'_def)
    ultimately show thesis using that rm by blast
  qed
qed

text \<open>
  Destroying a timer never leaves a pointer to it behind: out of a ring it is removed, and a timer that
  was never added or has fired is left alone.
\<close>

lemma destroy_unlinks:
  assumes "ring h p xs" "t \<noteq> p" "t \<in> set xs \<or> \<not> is_running t h"
  shows "\<exists>h'. base_timer_destroy t h = Some h' \<and> ring h' p (removeAll t xs) \<and> \<not> is_running t h'"
proof (cases "t \<in> set xs")
  case True
  then obtain as bs where xs: "xs = as @ t # bs" by (meson split_list)
  have "removeAll t xs = as @ bs" using assms(1) by (auto simp: ring_def xs)
  moreover from ring_remove [OF assms(1) [unfolded xs]] obtain h' where
    "base_timer_remove t h = Some h'" "ring h' p (as @ bs)" "\<not> is_running t h'" .
  moreover have "m_next h t \<noteq> None \<and> m_prev h t \<noteq> None" using ring_linked [OF assms(1)] True by simp
  ultimately show ?thesis by (simp add: base_timer_destroy_def)
next
  case False
  then show ?thesis using assms(1,3) by (simp add: base_timer_destroy_def is_running_def)
qed


section \<open>Properties\<close>

text \<open>C19: The doubly linked rings of the timer slots behave as the lists of the wheel. For a ring of a slot
  head and its timers: the loop test \<open>head != head->m_next\<close> holds exactly when a timer is left and
  \<open>head->m_next\<close> is then the first one; inserting before the head appends an unlinked timer; removing
  a timer takes exactly it out and leaves it unlinked; neither touches any other ring.\<close>

theorem ring_refines_slot:
  assumes "ring h p xs"
  shows "(m_next h p \<noteq> Some p \<longleftrightarrow> xs \<noteq> []) \<and> (xs \<noteq> [] \<longrightarrow> m_next h p = Some (hd xs))
    \<and> (\<forall>c. c \<notin> set (p # xs) \<longrightarrow> (\<exists>h'. insert_before_head p c h = Some h' \<and> ring h' p (xs @ [c])
        \<and> (\<forall>q ys. ring h q ys \<and> set (q # ys) \<inter> set (c # p # xs) = {} \<longrightarrow> ring h' q ys)))
    \<and> (\<forall>t as bs. xs = as @ t # bs \<longrightarrow> (\<exists>h'. base_timer_remove t h = Some h' \<and> ring h' p (as @ bs)
        \<and> \<not> is_running t h'
        \<and> (\<forall>q ys. ring h q ys \<and> set (q # ys) \<inter> set (p # xs) = {} \<longrightarrow> ring h' q ys)))"
proof (intro conjI allI impI)
  have e: "m_next h p = Some (case xs of [] \<Rightarrow> p | x # _ \<Rightarrow> x)" "p \<notin> set xs"
    using assms seg_ends by (auto simp: ring_def)
  then show "m_next h p \<noteq> Some p \<longleftrightarrow> xs \<noteq> []" by (auto split: list.splits)
  show "m_next h p = Some (hd xs)" if "xs \<noteq> []" using e that by (auto split: list.splits)
next
  fix c assume "c \<notin> set (p # xs)"
  from ring_insert [OF assms this] obtain h' where h': "insert_before_head p c h = Some h'"
    "ring h' p (xs @ [c])"
    "\<forall>q. q \<notin> set (c # p # xs) \<longrightarrow> m_next h' q = m_next h q \<and> m_prev h' q = m_prev h q" .
  moreover have "ring h' q ys" if "ring h q ys" "set (q # ys) \<inter> set (c # p # xs) = {}" for q ys
    by (rule ring_frame [OF that(1)]) (use that(2) h'(3) in blast)
  ultimately show "\<exists>h'. insert_before_head p c h = Some h' \<and> ring h' p (xs @ [c])
      \<and> (\<forall>q ys. ring h q ys \<and> set (q # ys) \<inter> set (c # p # xs) = {} \<longrightarrow> ring h' q ys)" by blast
next
  fix t as bs assume xs: "xs = as @ t # bs"
  from ring_remove [OF assms [unfolded xs]] obtain h' where h': "base_timer_remove t h = Some h'"
    "ring h' p (as @ bs)" "\<not> is_running t h'"
    "\<forall>q. q \<notin> set (p # as @ t # bs) \<longrightarrow> m_next h' q = m_next h q \<and> m_prev h' q = m_prev h q" .
  moreover have "ring h' q ys" if "ring h q ys" "set (q # ys) \<inter> set (p # xs) = {}" for q ys
    by (rule ring_frame [OF that(1)]) (use that(2) h'(4) xs in blast)
  ultimately show "\<exists>h'. base_timer_remove t h = Some h' \<and> ring h' p (as @ bs) \<and> \<not> is_running t h'
      \<and> (\<forall>q ys. ring h q ys \<and> set (q # ys) \<inter> set (p # xs) = {} \<longrightarrow> ring h' q ys)" by blast
qed

definition sample_links :: links where
  "sample_links = init_head 0 \<lparr>m_next = Map.empty, m_prev = Map.empty\<rparr>"

theorem ring_refines_slot_witness:
  "\<exists>h1. insert_before_head 0 5 sample_links = Some h1 \<and> ring h1 0 [5]
     \<and> (\<exists>h2. base_timer_remove 5 h1 = Some h2 \<and> ring h2 0 [] \<and> \<not> is_running 5 h2)"
proof -
  have "ring sample_links 0 []" unfolding sample_links_def by (rule ring_init)
  from ring_refines_slot [OF this, THEN conjunct2, THEN conjunct2, THEN conjunct1, THEN spec [of _ 5]]
  obtain h1 where h1: "insert_before_head 0 5 sample_links = Some h1" "ring h1 0 [5]" by auto
  obtain h2 where "base_timer_remove 5 h1 = Some h2" "ring h2 0 ([] @ [])" "\<not> is_running 5 h2"
    using ring_remove [of h1 0 "[]" 5 "[]"] h1(2) by auto
  with h1 show ?thesis by auto
qed

end
