(* ===== verification/Interfaces.thy ===== *)
theory Interfaces
  imports Prelude
begin

text \<open>
  The contracts that several container classes of the repository share, as locales:
  \<open>keyed_store\<close> (insert or replace by key), \<open>keyed_pool\<close> (insert only under a free key) and
  \<open>bounded_fifo\<close> (a queue that can be full). What a client may rely on after any sequence of
  operations is proved here once; the container theories interpret the locales on their models.
\<close>

section \<open>A store under keys\<close>

datatype ('k, 'v) store_op = Put 'k 'v | Del 'k

fun store_step :: "('k \<Rightarrow> 'v \<Rightarrow> 's \<Rightarrow> 's) \<Rightarrow> ('k \<Rightarrow> 's \<Rightarrow> 's) \<Rightarrow> ('k, 'v) store_op \<Rightarrow> 's \<Rightarrow> 's" where
  "store_step put del (Put k v) s = put k v s"
| "store_step put del (Del k) s = del k s"

fun map_step :: "('k, 'v) store_op \<Rightarrow> ('k \<Rightarrow> 'v option) \<Rightarrow> ('k \<Rightarrow> 'v option)" where
  "map_step (Put k v) m = m(k \<mapsto> v)"
| "map_step (Del k) m = m(k := None)"

definition op_admitted :: "('k \<Rightarrow> 'v \<Rightarrow> bool) \<Rightarrow> ('k, 'v) store_op \<Rightarrow> bool" where
  "op_admitted ok a = (case a of Put k v \<Rightarrow> ok k v | Del k \<Rightarrow> True)"

locale keyed_store =
  fixes inv :: "'s \<Rightarrow> bool"
    and lookup :: "'s \<Rightarrow> 'k \<Rightarrow> 'v option"
    and put :: "'k \<Rightarrow> 'v \<Rightarrow> 's \<Rightarrow> 's"
    and del :: "'k \<Rightarrow> 's \<Rightarrow> 's"
    and ok :: "'k \<Rightarrow> 'v \<Rightarrow> bool"
  assumes inv_put: "inv s \<Longrightarrow> ok k v \<Longrightarrow> inv (put k v s)"
    and lookup_put: "inv s \<Longrightarrow> ok k v \<Longrightarrow> lookup (put k v s) = (lookup s)(k \<mapsto> v)"
    and inv_del: "inv s \<Longrightarrow> inv (del k s)"
    and lookup_del: "inv s \<Longrightarrow> lookup (del k s) = (lookup s)(k := None)"
begin

lemma step_refines:
  assumes "inv s" "op_admitted ok a"
  shows "inv (store_step put del a s) \<and> lookup (store_step put del a s) = map_step a (lookup s)"
  using assms inv_put lookup_put inv_del lookup_del by (cases a) (auto simp: op_admitted_def)

text \<open>Any sequence of operations acts as on a mathematical map.\<close>

lemma run_refines:
  assumes "inv s" "list_all (op_admitted ok) ops"
  shows "inv (fold (store_step put del) ops s)
    \<and> lookup (fold (store_step put del) ops s) = fold map_step ops (lookup s)"
  using assms
proof (induction ops arbitrary: s)
  case (Cons a ops)
  with step_refines [of s a] Cons.IH [of "store_step put del a s"] show ?case by simp
qed simp

end

section \<open>A pool that never replaces\<close>

locale keyed_pool =
  fixes inv :: "'s \<Rightarrow> bool"
    and lookup :: "'s \<Rightarrow> 'k \<Rightarrow> 'v option"
    and add :: "'k \<Rightarrow> 'v \<Rightarrow> 's \<Rightarrow> bool \<times> 's"
    and del :: "'k \<Rightarrow> 's \<Rightarrow> 's"
  assumes add_free: "inv s \<Longrightarrow> lookup s k = None \<Longrightarrow>
      (case add k v s of (r, s') \<Rightarrow> r \<and> inv s' \<and> lookup s' = (lookup s)(k \<mapsto> v))"
    and add_taken: "inv s \<Longrightarrow> lookup s k = Some x \<Longrightarrow> add k v s = (False, s)"
    and pool_inv_del: "inv s \<Longrightarrow> inv (del k s)"
    and pool_lookup_del: "inv s \<Longrightarrow> lookup (del k s) = (lookup s)(k := None)"
begin

lemma add_cases:
  assumes "inv s"
  shows "inv (snd (add k v s))
    \<and> lookup (snd (add k v s)) = (if lookup s k = None then (lookup s)(k \<mapsto> v) else lookup s)
    \<and> (fst (add k v s) \<longleftrightarrow> lookup s k = None)"
  using add_free [OF assms, of k v] add_taken [OF assms, of k _ v] assms
  by (cases "lookup s k") (auto split: prod.splits)

text \<open>An entry stays what it is until it is deleted, whatever is added meanwhile.\<close>

lemma entry_stable:
  assumes "inv s" "lookup s k = Some x" "\<forall>a \<in> set ops. a \<noteq> Del k"
  shows "inv (fold (store_step (\<lambda>k v s. snd (add k v s)) del) ops s)
    \<and> lookup (fold (store_step (\<lambda>k v s. snd (add k v s)) del) ops s) k = Some x"
  using assms
proof (induction ops arbitrary: s)
  case (Cons a ops)
  have "inv (store_step (\<lambda>k v s. snd (add k v s)) del a s)
      \<and> lookup (store_step (\<lambda>k v s. snd (add k v s)) del a s) k = Some x"
    using Cons.prems add_cases [OF Cons.prems(1)] pool_inv_del pool_lookup_del by (cases a) auto
  with Cons.IH Cons.prems(3) show ?case by simp
qed simp

end

text \<open>Deleting first turns a pool into a store.\<close>

sublocale keyed_pool \<subseteq> replacing: keyed_store inv lookup "\<lambda>k v s. snd (add k v (del k s))" del "\<lambda>k v. True"
proof unfold_locales
  fix s k v assume "inv s"
  then have d: "inv (del k s)" "lookup (del k s) = (lookup s)(k := None)"
    using pool_inv_del pool_lookup_del by blast+
  with add_cases [OF d(1), of k v]
  show "inv (snd (add k v (del k s)))" "lookup (snd (add k v (del k s))) = (lookup s)(k \<mapsto> v)"
    by simp_all
qed (use pool_inv_del pool_lookup_del in blast)+

section \<open>A bounded queue\<close>

datatype 'a queue_op = Push 'a | Pop

text \<open>A run collects the elements that were accepted and those that came out.\<close>

fun queue_run ::
  "('a \<Rightarrow> 's \<Rightarrow> bool \<times> 's) \<Rightarrow> ('s \<Rightarrow> 'a option \<times> 's) \<Rightarrow> 'a queue_op list \<Rightarrow> 's \<Rightarrow>
   'a list \<times> 'a list \<times> 's" where
  "queue_run push pop [] s = ([], [], s)"
| "queue_run push pop (Push x # ops) s =
     (case push x s of (r, s1) \<Rightarrow>
        case queue_run push pop ops s1 of (ins, outs, s2) \<Rightarrow> (if r then x # ins else ins, outs, s2))"
| "queue_run push pop (Pop # ops) s =
     (case pop s of (r, s1) \<Rightarrow>
        case queue_run push pop ops s1 of (ins, outs, s2) \<Rightarrow>
          (ins, case r of None \<Rightarrow> outs | Some x \<Rightarrow> x # outs, s2))"

locale bounded_fifo =
  fixes inv :: "'s \<Rightarrow> bool"
    and items :: "'s \<Rightarrow> 'a list"
    and room :: "'s \<Rightarrow> nat"
    and push :: "'a \<Rightarrow> 's \<Rightarrow> bool \<times> 's"
    and pop :: "'s \<Rightarrow> 'a option \<times> 's"
  assumes push_room: "inv s \<Longrightarrow> length (items s) < room s \<Longrightarrow>
      (case push x s of (r, s') \<Rightarrow> r \<and> inv s' \<and> items s' = items s @ [x] \<and> room s' = room s)"
    and push_full: "inv s \<Longrightarrow> length (items s) = room s \<Longrightarrow> push x s = (False, s)"
    and items_room: "inv s \<Longrightarrow> length (items s) \<le> room s"
    and pop_some: "inv s \<Longrightarrow> items s = x # xs \<Longrightarrow>
      (case pop s of (r, s') \<Rightarrow> r = Some x \<and> inv s' \<and> items s' = xs \<and> room s' = room s)"
    and pop_empty: "inv s \<Longrightarrow> items s = [] \<Longrightarrow> pop s = (None, s)"
begin

lemma queue_run_fifo:
  assumes "inv s" "queue_run push pop ops s = (ins, outs, s')"
  shows "inv s' \<and> items s @ ins = outs @ items s'"
  using assms
proof (induction ops arbitrary: s ins outs s')
  case (Cons a ops)
  show ?case
  proof (cases a)
    case (Push x)
    obtain r s1 where p: "push x s = (r, s1)" by fastforce
    obtain ins1 outs1 s2 where q: "queue_run push pop ops s1 = (ins1, outs1, s2)" by (metis prod_cases3)
    have "inv s1 \<and> items s1 = (if r then items s @ [x] else items s)"
      using push_room [OF Cons.prems(1), of x] push_full [OF Cons.prems(1), of x]
        items_room [OF Cons.prems(1)] p Cons.prems(1)
      by (cases "length (items s) < room s") auto
    with Cons.IH [OF _ q] Cons.prems(2) Push p q show ?thesis by (auto split: if_splits)
  next
    case Pop
    obtain r s1 where p: "pop s = (r, s1)" by fastforce
    obtain ins1 outs1 s2 where q: "queue_run push pop ops s1 = (ins1, outs1, s2)" by (metis prod_cases3)
    have "inv s1 \<and> items s = (case r of None \<Rightarrow> items s1 | Some x \<Rightarrow> x # items s1)"
      using pop_some [OF Cons.prems(1)] pop_empty [OF Cons.prems(1)] p Cons.prems(1)
      by (cases "items s") auto
    with Cons.IH [OF _ q] Cons.prems(2) Pop p q show ?thesis by (auto split: option.splits)
  qed
qed simp

lemma push_iff: "inv s \<Longrightarrow> fst (push x s) \<longleftrightarrow> length (items s) < room s"
  using push_room [of s x] push_full [of s x] items_room [of s]
  by (cases "length (items s) < room s") (auto split: prod.splits)

lemma queue_run_room:
  "inv s \<Longrightarrow> queue_run push pop ops s = (ins, outs, s') \<Longrightarrow> room s' = room s"
proof (induction ops arbitrary: s ins outs s')
  case (Cons a ops)
  show ?case
  proof (cases a)
    case (Push x)
    obtain r s1 where p: "push x s = (r, s1)" by fastforce
    obtain ins1 outs1 s2 where q: "queue_run push pop ops s1 = (ins1, outs1, s2)" by (metis prod_cases3)
    have "inv s1 \<and> room s1 = room s"
      using push_room [OF Cons.prems(1), of x] push_full [OF Cons.prems(1), of x]
        items_room [OF Cons.prems(1)] p Cons.prems(1)
      by (cases "length (items s) < room s") auto
    with Cons.IH [OF _ q] Cons.prems(2) Push p q show ?thesis by auto
  next
    case Pop
    obtain r s1 where p: "pop s = (r, s1)" by fastforce
    obtain ins1 outs1 s2 where q: "queue_run push pop ops s1 = (ins1, outs1, s2)" by (metis prod_cases3)
    have "inv s1 \<and> room s1 = room s"
      using pop_some [OF Cons.prems(1)] pop_empty [OF Cons.prems(1)] p Cons.prems(1)
      by (cases "items s") auto
    with Cons.IH [OF _ q] Cons.prems(2) Pop p q show ?thesis by auto
  qed
qed simp

end

end
