(* ===== verification/CircularQueue.thy ===== *)
theory CircularQueue
  imports Interfaces
begin

text \<open>
  \<open>framework/circular_queue.h\<close>: a ring buffer of elements with one slot kept free. \<open>queue_items\<close>
  is the abstraction, the elements from the tail to the head. Shown: it implements the contract
  \<open>bounded_fifo\<close> with \<open>capacity() - 1\<close> places.
\<close>

section \<open>State and operations\<close>

text \<open>\<open>m_itemlist\<close> is \<open>None\<close> for \<open>m_itemlist == NULL\<close>.\<close>

record 'a cqueue =
  m_maxsize :: int
  m_itemlist :: "'a list option"
  m_front :: int
  m_back :: int

definition cqueue_new :: "'a cqueue" where
  "cqueue_new = \<lparr>m_maxsize = 1, m_itemlist = None, m_front = 0, m_back = 0\<rparr>"

text \<open>\<open>init\<close>; \<open>fresh\<close> is the new array, or \<open>None\<close> when the allocation fails.\<close>

definition cqueue_init :: "'a list option \<Rightarrow> int \<Rightarrow> 'a cqueue \<Rightarrow> int \<times> 'a cqueue" where
  "cqueue_init fresh n q =
     (if m_itemlist q \<noteq> None \<or> n < 4 then (-1, q)
      else case fresh of
             None \<Rightarrow> (-1, q\<lparr>m_itemlist := None\<rparr>)
           | Some xs \<Rightarrow> (0, q\<lparr>m_itemlist := Some xs, m_maxsize := n\<rparr>))"

definition cqueue_fini :: "'a cqueue \<Rightarrow> 'a cqueue" where
  "cqueue_fini q = (if m_itemlist q \<noteq> None then q\<lparr>m_itemlist := None, m_front := 0, m_back := 0\<rparr> else q)"

definition cqueue_capacity :: "'a cqueue \<Rightarrow> int" where
  "cqueue_capacity q = m_maxsize q"

definition cqueue_empty :: "'a cqueue \<Rightarrow> bool" where
  "cqueue_empty q \<longleftrightarrow> m_front q = m_back q"

definition cqueue_full :: "'a cqueue \<Rightarrow> bool" where
  "cqueue_full q \<longleftrightarrow> c_mod (m_front q + 1) (m_maxsize q) = m_back q"

text \<open>\<open>None\<close>: the array is accessed through \<open>NULL\<close>.\<close>

definition cqueue_push :: "'a \<Rightarrow> 'a cqueue \<Rightarrow> (int \<times> 'a cqueue) option" where
  "cqueue_push x q =
     (if cqueue_full q then Some (-1, q)
      else case m_itemlist q of
             None \<Rightarrow> None
           | Some xs \<Rightarrow> Some (0, q\<lparr>m_itemlist := Some (xs[nat (m_front q) := x]),
                                m_front := c_mod (m_front q + 1) (m_maxsize q)\<rparr>))"

definition cqueue_pop :: "'a cqueue \<Rightarrow> (int \<times> 'a option \<times> 'a cqueue) option" where
  "cqueue_pop q =
     (if cqueue_empty q then Some (-1, None, q)
      else case m_itemlist q of
             None \<Rightarrow> None
           | Some xs \<Rightarrow> Some (0, Some (xs ! nat (m_back q)), q\<lparr>m_back := c_mod (m_back q + 1) (m_maxsize q)\<rparr>))"

definition cqueue_back :: "'a cqueue \<Rightarrow> 'a option" where
  "cqueue_back q =
     (case m_itemlist q of
        None \<Rightarrow> None
      | Some xs \<Rightarrow> if cqueue_empty q then None else Some (xs ! nat (m_back q)))"

section \<open>Abstraction\<close>

definition queue_items :: "'a cqueue \<Rightarrow> 'a list" where
  "queue_items q =
     (case m_itemlist q of
        None \<Rightarrow> []
      | Some xs \<Rightarrow> map (\<lambda>i. xs ! nat ((m_back q + int i) mod m_maxsize q))
                    [0..<nat ((m_front q - m_back q) mod m_maxsize q)])"

definition queue_room :: "'a cqueue \<Rightarrow> nat" where
  "queue_room q = nat (m_maxsize q - 1)"

definition cqueue_inv :: "'a cqueue \<Rightarrow> bool" where
  "cqueue_inv q \<longleftrightarrow> 4 \<le> m_maxsize q \<and> 0 \<le> m_front q \<and> m_front q < m_maxsize q \<and> 0 \<le> m_back q
     \<and> m_back q < m_maxsize q
     \<and> (case m_itemlist q of None \<Rightarrow> False | Some xs \<Rightarrow> int (length xs) = m_maxsize q)"

text \<open>The calls as the contract sees them: success as a truth value.\<close>

definition push_call :: "'a \<Rightarrow> 'a cqueue \<Rightarrow> bool \<times> 'a cqueue" where
  "push_call x q = (case cqueue_push x q of Some (r, q') \<Rightarrow> (r = 0, q') | None \<Rightarrow> (False, q))"

definition pop_call :: "'a cqueue \<Rightarrow> 'a option \<times> 'a cqueue" where
  "pop_call q = (case cqueue_pop q of Some (r, x, q') \<Rightarrow> (x, q') | None \<Rightarrow> (None, q))"

lemma cqueue_inv_elim:
  assumes "cqueue_inv q"
  obtains xs where "m_itemlist q = Some xs" "int (length xs) = m_maxsize q" "4 \<le> m_maxsize q"
    "0 \<le> m_front q" "m_front q < m_maxsize q" "0 \<le> m_back q" "m_back q < m_maxsize q"
  using assms by (auto simp: cqueue_inv_def split: option.splits)

lemma length_queue_items:
  assumes "cqueue_inv q"
  shows "int (length (queue_items q)) = (m_front q - m_back q) mod m_maxsize q"
  using assms by (auto elim!: cqueue_inv_elim simp: queue_items_def)

lemma cqueue_init_inv:
  assumes "cqueue_init (Some xs) n cqueue_new = (0, q)" "int (length xs) = n"
  shows "cqueue_inv q \<and> queue_items q = [] \<and> queue_room q = nat (n - 1)"
  using assms
  by (auto simp: cqueue_init_def cqueue_new_def cqueue_inv_def queue_items_def queue_room_def
      split: if_splits)

text \<open>The distance from tail to head tells a full queue from an empty one.\<close>

lemma full_iff:
  assumes "cqueue_inv q"
  shows "cqueue_full q \<longleftrightarrow> (m_front q - m_back q) mod m_maxsize q = m_maxsize q - 1"
    and "cqueue_empty q \<longleftrightarrow> (m_front q - m_back q) mod m_maxsize q = 0"
proof -
  from assms obtain xs where q: "4 \<le> m_maxsize q" "0 \<le> m_front q" "m_front q < m_maxsize q"
    "0 \<le> m_back q" "m_back q < m_maxsize q" by (rule cqueue_inv_elim)
  have d: "(m_front q - m_back q) mod m_maxsize q =
      (if m_back q \<le> m_front q then m_front q - m_back q else m_front q - m_back q + m_maxsize q)"
  proof (cases "m_back q \<le> m_front q")
    case False
    have "(m_front q - m_back q + m_maxsize q) mod m_maxsize q = m_front q - m_back q + m_maxsize q"
      using q False by (intro mod_pos_pos_trivial) auto
    then show ?thesis using False by simp
  qed (use q in \<open>simp add: mod_pos_pos_trivial\<close>)
  have f: "(m_front q + 1) mod m_maxsize q = (if m_front q + 1 = m_maxsize q then 0 else m_front q + 1)"
    using q by simp
  show "cqueue_full q \<longleftrightarrow> (m_front q - m_back q) mod m_maxsize q = m_maxsize q - 1"
    unfolding cqueue_full_def d using q f by (simp add: c_int_simps) linarith
  show "cqueue_empty q \<longleftrightarrow> (m_front q - m_back q) mod m_maxsize q = 0"
    unfolding cqueue_empty_def d using q by auto
qed

lemma push_items:
  assumes inv: "cqueue_inv q" and nf: "\<not> cqueue_full q"
  obtains q' where "cqueue_push x q = Some (0, q')" "cqueue_inv q'" "queue_items q' = queue_items q @ [x]"
    "m_maxsize q' = m_maxsize q"
proof -
  from inv obtain xs where q: "m_itemlist q = Some xs" "int (length xs) = m_maxsize q" "4 \<le> m_maxsize q"
    "0 \<le> m_front q" "m_front q < m_maxsize q" "0 \<le> m_back q" "m_back q < m_maxsize q" by (rule cqueue_inv_elim)
  define m where "m = m_maxsize q"
  define d where "d = (m_front q - m_back q) mod m"
  have d: "0 \<le> d" "d < m - 1"
  proof -
    have "0 < m" using q by (simp add: m_def)
    from pos_mod_sign [OF this, of "m_front q - m_back q"] pos_mod_bound [OF this, of "m_front q - m_back q"]
    show "0 \<le> d" "d < m - 1"
      using nf full_iff(1) [OF inv] unfolding d_def [symmetric] m_def [symmetric] by linarith+
  qed
  define q' where "q' = q\<lparr>m_itemlist := Some (xs[nat (m_front q) := x]), m_front := (m_front q + 1) mod m\<rparr>"
  have push: "cqueue_push x q = Some (0, q')"
    using nf q by (simp add: cqueue_push_def q'_def c_int_simps m_def)
  have d': "((m_front q + 1) mod m - m_back q) mod m = d + 1"
  proof -
    have "((m_front q + 1) mod m - m_back q) mod m = (d + 1) mod m"
      unfolding d_def mod_diff_left_eq mod_add_left_eq by (simp add: algebra_simps)
    then show ?thesis using d by simp
  qed
  have at: "nat ((m_back q + int i) mod m) = nat (m_front q) \<longleftrightarrow> int i = d" if "int i < m" for i
  proof -
    have "(m_back q + d) mod m = m_front q"
      unfolding d_def using q by (simp add: mod_add_right_eq m_def)
    moreover have "(m_back q + int i) mod m = (m_back q + d) mod m \<longleftrightarrow> int i mod m = d mod m"
      by (simp add: mod_eq_dvd_iff)
    ultimately show ?thesis
      using that d q by (simp add: eq_nat_nat_iff m_def)
  qed
  have "queue_items q' = map (\<lambda>i. xs[nat (m_front q) := x] ! nat ((m_back q + int i) mod m)) [0..<nat (d + 1)]"
    using d' by (simp add: queue_items_def q'_def m_def)
  also have "[0..<nat (d + 1)] = [0..<nat d] @ [nat d]" using d by (simp add: nat_add_distrib)
  also have "map (\<lambda>i. xs[nat (m_front q) := x] ! nat ((m_back q + int i) mod m)) ([0..<nat d] @ [nat d])
      = map (\<lambda>i. xs ! nat ((m_back q + int i) mod m)) [0..<nat d] @ [x]"
  proof -
    have "xs[nat (m_front q) := x] ! nat ((m_back q + int i) mod m) = xs ! nat ((m_back q + int i) mod m)"
      if "i < nat d" for i
    proof -
      have "int i < m" "int i \<noteq> d" using that d by linarith+
      then show ?thesis using at [of i] by (intro nth_list_update_neq) metis
    qed
    moreover have "xs[nat (m_front q) := x] ! nat ((m_back q + int (nat d)) mod m) = x"
      using at [of "nat d"] d q by (simp add: nat_less_iff m_def)
    ultimately show ?thesis by simp
  qed
  finally have "queue_items q' = queue_items q @ [x]"
    using q by (simp add: queue_items_def d_def m_def)
  moreover have "cqueue_inv q'" using q by (simp add: cqueue_inv_def q'_def m_def)
  ultimately show thesis using that push by (simp add: q'_def)
qed

lemma pop_items:
  assumes inv: "cqueue_inv q" and ne: "\<not> cqueue_empty q"
  obtains x xs q' where "queue_items q = x # xs" "cqueue_pop q = Some (0, Some x, q')" "cqueue_inv q'"
    "queue_items q' = xs" "m_maxsize q' = m_maxsize q"
proof -
  from inv obtain xs where q: "m_itemlist q = Some xs" "int (length xs) = m_maxsize q" "4 \<le> m_maxsize q"
    "0 \<le> m_front q" "m_front q < m_maxsize q" "0 \<le> m_back q" "m_back q < m_maxsize q" by (rule cqueue_inv_elim)
  define m where "m = m_maxsize q"
  define d where "d = (m_front q - m_back q) mod m"
  have d: "1 \<le> d" "d < m"
  proof -
    have "0 < m" using q by (simp add: m_def)
    from pos_mod_sign [OF this, of "m_front q - m_back q"] pos_mod_bound [OF this, of "m_front q - m_back q"]
    show "1 \<le> d" "d < m"
      using ne full_iff(2) [OF inv] unfolding d_def [symmetric] m_def [symmetric] by linarith+
  qed
  define q' where "q' = q\<lparr>m_back := (m_back q + 1) mod m\<rparr>"
  have pop: "cqueue_pop q = Some (0, Some (xs ! nat (m_back q)), q')"
    using ne q by (simp add: cqueue_pop_def q'_def c_int_simps m_def)
  have d': "(m_front q - (m_back q + 1) mod m) mod m = d - 1"
  proof -
    have "(m_front q - (m_back q + 1) mod m) mod m = (d - 1) mod m"
      unfolding d_def mod_diff_right_eq mod_diff_left_eq by (simp add: algebra_simps)
    then show ?thesis using d by simp
  qed
  have "[0..<nat d] = 0 # map Suc [0..<nat (d - 1)]"
    using d by (simp add: map_Suc_upt upt_conv_Cons nat_diff_distrib Suc_diff_le)
  then have "queue_items q = xs ! nat (m_back q mod m)
      # map (\<lambda>i. xs ! nat ((m_back q + int (Suc i)) mod m)) [0..<nat (d - 1)]"
    using q by (simp add: queue_items_def d_def m_def comp_def)
  moreover have "queue_items q' = map (\<lambda>i. xs ! nat ((m_back q + int (Suc i)) mod m)) [0..<nat (d - 1)]"
  proof -
    have "((m_back q + 1) mod m + int i) mod m = (m_back q + int (Suc i)) mod m" for i
      unfolding mod_add_left_eq by (simp add: algebra_simps)
    then show ?thesis
      using q d' unfolding queue_items_def q'_def by (simp del: of_nat_Suc flip: m_def)
  qed
  moreover have "cqueue_inv q'" using q by (simp add: cqueue_inv_def q'_def m_def)
  ultimately show thesis using that pop q by (simp add: q'_def m_def)
qed


text \<open>A stored element moves from the head to the tail and out in the order of storing.\<close>

interpretation cq: bounded_fifo cqueue_inv queue_items queue_room push_call pop_call
proof
  fix q :: "'a cqueue" and x
  assume inv: "cqueue_inv q"
  note f = full_iff [OF inv] and l = length_queue_items [OF inv]
  have room: "int (queue_room q) = m_maxsize q - 1"
    using inv by (auto elim!: cqueue_inv_elim simp: queue_room_def)
  have m: "0 < m_maxsize q" using inv by (auto elim!: cqueue_inv_elim)
  show "length (queue_items q) \<le> queue_room q"
    using pos_mod_bound [OF m, of "m_front q - m_back q"]
    unfolding l [symmetric] of_nat_le_iff [symmetric, where 'a = int] room by simp
  show "case push_call x q of (r, s') \<Rightarrow> r \<and> cqueue_inv s' \<and> queue_items s' = queue_items q @ [x]
      \<and> queue_room s' = queue_room q"
    if "length (queue_items q) < queue_room q"
  proof -
    have "(m_front q - m_back q) mod m_maxsize q \<noteq> m_maxsize q - 1"
      using l room that by (metis less_irrefl of_nat_less_iff)
    then have "\<not> cqueue_full q" unfolding f(1) .
    from push_items [OF inv this, of x] obtain q' where "cqueue_push x q = Some (0, q')"
      "cqueue_inv q'" "queue_items q' = queue_items q @ [x]" "m_maxsize q' = m_maxsize q" .
    then show ?thesis by (simp add: push_call_def queue_room_def)
  qed
  show "push_call x q = (False, q)" if "length (queue_items q) = queue_room q"
  proof -
    have "(m_front q - m_back q) mod m_maxsize q = m_maxsize q - 1"
      using l room that by metis
    then have "cqueue_full q" unfolding f(1) .
    then show ?thesis by (simp add: push_call_def cqueue_push_def)
  qed
next
  fix q :: "'a cqueue" and x xs
  assume inv: "cqueue_inv q" and "queue_items q = x # xs"
  then have "\<not> cqueue_empty q"
    unfolding full_iff(2) [OF inv] length_queue_items [OF inv, symmetric] by simp
  from pop_items [OF inv this] obtain y ys q' where "queue_items q = y # ys"
    "cqueue_pop q = Some (0, Some y, q')" "cqueue_inv q'" "queue_items q' = ys" "m_maxsize q' = m_maxsize q" .
  with \<open>queue_items q = x # xs\<close>
  show "case pop_call q of (r, s') \<Rightarrow> r = Some x \<and> cqueue_inv s' \<and> queue_items s' = xs \<and> queue_room s' = queue_room q"
    by (simp add: pop_call_def queue_room_def)
next
  fix q :: "'a cqueue"
  assume inv: "cqueue_inv q" and "queue_items q = []"
  then have "cqueue_empty q"
    unfolding full_iff(2) [OF inv] length_queue_items [OF inv, symmetric] by simp
  then show "pop_call q = (None, q)" by (simp add: pop_call_def cqueue_pop_def)
qed

section \<open>Properties\<close>

text \<open>C35: The circular queue is a bounded FIFO queue. After \<open>init\<close>, for any sequence of pushes and pops, the
  elements that come out are, in order, the first of those that were accepted, and the rest is what the
  queue still holds; a push is refused exactly when \<open>capacity() - 1\<close> elements are inside, a pop exactly when
  none is, and otherwise answers the first one and takes it out; neither
  call ever goes through a \<open>NULL\<close> array.\<close>

theorem circular_queue_fifo:
  assumes "cqueue_init (Some mem) n cqueue_new = (0, q)" "int (length mem) = n"
    and "queue_run push_call pop_call ops q = (ins, outs, q')"
  shows "ins = outs @ queue_items q' \<and> length (queue_items q') \<le> nat (n - 1)
    \<and> (\<forall>x. (fst (push_call x q') \<longleftrightarrow> length (queue_items q') < nat (n - 1)) \<and> cqueue_push x q' \<noteq> None)
    \<and> cqueue_pop q' \<noteq> None
    \<and> (queue_items q' = [] \<longrightarrow> pop_call q' = (None, q'))
    \<and> (queue_items q' \<noteq> [] \<longrightarrow> fst (pop_call q') = Some (hd (queue_items q'))
        \<and> queue_items (snd (pop_call q')) = tl (queue_items q'))"
proof -
  note i = cqueue_init_inv [OF assms(1,2)]
  have i': "cqueue_inv q'" "ins = outs @ queue_items q'"
    using cq.queue_run_fifo [OF _ assms(3)] i by simp_all
  have room: "queue_room q' = nat (n - 1)"
    using cq.queue_run_room [OF _ assms(3)] i by simp
  from i'(1) obtain xs where "m_itemlist q' = Some xs" by (rule cqueue_inv_elim)
  then have "cqueue_push x q' \<noteq> None" "cqueue_pop q' \<noteq> None" for x
    by (simp_all add: cqueue_push_def cqueue_pop_def)
  moreover have "fst (pop_call q') = Some (hd (queue_items q')) \<and> queue_items (snd (pop_call q')) = tl (queue_items q')"
    if "queue_items q' \<noteq> []"
    using cq.pop_some [OF i'(1), of "hd (queue_items q')" "tl (queue_items q')"] that by (auto split: prod.splits)
  ultimately show ?thesis
    using i' room cq.items_room [OF i'(1)] cq.push_iff [OF i'(1)] cq.pop_empty [OF i'(1)] by simp
qed

theorem circular_queue_fifo_witness:
  "\<exists>q q'. cqueue_init (Some [0, 0, 0, 0 :: nat]) 4 cqueue_new = (0, q)
     \<and> queue_run push_call pop_call [Push 5, Push 6, Pop, Push 7, Push 8, Push 9, Pop] q = ([5, 6, 7, 8], [5, 6], q')
     \<and> queue_items q' = [7, 8]"
proof -
  let ?ops = "[Push 5, Push 6, Pop, Push 7, Push 8, Push 9, Pop]"
  obtain q where q: "cqueue_init (Some [0, 0, 0, 0 :: nat]) 4 cqueue_new = (0, q)"
    by (simp add: cqueue_init_def cqueue_new_def)
  obtain ins outs q' where r: "queue_run push_call pop_call ?ops q = (ins, outs, q')"
    by (metis prod_cases3)
  then have "ins = [5, 6, 7, 8]" "outs = [5, 6]"
    using q by (auto simp: cqueue_init_def cqueue_new_def push_call_def pop_call_def cqueue_push_def
        cqueue_pop_def cqueue_full_def cqueue_empty_def c_int_simps)
  with circular_queue_fifo [OF q _ r] q r show ?thesis by simp
qed

section \<open>Facts behind the findings\<close>

text \<open>\<open>fini\<close> keeps the old size, so the empty queue no longer looks full and \<open>push\<close> writes to \<open>NULL\<close>.\<close>

lemma push_after_fini: "cqueue_inv q \<Longrightarrow> cqueue_push x (cqueue_fini q) = None"
  by (auto elim!: cqueue_inv_elim simp: cqueue_push_def cqueue_fini_def cqueue_full_def c_int_simps)

end
