(* ===== verification/UnixConfig.thy ===== *)
theory UnixConfig
  imports Interfaces
begin

text \<open>
  \<open>framework/unix_config.h\<close> and \<open>.cpp\<close>: key-value configuration in 1024 hash buckets, with a line
  parser and a dump. Strings are byte lists without the terminating 0. Shown: the buckets
  implement the contract \<open>keyed_store\<close>, and loading a dump of plain words gives the same configuration back.
\<close>

section \<open>State and operations\<close>

definition BUCKETS_SIZE :: nat where "BUCKETS_SIZE = 1024"
definition BUCKETS_MASK :: u32 where "BUCKETS_MASK = 1023"
definition MAX_LINE_SIZE :: nat where "MAX_LINE_SIZE = 2048"

text \<open>\<open>char\<close> is signed: \<open>*p << 4\<close> and \<open>*p >> 4\<close> are \<open>int\<close> operations.\<close>

definition hash_byte :: "u32 \<Rightarrow> byte \<Rightarrow> u32" where
  "hash_byte h c = h * 11 + word_of_int (push_bit 4 (sint c)) + word_of_int (drop_bit 4 (sint c))"

definition config_hash :: "byte list \<Rightarrow> u32" where
  "config_hash key = foldl hash_byte 0 key"

definition bucket :: "u32 \<Rightarrow> nat" where
  "bucket h = unat (h AND BUCKETS_MASK)"

text \<open>A node; \<open>key_size\<close> is the length of \<open>node_key\<close>, the value stands behind the key.\<close>

record config_node =
  hash_value :: u32
  node_key :: "byte list"
  node_value :: "byte list"

type_synonym unix_config = "config_node list list"

definition config_new :: unix_config where
  "config_new = replicate BUCKETS_SIZE []"

text \<open>The test in the loop of \<open>get_node\<close>.\<close>

definition node_matches :: "byte list \<Rightarrow> config_node \<Rightarrow> bool" where
  "node_matches key n \<longleftrightarrow> hash_value n = config_hash key \<and> length (node_key n) = length key \<and> node_key n = key"

definition get_node :: "byte list \<Rightarrow> unix_config \<Rightarrow> config_node option" where
  "get_node key s =
     (if length key > MAX_LINE_SIZE then None
      else find (node_matches key) (s ! bucket (config_hash key)))"

text \<open>\<open>get(key, default_value)\<close> for strings.\<close>

definition config_get :: "byte list \<Rightarrow> byte list option \<Rightarrow> unix_config \<Rightarrow> byte list option" where
  "config_get key default_value s =
     (case get_node key s of Some n \<Rightarrow> Some (node_value n) | None \<Rightarrow> default_value)"

text \<open>\<open>get(key, default_value)\<close> for integers.\<close>

definition config_get_int :: "byte list \<Rightarrow> int \<Rightarrow> unix_config \<Rightarrow> int" where
  "config_get_int key default_value s =
     (case config_get key None s of None \<Rightarrow> default_value | Some v \<Rightarrow> atoi v)"

text \<open>Unlinking and replacing the first matching node of a bucket.\<close>

fun remove_first :: "('a \<Rightarrow> bool) \<Rightarrow> 'a list \<Rightarrow> 'a list" where
  "remove_first P [] = []"
| "remove_first P (x # xs) = (if P x then xs else x # remove_first P xs)"

fun replace_first :: "('a \<Rightarrow> bool) \<Rightarrow> 'a \<Rightarrow> 'a list \<Rightarrow> 'a list" where
  "replace_first P y [] = []"
| "replace_first P y (x # xs) = (if P x then y # xs else x # replace_first P y xs)"

definition config_remove :: "byte list \<Rightarrow> unix_config \<Rightarrow> unix_config" where
  "config_remove key s =
     (if get_node key s \<noteq> None
      then s[bucket (config_hash key) := remove_first (node_matches key) (s ! bucket (config_hash key))]
      else s)"

text \<open>\<open>set(key, key_size, value, value_size)\<close>; \<open>mem\<close> is whether \<open>malloc\<close> succeeds.\<close>

definition config_set :: "bool \<Rightarrow> byte list \<Rightarrow> byte list \<Rightarrow> unix_config \<Rightarrow> int \<times> unix_config" where
  "config_set mem key val s =
     (if length key > MAX_LINE_SIZE \<or> length val > MAX_LINE_SIZE then (-1, s)
      else if \<not> mem then (-1, s)
      else case get_node key s of
             Some old \<Rightarrow>
               let n = \<lparr>hash_value = hash_value old, node_key = key, node_value = val\<rparr>;
                   b = bucket (config_hash key)
               in (0, s[b := replace_first (node_matches key) n (s ! b)])
           | None \<Rightarrow>
               let n = \<lparr>hash_value = config_hash key, node_key = key, node_value = val\<rparr>;
                   b = bucket (hash_value n)
               in (0, s[b := n # s ! b]))"

definition config_clear :: "unix_config \<Rightarrow> unix_config" where
  "config_clear s = map (\<lambda>b. []) s"

section \<open>Parsing and dumping\<close>

text \<open>\<open>node_delimiter_string\<close>: space, tab, carriage return, equals sign, newline.\<close>

definition is_delim :: "byte \<Rightarrow> bool" where
  "is_delim c \<longleftrightarrow> c = 32 \<or> c = 9 \<or> c = 13 \<or> c = 61 \<or> c = 10"

definition ends_line :: "byte list \<Rightarrow> bool" where
  "ends_line p \<longleftrightarrow> (case p of [] \<Rightarrow> True | c # _ \<Rightarrow> c = 35 \<or> c = 10)"

definition parse_line :: "bool \<Rightarrow> byte list \<Rightarrow> unix_config \<Rightarrow> int \<times> unix_config" where
  "parse_line mem data s =
     (let p = dropWhile is_delim (c_str data) in
      if ends_line p then (-1, s)
      else let key = takeWhile (\<lambda>c. \<not> is_delim c) p;
               p2 = dropWhile is_delim (dropWhile (\<lambda>c. \<not> is_delim c) p) in
        if ends_line p2 then (-1, s)
        else config_set mem key (takeWhile (\<lambda>c. \<not> is_delim c) p2) s)"

text \<open>\<open>fgets(line, n, fp)\<close>: the line read, at most \<open>n - 1\<close> bytes, and the rest of the file.\<close>

definition fgets :: "nat \<Rightarrow> byte list \<Rightarrow> byte list \<times> byte list" where
  "fgets n bs =
     (let k = min (n - 1) (length (takeWhile (\<lambda>c. c \<noteq> 10) bs) + 1) in (take k bs, drop k bs))"

function load_lines :: "bool \<Rightarrow> byte list \<Rightarrow> unix_config \<Rightarrow> unix_config" where
  "load_lines mem bs s =
     (if bs = [] then s
      else case fgets (MAX_LINE_SIZE - 1) bs of (line, rest) \<Rightarrow>
        load_lines mem rest (snd (parse_line mem line s)))"
  by pat_completeness auto
termination
  by (relation "measure (\<lambda>(mem, bs, s). length bs)")
    (auto simp: fgets_def MAX_LINE_SIZE_def Let_def)

declare load_lines.simps [simp del]

text \<open>\<open>load(filename)\<close>; \<open>None\<close> is a file that does not open.\<close>

definition config_load :: "bool \<Rightarrow> byte list option \<Rightarrow> unix_config \<Rightarrow> int \<times> unix_config" where
  "config_load mem file s =
     (case file of None \<Rightarrow> (-1, s) | Some bs \<Rightarrow> (0, load_lines mem bs s))"

text \<open>
  \<open>load(data, size)\<close>: a line of \<open>MAX_LINE_SIZE\<close> bytes or more is copied past the end of \<open>line\<close>.
\<close>

function load_data :: "bool \<Rightarrow> byte list \<Rightarrow> unix_config \<Rightarrow> (int \<times> unix_config) checked" where
  "load_data mem bs s =
     (if bs = [] then Fine (0, s)
      else let line_size = min (length bs) (length (takeWhile (\<lambda>c. c \<noteq> 10) bs) + 1) in
        if line_size \<ge> MAX_LINE_SIZE then OutOfBounds
        else load_data mem (drop line_size bs) (snd (parse_line mem (take line_size bs) s)))"
  by pat_completeness auto
termination
  by (relation "measure (\<lambda>(mem, bs, s). length bs)") (auto simp: Let_def)

declare load_data.simps [simp del]

text \<open>\<open>dump\<close>: every line is cut to 2047 bytes by \<open>snprintf\<close>.\<close>

definition dump_line :: "config_node \<Rightarrow> byte list" where
  "dump_line n = take (MAX_LINE_SIZE - 1) (node_key n @ [61] @ node_value n @ [10])"

definition config_dump :: "unix_config \<Rightarrow> byte list" where
  "config_dump s = concat (map dump_line (concat s))"

text \<open>
  \<open>save\<close>: the file is opened without \<open>O_TRUNC\<close>; \<open>file\<close> is what it held before. A file that does not open
  is left as it is.
\<close>

definition config_save :: "bool \<Rightarrow> byte list option \<Rightarrow> unix_config \<Rightarrow> int \<times> byte list option" where
  "config_save opened file s =
     (if \<not> opened then (-1, file)
      else let old = (case file of None \<Rightarrow> [] | Some bs \<Rightarrow> bs); text = config_dump s
           in (0, Some (text @ drop (length text) old)))"


section \<open>The buckets are a map\<close>

definition node_ok :: "nat \<Rightarrow> config_node \<Rightarrow> bool" where
  "node_ok b n \<longleftrightarrow> hash_value n = config_hash (node_key n) \<and> bucket (hash_value n) = b
     \<and> length (node_key n) \<le> MAX_LINE_SIZE \<and> length (node_value n) \<le> MAX_LINE_SIZE"

definition config_inv :: "unix_config \<Rightarrow> bool" where
  "config_inv s \<longleftrightarrow> length s = BUCKETS_SIZE
     \<and> (\<forall>i < BUCKETS_SIZE. distinct (map node_key (s ! i)) \<and> (\<forall>n \<in> set (s ! i). node_ok i n))"

definition config_lookup :: "unix_config \<Rightarrow> byte list \<Rightarrow> byte list option" where
  "config_lookup s key = config_get key None s"

text \<open>The operations as the contract \<open>keyed_store\<close> sees them.\<close>

definition config_put :: "byte list \<Rightarrow> byte list \<Rightarrow> unix_config \<Rightarrow> unix_config" where
  "config_put key val s = snd (config_set True key val s)"

definition config_admits :: "byte list \<Rightarrow> byte list \<Rightarrow> bool" where
  "config_admits key val \<longleftrightarrow> length key \<le> MAX_LINE_SIZE \<and> length val \<le> MAX_LINE_SIZE"

lemma bucket_bound: "bucket h < BUCKETS_SIZE"
proof -
  have "h AND 1023 \<le> 1023" by (rule word_and_le1)
  then have "unat (h AND 1023) \<le> unat (1023 :: u32)" by (simp add: word_le_nat_alt)
  then show ?thesis by (simp add: bucket_def BUCKETS_SIZE_def BUCKETS_MASK_def)
qed

lemma find_matches:
  assumes "config_inv s" "b = bucket (config_hash key)"
  shows "find (node_matches key) (s ! b) = find (\<lambda>n. node_key n = key) (s ! b)"
proof -
  have "node_matches key n \<longleftrightarrow> node_key n = key" if "n \<in> set (s ! b)" for n
    using assms that bucket_bound by (auto simp: config_inv_def node_matches_def node_ok_def)
  then show ?thesis by (auto intro!: find_cong)
qed

lemma find_key_of:
  "distinct (map node_key ns) \<Longrightarrow>
   map_option node_value (find (\<lambda>n. node_key n = k) ns) = map_of (map (\<lambda>n. (node_key n, node_value n)) ns) k"
  by (induction ns) auto

lemma config_lookup_bucket:
  assumes "config_inv s"
  shows "config_lookup s k = (if length k > MAX_LINE_SIZE then None
    else map_of (map (\<lambda>n. (node_key n, node_value n)) (s ! bucket (config_hash k))) k)"
proof -
  have "distinct (map node_key (s ! bucket (config_hash k)))"
    using assms bucket_bound by (simp add: config_inv_def)
  then show ?thesis
    using find_key_of [of "s ! bucket (config_hash k)" k] find_matches [OF assms refl, of k]
    by (auto simp: config_lookup_def config_get_def get_node_def split: option.splits)
qed

lemma replace_first_key:
  assumes "distinct (map node_key ns)" "find (\<lambda>n. node_key n = k) ns \<noteq> None" "node_key m = k"
  shows "map_of (map (\<lambda>n. (node_key n, node_value n)) (replace_first (\<lambda>n. node_key n = k) m ns))
      = (map_of (map (\<lambda>n. (node_key n, node_value n)) ns))(k \<mapsto> node_value m)"
    and "map node_key (replace_first (\<lambda>n. node_key n = k) m ns) = map node_key ns"
    and "set (replace_first (\<lambda>n. node_key n = k) m ns) \<subseteq> insert m (set ns)"
  using assms by (induction ns) (auto split: if_splits)

lemma remove_first_subset: "set (remove_first P xs) \<subseteq> set xs"
  by (induction xs) auto

lemma remove_first_key:
  assumes "distinct (map node_key ns)"
  shows "map_of (map (\<lambda>n. (node_key n, node_value n)) (remove_first (\<lambda>n. node_key n = k) ns))
      = (map_of (map (\<lambda>n. (node_key n, node_value n)) ns))(k := None)"
    and "distinct (map node_key (remove_first (\<lambda>n. node_key n = k) ns))"
    and "set (remove_first (\<lambda>n. node_key n = k) ns) \<subseteq> set ns"
proof -
  note sub = remove_first_subset
  show "set (remove_first (\<lambda>n. node_key n = k) ns) \<subseteq> set ns" by (rule sub)
  show "distinct (map node_key (remove_first (\<lambda>n. node_key n = k) ns))"
    using assms sub by (induction ns) (auto, fastforce)
  show "map_of (map (\<lambda>n. (node_key n, node_value n)) (remove_first (\<lambda>n. node_key n = k) ns))
      = (map_of (map (\<lambda>n. (node_key n, node_value n)) ns))(k := None)"
    using assms
  proof (induction ns)
    case (Cons n ns)
    then show ?case
      by (auto simp: map_of_eq_None_iff fun_upd_idem image_image intro!: ext)
  qed simp
qed

lemma first_cong:
  assumes "\<And>n. n \<in> set ns \<Longrightarrow> P n = Q n"
  shows "replace_first P m ns = replace_first Q m ns" "remove_first P ns = remove_first Q ns"
  using assms by (induction ns) auto


abbreviation node_pairs :: "config_node list \<Rightarrow> (byte list \<times> byte list) list" where
  "node_pairs ns \<equiv> map (\<lambda>n. (node_key n, node_value n)) ns"

lemma config_inv_bucket:
  "config_inv s \<Longrightarrow> b < BUCKETS_SIZE \<Longrightarrow> distinct (map node_key (s ! b)) \<and> (\<forall>n \<in> set (s ! b). node_ok b n)"
  by (auto simp: config_inv_def)

lemma bucket_update:
  assumes inv: "config_inv s" and b: "b = bucket (config_hash k)" and k: "length k \<le> MAX_LINE_SIZE"
    and xs: "distinct (map node_key xs)" "\<forall>n \<in> set xs. node_ok b n"
    and m: "map_of (node_pairs xs) = (map_of (node_pairs (s ! b)))(k := r)"
  shows "config_inv (s[b := xs]) \<and> config_lookup (s[b := xs]) = (config_lookup s)(k := r)"
proof -
  have len: "length s = BUCKETS_SIZE" "b < length s"
    using inv bucket_bound by (simp_all add: config_inv_def b)
  have inv': "config_inv (s[b := xs])"
    using inv xs len by (auto simp: config_inv_def nth_list_update)
  have "config_lookup (s[b := xs]) x = ((config_lookup s)(k := r)) x" for x
    unfolding fun_upd_apply config_lookup_bucket [OF inv'] config_lookup_bucket [OF inv]
    using m k len b by (simp add: nth_list_update)
  then show ?thesis using inv' by blast
qed

lemma config_set_ok:
  assumes inv: "config_inv s" and ok: "config_admits key val"
  shows "fst (config_set True key val s) = 0
    \<and> config_inv (config_put key val s) \<and> config_lookup (config_put key val s) = (config_lookup s)(key \<mapsto> val)"
proof -
  define b where "b = bucket (config_hash key)"
  have k: "length key \<le> MAX_LINE_SIZE" "length val \<le> MAX_LINE_SIZE"
    using ok by (simp_all add: config_admits_def)
  note bi = config_inv_bucket [OF inv, of b]
  have bb: "b < BUCKETS_SIZE" using bucket_bound by (simp add: b_def)
  have gn: "get_node key s = find (\<lambda>n. node_key n = key) (s ! b)"
    using k find_matches [OF inv refl, of key] by (simp add: get_node_def b_def)
  have mt: "node_matches key n \<longleftrightarrow> node_key n = key" if "n \<in> set (s ! b)" for n
    using bi bb that by (auto simp: node_ok_def node_matches_def)
  show ?thesis
  proof (cases "get_node key s")
    case None
    define n where "n = \<lparr>hash_value = config_hash key, node_key = key, node_value = val\<rparr>"
    have new: "key \<notin> node_key ` set (s ! b)" using None gn by (auto simp: find_None_iff)
    have "config_set True key val s = (0, s[b := n # s ! b])"
      using None k by (simp add: config_set_def n_def b_def Let_def)
    moreover have "config_inv (s[b := n # s ! b])
        \<and> config_lookup (s[b := n # s ! b]) = (config_lookup s)(key \<mapsto> val)"
      using bi bb new k
      by (intro bucket_update [OF inv b_def k(1)]) (auto simp: n_def node_ok_def b_def)
    ultimately show ?thesis by (simp add: config_put_def)
  next
    case (Some old)
    define n where "n = \<lparr>hash_value = hash_value old, node_key = key, node_value = val\<rparr>"
    have old: "old \<in> set (s ! b)" "node_key old = key"
      using Some gn by (auto simp: find_Some_iff)
    have set: "config_set True key val s = (0, s[b := replace_first (\<lambda>n. node_key n = key) n (s ! b)])"
      using Some k first_cong(1) [of "s ! b", OF mt] by (simp add: config_set_def n_def b_def Let_def)
    have f: "find (\<lambda>n. node_key n = key) (s ! b) \<noteq> None" using Some gn by simp
    have n: "node_key n = key" "node_ok b n"
      using old bi bb k by (auto simp: n_def node_ok_def)
    note r = replace_first_key [OF conjunct1 [OF bi [OF bb]] f n(1)]
    have "config_inv (s[b := replace_first (\<lambda>n. node_key n = key) n (s ! b)])
        \<and> config_lookup (s[b := replace_first (\<lambda>n. node_key n = key) n (s ! b)]) = (config_lookup s)(key \<mapsto> val)"
      using bi bb r n by (intro bucket_update [OF inv b_def k(1)]) (auto simp: n_def)
    with set show ?thesis by (simp add: config_put_def)
  qed
qed

lemma config_remove_ok:
  assumes inv: "config_inv s"
  shows "config_inv (config_remove key s) \<and> config_lookup (config_remove key s) = (config_lookup s)(key := None)"
proof (cases "get_node key s")
  case None
  then have "config_lookup s key = None" by (simp add: config_lookup_def config_get_def)
  then show ?thesis using None inv by (simp add: config_remove_def fun_upd_idem)
next
  case (Some old)
  define b where "b = bucket (config_hash key)"
  have bb: "b < BUCKETS_SIZE" using bucket_bound by (simp add: b_def)
  note bi = config_inv_bucket [OF inv bb]
  have k: "length key \<le> MAX_LINE_SIZE" using Some by (auto simp: get_node_def split: if_splits)
  have mt: "node_matches key n \<longleftrightarrow> node_key n = key" if "n \<in> set (s ! b)" for n
    using bi that by (auto simp: node_ok_def node_matches_def)
  note r = remove_first_key [OF conjunct1 [OF bi], of key]
  have "config_remove key s = s[b := remove_first (\<lambda>n. node_key n = key) (s ! b)]"
    using Some first_cong(2) [of "s ! b", OF mt] by (simp add: config_remove_def b_def)
  moreover have "config_inv (s[b := remove_first (\<lambda>n. node_key n = key) (s ! b)])
      \<and> config_lookup (s[b := remove_first (\<lambda>n. node_key n = key) (s ! b)]) = (config_lookup s)(key := None)"
    using bi r by (intro bucket_update [OF inv b_def k]) auto
  ultimately show ?thesis by simp
qed

lemma config_new_inv: "config_inv config_new" "config_lookup config_new = Map.empty"
proof -
  show i: "config_inv config_new" by (simp add: config_inv_def config_new_def)
  have "config_lookup config_new x = None" for x
    unfolding config_lookup_bucket [OF i] using bucket_bound by (simp add: config_new_def)
  then show "config_lookup config_new = Map.empty" by blast
qed

interpretation config: keyed_store config_inv config_lookup config_put config_remove config_admits
  using config_set_ok config_remove_ok by unfold_locales blast+


section \<open>Loading what was dumped\<close>

text \<open>Words that a dump can carry: no delimiter, no 0, not empty and not looking like a comment.\<close>

definition plain_word :: "byte list \<Rightarrow> bool" where
  "plain_word w \<longleftrightarrow> w \<noteq> [] \<and> hd w \<noteq> 35 \<and> list_all (\<lambda>c. \<not> is_delim c \<and> c \<noteq> 0) w"

definition printable :: "config_node \<Rightarrow> bool" where
  "printable n \<longleftrightarrow> plain_word (node_key n) \<and> plain_word (node_value n)
     \<and> length (node_key n) + length (node_value n) + 2 \<le> 2046"

lemma plain_word_facts:
  assumes "plain_word w"
  shows "dropWhile is_delim (w @ rest) = w @ rest"
    and "takeWhile (\<lambda>c. \<not> is_delim c) (w @ 61 # rest) = w" "takeWhile (\<lambda>c. \<not> is_delim c) (w @ 10 # rest) = w"
    and "dropWhile (\<lambda>c. \<not> is_delim c) (w @ 61 # rest) = 61 # rest"
    and "\<not> ends_line (w @ rest)" "10 \<notin> set w" "0 \<notin> set w"
proof -
  from assms obtain c cs where w: "w = c # cs" "\<not> is_delim c" "c \<noteq> 35"
    by (cases w) (auto simp: plain_word_def)
  have "c \<noteq> 10" using w(2) by (auto simp: is_delim_def)
  with w show "dropWhile is_delim (w @ rest) = w @ rest" "\<not> ends_line (w @ rest)"
    by (simp_all add: ends_line_def)
  have a: "\<forall>c \<in> set w. \<not> is_delim c \<and> c \<noteq> 0" using assms by (simp add: plain_word_def list_all_iff)
  then show "10 \<notin> set w" "0 \<notin> set w" by (auto simp: is_delim_def)
  have d: "is_delim 61" "is_delim 10" by (simp_all add: is_delim_def)
  from a d show "takeWhile (\<lambda>c. \<not> is_delim c) (w @ 61 # rest) = w"
    "takeWhile (\<lambda>c. \<not> is_delim c) (w @ 10 # rest) = w"
    "dropWhile (\<lambda>c. \<not> is_delim c) (w @ 61 # rest) = 61 # rest"
    by (induction w) auto
qed

lemma parse_dumped:
  assumes "plain_word k" "plain_word v"
  shows "parse_line mem (k @ [61] @ v @ [10]) s = config_set mem k v s"
proof -
  note k = plain_word_facts [OF assms(1)] and v = plain_word_facts [OF assms(2)]
  have c: "c_str (k @ [61] @ v @ [10]) = k @ 61 # v @ [10]"
    using k(7) v(7) by (subst c_str_id) (auto simp: str_ok_def)
  have "is_delim 61" by (simp add: is_delim_def)
  then have p2: "dropWhile is_delim (61 # v @ [10]) = v @ [10]" using v(1) [of "[10]"] by simp
  show ?thesis
    unfolding parse_line_def c Let_def k(1) if_not_P [OF k(5)] k(4) p2 if_not_P [OF v(5)] k(2)
    using v(3) [of "[]"] by simp
qed

lemma load_lines_cons:
  assumes "10 \<notin> set body" "length body \<le> 2045"
  shows "load_lines mem ((body @ [10]) @ rest) s = load_lines mem rest (snd (parse_line mem (body @ [10]) s))"
proof -
  have "takeWhile (\<lambda>c. c \<noteq> 10) ((body @ [10]) @ rest) = body"
    using assms(1) by (induction body) auto
  then have "fgets (MAX_LINE_SIZE - 1) ((body @ [10]) @ rest) = (body @ [10], rest)"
    using assms(2) unfolding fgets_def by (simp add: MAX_LINE_SIZE_def Let_def)
  then show ?thesis by (subst load_lines.simps) simp
qed

lemma load_dumped:
  assumes "list_all printable ns"
  shows "load_lines True (concat (map dump_line ns)) s
    = fold (\<lambda>n. config_put (node_key n) (node_value n)) ns s"
  using assms
proof (induction ns arbitrary: s)
  case Nil
  then show ?case by (simp add: load_lines.simps)
next
  case (Cons n ns)
  then have n: "plain_word (node_key n)" "plain_word (node_value n)"
      "length (node_key n) + length (node_value n) + 2 \<le> 2046" by (simp_all add: printable_def)
  let ?b = "node_key n @ [61] @ node_value n"
  have d: "dump_line n = ?b @ [10]" using n(3) by (simp add: dump_line_def MAX_LINE_SIZE_def)
  have "10 \<notin> set ?b" using plain_word_facts(6) n(1,2) by simp
  from load_lines_cons [OF this, of True "concat (map dump_line ns)" s] n
  have "load_lines True (concat (map dump_line (n # ns))) s
      = load_lines True (concat (map dump_line ns)) (snd (parse_line True (?b @ [10]) s))"
    by (simp add: d)
  also have "snd (parse_line True (?b @ [10]) s) = config_put (node_key n) (node_value n) s"
    using parse_dumped [OF n(1,2), of True s] by (simp add: config_put_def)
  finally show ?case using Cons by simp
qed

lemma lookup_node:
  assumes "config_inv s" "n \<in> set (concat s)"
  shows "config_lookup s (node_key n) = Some (node_value n)"
proof -
  from assms(2) obtain i where i: "i < length s" "n \<in> set (s ! i)"
    by (metis UN_E in_set_conv_nth set_concat)
  with assms(1) have ok: "node_ok i n" "distinct (map node_key (s ! i))"
    by (auto simp: config_inv_def)
  then have b: "bucket (config_hash (node_key n)) = i" "length (node_key n) \<le> MAX_LINE_SIZE"
    by (auto simp: node_ok_def)
  have "map_of (node_pairs (s ! i)) (node_key n) = Some (node_value n)"
    using ok(2) i(2) by (intro map_of_is_SomeI) (auto simp: comp_def)
  then show ?thesis using b by (simp add: config_lookup_bucket [OF assms(1)])
qed

lemma lookup_has_node:
  assumes "config_inv s" "config_lookup s k = Some v"
  shows "\<exists>n \<in> set (concat s). node_key n = k"
proof -
  have "map_of (node_pairs (s ! bucket (config_hash k))) k = Some v"
    using assms(2) by (simp add: config_lookup_bucket [OF assms(1)] split: if_splits)
  from map_of_SomeD [OF this] obtain n where "n \<in> set (s ! bucket (config_hash k))" "node_key n = k" by auto
  moreover have "bucket (config_hash k) < length s"
    using assms(1) bucket_bound by (simp add: config_inv_def)
  ultimately show ?thesis using nth_mem by fastforce
qed

lemma puts_lookup:
  assumes "config_inv t" "\<forall>n \<in> set ns. config_admits (node_key n) (node_value n) \<and> m (node_key n) = Some (node_value n)"
  shows "config_inv (fold (\<lambda>n. config_put (node_key n) (node_value n)) ns t)
    \<and> config_lookup (fold (\<lambda>n. config_put (node_key n) (node_value n)) ns t) k
      = (if k \<in> node_key ` set ns then m k else config_lookup t k)"
  using assms
proof (induction ns arbitrary: t)
  case (Cons n ns)
  then have n: "config_admits (node_key n) (node_value n)" "m (node_key n) = Some (node_value n)" by auto
  note p = config.inv_put [OF Cons.prems(1) n(1)] config.lookup_put [OF Cons.prems(1) n(1)]
  from Cons.IH [OF p(1)] Cons.prems(2) p(2) n(2) show ?case by auto
qed simp

section \<open>Properties\<close>

text \<open>C17: The configuration is a map. Starting from an empty one, any sequence of \<open>set\<close> and \<open>remove\<close> calls
  with keys and values of at most 2048 bytes answers \<open>get\<close> exactly as a mathematical map does: the
  last value set, or the default; colliding keys in one hash bucket never disturb each other.\<close>

theorem config_refines_map:
  assumes "list_all (op_admitted config_admits) ops"
  shows "config_get key default_value (fold (store_step config_put config_remove) ops config_new)
    = (case fold map_step ops Map.empty key of Some v \<Rightarrow> Some v | None \<Rightarrow> default_value)"
proof -
  from config.run_refines [OF config_new_inv(1) assms]
  have l: "config_lookup (fold (store_step config_put config_remove) ops config_new) = fold map_step ops Map.empty"
    by (simp add: config_new_inv(2))
  show ?thesis
    unfolding l [symmetric] by (simp add: config_lookup_def config_get_def split: option.splits)
qed

theorem config_refines_map_witness:
  "config_get [98] None (fold (store_step config_put config_remove)
      [Put [97] [49], Put [98] [50], Put [98] [51], Del [97]] config_new) = Some [51]"
  by (subst config_refines_map) (simp_all add: op_admitted_def config_admits_def MAX_LINE_SIZE_def)

text \<open>The entries of a dump are put back one by one.\<close>

lemma config_reloads:
  assumes "config_inv s" "list_all printable (concat s)"
    and "t = load_lines True (concat (map dump_line (concat s))) config_new"
  shows "config_inv t \<and> config_lookup t = config_lookup s"
proof -
  have t: "t = fold (\<lambda>n. config_put (node_key n) (node_value n)) (concat s) config_new"
    using assms(2,3) load_dumped [of "concat s"] by simp
  have n: "\<forall>n \<in> set (concat s). config_admits (node_key n) (node_value n)
      \<and> config_lookup s (node_key n) = Some (node_value n)"
  proof
    fix n assume m: "n \<in> set (concat s)"
    then obtain i where "i < length s" "n \<in> set (s ! i)" by (metis UN_E in_set_conv_nth set_concat)
    with assms(1) have "node_ok i n" by (auto simp: config_inv_def)
    then show "config_admits (node_key n) (node_value n) \<and> config_lookup s (node_key n) = Some (node_value n)"
      using lookup_node [OF assms(1) m] by (simp add: node_ok_def config_admits_def)
  qed
  note p = puts_lookup [OF config_new_inv(1) n]
  have "config_lookup t k = config_lookup s k" for k
    using p [of k] lookup_has_node [OF assms(1), of k] config_new_inv(2) t
    by (cases "config_lookup s k") force+
  then show ?thesis using p t by blast
qed

text \<open>C33: A dump of plain words can be loaded again. Assumed is that every stored key and value is a plain
  word (not empty, without a delimiter, that is white space or \<open>=\<close>, without a 0 and not starting with \<open>#\<close>)
  and that every line \<open>key=value\<close> has at most 2046 characters with its line end; \<open>set\<close> accepts
  others too, and those are not found again. Then loading the text that \<open>dump\<close> writes into an empty
  configuration gives every key the same value and no other key: line buffering by \<open>fgets\<close>, skipping of
  delimiters and comment detection do not lose an entry.\<close>

theorem config_dump_load:
  assumes "config_inv s" "list_all printable (concat s)"
    and "config_load True (Some (config_dump s)) config_new = (ret, t)"
  shows "ret = 0 \<and> config_inv t \<and> config_lookup t = config_lookup s"
  using config_reloads [OF assms(1,2) refl] assms(3) by (simp add: config_load_def config_dump_def)

lemma sample_config_nodes:
  "concat (config_put [104, 105] [49, 50] config_new) = [\<lparr>hash_value = config_hash [104, 105], node_key = [104, 105], node_value = [49, 50]\<rparr>]"
proof -
  have e: "concat (replicate n []) = []" for n by (induction n) auto
  have "concat ((replicate n [])[i := [x]]) = [x]" if "i < n" for n i and x :: config_node
    using that by (induction n arbitrary: i) (auto simp: e split: nat.splits)
  then show ?thesis using bucket_bound
    by (simp add: config_put_def config_set_def MAX_LINE_SIZE_def get_node_def config_new_def Let_def)
qed

theorem config_dump_load_witness:
  "config_lookup (snd (config_load True (Some (config_dump (config_put [104, 105] [49, 50] config_new))) config_new))
     [104, 105] = Some [49, 50]"
proof -
  let ?s = "config_put [104, 105] [49, 50] config_new"
  have ok: "config_admits [104, 105] [49, 50]" by (simp add: config_admits_def MAX_LINE_SIZE_def)
  note s = config.inv_put [OF config_new_inv(1) ok] config.lookup_put [OF config_new_inv(1) ok]
  have "list_all printable (concat ?s)"
    unfolding sample_config_nodes by (simp add: printable_def plain_word_def is_delim_def)
  from config_dump_load [OF s(1) this, of "fst (config_load True (Some (config_dump ?s)) config_new)"
      "snd (config_load True (Some (config_dump ?s)) config_new)"]
  show ?thesis using s(2) by simp
qed

text \<open>Saving to a file that was not longer and loading it again gives the same configuration.\<close>

lemma config_save_load:
  assumes "config_inv s" "list_all printable (concat s)"
    and "case file of None \<Rightarrow> True | Some old \<Rightarrow> length old \<le> length (config_dump s)"
    and "config_save True file s = (r, file')" "config_load True file' config_new = (ret, t)"
  shows "ret = 0 \<and> config_inv t \<and> config_lookup t = config_lookup s"
proof -
  have "file' = Some (config_dump s)"
    using assms(3,4) by (auto simp: config_save_def Let_def split: option.splits)
  then have "file' = Some (concat (map dump_line (concat s)))" by (simp add: config_dump_def)
  with config_reloads [OF assms(1,2)] assms(5) show ?thesis by (simp add: config_load_def)
qed

section \<open>Facts behind the findings\<close>

text \<open>\<open>load(data, size)\<close> leaves its line buffer on a line of 2048 bytes.\<close>

lemma load_data_long_line:
  "load_data mem (replicate 2048 97) s = OutOfBounds"
proof -
  have "takeWhile (\<lambda>c. c \<noteq> 10) (replicate 2048 (97 :: byte)) = replicate 2048 97"
    by (simp add: takeWhile_eq_all_conv)
  then show ?thesis by (subst load_data.simps) (simp add: MAX_LINE_SIZE_def Let_def)
qed

text \<open>What stood in a longer file behind the new text stays there: removed entries come back.\<close>

lemma removed_entries_return:
  "config_save True (Some old) config_new = (0, Some old)"
proof -
  have "concat (replicate n []) = []" for n by (induction n) auto
  then show ?thesis by (simp add: config_save_def config_dump_def config_new_def Let_def)
qed

end
