(* ===== verification/LruMap.thy ===== *)
theory LruMap
  imports Interfaces LinkRing
begin

text \<open>
  \<open>public/lru_map_container.h\<close>: a hash map whose nodes are also linked in order of use, the most
  recently used first. \<open>order\<close> is the ring behind \<open>m_head\<close> as the list of its keys; the section on pointers
  relinks the nodes as the code does and shows that the list says what the pointers hold. Shown: the
  container implements \<open>keyed_pool\<close>, and the ring is always sorted by the time of the last use, so
  \<open>lru_tail\<close> is the least recently used entry.
\<close>

section \<open>State and operations\<close>

record 'v lru =
  container :: "int \<rightharpoonup> 'v"
  order :: "int list"

definition lru_new :: "'v lru" where
  "lru_new = \<lparr>container = Map.empty, order = []\<rparr>"

definition list_node_insert :: "int \<Rightarrow> 'v lru \<Rightarrow> 'v lru" where
  "list_node_insert key s = s\<lparr>order := key # order s\<rparr>"

definition list_node_remove :: "int \<Rightarrow> 'v lru \<Rightarrow> 'v lru" where
  "list_node_remove key s = s\<lparr>order := remove1 key (order s)\<rparr>"

text \<open>\<open>get_node\<close> and \<open>get\<close>: with \<open>lru_touch\<close> the node moves to the front.\<close>

definition lru_get_node :: "int \<Rightarrow> bool \<Rightarrow> 'v lru \<Rightarrow> 'v option \<times> 'v lru" where
  "lru_get_node key lru_touch s =
     (if container s key \<noteq> None \<and> lru_touch
      then (container s key, list_node_insert key (list_node_remove key s))
      else (container s key, s))"

definition lru_get :: "int \<Rightarrow> bool \<Rightarrow> 'v lru \<Rightarrow> 'v option \<times> 'v lru" where
  "lru_get key lru_touch s = (case lru_get_node key lru_touch s of (it, s') \<Rightarrow> (it, s'))"

text \<open>\<open>add(key, value)\<close>; \<open>None\<close> is the \<open>NULL\<close> for a key that is present.\<close>

definition lru_add :: "int \<Rightarrow> 'v \<Rightarrow> 'v lru \<Rightarrow> 'v option \<times> 'v lru" where
  "lru_add key v s =
     (if container s key = None
      then (Some v, list_node_insert key (s\<lparr>container := (container s)(key \<mapsto> v)\<rparr>))
      else (None, s))"

text \<open>\<open>add(key)\<close>: the value is the one that the hash map creates.\<close>

definition lru_add_key :: "'v \<Rightarrow> int \<Rightarrow> 'v lru \<Rightarrow> 'v option \<times> 'v lru" where
  "lru_add_key fresh key s = lru_add key fresh s"

definition lru_size :: "'v lru \<Rightarrow> nat" where
  "lru_size s = card (dom (container s))"

definition lru_remove :: "int \<Rightarrow> 'v lru \<Rightarrow> 'v lru" where
  "lru_remove key s =
     (if container s key \<noteq> None
      then (list_node_remove key s)\<lparr>container := (container s)(key := None)\<rparr>
      else s)"

definition lru_clear :: "'v lru \<Rightarrow> 'v lru" where
  "lru_clear s = s\<lparr>container := Map.empty, order := []\<rparr>"

definition lru_tail :: "'v lru \<Rightarrow> 'v option" where
  "lru_tail s = (if order s = [] then None else container s (last (order s)))"

definition lru_head :: "'v lru \<Rightarrow> 'v option" where
  "lru_head s = (if order s = [] then None else container s (hd (order s)))"

section \<open>Invariant and contract\<close>

definition lru_inv :: "'v lru \<Rightarrow> bool" where
  "lru_inv s \<longleftrightarrow> distinct (order s) \<and> set (order s) = dom (container s)"

lemma lru_inv_new [simp]: "lru_inv lru_new"
  by (simp add: lru_inv_def lru_new_def)

lemma lru_add_inv: "lru_inv s \<Longrightarrow> lru_inv (snd (lru_add k v s))"
  by (auto simp: lru_inv_def lru_add_def list_node_insert_def)

lemma lru_remove_inv: "lru_inv s \<Longrightarrow> lru_inv (lru_remove k s)"
  by (auto simp: lru_inv_def lru_remove_def list_node_remove_def)

lemma lru_get_inv: "lru_inv s \<Longrightarrow> lru_inv (snd (lru_get k touch s))"
  by (auto simp: lru_inv_def lru_get_def lru_get_node_def list_node_insert_def list_node_remove_def)

lemma lru_size_order: "lru_inv s \<Longrightarrow> lru_size s = length (order s)"
  using distinct_card [of "order s"] by (simp add: lru_inv_def lru_size_def)

definition lru_add_call :: "int \<Rightarrow> 'v \<Rightarrow> 'v lru \<Rightarrow> bool \<times> 'v lru" where
  "lru_add_call k v s = (case lru_add k v s of (r, s') \<Rightarrow> (r \<noteq> None, s'))"

interpretation lru: keyed_pool lru_inv container lru_add_call lru_remove
proof
  fix s :: "'v lru" and k v x
  assume inv: "lru_inv s"
  show "case lru_add_call k v s of (r, s') \<Rightarrow> r \<and> lru_inv s' \<and> container s' = (container s)(k \<mapsto> v)"
    if "container s k = None"
    using that lru_add_inv [OF inv, of k v] by (simp add: lru_add_call_def lru_add_def list_node_insert_def)
  show "lru_add_call k v s = (False, s)" if "container s k = Some x"
    using that by (simp add: lru_add_call_def lru_add_def)
  show "lru_inv (lru_remove k s)" by (rule lru_remove_inv [OF inv])
  show "container (lru_remove k s) = (container s)(k := None)"
    by (auto simp: lru_remove_def list_node_remove_def)
qed

section \<open>The order of use\<close>

datatype 'v lru_op = LAdd int 'v | LGet int bool | LRemove int | LClear

fun lru_step :: "'v lru_op \<Rightarrow> 'v lru \<Rightarrow> 'v lru" where
  "lru_step (LAdd k v) s = snd (lru_add k v s)"
| "lru_step (LGet k touch) s = snd (lru_get k touch s)"
| "lru_step (LRemove k) s = lru_remove k s"
| "lru_step LClear s = lru_clear s"

text \<open>
  The specification keeps a clock and the time of the last use of every key: when it was added
  or touched.
\<close>

fun stamp_step :: "'v lru_op \<Rightarrow> 'v lru \<Rightarrow> nat \<times> (int \<Rightarrow> nat) \<Rightarrow> nat \<times> (int \<Rightarrow> nat)" where
  "stamp_step (LAdd k v) s (now, used) =
     (Suc now, if container s k = None then used(k := Suc now) else used)"
| "stamp_step (LGet k touch) s (now, used) =
     (Suc now, if container s k \<noteq> None \<and> touch then used(k := Suc now) else used)"
| "stamp_step (LRemove k) s (now, used) = (Suc now, used)"
| "stamp_step LClear s (now, used) = (Suc now, used)"

fun lru_run :: "'v lru_op list \<Rightarrow> 'v lru \<times> nat \<times> (int \<Rightarrow> nat) \<Rightarrow> 'v lru \<times> nat \<times> (int \<Rightarrow> nat)" where
  "lru_run [] c = c"
| "lru_run (a # ops) c = lru_run ops (lru_step a (fst c), stamp_step a (fst c) (snd c))"

definition by_use :: "'v lru \<times> nat \<times> (int \<Rightarrow> nat) \<Rightarrow> bool" where
  "by_use c \<longleftrightarrow> (case c of (s, now, used) \<Rightarrow>
     lru_inv s \<and> sorted_wrt (\<lambda>a b. used b < used a) (order s) \<and> (\<forall>k \<in> set (order s). used k \<le> now))"

lemma sorted_wrt_remove1: "sorted_wrt P xs \<Longrightarrow> sorted_wrt P (remove1 x xs)"
  by (induction xs) (auto dest: in_set_remove1 [THEN iffD1, rotated] notin_set_remove1
      intro: set_remove1_subset [THEN subsetD])

lemma by_use_step:
  assumes "by_use (s, now, used)"
  shows "by_use (lru_step a s, stamp_step a s (now, used))"
proof -
  from assms have i: "lru_inv s" and so: "sorted_wrt (\<lambda>a b. used b < used a) (order s)"
    and le: "\<forall>k \<in> set (order s). used k \<le> now" by (simp_all add: by_use_def)
  have so1: "sorted_wrt (\<lambda>a b. used b < used a) (remove1 k (order s))" for k
    by (rule sorted_wrt_remove1 [OF so])
  have d: "distinct (order s)" "set (order s) = dom (container s)" using i by (simp_all add: lru_inv_def)
  show ?thesis
  proof (cases a)
    case (LAdd k v)
    show ?thesis
    proof (cases "container s k = None")
      case True
      then have nk: "k \<notin> set (order s)" using d(2) by auto
      have "sorted_wrt (\<lambda>a b. (used(k := Suc now)) b < (used(k := Suc now)) a) (order s)"
        by (rule sorted_wrt_mono_rel [OF _ so]) (use nk in auto)
      then show ?thesis
        using True LAdd lru_add_inv [OF i, of k v] le nk
        by (auto simp: by_use_def lru_add_def list_node_insert_def le_Suc_eq less_Suc_eq_le)
    qed (use LAdd i so le in \<open>auto simp: by_use_def lru_add_def\<close>)
  next
    case (LGet k touch)
    show ?thesis
    proof (cases "container s k \<noteq> None \<and> touch")
      case True
      have nk: "k \<notin> set (remove1 k (order s))" using d(1) by simp
      have "sorted_wrt (\<lambda>a b. (used(k := Suc now)) b < (used(k := Suc now)) a) (remove1 k (order s))"
        by (rule sorted_wrt_mono_rel [OF _ so1]) (use nk in auto)
      then show ?thesis
        using True LGet lru_get_inv [OF i, of k touch] le d(1)
        by (auto simp: by_use_def lru_get_def lru_get_node_def list_node_insert_def list_node_remove_def
            le_Suc_eq less_Suc_eq_le)
    qed (use LGet i so le in \<open>auto simp: by_use_def lru_get_def lru_get_node_def\<close>)
  next
    case (LRemove k)
    then show ?thesis
      using lru_remove_inv [OF i, of k] so so1 [of k] le d(1)
      by (auto simp: by_use_def lru_remove_def list_node_remove_def)
  qed (auto simp: by_use_def lru_clear_def lru_inv_def)
qed

lemma by_use_run: "by_use c \<Longrightarrow> by_use (lru_run ops c)"
proof (induction ops arbitrary: c)
  case (Cons a ops)
  obtain s now used where c: "c = (s, now, used)" by (metis prod_cases3)
  have "by_use (lru_step a s, stamp_step a s (now, used))"
    using by_use_step Cons.prems unfolding c by blast
  then show ?case using Cons.IH by (simp add: c)
qed simp

section \<open>The pointers\<close>

text \<open>
  The same operations on the hash map and the heap of links. \<open>m_head\<close> is at the address \<open>anchor\<close>, the node of
  a key \<open>k\<close> at \<open>addr k\<close> (the nodes of an \<open>unordered_map\<close> do not move), and \<open>key_at\<close> reads the node of an
  address. \<open>None\<close> stands for a read through \<open>NULL\<close>.
\<close>

definition node_insert :: "ptr \<Rightarrow> ptr \<Rightarrow> ptr \<Rightarrow> links \<Rightarrow> links" where
  "node_insert prev node nxt h =
     (let h1 = h\<lparr>m_next := (m_next h)(prev := Some node)\<rparr>;
          h2 = h1\<lparr>m_prev := (m_prev h1)(node := Some prev)\<rparr>;
          h3 = h2\<lparr>m_next := (m_next h2)(node := Some nxt)\<rparr>
      in h3\<lparr>m_prev := (m_prev h3)(nxt := Some node)\<rparr>)"

definition node_remove :: "ptr \<Rightarrow> links \<Rightarrow> links option" where
  "node_remove node h =
     (case m_prev h node of
        None \<Rightarrow> None
      | Some p \<Rightarrow>
          let h1 = h\<lparr>m_next := (m_next h)(p := m_next h node)\<rparr> in
          (case m_next h1 node of
             None \<Rightarrow> None
           | Some n \<Rightarrow>
               let h2 = h1\<lparr>m_prev := (m_prev h1)(n := m_prev h1 node)\<rparr> in
               Some (h2\<lparr>m_prev := (m_prev h2)(node := None), m_next := (m_next h2)(node := None)\<rparr>)))"

text \<open>\<open>list_node_insert(&m_head, node, m_head.m_next)\<close>.\<close>

definition insert_front :: "ptr \<Rightarrow> ptr \<Rightarrow> links \<Rightarrow> links option" where
  "insert_front anchor c h = map_option (\<lambda>n. node_insert anchor c n h) (m_next h anchor)"

fun ptr_step :: "(int \<Rightarrow> ptr) \<Rightarrow> ptr \<Rightarrow> 'v lru_op \<Rightarrow> (int \<rightharpoonup> 'v) \<times> links \<Rightarrow> ((int \<rightharpoonup> 'v) \<times> links) option" where
  "ptr_step addr anchor (LAdd k v) (c, h) =
     (if c k = None then map_option (\<lambda>h1. (c(k \<mapsto> v), h1)) (insert_front anchor (addr k) h) else Some (c, h))"
| "ptr_step addr anchor (LGet k touch) (c, h) =
     (if c k \<noteq> None \<and> touch
      then (case node_remove (addr k) h of
              None \<Rightarrow> None
            | Some h1 \<Rightarrow> map_option (\<lambda>h2. (c, h2)) (insert_front anchor (addr k) h1))
      else Some (c, h))"
| "ptr_step addr anchor (LRemove k) (c, h) =
     (if c k \<noteq> None then map_option (\<lambda>h1. (c(k := None), h1)) (node_remove (addr k) h) else Some (c, h))"
| "ptr_step addr anchor LClear (c, h) =
     Some (Map.empty, h\<lparr>m_next := (m_next h)(anchor := Some anchor), m_prev := (m_prev h)(anchor := Some anchor)\<rparr>)"

definition ptr_tail :: "(ptr \<Rightarrow> int) \<Rightarrow> ptr \<Rightarrow> (int \<rightharpoonup> 'v) \<times> links \<Rightarrow> 'v option" where
  "ptr_tail key_at anchor s =
     (case m_prev (snd s) anchor of None \<Rightarrow> None | Some p \<Rightarrow> if p = anchor then None else fst s (key_at p))"

definition ptr_head :: "(ptr \<Rightarrow> int) \<Rightarrow> ptr \<Rightarrow> (int \<rightharpoonup> 'v) \<times> links \<Rightarrow> 'v option" where
  "ptr_head key_at anchor s =
     (case m_next (snd s) anchor of None \<Rightarrow> None | Some p \<Rightarrow> if p = anchor then None else fst s (key_at p))"

text \<open>The nodes of the keys and the head are different objects, and the list reads the ring.\<close>

definition addresses :: "(int \<Rightarrow> ptr) \<Rightarrow> (ptr \<Rightarrow> int) \<Rightarrow> ptr \<Rightarrow> bool" where
  "addresses addr key_at anchor \<longleftrightarrow> (\<forall>k. key_at (addr k) = k \<and> addr k \<noteq> anchor)"

definition reads_as :: "(int \<Rightarrow> ptr) \<Rightarrow> ptr \<Rightarrow> (int \<rightharpoonup> 'v) \<times> links \<Rightarrow> 'v lru \<Rightarrow> bool" where
  "reads_as addr anchor p s \<longleftrightarrow> fst p = container s \<and> ring (snd p) anchor (map addr (order s))"

lemma node_remove_timer: "node_remove = base_timer_remove"
  by (rule ext)+ (simp add: node_remove_def base_timer_remove_def)

lemma insert_front_ring:
  assumes r: "ring h anchor xs" and c: "c \<notin> set (anchor # xs)"
  shows "\<exists>h'. insert_front anchor c h = Some h' \<and> ring h' anchor (c # xs)"
proof -
  have s: "seg h anchor xs anchor" "distinct (anchor # xs)" using r by (simp_all add: ring_def)
  define n where "n = (case xs of [] \<Rightarrow> anchor | x # _ \<Rightarrow> x)"
  have n: "m_next h anchor = Some n" using seg_ends [OF s(1)] by (simp add: n_def)
  define h' where "h' = node_insert anchor c n h"
  have nx: "m_next h' q = (if q = c then Some n else if q = anchor then Some c else m_next h q)"
    and pv: "m_prev h' q = (if q = n then Some c else if q = c then Some anchor else m_prev h q)" for q
    by (auto simp: h'_def node_insert_def Let_def)
  have "seg h' c xs anchor"
  proof (cases xs)
    case (Cons x ys)
    have "seg h x ys anchor" using s(1) by (simp add: Cons)
    moreover have "\<forall>q \<in> set (x # ys). m_next h' q = m_next h q" "\<forall>q \<in> set (ys @ [anchor]). m_prev h' q = m_prev h q"
      using s(2) c nx pv by (auto simp: Cons n_def)
    ultimately have "seg h' x ys anchor" by (rule seg_frame)
    then show ?thesis using nx pv c by (simp add: Cons n_def)
  qed (use nx pv in \<open>simp add: n_def\<close>)
  moreover have "n \<noteq> c" using c by (auto simp: n_def split: list.splits)
  ultimately have "ring h' anchor (c # xs)" using s(2) c nx pv by (auto simp: ring_def)
  then show ?thesis by (simp add: insert_front_def n h'_def)
qed

lemma node_remove_ring:
  assumes "ring h anchor (map addr ks)" "addresses addr key_at anchor" "k \<in> set ks"
  shows "\<exists>h'. node_remove (addr k) h = Some h' \<and> ring h' anchor (map addr (remove1 k ks))"
proof -
  obtain as bs where ks: "ks = as @ k # bs" "k \<notin> set as" using split_list_first [OF assms(3)] by blast
  from assms(1) have "ring h anchor (map addr as @ addr k # map addr bs)" by (simp add: ks)
  then obtain h' where "base_timer_remove (addr k) h = Some h'" "ring h' anchor (map addr as @ map addr bs)"
    by (rule ring_remove)
  then show ?thesis using ks(2) by (simp add: node_remove_timer ks(1) remove1_append)
qed

lemma fresh_address:
  assumes "addresses addr key_at anchor" "k \<notin> set ks"
  shows "addr k \<notin> set (anchor # map addr ks)"
  using assms unfolding addresses_def by (auto, metis)

text \<open>Every operation on the pointers succeeds and is the operation on the list.\<close>

lemma ptr_step_refines:
  assumes a: "addresses addr key_at anchor" and inv: "lru_inv s" and rd: "reads_as addr anchor p s"
  shows "\<exists>p'. ptr_step addr anchor op p = Some p' \<and> reads_as addr anchor p' (lru_step op s)"
proof -
  obtain h where p: "p = (container s, h)" and r: "ring h anchor (map addr (order s))"
    using rd by (cases p) (auto simp: reads_as_def)
  have d: "set (order s) = dom (container s)" "distinct (order s)" using inv by (simp_all add: lru_inv_def)
  show ?thesis
  proof (cases op)
    case (LAdd k v)
    have "container s k = None \<Longrightarrow> \<exists>h'. insert_front anchor (addr k) h = Some h' \<and> ring h' anchor (addr k # map addr (order s))"
      using d by (intro insert_front_ring [OF r] fresh_address [OF a]) auto
    then show ?thesis using r
      by (auto simp: LAdd p reads_as_def lru_add_def list_node_insert_def)
  next
    case (LGet k touch)
    show ?thesis
    proof (cases "container s k \<noteq> None \<and> touch")
      case True
      then have k: "k \<in> set (order s)" using d(1) by auto
      then obtain h1 where h1: "node_remove (addr k) h = Some h1" "ring h1 anchor (map addr (remove1 k (order s)))"
        using node_remove_ring [OF r a] by blast
      have "k \<notin> set (remove1 k (order s))" using d(2) by simp
      from insert_front_ring [OF h1(2) fresh_address [OF a this]] obtain h2 where
        "insert_front anchor (addr k) h1 = Some h2" "ring h2 anchor (addr k # map addr (remove1 k (order s)))" by blast
      with True h1(1) show ?thesis
        by (simp add: LGet p reads_as_def lru_get_def lru_get_node_def list_node_insert_def list_node_remove_def)
    qed (use r in \<open>auto simp: LGet p reads_as_def lru_get_def lru_get_node_def\<close>)
  next
    case (LRemove k)
    have "container s k \<noteq> None \<Longrightarrow> \<exists>h'. node_remove (addr k) h = Some h' \<and> ring h' anchor (map addr (remove1 k (order s)))"
      using d by (intro node_remove_ring [OF r a]) auto
    then show ?thesis using r
      by (auto simp: LRemove p reads_as_def lru_remove_def list_node_remove_def)
  next
    case LClear
    then show ?thesis using ring_init [of anchor h] by (simp add: p reads_as_def lru_clear_def init_head_def)
  qed
qed

lemma ptr_ends:
  assumes a: "addresses addr key_at anchor" and rd: "reads_as addr anchor p s"
  shows "ptr_tail key_at anchor p = lru_tail s" "ptr_head key_at anchor p = lru_head s"
proof -
  obtain h where p: "p = (container s, h)" and r: "ring h anchor (map addr (order s))"
    using rd by (cases p) (auto simp: reads_as_def)
  have e: "m_next h anchor = Some (case map addr (order s) of [] \<Rightarrow> anchor | x # _ \<Rightarrow> x)"
    "m_prev h anchor = Some (if map addr (order s) = [] then anchor else last (map addr (order s)))"
    using r seg_ends [of h anchor "map addr (order s)" anchor] by (simp_all add: ring_def)
  show "ptr_tail key_at anchor p = lru_tail s" "ptr_head key_at anchor p = lru_head s"
    using a e by (cases "order s"; simp add: p ptr_tail_def ptr_head_def lru_tail_def lru_head_def
      addresses_def last_map)+
qed

section \<open>Property\<close>

text \<open>C38: The container evicts in the right order. After any sequence of \<open>add\<close>, \<open>get\<close> (touching or not),
  \<open>remove\<close> and \<open>clear\<close> the ring holds every stored key exactly once, ordered by the time of its last
  use; so \<open>lru_tail\<close> answers the value of the entry that was added or touched longest ago and
  \<open>lru_head\<close> that of the most recent one.\<close>

theorem lru_order_of_use:
  assumes "lru_run ops (lru_new, 0, \<lambda>k. 0) = (s, now, used)"
  shows "distinct (order s) \<and> set (order s) = dom (container s)
    \<and> sorted_wrt (\<lambda>a b. used b < used a) (order s)
    \<and> (order s \<noteq> [] \<longrightarrow> lru_tail s = container s (last (order s)) \<and> lru_tail s \<noteq> None
        \<and> lru_head s = container s (hd (order s)) \<and> lru_head s \<noteq> None
        \<and> (\<forall>k \<in> dom (container s). used (last (order s)) \<le> used k \<and> used k \<le> used (hd (order s))))"
proof -
  have "by_use (lru_new :: 'a lru, 0, \<lambda>k. 0)" by (simp add: by_use_def lru_new_def lru_inv_def)
  from by_use_run [OF this, of ops] assms
  have b: "distinct (order s)" "set (order s) = dom (container s)"
      "sorted_wrt (\<lambda>a b. used b < used a) (order s)"
    by (simp_all add: by_use_def lru_inv_def)
  have "used (last xs) \<le> used k \<and> used k \<le> used (hd xs)"
    if "sorted_wrt (\<lambda>a b. used b < used a) xs" "k \<in> set xs" for xs :: "int list" and k
    using that by (induction xs) (auto intro: less_imp_le split: if_splits)
  moreover have "order s \<noteq> [] \<longrightarrow> container s (last (order s)) \<noteq> None"
    using b(2) last_in_set by blast
  moreover have "order s \<noteq> [] \<longrightarrow> container s (hd (order s)) \<noteq> None"
    using b(2) hd_in_set by blast
  ultimately show ?thesis using b by (simp add: lru_tail_def lru_head_def)
qed

theorem lru_order_of_use_witness:
  "\<exists>s now used. lru_run [LAdd 1 (10 :: int), LAdd 2 20, LAdd 3 30, LGet 1 True, LGet 2 False, LAdd 3 99] (lru_new, 0, \<lambda>k. 0)
     = (s, now, used) \<and> order s = [1, 3, 2] \<and> lru_tail s = Some (20 :: int)
     \<and> (\<forall>k \<in> dom (container s). used 2 \<le> used k)"
proof -
  obtain s now used where r:
    "lru_run [LAdd 1 (10 :: int), LAdd 2 20, LAdd 3 30, LGet 1 True, LGet 2 False, LAdd 3 99] (lru_new, 0, \<lambda>k. 0) = (s, now, used)"
    by (metis prod_cases3)
  then have "order s = [1, 3, 2]" "container s 2 = Some 20"
    by (auto simp: lru_add_def lru_get_def lru_get_node_def list_node_insert_def list_node_remove_def lru_new_def)
  with lru_order_of_use [OF r] r show ?thesis by auto
qed

end
