(* ===== verification/ObjectPool.thy ===== *)
theory ObjectPool
  imports Interfaces
begin

text \<open>
  \<open>public/object_pool.h\<close> (objects owned under a 64-bit key) and \<open>framework/fsm_manager.h\<close>, \<open>.cpp\<close>
  (state machines under ids that the manager deals out). Objects are references; \<open>heap\<close> lists the
  allocated ones, so that a double \<open>delete\<close> (\<open>None\<close>) and a leak are visible. Shown: the pool
  implements \<open>keyed_pool\<close> and owns its objects, and fsm ids are never reused within 2 ^ 24 creations.
\<close>

section \<open>object_pool\<close>

type_synonym obj = nat

record object_pool =
  m_objects :: "(int \<times> obj) list"
  heap :: "obj list"

definition pool_new :: object_pool where
  "pool_new = \<lparr>m_objects = [], heap = []\<rparr>"

definition pool_size :: "object_pool \<Rightarrow> nat" where
  "pool_size s = length (m_objects s)"

definition pool_get :: "object_pool \<Rightarrow> int \<Rightarrow> obj option" where
  "pool_get s key = map_of (m_objects s) key"

text \<open>\<open>delete p\<close>; \<open>None\<close> when \<open>p\<close> is not allocated.\<close>

definition delete_object :: "obj \<Rightarrow> object_pool \<Rightarrow> object_pool option" where
  "delete_object p s = (if p \<in> set (heap s) then Some (s\<lparr>heap := remove1 p (heap s)\<rparr>) else None)"

text \<open>\<open>create(key)\<close>; \<open>p\<close> is the address that \<open>new object_type()\<close> returns.\<close>

definition pool_create :: "obj \<Rightarrow> int \<Rightarrow> object_pool \<Rightarrow> obj option \<times> object_pool" where
  "pool_create p key s =
     (case pool_get s key of
        None \<Rightarrow> (Some p, s\<lparr>heap := p # heap s, m_objects := (key, p) # m_objects s\<rparr>)
      | Some _ \<Rightarrow> (None, s))"

definition pool_add :: "int \<Rightarrow> obj \<Rightarrow> object_pool \<Rightarrow> int \<times> object_pool" where
  "pool_add key p s =
     (case pool_get s key of
        None \<Rightarrow> (0, s\<lparr>m_objects := (key, p) # m_objects s\<rparr>)
      | Some _ \<Rightarrow> (-1, s))"

definition pool_erase :: "int \<Rightarrow> object_pool \<Rightarrow> object_pool" where
  "pool_erase key s = s\<lparr>m_objects := filter (\<lambda>e. fst e \<noteq> key) (m_objects s)\<rparr>"

definition pool_destroy :: "int \<Rightarrow> object_pool \<Rightarrow> object_pool option" where
  "pool_destroy key s =
     (case pool_get s key of
        None \<Rightarrow> Some s
      | Some p \<Rightarrow> map_option (pool_erase key) (delete_object p s))"

definition pool_clear :: "object_pool \<Rightarrow> object_pool" where
  "pool_clear s = s\<lparr>m_objects := []\<rparr>"

fun delete_all :: "(int \<times> obj) list \<Rightarrow> object_pool \<Rightarrow> object_pool option" where
  "delete_all [] s = Some s"
| "delete_all (e # es) s =
     (case delete_object (snd e) s of None \<Rightarrow> None | Some s1 \<Rightarrow> delete_all es s1)"

definition clear_with_delete :: "object_pool \<Rightarrow> object_pool option" where
  "clear_with_delete s = map_option pool_clear (delete_all (m_objects s) s)"

definition keys_once :: "object_pool \<Rightarrow> bool" where
  "keys_once s \<longleftrightarrow> distinct (map fst (m_objects s))"

definition pool_add_call :: "int \<Rightarrow> obj \<Rightarrow> object_pool \<Rightarrow> bool \<times> object_pool" where
  "pool_add_call k p s = (case pool_add k p s of (r, s') \<Rightarrow> (r = 0, s'))"

lemma map_of_filter_key: "map_of (filter (\<lambda>e. fst e \<noteq> k) xs) = (map_of xs)(k := None)"
  by (induction xs) auto

interpretation pool: keyed_pool keys_once pool_get pool_add_call pool_erase
proof
  fix s k v x
  assume inv: "keys_once s"
  show "case pool_add_call k v s of (r, s') \<Rightarrow> r \<and> keys_once s' \<and> pool_get s' = (pool_get s)(k \<mapsto> v)"
    if "pool_get s k = None"
  proof -
    have "k \<notin> fst ` set (m_objects s)" using that by (auto simp: pool_get_def map_of_eq_None_iff)
    then show ?thesis using that inv by (auto simp: pool_add_call_def pool_add_def keys_once_def pool_get_def)
  qed
  show "pool_add_call k v s = (False, s)" if "pool_get s k = Some x"
    using that by (simp add: pool_add_call_def pool_add_def)
  show "keys_once (pool_erase k s)"
    using inv by (simp add: keys_once_def pool_erase_def distinct_map_filter)
  show "pool_get (pool_erase k s) = (pool_get s)(k := None)"
    by (auto simp: pool_get_def pool_erase_def map_of_filter_key)
qed

section \<open>Who owns an object\<close>

text \<open>
  Every object belongs to the pool or to the client (\<open>mine\<close>). The pool owns what it created or was
  given by \<open>add\<close>; \<open>erase\<close> and \<open>clear\<close> forget objects without deleting them, so that the client, who
  can find them by \<open>get\<close>, has to take them over. A disciplined client gives and deletes only what is
  its own (other calls are left out), and \<open>new\<close> returns an address that is not in use.
\<close>

datatype pool_op =
  PNew obj | PCreate int obj | PAdd int obj | PDestroy int | PErase int | PClear | PClearDelete | PDelete obj

fun pool_step :: "pool_op \<Rightarrow> object_pool \<times> obj set \<Rightarrow> (object_pool \<times> obj set) option" where
  "pool_step (PNew p) (s, mine) =
     Some (if p \<in> set (heap s) then (s, mine) else (s\<lparr>heap := p # heap s\<rparr>, insert p mine))"
| "pool_step (PCreate k p) (s, mine) = Some (if p \<in> set (heap s) then s else snd (pool_create p k s), mine)"
| "pool_step (PAdd k p) (s, mine) =
     Some (if p \<in> mine then (case pool_add k p s of (r, s') \<Rightarrow> (s', if r = 0 then mine - {p} else mine)) else (s, mine))"
| "pool_step (PDestroy k) (s, mine) = map_option (\<lambda>s'. (s', mine)) (pool_destroy k s)"
| "pool_step (PErase k) (s, mine) = Some (pool_erase k s, mine \<union> set_option (pool_get s k))"
| "pool_step PClear (s, mine) = Some (pool_clear s, mine \<union> snd ` set (m_objects s))"
| "pool_step PClearDelete (s, mine) = map_option (\<lambda>s'. (s', mine)) (clear_with_delete s)"
| "pool_step (PDelete p) (s, mine) =
     (if p \<in> mine then map_option (\<lambda>s'. (s', mine - {p})) (delete_object p s) else Some (s, mine))"

fun pool_run :: "pool_op list \<Rightarrow> object_pool \<times> obj set \<Rightarrow> (object_pool \<times> obj set) option" where
  "pool_run [] c = Some c"
| "pool_run (a # ops) c = (case pool_step a c of None \<Rightarrow> None | Some c1 \<Rightarrow> pool_run ops c1)"

definition owns :: "object_pool \<times> obj set \<Rightarrow> bool" where
  "owns c \<longleftrightarrow> (case c of (s, mine) \<Rightarrow>
     keys_once s \<and> distinct (map snd (m_objects s)) \<and> distinct (heap s)
     \<and> set (heap s) = snd ` set (m_objects s) \<union> mine \<and> snd ` set (m_objects s) \<inter> mine = {})"

lemma delete_all_owned:
  "distinct (map snd es) \<Longrightarrow> snd ` set es \<subseteq> set (heap s) \<Longrightarrow> distinct (heap s) \<Longrightarrow>
   \<exists>h. delete_all es s = Some (s\<lparr>heap := h\<rparr>) \<and> distinct h \<and> set h = set (heap s) - snd ` set es"
proof (induction es arbitrary: s)
  case Nil
  then show ?case by (intro exI [of _ "heap s"]) simp
next
  case (Cons e es)
  define s1 where "s1 = s\<lparr>heap := remove1 (snd e) (heap s)\<rparr>"
  have d: "delete_object (snd e) s = Some s1"
    using Cons.prems by (simp add: delete_object_def s1_def)
  have h1: "set (heap s1) = set (heap s) - {snd e}" "distinct (heap s1)"
    using Cons.prems by (simp_all add: s1_def set_remove1_eq)
  have "snd e \<notin> snd ` set es" "snd ` set es \<subseteq> set (heap s)" using Cons.prems(1,2) by simp_all
  then have "snd ` set es \<subseteq> set (heap s1)" unfolding h1(1) by blast
  from Cons.IH [OF _ this h1(2)] Cons.prems obtain h where
    "delete_all es s1 = Some (s1\<lparr>heap := h\<rparr>)" "distinct h" "set h = set (heap s1) - snd ` set es" by auto
  with d h1 show ?case by (intro exI [of _ h]) (auto simp: s1_def)
qed

lemma owned_value:
  assumes "distinct (map fst xs)" "distinct (map snd xs)" "map_of xs k = Some p"
  shows "snd ` set (filter (\<lambda>e. fst e \<noteq> k) xs) = snd ` set xs - {p}"
  using assms
proof (induction xs)
  case (Cons x xs)
  show ?case
  proof (cases "fst x = k")
    case True
    then have "filter (\<lambda>e. fst e \<noteq> k) xs = xs"
      using Cons.prems(1) by (auto simp: filter_id_conv image_iff)
    then show ?thesis using True Cons.prems by auto
  next
    case False
    with Cons.prems have "map_of xs k = Some p" by simp
    then have "p \<in> snd ` set xs" by (force dest: map_of_SomeD)
    with Cons False show ?thesis by auto
  qed
qed simp

lemma new_key: "pool_get s k = None \<Longrightarrow> k \<notin> fst ` set (m_objects s)"
  by (auto simp: pool_get_def map_of_eq_None_iff)

lemma owns_get:
  assumes "owns (s, mine)" "pool_get s k = Some p"
  shows "p \<in> set (heap s)" "p \<notin> mine" "snd ` set (m_objects (pool_erase k s)) = snd ` set (m_objects s) - {p}"
    "keys_once (pool_erase k s)" "distinct (map snd (m_objects (pool_erase k s)))" "p \<in> snd ` set (m_objects s)"
proof -
  have "(k, p) \<in> set (m_objects s)" using assms(2) by (simp add: pool_get_def map_of_SomeD)
  then show "p \<in> snd ` set (m_objects s)" by force
  then show "p \<in> set (heap s)" "p \<notin> mine" using assms(1) by (auto simp: owns_def)
  show "snd ` set (m_objects (pool_erase k s)) = snd ` set (m_objects s) - {p}"
    using owned_value [of "m_objects s" k p] assms by (simp add: pool_erase_def owns_def keys_once_def pool_get_def)
  show "keys_once (pool_erase k s)" "distinct (map snd (m_objects (pool_erase k s)))"
    using assms(1) by (simp_all add: owns_def keys_once_def pool_erase_def distinct_map_filter)
qed

lemma owns_enter:
  assumes "owns (s, mine)" "pool_get s k = None" "p \<notin> snd ` set (m_objects s)"
  shows "keys_once (s\<lparr>m_objects := (k, p) # m_objects s\<rparr>)" "distinct (map snd ((k, p) # m_objects s))"
  using assms(1,3) new_key [OF assms(2)] by (auto simp: owns_def keys_once_def)

lemma owns_step:
  assumes o: "owns (s, mine)"
  shows "\<exists>c. pool_step a (s, mine) = Some c \<and> owns c"
proof (cases a)
  case (PNew p)
  then show ?thesis using o by (auto simp: owns_def keys_once_def)
next
  case (PCreate k p)
  show ?thesis
  proof (cases "p \<in> set (heap s) \<or> pool_get s k \<noteq> None")
    case True
    then show ?thesis using PCreate o by (auto simp: pool_create_def)
  next
    case False
    then have "pool_get s k = None" "p \<notin> snd ` set (m_objects s)" using o by (auto simp: owns_def)
    from owns_enter [OF o this] show ?thesis using PCreate o False
      by (auto simp: pool_create_def owns_def keys_once_def)
  qed
next
  case (PAdd k p)
  show ?thesis
  proof (cases "p \<in> mine \<and> pool_get s k = None")
    case True
    then have "pool_get s k = None" "p \<notin> snd ` set (m_objects s)" using o by (auto simp: owns_def)
    from owns_enter [OF o this] show ?thesis using PAdd o True
      by (auto simp: pool_add_def owns_def keys_once_def)
  next
    case False
    then show ?thesis using PAdd o by (auto simp: pool_add_def)
  qed
next
  case (PDestroy k)
  show ?thesis
  proof (cases "pool_get s k")
    case None
    then show ?thesis using PDestroy o by (simp add: pool_destroy_def)
  next
    case (Some p)
    note g = owns_get [OF o Some]
    have e: "m_objects (pool_erase k (s\<lparr>heap := h\<rparr>)) = m_objects (pool_erase k s)" "heap (pool_erase k (s\<lparr>heap := h\<rparr>)) = h" for h
      by (simp_all add: pool_erase_def)
    have "owns (pool_erase k (s\<lparr>heap := remove1 p (heap s)\<rparr>), mine)"
      using o g by (auto simp: owns_def keys_once_def e set_remove1_eq)
    then show ?thesis using PDestroy Some g(1) by (simp add: pool_destroy_def delete_object_def)
  qed
next
  case (PErase k)
  show ?thesis
  proof (cases "pool_get s k")
    case None
    then have "filter (\<lambda>e. fst e \<noteq> k) (m_objects s) = m_objects s"
      using new_key [OF None] by (auto simp: filter_id_conv image_iff)
    then have "pool_erase k s = s" by (simp add: pool_erase_def)
    then show ?thesis using PErase None o by simp
  next
    case (Some p)
    note g = owns_get [OF o Some]
    have "heap (pool_erase k s) = heap s" by (simp add: pool_erase_def)
    then have "owns (pool_erase k s, mine \<union> {p})" using o g by (auto simp: owns_def)
    then show ?thesis using PErase Some by simp
  qed
next
  case PClear
  then show ?thesis using o by (auto simp: pool_clear_def owns_def keys_once_def)
next
  case PClearDelete
  from o obtain h where h: "delete_all (m_objects s) s = Some (s\<lparr>heap := h\<rparr>)" "distinct h"
      "set h = set (heap s) - snd ` set (m_objects s)"
    using delete_all_owned [of "m_objects s" s] by (auto simp: owns_def)
  then have "set h = mine" using o unfolding owns_def by blast
  then show ?thesis using PClearDelete h(1,2)
    by (simp add: clear_with_delete_def pool_clear_def owns_def keys_once_def)
next
  case (PDelete p)
  show ?thesis
  proof (cases "p \<in> mine")
    case True
    then have "owns (s\<lparr>heap := remove1 p (heap s)\<rparr>, mine - {p})"
      using o by (auto simp: owns_def keys_once_def set_remove1_eq)
    moreover have "p \<in> set (heap s)" using True o by (auto simp: owns_def)
    ultimately show ?thesis using PDelete True by (simp add: delete_object_def)
  qed (use PDelete o in simp)
qed

section \<open>fsm_manager\<close>

definition FSM_ID_MASK :: int where "FSM_ID_MASK = 0xffffff"

record fsm_manager =
  fsm_container :: "int \<rightharpoonup> obj"
  m_seq :: int
  m_id :: "obj \<Rightarrow> int"

definition fsm_new :: fsm_manager where
  "fsm_new = \<lparr>fsm_container = Map.empty, m_seq = 0, m_id = (\<lambda>p. 0)\<rparr>"

definition get_fsm :: "int \<Rightarrow> fsm_manager \<Rightarrow> obj option" where
  "get_fsm i s = fsm_container s i"

text \<open>\<open>create_fsm\<close>; \<open>r\<close> is what \<open>alloc_fsm\<close> returns.\<close>

definition create_fsm :: "obj option \<Rightarrow> fsm_manager \<Rightarrow> obj option \<times> fsm_manager" where
  "create_fsm r s =
     (case r of
        None \<Rightarrow> (None, s)
      | Some p \<Rightarrow>
          let sq = (m_seq s + 1) AND FSM_ID_MASK in
          (Some p, s\<lparr>m_seq := sq, m_id := (m_id s)(p := sq), fsm_container := (fsm_container s)(sq \<mapsto> p)\<rparr>))"

text \<open>The list holds the objects given to \<open>free_fsm\<close>.\<close>

definition destroy_fsm :: "obj \<Rightarrow> fsm_manager \<Rightarrow> fsm_manager \<times> obj list" where
  "destroy_fsm p s =
     (if fsm_container s (m_id s p) \<noteq> None
      then (s\<lparr>fsm_container := (fsm_container s)(m_id s p := None)\<rparr>, [p])
      else (s, []))"

definition fsm_clear :: "fsm_manager \<Rightarrow> fsm_manager" where
  "fsm_clear s = s\<lparr>fsm_container := Map.empty\<rparr>"

datatype fsm_op = FCreate obj | FDestroy obj

text \<open>
  A run with the objects that are alive: an object is created when its address is free and
  destroyed when it is alive. The number counts the creations.
\<close>

fun fsm_step :: "fsm_op \<Rightarrow> fsm_manager \<times> obj set \<times> nat \<Rightarrow> fsm_manager \<times> obj set \<times> nat" where
  "fsm_step (FCreate p) (s, alive, n) =
     (if p \<in> alive then (s, alive, n) else (snd (create_fsm (Some p) s), insert p alive, Suc n))"
| "fsm_step (FDestroy p) (s, alive, n) =
     (if p \<in> alive then (fst (destroy_fsm p s), alive - {p}, n) else (s, alive, n))"

definition fsm_ok :: "fsm_manager \<times> obj set \<times> nat \<Rightarrow> bool" where
  "fsm_ok c \<longleftrightarrow> (case c of (s, alive, n) \<Rightarrow> int n < 2 ^ 24 \<longrightarrow>
     m_seq s = int n
     \<and> (\<forall>p \<in> alive. fsm_container s (m_id s p) = Some p \<and> 1 \<le> m_id s p \<and> m_id s p \<le> int n)
     \<and> (\<forall>i p. fsm_container s i = Some p \<longrightarrow> p \<in> alive \<and> m_id s p = i))"

lemma fsm_mask: "FSM_ID_MASK = mask 24"
  by (simp add: FSM_ID_MASK_def mask_eq_exp_minus_1)

lemma fsm_seq: "0 \<le> x \<Longrightarrow> x < 2 ^ 24 \<Longrightarrow> x AND FSM_ID_MASK = x"
  unfolding fsm_mask take_bit_eq_mask [symmetric] by (rule take_bit_int_eq_self)

lemma fsm_ok_step:
  assumes "fsm_ok (s, alive, n)"
  shows "fsm_ok (fsm_step a (s, alive, n))"
proof (cases a)
  case (FCreate p)
  show ?thesis
  proof (cases "p \<in> alive \<or> \<not> int (Suc n) < 2 ^ 24")
    case True
    then show ?thesis using FCreate assms by (auto simp: fsm_ok_def)
  next
    case False
    then have n: "int n < 2 ^ 24" "p \<notin> alive" by auto
    with assms have i: "m_seq s = int n"
      "\<forall>q \<in> alive. fsm_container s (m_id s q) = Some q \<and> 1 \<le> m_id s q \<and> m_id s q \<le> int n"
      "\<forall>i q. fsm_container s i = Some q \<longrightarrow> q \<in> alive \<and> m_id s q = i"
      by (simp_all add: fsm_ok_def)
    have sq: "(m_seq s + 1) AND FSM_ID_MASK = int n + 1"
      using False i(1) by (subst fsm_seq) auto
    define s' where "s' = snd (create_fsm (Some p) s)"
    have s': "m_seq s' = int n + 1" "m_id s' = (m_id s)(p := int n + 1)"
      "fsm_container s' = (fsm_container s)(int n + 1 \<mapsto> p)"
      by (simp_all add: s'_def create_fsm_def Let_def sq)
    have "\<forall>q \<in> insert p alive. fsm_container s' (m_id s' q) = Some q \<and> 1 \<le> m_id s' q \<and> m_id s' q \<le> int (Suc n)"
    proof
      fix q assume q: "q \<in> insert p alive"
      show "fsm_container s' (m_id s' q) = Some q \<and> 1 \<le> m_id s' q \<and> m_id s' q \<le> int (Suc n)"
      proof (cases "q = p")
        case False
        with q have "q \<in> alive" by simp
        with i(2) have "fsm_container s (m_id s q) = Some q" "1 \<le> m_id s q" "m_id s q \<le> int n" by simp_all
        with False show ?thesis by (simp add: s')
      qed (simp add: s')
    qed
    moreover have "\<forall>j q. fsm_container s' j = Some q \<longrightarrow> q \<in> insert p alive \<and> m_id s' q = j"
    proof (intro allI impI)
      fix j q assume c: "fsm_container s' j = Some q"
      show "q \<in> insert p alive \<and> m_id s' q = j"
      proof (cases "j = int n + 1")
        case False
        with c have "fsm_container s j = Some q" by (simp add: s')
        with i(3) have "q \<in> alive" "m_id s q = j" by simp_all
        moreover from this have "q \<noteq> p" using n(2) by auto
        ultimately show ?thesis by (simp add: s')
      qed (use c in \<open>simp add: s'\<close>)
    qed
    ultimately show ?thesis using FCreate n(2) s'(1) by (simp add: fsm_ok_def s'_def)
  qed
next
  case (FDestroy p)
  show ?thesis
  proof (cases "p \<in> alive \<and> int n < 2 ^ 24")
    case True
    with assms have i: "m_seq s = int n"
      "\<forall>q \<in> alive. fsm_container s (m_id s q) = Some q \<and> 1 \<le> m_id s q \<and> m_id s q \<le> int n"
      "\<forall>i q. fsm_container s i = Some q \<longrightarrow> q \<in> alive \<and> m_id s q = i"
      by (simp_all add: fsm_ok_def)
    have "m_id s q \<noteq> m_id s p" if "q \<in> alive" "q \<noteq> p" for q
      using i(2) that True by (metis option.inject)
    then show ?thesis using FDestroy True i by (auto simp: fsm_ok_def destroy_fsm_def)
  next
    case False
    then show ?thesis using FDestroy assms by (auto simp: fsm_ok_def)
  qed
qed

lemma fsm_ok_run: "fsm_ok c \<Longrightarrow> fsm_ok (fold fsm_step ops c)"
proof (induction ops arbitrary: c)
  case (Cons a ops)
  obtain s alive n where "c = (s, alive, n)" by (metis prod_cases3)
  with Cons fsm_ok_step [of s alive n a] show ?case by simp
qed simp

section \<open>Properties\<close>

text \<open>C36: The object pool and its client share out the objects. For any sequence of \<open>create\<close>, \<open>add\<close>, \<open>destroy\<close>,
  \<open>erase\<close>, \<open>clear\<close> and \<open>clear_with_delete\<close> by a client that adds and deletes only objects of its own and
  takes over those that \<open>erase\<close> and \<open>clear\<close> forget, no object is deleted twice or while it is not
  allocated, and at every moment every allocated object belongs to exactly one side: it is registered
  under exactly one key, or it is the client's. So nothing leaks and no key holds a deleted object. (A client
  that adds an object which the pool owns makes it delete twice, \<open>shared_object_deleted_twice\<close>.)\<close>

theorem pool_owns_objects:
  "\<exists>s mine. pool_run ops (pool_new, {}) = Some (s, mine)
    \<and> set (heap s) = snd ` set (m_objects s) \<union> mine \<and> snd ` set (m_objects s) \<inter> mine = {} \<and> distinct (heap s)
    \<and> distinct (map snd (m_objects s)) \<and> distinct (map fst (m_objects s))"
proof -
  have "owns c \<Longrightarrow> \<exists>c'. pool_run ops c = Some c' \<and> owns c'" for c
  proof (induction ops arbitrary: c)
    case (Cons a ops)
    then obtain c1 where "pool_step a c = Some c1" "owns c1" using owns_step by (metis prod.collapse)
    with Cons.IH show ?case by simp
  qed simp
  from this [of "(pool_new, {})"] obtain s mine where "pool_run ops (pool_new, {}) = Some (s, mine)" "owns (s, mine)"
    by (auto simp: owns_def keys_once_def pool_new_def)
  then show ?thesis by (intro exI [of _ s] exI [of _ mine]) (auto simp: owns_def keys_once_def)
qed

text \<open>Fsm ids identify their objects. As long as fewer than 2 ^ 24 machines were created, every machine that is
  alive is found under the id it was given, no two have the same id, and an id that was never dealt
  out or whose machine was destroyed finds nothing.\<close>

lemma fsm_ids_unique:
  assumes "fold fsm_step ops (fsm_new, {}, 0) = (s, alive, n)" "int n < 2 ^ 24"
  shows "(\<forall>p \<in> alive. get_fsm (m_id s p) s = Some p) \<and> inj_on (m_id s) alive
    \<and> (\<forall>i p. get_fsm i s = Some p \<longrightarrow> p \<in> alive \<and> m_id s p = i)"
proof -
  have "fsm_ok (fsm_new, {}, 0)" by (simp add: fsm_ok_def fsm_new_def)
  from fsm_ok_run [OF this, of ops] assms have
    i: "\<forall>p \<in> alive. fsm_container s (m_id s p) = Some p"
      "\<forall>i p. fsm_container s i = Some p \<longrightarrow> p \<in> alive \<and> m_id s p = i"
    by (simp_all add: fsm_ok_def)
  have "inj_on (m_id s) alive"
  proof (rule inj_onI)
    fix p q assume "p \<in> alive" "q \<in> alive" "m_id s p = m_id s q"
    with i(1) have "fsm_container s (m_id s q) = Some p" "fsm_container s (m_id s q) = Some q" by metis+
    then show "p = q" by simp
  qed
  with i show ?thesis by (simp add: get_fsm_def)
qed

lemma fsm_ids_unique_witness:
  "\<exists>s alive n. fold fsm_step [FCreate 7, FCreate 8, FDestroy 7, FCreate 9] (fsm_new, {}, 0) = (s, alive, n)
     \<and> alive = {8, 9} \<and> get_fsm (m_id s 9) s = Some 9 \<and> m_id s 9 = 3"
proof -
  obtain s alive n where r: "fold fsm_step [FCreate 7, FCreate 8, FDestroy 7, FCreate 9] (fsm_new, {}, 0) = (s, alive, n)"
    by (metis prod_cases3)
  then have a: "alive = {8, 9}" "n = 3" "m_id s 9 = 3"
    by (simp_all add: create_fsm_def destroy_fsm_def fsm_new_def fsm_seq Let_def)
      (elim conjE, hypsubst, auto)+
  have "get_fsm (m_id s 9) s = Some 9"
    using fsm_ids_unique [OF r] a(1,2) by simp
  with r a show ?thesis by blast
qed

section \<open>Facts behind the findings\<close>

text \<open>
  After 2 ^ 24 creations the ids start again: a machine that is still alive loses its entry to the
  new one, and destroying it then removes the entry of the new one.
\<close>

lemma fsm_id_reused:
  assumes "m_seq s = 0xffffff" "fsm_container s 0 = Some p" "m_id s p = 0" "p \<noteq> q"
  shows "get_fsm 0 (snd (create_fsm (Some q) s)) = Some q
    \<and> get_fsm 0 (fst (destroy_fsm p (snd (create_fsm (Some q) s)))) = None"
proof -
  have "(0x1000000 :: int) AND FSM_ID_MASK = 0"
    unfolding fsm_mask take_bit_eq_mask [symmetric] by (simp add: take_bit_eq_mod)
  then show ?thesis using assms by (simp add: create_fsm_def get_fsm_def destroy_fsm_def Let_def)
qed

text \<open>Two keys for one object make \<open>clear_with_delete\<close> delete it twice.\<close>

lemma shared_object_deleted_twice:
  "clear_with_delete (snd (pool_add 2 p (snd (pool_create p 1 pool_new)))) = None"
  by (simp add: clear_with_delete_def pool_create_def pool_add_def pool_new_def pool_get_def delete_object_def)

end
