(* ===== verification/Counters.thy ===== *)
theory Counters
  imports Prelude
begin

text \<open>
  The small value classes: \<open>public/threshold.h\<close> (a rate limit per cycle), \<open>public/average_counter.h\<close>
  (sum, count, minimum and maximum), \<open>framework/atomic_int.h\<close>, \<open>public/rw_container.h\<close> (a double
  buffer) and the id macros of \<open>public/common_util.h\<close>.
\<close>

section \<open>Threshold\<close>

record threshold =
  cur_cycle :: int
  cur_counter :: int
  limit :: int
  cycle_second :: int

definition threshold_init :: "int \<Rightarrow> int \<Rightarrow> threshold" where
  "threshold_init cycle lim =
     (let c = (if cycle < 1 then 1 else cycle); l = (if lim < 1 then 1 else lim)
      in \<lparr>cur_cycle = 0, cur_counter = 0, limit = l, cycle_second = c\<rparr>)"

text \<open>\<open>now\<close> is \<open>time(0)\<close>; the quotient is stored in an \<open>int\<close>.\<close>

definition threshold_inc :: "int \<Rightarrow> threshold \<Rightarrow> threshold" where
  "threshold_inc now t =
     (let now_cycle = to_int32 (c_div now (cycle_second t)) in
      if now_cycle = cur_cycle t then t\<lparr>cur_counter := cur_counter t + 1\<rparr>
      else t\<lparr>cur_cycle := now_cycle, cur_counter := 1\<rparr>)"

definition is_limit :: "threshold \<Rightarrow> bool" where
  "is_limit t \<longleftrightarrow> cur_counter t > limit t"

text \<open>What a caller does for every request: count it, then ask whether it is over the limit.\<close>

fun admitted :: "int list \<Rightarrow> threshold \<Rightarrow> int list" where
  "admitted [] t = []"
| "admitted (now # ts) t =
     (let t1 = threshold_inc now t in
      if is_limit t1 then admitted ts t1 else now # admitted ts t1)"

definition cycle_of :: "int \<Rightarrow> int \<Rightarrow> int" where
  "cycle_of c now = to_int32 (c_div now c)"

definition in_cycle :: "int \<Rightarrow> int \<Rightarrow> int list \<Rightarrow> nat" where
  "in_cycle c k ts = length (filter (\<lambda>now. cycle_of c now = k) ts)"

lemma admitted_count:
  assumes "sorted_wrt (\<lambda>a b. cycle_of c a \<le> cycle_of c b) ts" "\<forall>now \<in> set ts. cur_cycle t \<le> cycle_of c now"
    and "0 \<le> cur_counter t" "1 \<le> limit t" "cycle_second t = c"
  shows "int (in_cycle c k (admitted ts t)) =
    (if k = cur_cycle t then min (int (in_cycle c k ts)) (max 0 (limit t - cur_counter t))
     else min (int (in_cycle c k ts)) (limit t))"
  using assms
proof (induction ts arbitrary: t)
  case (Cons now ts)
  define t1 where "t1 = threshold_inc now t"
  have t1: "cycle_second t1 = c" "limit t1 = limit t" "cur_cycle t1 = cycle_of c now"
      "cur_counter t1 = (if cycle_of c now = cur_cycle t then cur_counter t + 1 else 1)"
    using Cons.prems(5) by (auto simp: t1_def threshold_inc_def cycle_of_def Let_def)
  have so: "sorted_wrt (\<lambda>a b. cycle_of c a \<le> cycle_of c b) ts"
      "\<forall>n \<in> set ts. cur_cycle t1 \<le> cycle_of c n"
    using Cons.prems(1) by (auto simp: t1)
  have pos: "0 \<le> cur_counter t1" "1 \<le> limit t1" using Cons.prems(3,4) t1 by auto
  note IH = Cons.IH [OF so pos t1(1)]
  have lo: "cur_cycle t \<le> cycle_of c now" using Cons.prems(2) by simp
  have none: "in_cycle c k ts = 0" if "k < cycle_of c now"
    using so(2) that by (auto simp: in_cycle_def t1 filter_empty_conv)
  have adm: "admitted (now # ts) t = (if is_limit t1 then admitted ts t1 else now # admitted ts t1)"
    by (simp add: t1_def Let_def)
  show ?case
  proof (cases "k = cycle_of c now")
    case True
    have n: "int (in_cycle c k (admitted ts t1)) = min (int (in_cycle c k ts)) (max 0 (limit t - cur_counter t1))"
      using IH True t1 by simp
    have e: "in_cycle c k (now # ts) = Suc (in_cycle c k ts)"
      "in_cycle c k (admitted (now # ts) t) =
        (if cur_counter t1 > limit t then in_cycle c k (admitted ts t1) else Suc (in_cycle c k (admitted ts t1)))"
      using True t1(2) unfolding adm by (simp_all add: in_cycle_def is_limit_def)
    show ?thesis
      unfolding e using n True Cons.prems(3,4) t1(4) by (simp add: min_def max_def split: if_splits)
  next
    case False
    then have e: "in_cycle c k (admitted (now # ts) t) = in_cycle c k (admitted ts t1)"
        "in_cycle c k (now # ts) = in_cycle c k ts"
      unfolding adm by (auto simp: in_cycle_def)
    show ?thesis
      using IH False none lo Cons.prems(4) t1 unfolding e by (cases "k = cur_cycle t") auto
  qed
qed (auto simp: in_cycle_def)

section \<open>AverageCounter\<close>

record average_counter =
  total :: int
  count :: int
  min_key :: int
  min_value :: int
  max_key :: int
  max_value :: int

definition avg_clear :: average_counter where
  "avg_clear = \<lparr>total = 0, count = 0, min_key = 99999999, min_value = 99999999, max_key = 0, max_value = 0\<rparr>"

definition avg_add :: "int \<Rightarrow> int \<Rightarrow> average_counter \<Rightarrow> average_counter" where
  "avg_add key v s =
     (let s1 = s\<lparr>total := total s + v, count := count s + 1\<rparr>;
          s2 = (if v > max_value s1 then s1\<lparr>max_value := v, max_key := key\<rparr> else s1)
      in if v < min_value s2 then s2\<lparr>min_value := v, min_key := key\<rparr> else s2)"

definition get_avg_value :: "average_counter \<Rightarrow> int" where
  "get_avg_value s = (if count s = 0 then 0 else to_int32 (c_div (total s) (count s)))"

lemma avg_adds:
  "fold (\<lambda>(k, v). avg_add k v) kvs s =
     s\<lparr>total := total s + sum_list (map snd kvs), count := count s + int (length kvs),
       max_value := foldl max (max_value s) (map snd kvs),
       min_value := foldl min (min_value s) (map snd kvs),
       max_key := max_key (fold (\<lambda>(k, v). avg_add k v) kvs s),
       min_key := min_key (fold (\<lambda>(k, v). avg_add k v) kvs s)\<rparr>"
proof (induction kvs arbitrary: s)
  case (Cons kv kvs)
  obtain k v where kv: "kv = (k, v)" by fastforce
  show ?case
    by (simp add: kv, subst Cons.IH) (simp add: avg_add_def Let_def max_def min_def)
qed simp

lemma foldl_max_ge: "foldl max a xs \<ge> a \<and> (\<forall>x \<in> set xs. (x :: int) \<le> foldl max a xs)"
proof (induction xs arbitrary: a)
  case (Cons x xs)
  from Cons [of "max a x"] show ?case by auto
qed simp

lemma foldl_max_in: "foldl max a xs = (a :: int) \<or> foldl max a xs \<in> set xs"
proof (induction xs arbitrary: a)
  case (Cons x xs)
  from Cons [of "max a x"] show ?case by (auto simp: max_def split: if_splits)
qed simp

text \<open>The key of the maximum belongs to an added pair with the maximal value.\<close>

lemma max_key_of:
  "max_value (fold (\<lambda>(k, v). avg_add k v) kvs s) = max_value s
     \<and> max_key (fold (\<lambda>(k, v). avg_add k v) kvs s) = max_key s
   \<or> (max_key (fold (\<lambda>(k, v). avg_add k v) kvs s), max_value (fold (\<lambda>(k, v). avg_add k v) kvs s)) \<in> set kvs"
proof (induction kvs arbitrary: s)
  case (Cons kv kvs)
  obtain k v where kv: "kv = (k, v)" by fastforce
  from Cons [of "avg_add k v s"] show ?case
    by (auto simp: kv avg_add_def Let_def split: if_splits)
qed simp

section \<open>atomic_int, rw_container and the id macros\<close>

text \<open>The \<open>__sync\<close> builtins act in one step; a counter of width \<open>w\<close> wraps around.\<close>

definition atomic_add :: "'w::len word \<Rightarrow> 'w word \<Rightarrow> 'w word \<times> 'w word" where
  "atomic_add i c = (c + i, c + i)"

definition atomic_sub :: "'w::len word \<Rightarrow> 'w word \<Rightarrow> 'w word \<times> 'w word" where
  "atomic_sub i c = (c - i, c - i)"

lemma atomic_sub_add: "snd (atomic_sub i (snd (atomic_add i c))) = c"
  by (simp add: atomic_add_def atomic_sub_def)

datatype half = A | B

text \<open>\<open>m_read\<close> is \<open>NULL\<close> before the first \<open>transit\<close>.\<close>

definition rw_transit :: "half option \<Rightarrow> half option" where
  "rw_transit r = (if r = Some A then Some B else Some A)"

definition rw_readable :: "half option \<Rightarrow> half option" where
  "rw_readable r = r"

definition rw_writable :: "half option \<Rightarrow> half" where
  "rw_writable r = (if r = Some A then B else A)"

lemma rw_never_shared: "rw_readable r \<noteq> Some (rw_writable r)"
  by (cases r; cases "the r") (auto simp: rw_readable_def rw_writable_def)

lemma rw_publishes: "rw_readable (rw_transit r) = Some (rw_writable r)"
  by (auto simp: rw_readable_def rw_writable_def rw_transit_def)

definition PLAYER_GUID :: "int \<Rightarrow> int \<Rightarrow> int" where
  "PLAYER_GUID tid role_id = push_bit 32 tid OR role_id"

definition PLAYER_ROLE_ID :: "int \<Rightarrow> int" where
  "PLAYER_ROLE_ID guid = guid AND 0xffffffff"

definition PLAYER_TID :: "int \<Rightarrow> int" where
  "PLAYER_TID guid = drop_bit 32 guid"

lemma role_mask: "PLAYER_ROLE_ID g = take_bit 32 g"
  by (simp add: PLAYER_ROLE_ID_def take_bit_eq_mask mask_eq_exp_minus_1)

lemma player_guid_parts:
  assumes "0 \<le> role_id" "role_id < 2 ^ 32"
  shows "PLAYER_TID (PLAYER_GUID tid role_id) = tid" "PLAYER_ROLE_ID (PLAYER_GUID tid role_id) = role_id"
proof -
  have r: "take_bit 32 role_id = role_id" using assms by (simp add: take_bit_int_eq_self)
  have "drop_bit 32 role_id = 0" using assms by (simp add: drop_bit_eq_div)
  then show "PLAYER_TID (PLAYER_GUID tid role_id) = tid"
    unfolding PLAYER_TID_def PLAYER_GUID_def drop_bit_or
    by (simp add: drop_bit_eq_div push_bit_eq_mult)
  show "PLAYER_ROLE_ID (PLAYER_GUID tid role_id) = role_id"
    unfolding role_mask PLAYER_GUID_def take_bit_or using r by (simp add: take_bit_push_bit)
qed

text \<open>A negative role id, an \<open>int\<close>, fills the upper half with ones.\<close>

lemma player_guid_negative: "PLAYER_TID (PLAYER_GUID 5 (-1)) = -1"
  by (simp add: PLAYER_TID_def PLAYER_GUID_def)

section \<open>Properties\<close>

text \<open>The threshold admits exactly the limit. For requests whose cycles do not go back in time, every cycle
  lets through the first \<open>limit\<close> of its requests and no more, whatever happened in earlier cycles.\<close>

lemma threshold_per_cycle:
  assumes "sorted_wrt (\<lambda>a b. cycle_of (cycle_second t) a \<le> cycle_of (cycle_second t) b) ts"
    and "\<forall>now \<in> set ts. 0 \<le> cycle_of (cycle_second t) now" "t = threshold_init cycle lim"
  shows "int (in_cycle (cycle_second t) k (admitted ts t)) = min (int (in_cycle (cycle_second t) k ts)) (max 1 lim)"
proof -
  have t: "cur_cycle t = 0" "cur_counter t = 0" "limit t = max 1 lim"
    using assms(3) by (simp_all add: threshold_init_def Let_def max_def)
  show ?thesis
    using admitted_count [where k = k, OF assms(1)] assms(2) t by (auto simp: max_def)
qed

lemma threshold_per_cycle_witness:
  "int (in_cycle 1 7 (admitted [6, 7, 7, 7, 8] (threshold_init 1 2))) = 2"
proof -
  have c: "cycle_second (threshold_init 1 2) = 1" by (simp add: threshold_init_def Let_def)
  have cy: "cycle_of 1 x = x" if "0 \<le> x" "x < 100" for x
    using that by (simp add: cycle_of_def c_int_simps)
  have "int (in_cycle (cycle_second (threshold_init 1 2)) 7 (admitted [6, 7, 7, 7, 8] (threshold_init 1 2)))
      = min (int (in_cycle (cycle_second (threshold_init 1 2)) 7 [6, 7, 7, 7, 8])) (max 1 2)"
    by (rule threshold_per_cycle) (simp_all add: c cy)
  then show ?thesis by (simp add: c in_cycle_def cy)
qed

text \<open>The statistics are exact. After \<open>clear\<close> and any sequence of \<open>add\<close> calls the counter holds the number
  and the sum of the values, the largest value (at least 0) with a key it was added under, and the
  smallest value (at most 99999999).\<close>

lemma average_counter_exact:
  "let s = fold (\<lambda>(k, v). avg_add k v) kvs avg_clear in
     count s = int (length kvs) \<and> total s = sum_list (map snd kvs)
     \<and> (\<forall>kv \<in> set kvs. snd kv \<le> max_value s \<and> min_value s \<le> snd kv)
     \<and> (max_value s = 0 \<or> (max_key s, max_value s) \<in> set kvs)
     \<and> (kvs = [] \<longrightarrow> get_avg_value s = 0)"
proof -
  define s where "s = fold (\<lambda>(k, v). avg_add k v) kvs avg_clear"
  note r = arg_cong [OF avg_adds [of kvs avg_clear, folded s_def]]
  have s: "count s = int (length kvs)" "total s = sum_list (map snd kvs)"
      "max_value s = foldl max 0 (map snd kvs)" "min_value s = foldl min 99999999 (map snd kvs)"
    using r [of count] r [of total] r [of max_value] r [of min_value] by (simp_all add: avg_clear_def)
  have "foldl min a xs \<le> a \<and> (\<forall>x \<in> set xs. foldl min a xs \<le> (x :: int))" for a xs
  proof (induction xs arbitrary: a)
    case (Cons x xs)
    from Cons [of "min a x"] show ?case by auto
  qed simp
  then have mn: "\<forall>kv \<in> set kvs. min_value s \<le> snd kv" using s(4) by (metis image_eqI list.set_map)
  have mx: "\<forall>kv \<in> set kvs. snd kv \<le> max_value s"
    using foldl_max_ge [of 0 "map snd kvs"] s(3) by auto
  have "max_value s = 0 \<or> (max_key s, max_value s) \<in> set kvs"
    using max_key_of [of kvs avg_clear] by (auto simp: s_def avg_clear_def)
  then show ?thesis
    using s(1,2) mn mx unfolding Let_def s_def [symmetric] by (simp add: get_avg_value_def s_def avg_clear_def)
qed

lemma average_counter_exact_witness:
  "total (fold (\<lambda>(k, v). avg_add k v) [(1, 30), (2, 50)] avg_clear) = 80
   \<and> 50 \<le> max_value (fold (\<lambda>(k, v). avg_add k v) [(1, 30), (2, 50)] avg_clear)"
  using average_counter_exact [of "[(1, 30), (2, 50)]"] unfolding Let_def by simp

section \<open>Comparators\<close>

text \<open>\<open>map_value_less\<close> and \<open>map_value_greater\<close> of \<open>public/common_util.cpp\<close>.\<close>

definition map_value_less :: "int \<times> int \<Rightarrow> int \<times> int \<Rightarrow> bool" where
  "map_value_less left right \<longleftrightarrow> snd left < snd right"

definition map_value_greater :: "int \<times> int \<Rightarrow> int \<times> int \<Rightarrow> bool" where
  "map_value_greater left right \<longleftrightarrow> snd left > snd right"

text \<open>Both are strict weak orders, as \<open>std::sort\<close> requires, and each is the reverse of the other.\<close>

lemma comparators_weak_order:
  assumes "lt = map_value_less \<or> lt = map_value_greater"
  shows "\<not> lt a a" "lt a b \<Longrightarrow> lt b c \<Longrightarrow> lt a c"
    "\<not> lt a b \<Longrightarrow> \<not> lt b a \<Longrightarrow> \<not> lt b c \<Longrightarrow> \<not> lt c b \<Longrightarrow> \<not> lt a c \<and> \<not> lt c a"
    "map_value_greater a b = map_value_less b a"
  using assms by (auto simp: map_value_less_def map_value_greater_def)

end
