(* ===== verification/Md5.thy ===== *)
theory Md5
  imports Prelude
begin

text \<open>
  \<open>public/md5.h\<close> and \<open>md5.cpp\<close>: the MD5 digest. Words and counters have 32 bits and wrap around;
  \<open>md5_update\<close> answers \<open>OutOfBounds\<close> when it would read behind its input. Shown: the unrolled rounds
  are the table-driven rounds of RFC 1321, and a digest computed in any number of pieces is the
  RFC digest of the whole message.
\<close>

section \<open>The compression function\<close>

type_synonym md5_abcd = "u32 \<times> u32 \<times> u32 \<times> u32"

definition S11 :: nat where "S11 = 7"
definition S12 :: nat where "S12 = 12"
definition S13 :: nat where "S13 = 17"
definition S14 :: nat where "S14 = 22"
definition S21 :: nat where "S21 = 5"
definition S22 :: nat where "S22 = 9"
definition S23 :: nat where "S23 = 14"
definition S24 :: nat where "S24 = 20"
definition S31 :: nat where "S31 = 4"
definition S32 :: nat where "S32 = 11"
definition S33 :: nat where "S33 = 16"
definition S34 :: nat where "S34 = 23"
definition S41 :: nat where "S41 = 6"
definition S42 :: nat where "S42 = 10"
definition S43 :: nat where "S43 = 15"
definition S44 :: nat where "S44 = 21"

lemmas shift_defs = S11_def S12_def S13_def S14_def S21_def S22_def S23_def S24_def
  S31_def S32_def S33_def S34_def S41_def S42_def S43_def S44_def

definition md5_F :: "u32 \<Rightarrow> u32 \<Rightarrow> u32 \<Rightarrow> u32" where
  "md5_F x y z = (x AND y) OR (NOT x AND z)"

definition md5_G :: "u32 \<Rightarrow> u32 \<Rightarrow> u32 \<Rightarrow> u32" where
  "md5_G x y z = (x AND z) OR (y AND NOT z)"

definition md5_H :: "u32 \<Rightarrow> u32 \<Rightarrow> u32 \<Rightarrow> u32" where
  "md5_H x y z = x XOR y XOR z"

definition md5_I :: "u32 \<Rightarrow> u32 \<Rightarrow> u32 \<Rightarrow> u32" where
  "md5_I x y z = y XOR (x OR NOT z)"

definition rotate_left :: "u32 \<Rightarrow> nat \<Rightarrow> u32" where
  "rotate_left x n = push_bit n x OR drop_bit (32 - n) x"

text \<open>The new value of the reference parameter \<open>a\<close>.\<close>

definition FF :: "u32 \<Rightarrow> u32 \<Rightarrow> u32 \<Rightarrow> u32 \<Rightarrow> u32 \<Rightarrow> nat \<Rightarrow> u32 \<Rightarrow> u32" where
  "FF a b c d x s ac = rotate_left (a + md5_F b c d + x + ac) s + b"

definition GG :: "u32 \<Rightarrow> u32 \<Rightarrow> u32 \<Rightarrow> u32 \<Rightarrow> u32 \<Rightarrow> nat \<Rightarrow> u32 \<Rightarrow> u32" where
  "GG a b c d x s ac = rotate_left (a + md5_G b c d + x + ac) s + b"

definition HH :: "u32 \<Rightarrow> u32 \<Rightarrow> u32 \<Rightarrow> u32 \<Rightarrow> u32 \<Rightarrow> nat \<Rightarrow> u32 \<Rightarrow> u32" where
  "HH a b c d x s ac = rotate_left (a + md5_H b c d + x + ac) s + b"

definition II :: "u32 \<Rightarrow> u32 \<Rightarrow> u32 \<Rightarrow> u32 \<Rightarrow> u32 \<Rightarrow> nat \<Rightarrow> u32 \<Rightarrow> u32" where
  "II a b c d x s ac = rotate_left (a + md5_I b c d + x + ac) s + b"

text \<open>The four rounds of \<open>transform\<close>, one line per line of the code.\<close>

definition round1 :: "u32 list \<Rightarrow> md5_abcd \<Rightarrow> md5_abcd" where
  "round1 x st =
     (case st of (a, b, c, d) \<Rightarrow>
      let a = FF a b c d (x ! 0) S11 0xd76aa478;
          d = FF d a b c (x ! 1) S12 0xe8c7b756;
          c = FF c d a b (x ! 2) S13 0x242070db;
          b = FF b c d a (x ! 3) S14 0xc1bdceee;
          a = FF a b c d (x ! 4) S11 0xf57c0faf;
          d = FF d a b c (x ! 5) S12 0x4787c62a;
          c = FF c d a b (x ! 6) S13 0xa8304613;
          b = FF b c d a (x ! 7) S14 0xfd469501;
          a = FF a b c d (x ! 8) S11 0x698098d8;
          d = FF d a b c (x ! 9) S12 0x8b44f7af;
          c = FF c d a b (x ! 10) S13 0xffff5bb1;
          b = FF b c d a (x ! 11) S14 0x895cd7be;
          a = FF a b c d (x ! 12) S11 0x6b901122;
          d = FF d a b c (x ! 13) S12 0xfd987193;
          c = FF c d a b (x ! 14) S13 0xa679438e;
          b = FF b c d a (x ! 15) S14 0x49b40821
      in (a, b, c, d))"

definition round2 :: "u32 list \<Rightarrow> md5_abcd \<Rightarrow> md5_abcd" where
  "round2 x st =
     (case st of (a, b, c, d) \<Rightarrow>
      let a = GG a b c d (x ! 1) S21 0xf61e2562;
          d = GG d a b c (x ! 6) S22 0xc040b340;
          c = GG c d a b (x ! 11) S23 0x265e5a51;
          b = GG b c d a (x ! 0) S24 0xe9b6c7aa;
          a = GG a b c d (x ! 5) S21 0xd62f105d;
          d = GG d a b c (x ! 10) S22 0x2441453;
          c = GG c d a b (x ! 15) S23 0xd8a1e681;
          b = GG b c d a (x ! 4) S24 0xe7d3fbc8;
          a = GG a b c d (x ! 9) S21 0x21e1cde6;
          d = GG d a b c (x ! 14) S22 0xc33707d6;
          c = GG c d a b (x ! 3) S23 0xf4d50d87;
          b = GG b c d a (x ! 8) S24 0x455a14ed;
          a = GG a b c d (x ! 13) S21 0xa9e3e905;
          d = GG d a b c (x ! 2) S22 0xfcefa3f8;
          c = GG c d a b (x ! 7) S23 0x676f02d9;
          b = GG b c d a (x ! 12) S24 0x8d2a4c8a
      in (a, b, c, d))"

definition round3 :: "u32 list \<Rightarrow> md5_abcd \<Rightarrow> md5_abcd" where
  "round3 x st =
     (case st of (a, b, c, d) \<Rightarrow>
      let a = HH a b c d (x ! 5) S31 0xfffa3942;
          d = HH d a b c (x ! 8) S32 0x8771f681;
          c = HH c d a b (x ! 11) S33 0x6d9d6122;
          b = HH b c d a (x ! 14) S34 0xfde5380c;
          a = HH a b c d (x ! 1) S31 0xa4beea44;
          d = HH d a b c (x ! 4) S32 0x4bdecfa9;
          c = HH c d a b (x ! 7) S33 0xf6bb4b60;
          b = HH b c d a (x ! 10) S34 0xbebfbc70;
          a = HH a b c d (x ! 13) S31 0x289b7ec6;
          d = HH d a b c (x ! 0) S32 0xeaa127fa;
          c = HH c d a b (x ! 3) S33 0xd4ef3085;
          b = HH b c d a (x ! 6) S34 0x4881d05;
          a = HH a b c d (x ! 9) S31 0xd9d4d039;
          d = HH d a b c (x ! 12) S32 0xe6db99e5;
          c = HH c d a b (x ! 15) S33 0x1fa27cf8;
          b = HH b c d a (x ! 2) S34 0xc4ac5665
      in (a, b, c, d))"

definition round4 :: "u32 list \<Rightarrow> md5_abcd \<Rightarrow> md5_abcd" where
  "round4 x st =
     (case st of (a, b, c, d) \<Rightarrow>
      let a = II a b c d (x ! 0) S41 0xf4292244;
          d = II d a b c (x ! 7) S42 0x432aff97;
          c = II c d a b (x ! 14) S43 0xab9423a7;
          b = II b c d a (x ! 5) S44 0xfc93a039;
          a = II a b c d (x ! 12) S41 0x655b59c3;
          d = II d a b c (x ! 3) S42 0x8f0ccc92;
          c = II c d a b (x ! 10) S43 0xffeff47d;
          b = II b c d a (x ! 1) S44 0x85845dd1;
          a = II a b c d (x ! 8) S41 0x6fa87e4f;
          d = II d a b c (x ! 15) S42 0xfe2ce6e0;
          c = II c d a b (x ! 6) S43 0xa3014314;
          b = II b c d a (x ! 13) S44 0x4e0811a1;
          a = II a b c d (x ! 4) S41 0xf7537e82;
          d = II d a b c (x ! 11) S42 0xbd3af235;
          c = II c d a b (x ! 2) S43 0x2ad7d2bb;
          b = II b c d a (x ! 9) S44 0xeb86d391
      in (a, b, c, d))"
text \<open>\<open>decode\<close> and \<open>encode\<close>: little-endian words; the sources call them on whole arrays only.\<close>

fun md5_decode :: "byte list \<Rightarrow> u32 list" where
  "md5_decode (b0 # b1 # b2 # b3 # bs) =
     (ucast b0 OR push_bit 8 (ucast b1) OR push_bit 16 (ucast b2) OR push_bit 24 (ucast b3)) # md5_decode bs"
| "md5_decode _ = []"

fun md5_encode :: "u32 list \<Rightarrow> byte list" where
  "md5_encode [] = []"
| "md5_encode (w # ws) =
     ucast (w AND 0xff) # ucast (drop_bit 8 w AND 0xff) # ucast (drop_bit 16 w AND 0xff)
     # ucast (drop_bit 24 w AND 0xff) # md5_encode ws"

definition md5_transform :: "byte list \<Rightarrow> md5_abcd \<Rightarrow> md5_abcd" where
  "md5_transform block st =
     (let x = md5_decode block in
      case round4 x (round3 x (round2 x (round1 x st))) of (a, b, c, d) \<Rightarrow>
      case st of (a0, b0, c0, d0) \<Rightarrow> (a0 + a, b0 + b, c0 + c, d0 + d))"

section \<open>The context\<close>

record md5 =
  finalized :: bool
  md5_buffer :: "byte list"
  md5_count :: "u32 \<times> u32"
  md5_state :: md5_abcd
  digest :: "byte list"

definition md5_magic :: md5_abcd where
  "md5_magic = (0x67452301, 0xefcdab89, 0x98badcfe, 0x10325476)"

text \<open>\<open>init\<close>: the buffer and the digest keep what the memory held.\<close>

definition md5_init :: "md5 \<Rightarrow> md5" where
  "md5_init s = s\<lparr>finalized := False, md5_count := (0, 0), md5_state := md5_magic\<rparr>"

text \<open>
  \<open>for (i = firstpart; i + blocksize <= length; i += blocksize) transform(&input[i])\<close>. The sum
  wraps around, so \<open>None\<close>, an endless loop, is possible for a length close to \<open>2 ^ 32\<close>.
\<close>

partial_function (option) transform_loop :: "byte list \<Rightarrow> u32 \<Rightarrow> u32 \<Rightarrow> md5_abcd \<Rightarrow> (u32 \<times> md5_abcd) checked option" where
  "transform_loop input len i st =
     (if \<not> i + 64 \<le> len then Some (Fine (i, st))
      else if length input < unat i + 64 then Some OutOfBounds
      else transform_loop input len (i + 64) (md5_transform (region input (unat i) 64) st))"

text \<open>\<open>update(input, length)\<close>.\<close>

definition count_bits :: "u32 \<Rightarrow> u32 \<times> u32 \<Rightarrow> u32 \<times> u32" where
  "count_bits len c =
     (let lo = fst c + push_bit 3 len;
          hi = (if lo < push_bit 3 len then snd c + 1 else snd c)
      in (lo, hi + drop_bit 29 len))"

definition md5_update :: "byte list \<Rightarrow> u32 \<Rightarrow> md5 \<Rightarrow> md5 checked option" where
  "md5_update input len s =
     (let index = fst (md5_count s) div 8 mod 64;
          s1 = s\<lparr>md5_count := count_bits len (md5_count s)\<rparr>;
          firstpart = 64 - index
      in if length input < unat len then Some OutOfBounds
         else if len \<ge> firstpart then
           let s2 = s1\<lparr>md5_buffer := blit (md5_buffer s1) (unat index) (take (unat firstpart) input)\<rparr>
           in case transform_loop input len firstpart (md5_transform (md5_buffer s2) (md5_state s2)) of
                None \<Rightarrow> None
              | Some OutOfBounds \<Rightarrow> Some OutOfBounds
              | Some (Fine (i, st)) \<Rightarrow>
                  Some (Fine (s2\<lparr>md5_state := st,
                    md5_buffer := blit (md5_buffer s2) 0 (region input (unat i) (unat (len - i)))\<rparr>))
         else Some (Fine (s1\<lparr>md5_buffer := blit (md5_buffer s1) (unat index) (take (unat len) input)\<rparr>)))"

definition md5_padding :: "byte list" where
  "md5_padding = 0x80 # replicate 63 0"

definition md5_finalize :: "md5 \<Rightarrow> md5 checked option" where
  "md5_finalize s =
     (if finalized s then Some (Fine s)
      else let bits = md5_encode [fst (md5_count s), snd (md5_count s)];
               index = fst (md5_count s) div 8 mod 64;
               padLen = (if index < 56 then 56 - index else 120 - index)
           in case md5_update md5_padding padLen s of
                Some (Fine s1) \<Rightarrow>
                  (case md5_update bits 8 s1 of
                     Some (Fine s2) \<Rightarrow>
                       (case md5_state s2 of (a, b, c, d) \<Rightarrow>
                          Some (Fine (s2\<lparr>digest := md5_encode [a, b, c, d], md5_buffer := replicate 64 0,
                            md5_count := (0, 0), finalized := True\<rparr>)))
                   | r \<Rightarrow> r)
              | r \<Rightarrow> r)"

text \<open>\<open>sprintf("%02x")\<close> of every byte of the digest.\<close>

definition hex_char :: "nat \<Rightarrow> byte" where
  "hex_char n = (if n < 10 then 48 + of_nat n else 87 + of_nat n)"

definition hexdigest :: "md5 \<Rightarrow> byte list" where
  "hexdigest s =
     (if \<not> finalized s then []
      else concat (map (\<lambda>b. [hex_char (unat b div 16), hex_char (unat b mod 16)]) (digest s)))"

text \<open>\<open>md5(str)\<close>; \<open>raw\<close> is the uninitialised object. The length of the string is cut to 32 bits.\<close>

definition md5_string :: "md5 \<Rightarrow> byte list \<Rightarrow> byte list checked option" where
  "md5_string raw text =
     (case md5_update text (of_nat (length text)) (md5_init raw) of
        Some (Fine s) \<Rightarrow>
          (case md5_finalize s of
             Some (Fine s') \<Rightarrow> Some (Fine (hexdigest s'))
           | Some OutOfBounds \<Rightarrow> Some OutOfBounds
           | None \<Rightarrow> None)
      | Some OutOfBounds \<Rightarrow> Some OutOfBounds
      | None \<Rightarrow> None)"

section \<open>Reference: the rounds of RFC 1321 by table\<close>

definition rfc_f :: "nat \<Rightarrow> u32 \<Rightarrow> u32 \<Rightarrow> u32 \<Rightarrow> u32" where
  "rfc_f i b c d =
     (if i < 16 then (b AND c) OR (NOT b AND d)
      else if i < 32 then (d AND b) OR (NOT d AND c)
      else if i < 48 then b XOR c XOR d
      else c XOR (b OR NOT d))"

definition rfc_index :: "nat \<Rightarrow> nat" where
  "rfc_index i =
     (if i < 16 then i else if i < 32 then (5 * i + 1) mod 16
      else if i < 48 then (3 * i + 5) mod 16 else 7 * i mod 16)"

definition rfc_shift :: "nat \<Rightarrow> nat" where
  "rfc_shift i =
     (if i < 16 then [7, 12, 17, 22] else if i < 32 then [5, 9, 14, 20]
      else if i < 48 then [4, 11, 16, 23] else [6, 10, 15, 21]) ! (i mod 4)"

definition rfc_T :: "u32 list" where
  "rfc_T =
    [0xd76aa478, 0xe8c7b756, 0x242070db, 0xc1bdceee, 0xf57c0faf, 0x4787c62a,
     0xa8304613, 0xfd469501, 0x698098d8, 0x8b44f7af, 0xffff5bb1, 0x895cd7be,
     0x6b901122, 0xfd987193, 0xa679438e, 0x49b40821, 0xf61e2562, 0xc040b340,
     0x265e5a51, 0xe9b6c7aa, 0xd62f105d, 0x2441453, 0xd8a1e681, 0xe7d3fbc8,
     0x21e1cde6, 0xc33707d6, 0xf4d50d87, 0x455a14ed, 0xa9e3e905, 0xfcefa3f8,
     0x676f02d9, 0x8d2a4c8a, 0xfffa3942, 0x8771f681, 0x6d9d6122, 0xfde5380c,
     0xa4beea44, 0x4bdecfa9, 0xf6bb4b60, 0xbebfbc70, 0x289b7ec6, 0xeaa127fa,
     0xd4ef3085, 0x4881d05, 0xd9d4d039, 0xe6db99e5, 0x1fa27cf8, 0xc4ac5665,
     0xf4292244, 0x432aff97, 0xab9423a7, 0xfc93a039, 0x655b59c3, 0x8f0ccc92,
     0xffeff47d, 0x85845dd1, 0x6fa87e4f, 0xfe2ce6e0, 0xa3014314, 0x4e0811a1,
     0xf7537e82, 0xbd3af235, 0x2ad7d2bb, 0xeb86d391]"

definition rfc_step :: "u32 list \<Rightarrow> nat \<Rightarrow> md5_abcd \<Rightarrow> md5_abcd" where
  "rfc_step x i st =
     (case st of (a, b, c, d) \<Rightarrow>
        (d, b + word_rotl (rfc_shift i) (a + rfc_f i b c d + x ! rfc_index i + rfc_T ! i), b, c))"

definition rfc_compress :: "byte list \<Rightarrow> md5_abcd \<Rightarrow> md5_abcd" where
  "rfc_compress block st =
     (case fold (rfc_step (md5_decode block)) [0..<64] st of (a, b, c, d) \<Rightarrow>
      case st of (a0, b0, c0, d0) \<Rightarrow> (a0 + a, b0 + b, c0 + c, d0 + d))"

lemma rotate_left_rotl:
  assumes "0 < n" "n < 32"
  shows "rotate_left x n = word_rotl n x"
proof (rule bit_word_eqI)
  fix k assume k: "k < LENGTH(32)"
  have r: "bit (word_rotl n x) k = bit x ((k + 32 - n) mod 32)"
    using k assms by (simp add: word_rotl_eq_word_rotr bit_word_rotr_iff)
  show "bit (rotate_left x n) k = bit (word_rotl n x) k"
  proof (cases "n \<le> k")
    case True
    then have e: "k + 32 - n = (k - n) + 32" by simp
    have "(k + 32 - n) mod 32 = k - n" unfolding e using k by simp
    moreover have "\<not> bit x (32 - n + k)" using True bit_imp_le_length [of x "32 - n + k"] assms by auto
    ultimately show ?thesis
      using True k r by (simp add: rotate_left_def bit_or_iff bit_push_bit_iff bit_drop_bit_eq)
  next
    case False
    then have "(k + 32 - n) mod 32 = 32 - n + k" using assms by simp
    then show ?thesis
      using False r by (simp add: rotate_left_def bit_or_iff bit_push_bit_iff bit_drop_bit_eq)
  qed
qed

lemma fold_let: "fold f is (let x = e in g x) = (let x = e in fold f is (g x))"
  by (simp add: Let_def)

definition rfc_line :: "u32 list \<Rightarrow> nat \<Rightarrow> u32 \<Rightarrow> u32 \<Rightarrow> u32 \<Rightarrow> u32 \<Rightarrow> u32" where
  "rfc_line x i a b c d = b + word_rotl (rfc_shift i) (a + rfc_f i b c d + x ! rfc_index i + rfc_T ! i)"

lemma four_steps:
  "fold (rfc_step x) [i, i1, i2, i3] (a, b, c, d) =
     (let a = rfc_line x i a b c d; d = rfc_line x i1 d a b c; c = rfc_line x i2 c d a b; b = rfc_line x i3 b c d a
      in (a, b, c, d))"
  by (simp add: rfc_step_def rfc_line_def Let_def)

lemma line_rotl:
  assumes "0 < s" "s < 32"
  shows "FF a b c d x s ac = b + word_rotl s (a + md5_F b c d + x + ac)"
    and "GG a b c d x s ac = b + word_rotl s (a + md5_G b c d + x + ac)"
    and "HH a b c d x s ac = b + word_rotl s (a + md5_H b c d + x + ac)"
    and "II a b c d x s ac = b + word_rotl s (a + md5_I b c d + x + ac)"
  using assms by (simp_all add: FF_def GG_def HH_def II_def rotate_left_rotl add.commute)

lemma rfc_f_rounds:
  "i < 16 \<Longrightarrow> rfc_f i b c d = md5_F b c d"
  "16 \<le> i \<Longrightarrow> i < 32 \<Longrightarrow> rfc_f i b c d = md5_G b c d"
  "32 \<le> i \<Longrightarrow> i < 48 \<Longrightarrow> rfc_f i b c d = md5_H b c d"
  "48 \<le> i \<Longrightarrow> rfc_f i b c d = md5_I b c d"
  by (simp_all add: rfc_f_def md5_F_def md5_G_def md5_H_def md5_I_def and.commute)

lemmas line_simps = line_rotl rfc_f_rounds shift_defs rfc_shift_def rfc_index_def rfc_T_def

lemma round1_lines:
  "rfc_line x 0 a b c d = FF a b c d (x ! 0) S11 0xd76aa478"
  "rfc_line x 1 a b c d = FF a b c d (x ! 1) S12 0xe8c7b756"
  "rfc_line x 2 a b c d = FF a b c d (x ! 2) S13 0x242070db"
  "rfc_line x 3 a b c d = FF a b c d (x ! 3) S14 0xc1bdceee"
  "rfc_line x 4 a b c d = FF a b c d (x ! 4) S11 0xf57c0faf"
  "rfc_line x 5 a b c d = FF a b c d (x ! 5) S12 0x4787c62a"
  "rfc_line x 6 a b c d = FF a b c d (x ! 6) S13 0xa8304613"
  "rfc_line x 7 a b c d = FF a b c d (x ! 7) S14 0xfd469501"
  "rfc_line x 8 a b c d = FF a b c d (x ! 8) S11 0x698098d8"
  "rfc_line x 9 a b c d = FF a b c d (x ! 9) S12 0x8b44f7af"
  "rfc_line x 10 a b c d = FF a b c d (x ! 10) S13 0xffff5bb1"
  "rfc_line x 11 a b c d = FF a b c d (x ! 11) S14 0x895cd7be"
  "rfc_line x 12 a b c d = FF a b c d (x ! 12) S11 0x6b901122"
  "rfc_line x 13 a b c d = FF a b c d (x ! 13) S12 0xfd987193"
  "rfc_line x 14 a b c d = FF a b c d (x ! 14) S13 0xa679438e"
  "rfc_line x 15 a b c d = FF a b c d (x ! 15) S14 0x49b40821"
  by (simp_all add: rfc_line_def line_simps)

lemma round2_lines:
  "rfc_line x 16 a b c d = GG a b c d (x ! 1) S21 0xf61e2562"
  "rfc_line x 17 a b c d = GG a b c d (x ! 6) S22 0xc040b340"
  "rfc_line x 18 a b c d = GG a b c d (x ! 11) S23 0x265e5a51"
  "rfc_line x 19 a b c d = GG a b c d (x ! 0) S24 0xe9b6c7aa"
  "rfc_line x 20 a b c d = GG a b c d (x ! 5) S21 0xd62f105d"
  "rfc_line x 21 a b c d = GG a b c d (x ! 10) S22 0x2441453"
  "rfc_line x 22 a b c d = GG a b c d (x ! 15) S23 0xd8a1e681"
  "rfc_line x 23 a b c d = GG a b c d (x ! 4) S24 0xe7d3fbc8"
  "rfc_line x 24 a b c d = GG a b c d (x ! 9) S21 0x21e1cde6"
  "rfc_line x 25 a b c d = GG a b c d (x ! 14) S22 0xc33707d6"
  "rfc_line x 26 a b c d = GG a b c d (x ! 3) S23 0xf4d50d87"
  "rfc_line x 27 a b c d = GG a b c d (x ! 8) S24 0x455a14ed"
  "rfc_line x 28 a b c d = GG a b c d (x ! 13) S21 0xa9e3e905"
  "rfc_line x 29 a b c d = GG a b c d (x ! 2) S22 0xfcefa3f8"
  "rfc_line x 30 a b c d = GG a b c d (x ! 7) S23 0x676f02d9"
  "rfc_line x 31 a b c d = GG a b c d (x ! 12) S24 0x8d2a4c8a"
  by (simp_all add: rfc_line_def line_simps)

lemma round3_lines:
  "rfc_line x 32 a b c d = HH a b c d (x ! 5) S31 0xfffa3942"
  "rfc_line x 33 a b c d = HH a b c d (x ! 8) S32 0x8771f681"
  "rfc_line x 34 a b c d = HH a b c d (x ! 11) S33 0x6d9d6122"
  "rfc_line x 35 a b c d = HH a b c d (x ! 14) S34 0xfde5380c"
  "rfc_line x 36 a b c d = HH a b c d (x ! 1) S31 0xa4beea44"
  "rfc_line x 37 a b c d = HH a b c d (x ! 4) S32 0x4bdecfa9"
  "rfc_line x 38 a b c d = HH a b c d (x ! 7) S33 0xf6bb4b60"
  "rfc_line x 39 a b c d = HH a b c d (x ! 10) S34 0xbebfbc70"
  "rfc_line x 40 a b c d = HH a b c d (x ! 13) S31 0x289b7ec6"
  "rfc_line x 41 a b c d = HH a b c d (x ! 0) S32 0xeaa127fa"
  "rfc_line x 42 a b c d = HH a b c d (x ! 3) S33 0xd4ef3085"
  "rfc_line x 43 a b c d = HH a b c d (x ! 6) S34 0x4881d05"
  "rfc_line x 44 a b c d = HH a b c d (x ! 9) S31 0xd9d4d039"
  "rfc_line x 45 a b c d = HH a b c d (x ! 12) S32 0xe6db99e5"
  "rfc_line x 46 a b c d = HH a b c d (x ! 15) S33 0x1fa27cf8"
  "rfc_line x 47 a b c d = HH a b c d (x ! 2) S34 0xc4ac5665"
  by (simp_all add: rfc_line_def line_simps)

lemma round4_lines:
  "rfc_line x 48 a b c d = II a b c d (x ! 0) S41 0xf4292244"
  "rfc_line x 49 a b c d = II a b c d (x ! 7) S42 0x432aff97"
  "rfc_line x 50 a b c d = II a b c d (x ! 14) S43 0xab9423a7"
  "rfc_line x 51 a b c d = II a b c d (x ! 5) S44 0xfc93a039"
  "rfc_line x 52 a b c d = II a b c d (x ! 12) S41 0x655b59c3"
  "rfc_line x 53 a b c d = II a b c d (x ! 3) S42 0x8f0ccc92"
  "rfc_line x 54 a b c d = II a b c d (x ! 10) S43 0xffeff47d"
  "rfc_line x 55 a b c d = II a b c d (x ! 1) S44 0x85845dd1"
  "rfc_line x 56 a b c d = II a b c d (x ! 8) S41 0x6fa87e4f"
  "rfc_line x 57 a b c d = II a b c d (x ! 15) S42 0xfe2ce6e0"
  "rfc_line x 58 a b c d = II a b c d (x ! 6) S43 0xa3014314"
  "rfc_line x 59 a b c d = II a b c d (x ! 13) S44 0x4e0811a1"
  "rfc_line x 60 a b c d = II a b c d (x ! 4) S41 0xf7537e82"
  "rfc_line x 61 a b c d = II a b c d (x ! 11) S42 0xbd3af235"
  "rfc_line x 62 a b c d = II a b c d (x ! 2) S43 0x2ad7d2bb"
  "rfc_line x 63 a b c d = II a b c d (x ! 9) S44 0xeb86d391"
  by (simp_all add: rfc_line_def line_simps)

lemma round1_rfc: "round1 x st = fold (rfc_step x) [0..<16] st"
proof -
  obtain a b c d where st: "st = (a, b, c, d)" by (cases st)
  have l: "[0..<16] = [0, 1, 2, 3] @ [4, 5, 6, 7] @ [8, 9, 10, 11] @ [12, 13, 14, 15 :: nat]"
    by (simp add: upt_rec)
  show ?thesis
    unfolding l st fold_append comp_apply four_steps round1_def prod.case fold_let round1_lines ..
qed

lemma round2_rfc: "round2 x st = fold (rfc_step x) [16..<32] st"
proof -
  obtain a b c d where st: "st = (a, b, c, d)" by (cases st)
  have l: "[16..<32] = [16, 17, 18, 19] @ [20, 21, 22, 23] @ [24, 25, 26, 27] @ [28, 29, 30, 31 :: nat]"
    by (simp add: upt_rec)
  show ?thesis
    unfolding l st fold_append comp_apply four_steps round2_def prod.case fold_let round2_lines ..
qed

lemma round3_rfc: "round3 x st = fold (rfc_step x) [32..<48] st"
proof -
  obtain a b c d where st: "st = (a, b, c, d)" by (cases st)
  have l: "[32..<48] = [32, 33, 34, 35] @ [36, 37, 38, 39] @ [40, 41, 42, 43] @ [44, 45, 46, 47 :: nat]"
    by (simp add: upt_rec)
  show ?thesis
    unfolding l st fold_append comp_apply four_steps round3_def prod.case fold_let round3_lines ..
qed

lemma round4_rfc: "round4 x st = fold (rfc_step x) [48..<64] st"
proof -
  obtain a b c d where st: "st = (a, b, c, d)" by (cases st)
  have l: "[48..<64] = [48, 49, 50, 51] @ [52, 53, 54, 55] @ [56, 57, 58, 59] @ [60, 61, 62, 63 :: nat]"
    by (simp add: upt_rec)
  show ?thesis
    unfolding l st fold_append comp_apply four_steps round4_def prod.case fold_let round4_lines ..
qed

lemma transform_rfc: "md5_transform block st = rfc_compress block st"
proof -
  have s: "[i..<k] = [i..<j] @ [j..<k]" if "i \<le> j" "j \<le> k" for i j k :: nat
    using upt_add_eq_append [OF that(1), of "k - j"] that(2) by simp
  have l1: "[0..<64] = [0..<16] @ [16..<64 :: nat]" by (rule s) simp_all
  have l2: "[16..<64] = [16..<32] @ [32..<64 :: nat]" by (rule s) simp_all
  have l3: "[32..<64] = [32..<48] @ [48..<64 :: nat]" by (rule s) simp_all
  note l = l1 [unfolded l2 l3]
  show ?thesis
    unfolding md5_transform_def rfc_compress_def l fold_append comp_apply Let_def
      round1_rfc round2_rfc round3_rfc round4_rfc ..
qed

section \<open>Whole messages\<close>

function absorb :: "md5_abcd \<Rightarrow> byte list \<Rightarrow> md5_abcd" where
  "absorb st m = (if length m < 64 then st else absorb (rfc_compress (take 64 m) st) (drop 64 m))"
  by pat_completeness auto
termination
  by (relation "measure (\<lambda>(st, m). length m)") auto

declare absorb.simps [simp del]

definition bit_length :: "byte list \<Rightarrow> byte list" where
  "bit_length m = (let n = 8 * int (length m) in
     md5_encode [word_of_int n, word_of_int (n div 2 ^ 32)])"

definition rfc_pad :: "byte list \<Rightarrow> byte list" where
  "rfc_pad m = m @ 0x80 # replicate ((119 - length m mod 64) mod 64) 0 @ bit_length m"

definition rfc_md5 :: "byte list \<Rightarrow> byte list" where
  "rfc_md5 m = (case absorb md5_magic (rfc_pad m) of (a, b, c, d) \<Rightarrow> md5_encode [a, b, c, d])"

definition tail64 :: "byte list \<Rightarrow> byte list" where
  "tail64 m = drop (length m - length m mod 64) m"

lemma absorb_short: "length m < 64 \<Longrightarrow> absorb st m = st"
  by (simp add: absorb.simps)

lemma absorb_append:
  "length a = 64 * k \<Longrightarrow> absorb st (a @ b) = absorb (absorb st a) b"
proof (induction k arbitrary: a st)
  case 0
  then show ?case by (simp add: absorb_short)
next
  case (Suc k)
  have "length (drop 64 a) = 64 * k" using Suc.prems by simp
  note IH = Suc.IH [OF this]
  have "absorb st (a @ b) = absorb (rfc_compress (take 64 a) st) (drop 64 a @ b)"
    using Suc.prems by (subst absorb.simps) simp
  also have "\<dots> = absorb (absorb st a) b"
    using Suc.prems by (subst IH, subst (3) absorb.simps) simp
  finally show ?case .
qed

lemma length_tail64: "length (tail64 m) = length m mod 64"
  by (simp add: tail64_def)

lemma split64: "m = take (length m - length m mod 64) m @ tail64 m"
  by (simp add: tail64_def)

lemma absorb_tail64: "absorb st (m @ x) = absorb (absorb st m) (tail64 m @ x)"
proof -
  define a where "a = take (length m - length m mod 64) m"
  have a: "length a = 64 * (length m div 64)"
    using times_div_less_eq_dividend [of 64 "length m"] by (simp add: a_def minus_mod_eq_mult_div)
  have m: "m = a @ tail64 m" unfolding a_def by (rule split64)
  have "absorb st m = absorb (absorb st a) (tail64 m)" using absorb_append [OF a] m by metis
  also have "\<dots> = absorb st a" by (simp add: absorb_short length_tail64)
  finally have e: "absorb st m = absorb st a" .
  have "absorb st (m @ x) = absorb (absorb st a) (tail64 m @ x)"
    using absorb_append [OF a, of st "tail64 m @ x"] m by (metis append.assoc)
  then show ?thesis by (simp add: e)
qed

lemma tail64_append: "tail64 (m @ x) = tail64 (tail64 m @ x)"
proof -
  define n where "n = length m - length m mod 64"
  have d: "64 dvd n" "n \<le> length m" by (auto simp: n_def dvd_minus_mod)
  have t: "tail64 m = drop n m" by (simp add: tail64_def n_def)
  let ?L = "length m + length x"
  have l: "length (tail64 m @ x) = ?L - n" using d by (simp add: t)
  obtain q where q: "n = 64 * q" using d(1) by auto
  have "?L = (?L - n) + 64 * q" using d(2) q by linarith
  then have r: "(?L - n) mod 64 = ?L mod 64" by (metis mod_mult_self2)
  have g: "?L mod 64 \<le> ?L - n" unfolding r [symmetric] by simp
  have e: "?L - n - ?L mod 64 + n = ?L - ?L mod 64" using g d(2) by linarith
  have "tail64 (tail64 m @ x) = drop (?L - n - ?L mod 64) (drop n (m @ x))"
    unfolding tail64_def [of "tail64 m @ x"] l r using d by (simp add: t)
  also have "\<dots> = drop (?L - ?L mod 64) (m @ x)"
    by (simp only: drop_drop e)
  finally show ?thesis by (simp add: tail64_def del: drop_append)
qed

lemma length_absorbed: "length (take (length m - length m mod 64) m) = 64 * (length m div 64)"
  using times_div_less_eq_dividend [of 64 "length m"] by (simp add: minus_mod_eq_mult_div)

text \<open>The loop of \<open>update\<close> absorbs the full blocks of the input.\<close>

lemma transform_loop_absorbs:
  assumes "unat len \<le> length input" "unat i \<le> unat len" "unat len + 64 < 2 ^ 32"
  shows "\<exists>j. transform_loop input len i st = Some (Fine (j, absorb st (region input (unat i) (unat len - unat i))))
    \<and> unat i \<le> unat j \<and> unat j \<le> unat len
    \<and> region input (unat j) (unat len - unat j) = tail64 (region input (unat i) (unat len - unat i))"
  using assms(2)
proof (induction "unat len - unat i" arbitrary: i st rule: less_induct)
  case less
  let ?r = "region input (unat i) (unat len - unat i)"
  have i64: "unat (i + 64) = unat i + 64"
    using less.prems assms(3) by (simp add: unat_word_ariths)
  have lr: "length ?r = unat len - unat i" using assms(1) less.prems by (simp add: block_simps)
  show ?case
  proof (cases "i + 64 \<le> len")
    case False
    then have s: "length ?r < 64" using lr i64 by (simp add: word_le_nat_alt)
    then have "transform_loop input len i st = Some (Fine (i, absorb st ?r))"
      using False by (subst transform_loop.simps) (simp add: absorb_short)
    moreover have "tail64 ?r = ?r" using s by (simp add: tail64_def)
    ultimately show ?thesis using less.prems by auto
  next
    case True
    then have le: "unat i + 64 \<le> unat len" using i64 by (simp add: word_le_nat_alt)
    let ?b = "region input (unat i) 64"
    have b: "length ?b = 64 * 1" using le assms(1) by (simp add: block_simps)
    have r: "?r = ?b @ region input (unat (i + 64)) (unat len - unat (i + 64))"
      using le by (simp add: i64 block_simps)
    have step: "transform_loop input len i st = transform_loop input len (i + 64) (md5_transform ?b st)"
      using True le assms(1) by (subst transform_loop.simps) simp
    have b1: "absorb st ?b = md5_transform ?b st"
      using b by (subst absorb.simps) (simp add: absorb_short transform_rfc)
    have t: "tail64 ?r = tail64 (region input (unat (i + 64)) (unat len - unat (i + 64)))"
    proof -
      have "tail64 ?b = []" using b by (simp add: tail64_def)
      then show ?thesis using tail64_append [of ?b] r by simp
    qed
    have "unat len - unat (i + 64) < unat len - unat i" "unat (i + 64) \<le> unat len" using le i64 by auto
    from less.hyps [OF this, of "md5_transform ?b st"] show ?thesis
      unfolding step t unfolding r absorb_append [OF b] b1 by (auto simp: i64)
  qed
qed

definition counts :: "int \<Rightarrow> u32 \<times> u32 \<Rightarrow> bool" where
  "counts n c \<longleftrightarrow> uint (fst c) + 2 ^ 32 * uint (snd c) = n mod 2 ^ 64"

lemma word_parts:
  fixes len :: u32
  shows "uint (push_bit 3 len) = 8 * uint len mod 2 ^ 32" "uint (drop_bit 29 len) = uint len div 2 ^ 29"
  by (simp_all add: push_bit_eq_mult uint_word_ariths drop_bit_eq_div uint_div_distrib mult.commute)

lemma carry_mod:
  assumes "0 \<le> S" "S < b"
  shows "S + b * (X mod b) = (S + b * X) mod (b * (b :: int))"
  using assms zmod_zmult2_eq [of b "S + b * X" b] by simp

lemma counts_add:
  assumes "counts n c"
  shows "counts (n + 8 * uint len) (count_bits len c)"
proof -
  obtain lo hi where c: "c = (lo, hi)" by (cases c)
  define P where "P = uint (push_bit 3 len)"
  define D where "D = uint len div 2 ^ 29"
  define k where "k = (if uint lo + P < 2 ^ 32 then 0 else 1 :: int)"
  have P: "0 \<le> P" "P < 2 ^ 32" using uint_range_size [of "push_bit 3 len"] by (auto simp: P_def word_size)
  have lo: "0 \<le> uint lo" "uint lo < 2 ^ 32" using uint_range_size [of lo] by (auto simp: word_size)
  have N: "8 * uint len = P + 2 ^ 32 * D"
    unfolding P_def D_def word_parts
    using mult_div_mod_eq [of "2 ^ 32" "8 * uint len"] div_mult_mult1 [of 8 "uint len" "2 ^ 29"] by simp
  have wrap: "(uint lo + P) mod 2 ^ 32 = uint lo + P - 2 ^ 32" if "\<not> uint lo + P < 2 ^ 32"
  proof -
    have "(uint lo + P - 2 ^ 32) mod 2 ^ 32 = uint lo + P - 2 ^ 32"
      using that lo P by (intro mod_pos_pos_trivial) auto
    then show ?thesis unfolding minus_mod_self2 .
  qed
  have s: "uint (lo + push_bit 3 len) = uint lo + P - 2 ^ 32 * k"
    using lo P wrap by (simp add: k_def uint_word_ariths P_def [symmetric] mod_pos_pos_trivial)
  have cmp: "lo + push_bit 3 len < push_bit 3 len \<longleftrightarrow> k = 1"
    unfolding word_less_def s P_def [symmetric] using lo by (auto simp: k_def)
  have cb: "count_bits len c = (lo + push_bit 3 len, (if k = 1 then hi + 1 else hi) + drop_bit 29 len)"
    by (simp add: count_bits_def c Let_def cmp)
  have k: "k = 0 \<or> k = 1" by (simp add: k_def)
  have h: "uint ((if k = 1 then hi + 1 else hi) + drop_bit 29 len) = (uint hi + k + D) mod 2 ^ 32"
    using k by (auto simp: uint_word_ariths word_parts D_def mod_simps)
  define S where "S = uint lo + P - 2 ^ 32 * k"
  have S: "0 \<le> S" "S < 2 ^ 32" using lo P by (auto simp: S_def k_def)
  have "S + 2 ^ 32 * ((uint hi + k + D) mod 2 ^ 32) = (S + 2 ^ 32 * (uint hi + k + D)) mod 2 ^ 64"
    using carry_mod [OF S, of "uint hi + k + D"] by simp
  also have "S + 2 ^ 32 * (uint hi + k + D) = (uint lo + 2 ^ 32 * uint hi) + 8 * uint len"
    unfolding N S_def by (simp add: algebra_simps)
  also have "\<dots> mod 2 ^ 64 = (n + 8 * uint len) mod 2 ^ 64"
    using assms unfolding counts_def c by (simp add: mod_simps)
  finally show ?thesis unfolding counts_def cb fst_conv snd_conv s h S_def .
qed

lemma counts_index:
  assumes "counts (8 * int n) c"
  shows "unat (fst c div 8 mod 64) = n mod 64"
proof -
  have "uint (fst c) = (uint (fst c) + 2 ^ 32 * uint (snd c)) mod 2 ^ 32"
    using uint_range_size [of "fst c"] by (simp add: word_size)
  also have "\<dots> = (8 * int n) mod 2 ^ 32"
    using assms unfolding counts_def by (simp add: mod_mod_cancel)
  also have "\<dots> = 8 * (int n mod 2 ^ 29)" using mult_mod_right [of 8 "int n" "2 ^ 29"] by simp
  finally have "uint (fst c) div 8 mod 64 = int n mod 64" by (simp add: mod_mod_cancel)
  then have "int (unat (fst c div 8 mod 64)) = int (n mod 64)"
    by (simp add: uint_div_distrib uint_mod_distrib zmod_int)
  then show ?thesis by (simp only: of_nat_eq_iff)
qed

definition represents :: "byte list \<Rightarrow> md5 \<Rightarrow> bool" where
  "represents m s \<longleftrightarrow> length (md5_buffer s) = 64 \<and> md5_state s = absorb md5_magic m
     \<and> take (length m mod 64) (md5_buffer s) = tail64 m \<and> counts (8 * int (length m)) (md5_count s)
     \<and> \<not> finalized s"

lemma represents_init: "length (md5_buffer raw) = 64 \<Longrightarrow> represents [] (md5_init raw)"
  by (simp add: represents_def md5_init_def counts_def absorb_short tail64_def)

lemma take_blit_0: "length xs \<le> n \<Longrightarrow> take (length xs) (blit mem 0 xs) = xs"
  by (simp add: blit_def)

lemma take_blit_at:
  "off \<le> length mem \<Longrightarrow> take (off + length xs) (blit mem off xs) = take off mem @ xs"
  by (simp add: blit_def)

text \<open>An update that does not fill the buffer.\<close>

lemma update_short:
  assumes rep: "represents m s" and len: "unat len \<le> length input" and x: "x = take (unat len) input"
    and short: "length m mod 64 + length x < 64"
  shows "\<exists>s'. md5_update input len s = Some (Fine s') \<and> represents (m @ x) s'"
proof -
  have lx: "unat len = length x" using len x by simp
  define index where "index = fst (md5_count s) div 8 mod 64"
  have i: "unat index = length m mod 64"
    unfolding index_def using rep by (intro counts_index) (simp add: represents_def)
  have fp: "unat (64 - index) = 64 - length m mod 64"
    using i by (simp add: unat_sub word_le_nat_alt)
  define s' where "s' = s\<lparr>md5_count := count_bits len (md5_count s),
    md5_buffer := blit (md5_buffer s) (unat index) x\<rparr>"
  have "\<not> len \<ge> 64 - index" using short fp lx by (simp add: word_le_nat_alt)
  then have "md5_update input len s = Some (Fine s')"
    using len by (simp add: md5_update_def Let_def index_def s'_def x)
  moreover have "represents (m @ x) s'"
  proof -
    have b: "length (md5_buffer s) = 64" "take (length m mod 64) (md5_buffer s) = tail64 m"
      using rep by (auto simp: represents_def)
    have mm: "length (m @ x) mod 64 = length m mod 64 + length x"
      using short by (metis length_append mod_add_left_eq mod_less)
    have l: "length (tail64 m @ x) < 64" using short by (simp add: length_tail64)
    have t: "tail64 (m @ x) = tail64 m @ x"
      using l tail64_append [of m x] by (simp add: tail64_def [of "tail64 m @ x"])
    have "uint len = int (length x)" unfolding lx [symmetric] by simp
    then have c: "counts (8 * int (length (m @ x))) (count_bits len (md5_count s))"
      using counts_add [of "8 * int (length m)" "md5_count s" len] rep
      by (simp add: represents_def algebra_simps)
    have "absorb md5_magic (m @ x) = absorb md5_magic m"
      using l by (subst absorb_tail64) (simp add: absorb_short)
    then show ?thesis
      unfolding represents_def mm t using rep b short lx c
      by (auto simp: s'_def i represents_def take_blit_at block_simps)
  qed
  ultimately show ?thesis by blast
qed

lemma update_long:
  assumes rep: "represents m s" and len: "unat len \<le> length input" "unat len + 64 < 2 ^ 32" and x: "x = take (unat len) input"
    and long: "64 \<le> length m mod 64 + length x"
  shows "\<exists>s'. md5_update input len s = Some (Fine s') \<and> represents (m @ x) s'"
proof -
  have lx: "unat len = length x" using len x by simp
  define index where "index = fst (md5_count s) div 8 mod 64"
  define r where "r = length m mod 64"
  have i: "unat index = r"
    unfolding index_def r_def using rep by (intro counts_index) (simp add: represents_def)
  have r: "r < 64" by (simp add: r_def)
  define fp where "fp = 64 - index"
  have fp: "unat fp = 64 - r" unfolding fp_def using i r by (simp add: unat_sub word_le_nat_alt)
  have b: "length (md5_buffer s) = 64" "take r (md5_buffer s) = tail64 m"
    using rep by (auto simp: represents_def r_def)
  define h where "h = take (unat fp) x"
  have h: "length h = 64 - r" using long fp by (simp add: h_def r_def [symmetric])
  define buf where "buf = blit (md5_buffer s) r h"
  have buf: "buf = tail64 m @ h" using b r h by (simp add: buf_def blit_def)
  have lb: "length buf = 64 * 1" using h r by (simp add: buf length_tail64 r_def [symmetric])
  have st: "md5_transform buf (md5_state s) = absorb md5_magic (m @ h)"
  proof -
    have "absorb (md5_state s) buf = md5_transform buf (md5_state s)"
      using lb by (subst absorb.simps) (simp add: absorb_short transform_rfc)
    then show ?thesis
      using rep absorb_tail64 [of md5_magic m h] by (simp add: buf represents_def)
  qed
  define q where "q = length m div 64"
  have "64 * q + r = length m" unfolding q_def r_def by (rule mult_div_mod_eq)
  moreover have "length h + r = 64" using h r by simp
  ultimately have mh: "length (m @ h) = 64 * (q + 1)" unfolding length_append distrib_left mult_1_right by presburger
  have d: "region input (unat fp) (unat len - unat fp) = drop (unat fp) x"
    unfolding region_def x drop_take ..
  have mx: "m @ x = (m @ h) @ drop (unat fp) x" by (simp add: h_def)
  have fl: "unat fp \<le> unat len" using lx long fp by (simp add: r_def [symmetric])
  have ti: "take (unat fp) input = h" unfolding h_def x take_take using fl by (simp add: min_absorb1)
  have "unat len \<le> length input" "unat fp \<le> unat len" "unat len + 64 < 2 ^ 32"
    using len fl by auto
  from transform_loop_absorbs [OF this, of "md5_transform buf (md5_state s)"] obtain j where
    j: "transform_loop input len fp (md5_transform buf (md5_state s)) = Some (Fine (j, absorb md5_magic (m @ x)))"
      "unat j \<le> unat len" "region input (unat j) (unat len - unat j) = tail64 (drop (unat fp) x)"
    unfolding d st unfolding mx absorb_append [OF mh] by blast
  have uj: "unat (len - j) = unat len - unat j" using j(2) by (simp add: unat_sub word_le_nat_alt)
  have t: "tail64 (m @ x) = tail64 (drop (unat fp) x)"
  proof -
    have "length (m @ h) mod 64 = 0" unfolding mh by simp
    then have "tail64 (m @ h) = []" unfolding tail64_def by simp
    then show ?thesis unfolding mx using tail64_append [of "m @ h"] by simp
  qed
  define s' where "s' = s\<lparr>md5_count := count_bits len (md5_count s), md5_state := absorb md5_magic (m @ x),
    md5_buffer := blit buf 0 (tail64 (m @ x))\<rparr>"
  have "len \<ge> fp" using len lx long fp by (simp add: word_le_nat_alt r_def [symmetric])
  then have "md5_update input len s = Some (Fine s')"
    using len j by (simp add: md5_update_def Let_def index_def [symmetric] fp_def [symmetric] i
        ti buf_def [symmetric] s'_def uj t)
  moreover have "represents (m @ x) s'"
  proof -
    have "uint len = int (length x)" unfolding lx [symmetric] by simp
    then have c: "counts (8 * int (length (m @ x))) (count_bits len (md5_count s))"
      using counts_add [of "8 * int (length m)" "md5_count s" len] rep
      by (simp add: represents_def algebra_simps)
    have "length (tail64 (m @ x)) < 64" by (simp add: length_tail64)
    then show ?thesis
      using c rep lb take_blit_0 [of "tail64 (m @ x)" 64 buf]
      by (simp add: s'_def represents_def block_simps length_tail64)
  qed
  ultimately show ?thesis by blast
qed

lemma update_represents:
  assumes "represents m s" "unat len \<le> length input" "unat len + 64 < 2 ^ 32"
  shows "\<exists>s'. md5_update input len s = Some (Fine s') \<and> represents (m @ take (unat len) input) s'"
  using update_short [OF assms(1,2) refl] update_long [OF assms refl] by force

lemma count_words:
  assumes "counts n (lo, hi)" "0 \<le> n"
  shows "lo = word_of_int n" "hi = word_of_int (n div 2 ^ 32)"
proof -
  have e: "uint lo + 2 ^ 32 * uint hi = n mod (2 ^ 32 * 2 ^ 32)" using assms by (simp add: counts_def)
  have lo: "0 \<le> uint lo" "uint lo < 2 ^ 32" using uint_range_size [of lo] by (auto simp: word_size)
  have m: "n mod (2 ^ 32 * 2 ^ 32) = 2 ^ 32 * (n div 2 ^ 32 mod 2 ^ 32) + n mod 2 ^ 32"
    by (rule zmod_zmult2_eq) simp
  have "(uint lo + 2 ^ 32 * uint hi) mod 2 ^ 32 = n mod 2 ^ 32" unfolding e m by simp
  then have l: "uint lo = n mod 2 ^ 32" using lo by simp
  then have h: "uint hi = n div 2 ^ 32 mod 2 ^ 32" using e unfolding m by simp
  show "lo = word_of_int n" by (rule word_uint_eqI) (simp add: l uint_word_of_int)
  show "hi = word_of_int (n div 2 ^ 32)" by (rule word_uint_eqI) (simp add: h uint_word_of_int)
qed

lemma pad_length:
  assumes "unat index = r" "r < 64"
  shows "unat (if index < 56 then 56 - index else 120 - index :: u32) = Suc ((119 - r) mod 64)"
proof (cases "r < 56")
  case True
  then have "119 - r = (55 - r) + 64" by simp
  then have "(119 - r) mod 64 = 55 - r" by (simp only: mod_add_self2) (use True in simp)
  then show ?thesis using assms True by (simp add: word_less_nat_alt unat_sub word_le_nat_alt)
next
  case False
  then have "(119 - r) mod 64 = 119 - r" by simp
  then show ?thesis using assms False by (simp add: word_less_nat_alt unat_sub word_le_nat_alt)
qed

lemma finalize_digest:
  assumes rep: "represents m s"
  shows "\<exists>s'. md5_finalize s = Some (Fine s') \<and> finalized s' \<and> digest s' = rfc_md5 m"
proof -
  define index where "index = fst (md5_count s) div 8 mod 64"
  define padLen where "padLen = (if index < 56 then 56 - index else 120 - index)"
  define bits where "bits = md5_encode [fst (md5_count s), snd (md5_count s)]"
  have i: "unat index = length m mod 64"
    unfolding index_def using rep by (intro counts_index) (simp add: represents_def)
  have pl: "unat padLen = Suc ((119 - length m mod 64) mod 64)"
    unfolding padLen_def by (rule pad_length [OF i]) simp
  have b: "bits = bit_length m"
    using count_words [of "8 * int (length m)" "fst (md5_count s)" "snd (md5_count s)"] rep
    by (simp add: bits_def bit_length_def represents_def Let_def)
  have lb: "length bits = 8" by (simp add: bits_def)
  have tp: "take (unat padLen) md5_padding = 0x80 # replicate ((119 - length m mod 64) mod 64) 0"
    unfolding pl md5_padding_def using mod_less_divisor [of 64 "119 - length m mod 64"] by (simp add: min_def)
  have "unat padLen \<le> length md5_padding" "unat padLen + 64 < 2 ^ 32"
    unfolding pl md5_padding_def using mod_less_divisor [of 64 "119 - length m mod 64"] by simp_all
  from update_represents [OF rep this] obtain s1 where
    s1: "md5_update md5_padding padLen s = Some (Fine s1)" "represents (m @ take (unat padLen) md5_padding) s1"
    by blast
  have "unat (8 :: u32) \<le> length bits" "unat (8 :: u32) + 64 < 2 ^ 32" using lb by simp_all
  from update_represents [OF s1(2) this] obtain s2 where
    s2: "md5_update bits 8 s1 = Some (Fine s2)"
      "represents ((m @ take (unat padLen) md5_padding) @ take (unat (8 :: u32)) bits) s2"
    by blast
  have "(m @ take (unat padLen) md5_padding) @ take (unat (8 :: u32)) bits = rfc_pad m"
    unfolding tp using lb b by (simp add: rfc_pad_def)
  then have st: "md5_state s2 = absorb md5_magic (rfc_pad m)" using s2(2) by (simp add: represents_def)
  have nf: "\<not> finalized s" using rep by (simp add: represents_def)
  show ?thesis
    using s1(1) s2(1) nf unfolding index_def padLen_def bits_def
    by (simp add: md5_finalize_def Let_def st rfc_md5_def split: prod.split)
qed

fun md5_feed :: "byte list list \<Rightarrow> md5 \<Rightarrow> md5 checked option" where
  "md5_feed [] s = Some (Fine s)"
| "md5_feed (c # cs) s =
     (case md5_update c (of_nat (length c)) s of Some (Fine s') \<Rightarrow> md5_feed cs s' | r \<Rightarrow> r)"

lemma feed_represents:
  assumes "represents m s" "list_all (\<lambda>c. int (length c) + 64 < 2 ^ 32) cs"
  shows "\<exists>s'. md5_feed cs s = Some (Fine s') \<and> represents (m @ concat cs) s'"
  using assms
proof (induction cs arbitrary: m s)
  case (Cons c cs)
  have n: "unat (of_nat (length c) :: u32) = length c"
    using Cons.prems(2) by (simp add: unat_of_nat)
  then have "unat (of_nat (length c) :: u32) \<le> length c" "unat (of_nat (length c) :: u32) + 64 < 2 ^ 32"
    using Cons.prems(2) by simp_all
  from update_represents [OF Cons.prems(1) this] obtain s1 where
    "md5_update c (of_nat (length c)) s = Some (Fine s1)" "represents (m @ c) s1"
    unfolding n by auto
  with Cons.IH [of "m @ c" s1] Cons.prems(2) show ?case by simp
qed auto

lemma md5_string_rfc:
  assumes "length (md5_buffer raw) = 64" "int (length text) + 64 < 2 ^ 32"
  shows "md5_string raw text = Some (Fine (hexdigest (raw\<lparr>finalized := True, digest := rfc_md5 text\<rparr>)))"
proof -
  have "list_all (\<lambda>c. int (length c) + 64 < 2 ^ 32) [text]" using assms(2) by simp
  from feed_represents [OF represents_init [OF assms(1)] this] obtain s where
    s: "md5_feed [text] (md5_init raw) = Some (Fine s)" "represents text s" by auto
  have u: "md5_update text (of_nat (length text)) (md5_init raw) = Some (Fine s)"
    using s(1) by (simp split: option.splits checked.splits)
  from finalize_digest [OF s(2)] show ?thesis
    by (auto simp: md5_string_def u hexdigest_def)
qed

text \<open>A length within 64 of \<open>2 ^ 32\<close>: the loop counter wraps around and the loop reads behind its input.\<close>

lemma huge_input_out_of_bounds:
  assumes "int (length input) = 2 ^ 32 - 1"
  shows "transform_loop input (- 1) (- 32) st = Some OutOfBounds"
  using assms by (subst transform_loop.simps) simp

section \<open>Properties\<close>

text \<open>C16: The unrolled rounds are those of the standard. The 64 written-out lines of \<open>transform\<close>, with their
  shifts, message indices and constants, compute the same as the loop of RFC 1321 over its tables.\<close>

theorem md5_rounds_rfc:
  "round4 x (round3 x (round2 x (round1 x st))) = fold (rfc_step x) ([0..<16] @ [16..<32] @ [32..<48] @ [48..<64]) st"
  by (simp only: round1_rfc round2_rfc round3_rfc round4_rfc fold_append comp_apply)

text \<open>C15: A digest does not depend on how the message is cut. Feeding any pieces of less than \<open>2 ^ 32 - 64\<close>
  bytes each to \<open>update\<close> and calling \<open>finalize\<close> returns, reads no byte outside the pieces, and leaves the
  RFC 1321 digest of the concatenated message, buffering, block loop and 64-bit bit count included.\<close>

theorem md5_streams:
  assumes "length (md5_buffer raw) = 64" "list_all (\<lambda>c. int (length c) + 64 < 2 ^ 32) cs"
  shows "\<exists>s s'. md5_feed cs (md5_init raw) = Some (Fine s) \<and> md5_finalize s = Some (Fine s')
    \<and> finalized s' \<and> digest s' = rfc_md5 (concat cs)"
  using feed_represents [OF represents_init [OF assms(1)] assms(2)] finalize_digest by fastforce

theorem md5_streams_witness:
  "\<exists>s s'. md5_feed [[97], [], [98, 99]] (md5_init \<lparr>finalized = False, md5_buffer = replicate 64 7,
       md5_count = (5, 5), md5_state = md5_magic, digest = []\<rparr>) = Some (Fine s)
     \<and> md5_finalize s = Some (Fine s') \<and> finalized s' \<and> digest s' = rfc_md5 [97, 98, 99]"
  using md5_streams [of "\<lparr>finalized = False, md5_buffer = replicate 64 7, md5_count = (5, 5),
      md5_state = md5_magic, digest = []\<rparr>" "[[97], [], [98, 99]]"] by simp

end
