(* ===== verification/StrUtil.thy ===== *)
theory StrUtil
  imports Prelude
begin

text \<open>
  \<open>public/str_util.h\<close> and \<open>str_util.cpp\<close> without the base64 codec: splitting, joining and trimming of
  strings, the url codec and random numbers. A \<open>std::string\<close> is a byte list. Shown:
  splitting and joining undo each other, trimming removes exactly the blanks at the ends, and url
  decoding undoes url encoding for every byte string.
\<close>

section \<open>Splitting and joining\<close>

text \<open>The loop of \<open>str_split_by\<close> from the position \<open>pos\<close> on.\<close>

function split_loop :: "byte \<Rightarrow> byte list \<Rightarrow> byte list list" where
  "split_loop d s =
     (case dropWhile (\<lambda>c. c \<noteq> d) s of
        [] \<Rightarrow> [s]
      | _ # rest \<Rightarrow> takeWhile (\<lambda>c. c \<noteq> d) s # split_loop d rest)"
  by pat_completeness auto
termination
proof (relation "measure (\<lambda>(d, s). length s)")
  fix d s x rest
  assume "dropWhile (\<lambda>c. c \<noteq> d) s = x # rest"
  then show "((d, rest), (d, s)) \<in> measure (\<lambda>(d, s). length s)"
    using length_dropWhile_le [of "\<lambda>c. c \<noteq> d" s] by simp
qed simp

declare split_loop.simps [simp del]

definition str_split_by :: "byte list \<Rightarrow> byte \<Rightarrow> int \<times> byte list list" where
  "str_split_by src d =
     (if src = [] then (0, [])
      else let subs = split_loop d src in (to_int32 (int (length subs)), subs))"

fun join_loop :: "byte \<Rightarrow> byte list list \<Rightarrow> byte list" where
  "join_loop d [] = []"
| "join_loop d [s] = s"
| "join_loop d (s # ss) = s @ d # join_loop d ss"

definition str_join :: "byte list list \<Rightarrow> byte \<Rightarrow> byte list" where
  "str_join subs d = (if subs = [] then [] else join_loop d subs)"

lemma split_loop_last: "d \<notin> set s \<Longrightarrow> split_loop d s = [s]"
  by (subst split_loop.simps) (metis (mono_tags, lifting) dropWhile_eq_Nil_conv list.simps(4))

lemma split_loop_delim: "d \<notin> set s \<Longrightarrow> split_loop d (s @ d # rest) = s # split_loop d rest"
proof -
  assume a: "d \<notin> set s"
  then have "dropWhile (\<lambda>c. c \<noteq> d) (s @ d # rest) = d # rest" "takeWhile (\<lambda>c. c \<noteq> d) (s @ d # rest) = s"
    by (induction s) auto
  then show ?thesis by (subst split_loop.simps) simp
qed

lemma split_loop_cases:
  obtains "split_loop d s = [s]" "d \<notin> set s"
  | a rest where "s = a @ d # rest" "d \<notin> set a" "split_loop d s = a # split_loop d rest"
proof (cases "d \<in> set s")
  case True
  then obtain a rest where "s = a @ d # rest" "d \<notin> set a" by (meson split_list_first)
  then show ?thesis using split_loop_delim that(2) by blast
next
  case False
  then show ?thesis using split_loop_last that(1) by blast
qed

lemma split_loop_ne: "split_loop d s \<noteq> []"
  by (cases rule: split_loop_cases [of d s]) simp_all

lemma join_loop_Cons: "ss \<noteq> [] \<Longrightarrow> join_loop d (s # ss) = s @ d # join_loop d ss"
  by (cases ss) simp_all

lemma join_split_loop: "join_loop d (split_loop d s) = s"
proof (induction "length s" arbitrary: s rule: less_induct)
  case less
  show ?case
  proof (cases rule: split_loop_cases [of d s])
    case (2 a rest)
    then show ?thesis using less [of rest] by (simp add: join_loop_Cons split_loop_ne)
  qed simp
qed

lemma split_join_loop: "ss \<noteq> [] \<Longrightarrow> \<forall>s \<in> set ss. d \<notin> set s \<Longrightarrow> split_loop d (join_loop d ss) = ss"
  by (induction d ss rule: join_loop.induct) (simp_all add: split_loop_last split_loop_delim)

lemma split_loop_pieces: "p \<in> set (split_loop d s) \<Longrightarrow> d \<notin> set p"
proof (induction "length s" arbitrary: s rule: less_induct)
  case less
  show ?case
  proof (cases rule: split_loop_cases [of d s])
    case (2 a rest)
    then show ?thesis using less.hyps [of rest] less.prems by auto
  qed (use less.prems in auto)
qed

text \<open>\<open>src.find(delimit)\<close>: the text before the first occurrence of the delimiter, and after it.\<close>

fun find_sub :: "byte list \<Rightarrow> byte list \<Rightarrow> (byte list \<times> byte list) option" where
  "find_sub d s =
     (if take (length d) s = d then Some ([], drop (length d) s)
      else case s of
        [] \<Rightarrow> None
      | c # cs \<Rightarrow> (case find_sub d cs of None \<Rightarrow> None | Some (a, b) \<Rightarrow> Some (c # a, b)))"

declare find_sub.simps [simp del]

lemma find_sub_split: "find_sub d s = Some (a, b) \<Longrightarrow> s = a @ d @ b"
proof (induction s arbitrary: a)
  case Nil
  then show ?case by (auto simp: find_sub.simps [of d "[]"] split: if_splits)
next
  case (Cons c cs)
  show ?case
  proof (cases "take (length d) (c # cs) = d")
    case True
    then show ?thesis
      using Cons.prems append_take_drop_id [of "length d" "c # cs"] by (auto simp: find_sub.simps)
  next
    case False
    then obtain a' where "find_sub d cs = Some (a', b)" "a = c # a'"
      using Cons.prems by (auto simp: find_sub.simps [of d "c # cs"] split: option.splits)
    then show ?thesis using Cons.IH by simp
  qed
qed

text \<open>\<open>str_split(src, delimit, null_subst)\<close>.\<close>

definition non_empty :: "byte list \<Rightarrow> byte list \<Rightarrow> byte list" where
  "non_empty null_subst s = (if s = [] then null_subst else s)"

function str_split_loop :: "byte list \<Rightarrow> byte list \<Rightarrow> byte list \<Rightarrow> byte list list" where
  "str_split_loop d null_subst s =
     (if d = [] then []
      else case find_sub d s of
        None \<Rightarrow> [non_empty null_subst s]
      | Some (a, b) \<Rightarrow> non_empty null_subst a # str_split_loop d null_subst b)"
  by pat_completeness auto
termination
proof (relation "measure (\<lambda>(d, n, s). length s)")
  fix d n s p a b
  assume "d \<noteq> ([] :: byte list)" "find_sub d s = Some p" "(a, b) = p"
  then have "s = a @ d @ b" using find_sub_split by blast
  then show "((d, n, b), (d, n, s)) \<in> measure (\<lambda>(d, n, s). length s)"
    using \<open>d \<noteq> []\<close> by simp
qed simp

declare str_split_loop.simps [simp del]

definition str_split :: "byte list \<Rightarrow> byte list \<Rightarrow> byte list \<Rightarrow> byte list list" where
  "str_split src delimit null_subst =
     (if src = [] \<or> delimit = [] then [] else str_split_loop delimit null_subst src)"

fun join_by :: "byte list \<Rightarrow> byte list list \<Rightarrow> byte list" where
  "join_by d [] = []"
| "join_by d [s] = s"
| "join_by d (s # ss) = s @ d @ join_by d ss"

lemma str_split_loop_ne: "d \<noteq> [] \<Longrightarrow> str_split_loop d n s \<noteq> []"
  by (subst str_split_loop.simps) (simp split: option.splits)

lemma join_by_Cons: "ss \<noteq> [] \<Longrightarrow> join_by d (s # ss) = s @ d @ join_by d ss"
  by (cases ss) simp_all

lemma join_by_split_loop: "d \<noteq> [] \<Longrightarrow> join_by d (str_split_loop d [] s) = s"
proof (induction "length s" arbitrary: s rule: less_induct)
  case less
  show ?case
  proof (cases "find_sub d s")
    case None
    then show ?thesis using less.prems by (subst str_split_loop.simps) (simp add: non_empty_def)
  next
    case (Some ab)
    obtain a b where ab: "ab = (a, b)" by fastforce
    have s: "s = a @ d @ b" using find_sub_split Some ab by blast
    then have "length b < length s" using less.prems by simp
    then have "join_by d (str_split_loop d [] b) = b" using less by blast
    then show ?thesis
      using Some ab s less.prems
      by (subst str_split_loop.simps) (simp add: non_empty_def join_by_Cons str_split_loop_ne)
  qed
qed

section \<open>Trimming\<close>

text \<open>
  \<open>ALL_WHITE_SPACE = " \0\t\n\x0B\r"\<close> is built from a C string, which ends at the \<open>\0\<close>: only the
  space is left.
\<close>

definition white_space_literal :: "byte list" where
  "white_space_literal = [32, 0, 9, 10, 11, 13]"

definition ALL_WHITE_SPACE :: "byte list" where
  "ALL_WHITE_SPACE = c_str white_space_literal"

definition find_first_not_of :: "byte list \<Rightarrow> byte list \<Rightarrow> nat option" where
  "find_first_not_of ws s =
     (let n = length (takeWhile (\<lambda>c. c \<in> set ws) s) in if n = length s then None else Some n)"

definition find_last_not_of :: "byte list \<Rightarrow> byte list \<Rightarrow> nat option" where
  "find_last_not_of ws s =
     (let n = length (takeWhile (\<lambda>c. c \<in> set ws) (rev s)) in
      if n = length s then None else Some (length s - 1 - n))"

definition str_trim :: "byte list \<Rightarrow> byte list" where
  "str_trim s =
     (if s = [] then s
      else case (find_first_not_of ALL_WHITE_SPACE s, find_last_not_of ALL_WHITE_SPACE s) of
        (Some p, Some q) \<Rightarrow> take (q - p + 1) (drop p s)
      | _ \<Rightarrow> [])"

definition str_ltrim :: "byte list \<Rightarrow> byte list" where
  "str_ltrim s =
     (if s = [] then s
      else case find_first_not_of ALL_WHITE_SPACE s of Some p \<Rightarrow> drop p s | None \<Rightarrow> [])"

definition str_rtrim :: "byte list \<Rightarrow> byte list" where
  "str_rtrim s =
     (if s = [] then s
      else case find_last_not_of ALL_WHITE_SPACE s of Some q \<Rightarrow> take (q + 1) s | None \<Rightarrow> [])"

lemma white_space_is_blank: "ALL_WHITE_SPACE = [32]"
  by (simp add: ALL_WHITE_SPACE_def white_space_literal_def c_str_def)

lemma tab_not_trimmed: "str_trim [9, 120, 10] = [9, 120, 10]"
  by (simp add: str_trim_def find_first_not_of_def find_last_not_of_def white_space_is_blank Let_def)

lemma takeWhile_all_length: "length (takeWhile P s) = length s \<longleftrightarrow> (\<forall>x \<in> set s. P x)"
  by (metis takeWhile_eq_all_conv length_takeWhile_le linorder_not_less nth_length_takeWhile takeWhile_eq_take take_all_iff)

lemma str_ltrim_dropWhile: "str_ltrim s = dropWhile (\<lambda>c. c = 32) s"
proof -
  have d: "dropWhile (\<lambda>c. c = 32) s = drop (length (takeWhile (\<lambda>c. c = 32) s)) s"
    by (rule dropWhile_eq_drop)
  show ?thesis
    unfolding d by (auto simp: str_ltrim_def find_first_not_of_def white_space_is_blank Let_def)
qed

lemma str_rtrim_dropWhile: "str_rtrim s = rev (dropWhile (\<lambda>c. c = 32) (rev s))"
proof -
  define n where "n = length (takeWhile (\<lambda>c. c = 32) (rev s))"
  have n: "n \<le> length s" using length_takeWhile_le [of _ "rev s"] by (simp add: n_def)
  have d: "rev (dropWhile (\<lambda>c. c = 32) (rev s)) = take (length s - n) s"
    by (simp add: dropWhile_eq_drop n_def [symmetric] rev_drop)
  show ?thesis
    unfolding d using n
    by (auto simp: str_rtrim_def find_last_not_of_def white_space_is_blank Let_def n_def [symmetric] Suc_diff_Suc)
qed

text \<open>\<open>str_trim\<close> is trimming on the left and then on the right.\<close>

lemma str_trim_both: "str_trim s = str_rtrim (str_ltrim s)"
proof (cases "\<forall>c \<in> set s. c = 32")
  case True
  then have "dropWhile (\<lambda>c. c = 32) s = []" unfolding dropWhile_eq_Nil_conv .
  moreover have "find_first_not_of ALL_WHITE_SPACE s = None"
    using True by (simp add: find_first_not_of_def white_space_is_blank Let_def takeWhile_all_length)
  ultimately show ?thesis
    by (simp add: str_trim_def str_ltrim_dropWhile str_rtrim_dropWhile del: dropWhile_eq_Nil_conv)
next
  case False
  define f where "f = length (takeWhile (\<lambda>c. c = 32) s)"
  define n where "n = length (takeWhile (\<lambda>c. c = 32) (rev s))"
  have f: "f < length s"
    using False length_takeWhile_le [of "\<lambda>c. c = 32" s] takeWhile_all_length [of "\<lambda>c. c = 32" s]
    by (auto simp: f_def le_less)
  have n: "n < length s"
    using False length_takeWhile_le [of "\<lambda>c. c = 32" "rev s"] takeWhile_all_length [of "\<lambda>c. c = 32" "rev s"]
    by (auto simp: n_def le_less)
  have ne: "s \<noteq> []" using False by auto
  have l: "str_trim s = take (length s - 1 - n - f + 1) (drop f s)"
    using f n ne by (simp add: str_trim_def find_first_not_of_def find_last_not_of_def white_space_is_blank
        Let_def f_def [symmetric] n_def [symmetric])
  have s: "s = takeWhile (\<lambda>c. c = 32) s @ drop f s" by (simp add: f_def dropWhile_eq_drop [symmetric])
  have "\<exists>c \<in> set (drop f s). c \<noteq> 32"
    using f hd_dropWhile [of "\<lambda>c. c = 32" s] by (metis dropWhile_eq_drop f_def drop_eq_Nil2 linorder_not_le list.set_sel(1))
  then have "takeWhile (\<lambda>c. c = 32) (rev (drop f s)) = takeWhile (\<lambda>c. c = 32) (rev s)"
    by (subst (2) s) (auto simp: takeWhile_append1)
  then have n': "n = length (takeWhile (\<lambda>c. c = 32) (rev (drop f s)))" by (simp add: n_def)
  have nf: "n < length (drop f s)"
    using \<open>\<exists>c \<in> set (drop f s). c \<noteq> 32\<close> length_takeWhile_le [of "\<lambda>c. c = 32" "rev (drop f s)"]
      takeWhile_all_length [of "\<lambda>c. c = 32" "rev (drop f s)"] by (auto simp: n' le_less)
  have "str_rtrim (drop f s) = take (length (drop f s) - n) (drop f s)"
  proof -
    have "rev (dropWhile (\<lambda>c. c = 32) (rev u)) = take (length u - length (takeWhile (\<lambda>c. c = 32) (rev u))) u" for u :: "byte list"
      by (simp add: dropWhile_eq_drop rev_drop)
    then show ?thesis unfolding str_rtrim_dropWhile n' .
  qed
  moreover have "length s - 1 - n - f + 1 = length (drop f s) - n" using nf f by simp
  moreover have "str_ltrim s = drop f s" by (simp add: str_ltrim_dropWhile dropWhile_eq_drop f_def)
  ultimately show ?thesis using l by simp
qed

section \<open>The url codec\<close>

definition toHex :: "byte \<Rightarrow> byte" where
  "toHex x = (if x > 9 then x - 10 + 65 else x + 48)"

definition fromHex :: "byte \<Rightarrow> byte" where
  "fromHex x = (if is_digit x then x - 48 else x - 65 + 10)"

text \<open>\<open>isalnum\<close> in the C locale.\<close>

definition is_alnum :: "byte \<Rightarrow> bool" where
  "is_alnum c \<longleftrightarrow> is_digit c \<or> 65 \<le> c \<and> c \<le> 90 \<or> 97 \<le> c \<and> c \<le> 122"

fun RawUrlEncode :: "byte list \<Rightarrow> byte list" where
  "RawUrlEncode [] = []"
| "RawUrlEncode (c # cs) =
     c_str (if is_alnum c then [c, 0, 0, 0] else [37, toHex (drop_bit 4 c), toHex (c mod 16), 0])
     @ RawUrlEncode cs"

text \<open>
  The terminating 0 of the string may be read, but nothing behind it. \<open>fromHex\<close> is shifted as an
  \<open>int\<close> and cut to a byte.
\<close>

fun RawUrlDecode :: "byte list \<Rightarrow> byte list checked" where
  "RawUrlDecode [] = Fine []"
| "RawUrlDecode (c # cs) =
     (if c = 37 then
        (case cs of
           x # y # rest \<Rightarrow>
             (case RawUrlDecode rest of
                Fine out \<Rightarrow> Fine ((push_bit 4 (fromHex x) OR fromHex y) # out) | OutOfBounds \<Rightarrow> OutOfBounds)
         | [x] \<Rightarrow> Fine [push_bit 4 (fromHex x) OR fromHex 0]
         | [] \<Rightarrow> OutOfBounds)
      else
        (case RawUrlDecode cs of
           Fine out \<Rightarrow> Fine ((if c = 43 then 32 else c) # out) | OutOfBounds \<Rightarrow> OutOfBounds))"

lemma all_nibbles:
  assumes "list_all (\<lambda>n. P (word_of_nat n)) [0..<16]" "(x :: byte) \<le> 15"
  shows "P x"
proof -
  have "unat x \<in> set [0..<16]" using assms(2) by (simp add: word_le_nat_alt)
  from bspec [OF assms(1) [unfolded list_all_iff] this] show "P x" by simp
qed

lemma hex_nibble:
  assumes "(x :: byte) \<le> 15"
  shows "fromHex (toHex x) = x \<and> toHex x \<noteq> 0 \<and> is_alnum (toHex x)"
  using _ assms by (rule all_nibbles) code_simp

lemma nibbles: "drop_bit 4 (c :: byte) \<le> 15" "(c :: byte) mod 16 \<le> 15"
proof -
  have c: "uint c < 256" using uint_range_size [of c] by (simp add: word_size)
  then show "drop_bit 4 c \<le> 15" by (simp add: word_le_def drop_bit_eq_div uint_div_distrib)
  have "uint c mod 16 < 16" by simp
  then show "c mod 16 \<le> 15" by (simp add: word_le_def uint_mod_distrib)
qed

lemma nibbles_join: "push_bit 4 (drop_bit 4 c) OR c mod 16 = (c :: byte)"
proof -
  have "c mod 16 = take_bit 4 c" by (simp add: take_bit_eq_mod)
  moreover have "push_bit 4 (drop_bit 4 c) OR take_bit 4 c = c"
    by (rule bit_eqI) (auto simp: bit_simps)
  ultimately show ?thesis by simp
qed

lemma hex_byte: "push_bit 4 (fromHex (toHex (drop_bit 4 c))) OR fromHex (toHex (c mod 16)) = c"
  using hex_nibble nibbles [of c] nibbles_join [of c] by simp

lemma alnum_byte: "is_alnum c \<Longrightarrow> c \<noteq> 0 \<and> c \<noteq> 37 \<and> c \<noteq> 43"
  by (auto simp: is_alnum_def is_digit_def)

lemma url_round_trip: "RawUrlDecode (RawUrlEncode s) = Fine s"
proof (induction s)
  case (Cons c cs)
  show ?case
  proof (cases "is_alnum c")
    case True
    then show ?thesis using Cons alnum_byte [OF True] by (simp add: c_str_def)
  next
    case False
    have "toHex (drop_bit 4 c) \<noteq> 0" "toHex (c mod 16) \<noteq> 0" using nibbles [of c] hex_nibble by blast+
    then show ?thesis using Cons False by (simp add: c_str_def hex_byte)
  qed
qed simp

text \<open>The encoded text holds letters, digits and percent signs only.\<close>

lemma url_encoded_plain: "c \<in> set (RawUrlEncode s) \<Longrightarrow> is_alnum c \<or> c = 37"
proof (induction s)
  case (Cons a s)
  have "c \<in> set (c_str [37, toHex (drop_bit 4 a), toHex (a mod 16), 0]) \<Longrightarrow> is_alnum c \<or> c = 37"
    using hex_nibble nibbles [of a] by (auto simp: c_str_def split: if_splits)
  then show ?case using Cons by (auto simp: c_str_def split: if_splits)
qed simp

lemma percent_at_end_read: "RawUrlDecode [97, 37] = OutOfBounds"
  by simp

lemma lower_case_hex_wrong: "RawUrlDecode [37, 52, 97] = Fine [0x6A]" "RawUrlDecode [37, 52, 65] = Fine [0x4A]"
  by (simp_all add: fromHex_def is_digit_def)

section \<open>Random numbers\<close>

text \<open>\<open>r\<close> is the result of \<open>rand()\<close>; \<open>None\<close> is a division by zero.\<close>

definition random_between :: "int \<Rightarrow> int \<Rightarrow> int \<Rightarrow> int option" where
  "random_between r min_num max_num =
     (let m = \<bar>to_int32 (to_int32 (max_num - min_num) + 1)\<bar> in
      if m = 0 then None else Some (to_int32 (c_mod r m + min_num)))"

lemma random_in_range:
  assumes "0 \<le> r" "min_num \<le> max_num" "max_num - min_num < 2 ^ 31 - 1" "- (2 ^ 31) \<le> min_num" "max_num < 2 ^ 31"
  shows "\<exists>x. random_between r min_num max_num = Some x \<and> min_num \<le> x \<and> x \<le> max_num"
proof -
  have m: "to_int32 (to_int32 (max_num - min_num) + 1) = max_num - min_num + 1"
    using assms by (simp add: to_int32_id)
  have "r mod (max_num - min_num + 1) < max_num - min_num + 1"
    by (rule pos_mod_bound) (use assms in simp)
  moreover have "0 \<le> r mod (max_num - min_num + 1)" by (rule pos_mod_sign) (use assms in simp)
  moreover define q where "q = r mod (max_num - min_num + 1)"
  ultimately have q: "0 \<le> q" "q < max_num - min_num + 1" by (simp_all only: q_def)
  have "to_int32 (q + min_num) = q + min_num" using q assms by (intro to_int32_id) simp_all
  then show ?thesis
    using assms q by (simp add: random_between_def m Let_def c_mod_nonneg q_def [symmetric])
qed

lemma random_swapped_bounds_crash: "random_between r 5 4 = None"
  by (simp add: random_between_def to_int32_def)

section \<open>Properties\<close>

text \<open>Splitting and joining undo each other. Joining the pieces of a non-empty string with the delimiter gives
  the string back, no piece contains the delimiter, and splitting what \<open>join\<close> made of any pieces
  free of the delimiter gives exactly these pieces.\<close>

lemma split_join_inverse:
  assumes "src \<noteq> []" "subs \<noteq> []" "subs \<noteq> [[]]" "list_all (\<lambda>s. d \<notin> set s) subs"
  shows "str_join (snd (str_split_by src d)) d = src
    \<and> list_all (\<lambda>s. d \<notin> set s) (snd (str_split_by src d))
    \<and> snd (str_split_by (str_join subs d) d) = subs"
proof (intro conjI)
  have s: "snd (str_split_by src d) = split_loop d src" using assms(1) by (simp add: str_split_by_def Let_def)
  show "str_join (snd (str_split_by src d)) d = src"
    unfolding s by (simp add: str_join_def split_loop_ne join_split_loop)
  show "list_all (\<lambda>s. d \<notin> set s) (snd (str_split_by src d))"
    unfolding s by (simp add: list_all_iff split_loop_pieces)
  have "join_loop d subs \<noteq> []"
    using assms(2,3) by (cases subs rule: remdups_adj.cases) auto
  then show "snd (str_split_by (str_join subs d) d) = subs"
    using assms(2,4) split_join_loop [of subs d] by (simp add: str_split_by_def str_join_def Let_def list_all_iff)
qed

lemma split_join_inverse_witness:
  "str_join (snd (str_split_by [97, 32, 32, 98] 32)) 32 = [97, 32, 32, 98]
   \<and> snd (str_split_by (str_join [[97], [], [98]] 32) 32) = [[97], [], [98]]"
  using split_join_inverse [of "[97, 32, 32, 98]" "[[97], [], [98]]" 32] by simp

text \<open>The url codec loses nothing. Decoding the encoding of any byte string gives the string back without
  reading outside the encoded text, and the encoding is made of letters, digits and percent signs.\<close>

lemma url_codec:
  "RawUrlDecode (RawUrlEncode s) = Fine s \<and> list_all (\<lambda>c. is_alnum c \<or> c = 37) (RawUrlEncode s)"
  using url_round_trip url_encoded_plain by (auto simp: list_all_iff)

end
