(* ===== verification/Base64.thy ===== *)
theory Base64
  imports Prelude
begin

text \<open>
  The class \<open>CBase64\<close> of \<open>public/str_util.h\<close> and \<open>str_util.cpp\<close>. \<open>unsigned long\<close> has 64 bits. The
  decoder answers \<open>OutOfBounds\<close> when it would read outside its table or write behind the output
  buffer. Shown: decoding undoes both encoders, and with at most two padding characters and plain
  ASCII input the decoder stays inside its buffer.
\<close>

section \<open>The code\<close>

definition g_pCodes :: "byte list" where
  "g_pCodes =
    [65, 66, 67, 68, 69, 70, 71, 72, 73, 74, 75, 76, 77, 78, 79, 80,
     81, 82, 83, 84, 85, 86, 87, 88, 89, 90, 97, 98, 99, 100, 101, 102,
     103, 104, 105, 106, 107, 108, 109, 110, 111, 112, 113, 114, 115, 116, 117, 118,
     119, 120, 121, 122, 48, 49, 50, 51, 52, 53, 54, 55, 56, 57, 43, 47,
     61]"

definition g_pMap :: "byte list" where
  "g_pMap =
    [255, 255, 255, 255, 255, 255, 255, 255, 255, 255, 255, 255, 255, 255, 255, 255,
     255, 255, 255, 255, 255, 255, 255, 255, 255, 255, 255, 255, 255, 255, 255, 255,
     255, 255, 255, 255, 255, 255, 255, 255, 255, 255, 255, 62, 255, 255, 255, 63,
     52, 53, 54, 55, 56, 57, 58, 59, 60, 61, 255, 255, 255, 254, 255, 255,
     255, 0, 1, 2, 3, 4, 5, 6, 7, 8, 9, 10, 11, 12, 13, 14,
     15, 16, 17, 18, 19, 20, 21, 22, 23, 24, 25, 255, 255, 255, 255, 255,
     255, 26, 27, 28, 29, 30, 31, 32, 33, 34, 35, 36, 37, 38, 39, 40,
     41, 42, 43, 44, 45, 46, 47, 48, 49, 50, 51, 255, 255, 255, 255, 255,
     255, 255, 255, 255, 255, 255, 255, 255, 255, 255, 255, 255, 255, 255, 255, 255,
     255, 255, 255, 255, 255, 255, 255, 255, 255, 255, 255, 255, 255, 255, 255, 255,
     255, 255, 255, 255, 255, 255, 255, 255, 255, 255, 255, 255, 255, 255, 255, 255,
     255, 255, 255, 255, 255, 255, 255, 255, 255, 255, 255, 255, 255, 255, 255, 255,
     255, 255, 255, 255, 255, 255, 255, 255, 255, 255, 255, 255, 255, 255, 255, 255,
     255, 255, 255, 255, 255, 255, 255, 255, 255, 255, 255, 255, 255, 255, 255, 255,
     255, 255, 255, 255, 255, 255, 255, 255, 255, 255, 255, 255, 255, 255, 255, 255,
     255, 255, 255, 255, 255, 255, 255, 255, 255, 255, 255, 255, 255, 255, 255, 255]"

text \<open>The four indices of a group of three bytes, computed as \<open>int\<close>.\<close>

definition code_at :: "int \<Rightarrow> byte" where
  "code_at i = g_pCodes ! nat i"

definition sext0 :: "byte \<Rightarrow> int" where
  "sext0 a = drop_bit 2 (uint a)"

definition sext1 :: "byte \<Rightarrow> byte \<Rightarrow> int" where
  "sext1 a b = push_bit 4 (uint a AND 3) + drop_bit 4 (uint b)"

definition sext2 :: "byte \<Rightarrow> byte \<Rightarrow> int" where
  "sext2 b c = push_bit 2 (uint b AND 0xf) + drop_bit 6 (uint c)"

definition sext3 :: "byte \<Rightarrow> int" where
  "sext3 c = uint c AND 0x3f"

fun encode_groups :: "byte list \<Rightarrow> byte list" where
  "encode_groups (a # b # c # rest) =
     code_at (sext0 a) # code_at (sext1 a b) # code_at (sext2 b c) # code_at (sext3 c) # encode_groups rest"
| "encode_groups [a, b] = [code_at (sext0 a), code_at (sext1 a b), code_at (sext2 b 0), 61]"
| "encode_groups [a] = [code_at (sext0 a), code_at (sext1 a 0), 61, 61]"
| "encode_groups [] = []"

text \<open>\<open>Encode(pIn, uInLen, strOut)\<close>.\<close>

definition base64_encode_str :: "byte list \<Rightarrow> bool \<times> byte list" where
  "base64_encode_str pIn = (True, encode_groups pIn)"

text \<open>
  \<open>Encode(pIn, uInLen, pOut, uOutLen)\<close> into a buffer of \<open>cap\<close> bytes; the answer holds what was
  written, the terminating 0 included, and the new \<open>*uOutLen\<close>.
\<close>

definition base64_encode_buf :: "byte list \<Rightarrow> nat \<Rightarrow> bool \<times> byte list \<times> nat" where
  "base64_encode_buf pIn cap =
     (if cap = 0 then (False, [], cap)
      else if cap < (length pIn + 2) div 3 * 4 + 1 then (False, [], cap)
      else let out = encode_groups pIn in (True, out @ [0], length out))"

text \<open>The bytes stored when four characters have come together.\<close>

definition quad_bytes :: "u64 \<Rightarrow> u64 \<Rightarrow> byte list" where
  "quad_bytes t g = [ucast (drop_bit 16 t AND 255)]
     @ (if g > 1 then [ucast (drop_bit 8 t AND 255)] else [])
     @ (if g > 2 then [ucast (t AND 255)] else [])"

text \<open>The loop of \<open>Decode\<close>; \<open>out\<close> is what stands in \<open>pOut\<close>, so \<open>z\<close> is its length.\<close>

primrec decode_loop :: "nat \<Rightarrow> byte list \<Rightarrow> u64 \<Rightarrow> nat \<Rightarrow> u64 \<Rightarrow> byte list \<Rightarrow> (bool \<times> byte list) checked" where
  "decode_loop cap [] t y g out = Fine (True, out)"
| "decode_loop cap (x # xs) t y g out =
     (if sint x < 0 then OutOfBounds
      else let c = g_pMap ! unat x in
        if c = 255 then decode_loop cap xs t y g out
        else let g = (if c = 254 then g - 1 else g);
                 t = push_bit 6 t OR (if c = 254 then 0 else ucast c)
             in if y + 1 = 4 then
                  if of_nat (length out) + g > of_nat cap then Fine (False, out)
                  else if length out + length (quad_bytes t g) > cap then OutOfBounds
                  else decode_loop cap xs 0 0 g (out @ quad_bytes t g)
                else decode_loop cap xs t (y + 1) g out)"

text \<open>\<open>Decode(strIn, pOut, uOutLen)\<close> with a buffer of \<open>*uOutLen\<close> bytes.\<close>

definition base64_decode :: "byte list \<Rightarrow> nat \<Rightarrow> (bool \<times> byte list) checked" where
  "base64_decode strIn cap = decode_loop cap strIn 0 0 3 []"

text \<open>
  \<open>base64_str_to_normal\<close>: the answer of \<open>Decode\<close> is ignored; after a refusal the buffer is returned
  at its full size, behind what was decoded filled with 0.
\<close>

definition base64_str_to_normal :: "byte list \<Rightarrow> byte list checked" where
  "base64_str_to_normal s =
     (case base64_decode s (length s) of
        OutOfBounds \<Rightarrow> OutOfBounds
      | Fine (ok, out) \<Rightarrow> Fine (if ok then out else out @ replicate (length s - length out) 0))"

text \<open>
  The two templates for messages: \<open>parse\<close> is \<open>ParseFromString\<close> and \<open>ser\<close> is
  \<open>SerializePartialToString\<close> of the message class. The first answers the message, or \<open>None\<close> for \<open>false\<close>;
  the answer of \<open>Decode\<close> is ignored here as well.
\<close>

definition convert_str_to_protoc_obj :: "(byte list \<Rightarrow> 'm option) \<Rightarrow> byte list \<Rightarrow> 'm option checked" where
  "convert_str_to_protoc_obj parse base64_str_data =
     (case base64_str_to_normal base64_str_data of OutOfBounds \<Rightarrow> OutOfBounds | Fine str_data \<Rightarrow> Fine (parse str_data))"

definition convert_protoc_obj_to_str :: "('m \<Rightarrow> byte list option) \<Rightarrow> 'm \<Rightarrow> byte list \<Rightarrow> bool \<times> byte list" where
  "convert_protoc_obj_to_str ser obj base64_str_data =
     (case ser obj of
        None \<Rightarrow> (False, base64_str_data)
      | Some str_data \<Rightarrow> (True, snd (base64_encode_str str_data)))"

section \<open>The tables undo each other\<close>

lemma table_entries:
  assumes "0 \<le> i" "i < 64"
  shows "unat (code_at i) < 128 \<and> g_pMap ! unat (code_at i) = word_of_int i"
proof -
  have "list_all (\<lambda>n. unat (g_pCodes ! n) < 128 \<and> g_pMap ! unat (g_pCodes ! n) = word_of_nat n) [0..<64]"
    by code_simp
  moreover have "nat i \<in> set [0..<64]" using assms by auto
  ultimately have "unat (g_pCodes ! nat i) < 128 \<and> g_pMap ! unat (g_pCodes ! nat i) = word_of_nat (nat i)"
    unfolding list_all_iff by blast
  then show ?thesis using assms by (simp add: code_at_def)
qed

lemma padding_entry: "g_pMap ! unat (61 :: byte) = 254"
  by code_simp

lemma sint_small:
  assumes "unat (x :: byte) < 128"
  shows "\<not> sint x < 0"
proof -
  have "uint x < 128" using assms by (metis of_nat_less_iff of_nat_numeral uint_nat)
  then have "sint x = uint x"
    unfolding sint_uint by (intro signed_take_bit_int_eq_self) (simp_all add: order.trans [of _ 0])
  then show ?thesis by simp
qed

section \<open>Groups of three bytes\<close>

lemma mask_mod: "(x :: int) AND 3 = x mod 4" "(x :: int) AND 0xf = x mod 16" "(x :: int) AND 0x3f = x mod 64"
    "(x :: int) AND 255 = x mod 256"
proof -
  have m: "x AND (2 ^ n - 1) = x mod 2 ^ n" for n
    by (simp add: take_bit_eq_mask mask_eq_exp_minus_1 flip: take_bit_eq_mod)
  show "x AND 3 = x mod 4" "x AND 0xf = x mod 16" "x AND 0x3f = x mod 64" "x AND 255 = x mod 256"
    using m [of 2] m [of 4] m [of 6] m [of 8] by simp_all
qed

lemmas sext_simps = sext0_def sext1_def sext2_def sext3_def mask_mod push_bit_eq_mult drop_bit_eq_div

lemma uint_byte: "0 \<le> uint (b :: byte)" "uint b < 256"
  using uint_range_size [of b] by (auto simp: word_size)

lemma split_byte:
  assumes "0 \<le> x" "x < k * m" "0 < k" "0 < (m :: int)"
  obtains p q where "x div k = p" "x mod k = q" "x = k * p + q" "0 \<le> p" "p < m" "0 \<le> q" "q < k"
proof
  show "x = k * (x div k) + x mod k" by simp
  show "0 \<le> x div k" using assms by (simp add: pos_imp_zdiv_nonneg_iff)
  show "x div k < m"
  proof (rule ccontr)
    assume "\<not> x div k < m"
    then have "k * m \<le> k * (x div k)" using assms(3) by simp
    also have "\<dots> \<le> x" using pos_mod_sign [of k x] mult_div_mod_eq [of k x] assms(3) by linarith
    finally show False using assms(2) by simp
  qed
qed (use assms in simp_all)

text \<open>The indices of a group are table indices and make up the 24 bits of the group.\<close>

lemma sext_group:
  "0 \<le> sext0 a \<and> sext0 a < 64" "0 \<le> sext1 a b \<and> sext1 a b < 64"
  "0 \<le> sext2 b c \<and> sext2 b c < 64" "0 \<le> sext3 c \<and> sext3 c < 64"
  "((sext0 a * 64 + sext1 a b) * 64 + sext2 b c) * 64 + sext3 c = uint a * 65536 + uint b * 256 + uint c"
proof -
  obtain p p' where p: "uint a div 4 = p" "uint a mod 4 = p'" "uint a = 4 * p + p'" "0 \<le> p" "p < 64" "0 \<le> p'" "p' < 4"
    by (rule split_byte [of "uint a" 4 64]) (use uint_byte [of a] in simp_all)
  obtain q q' where q: "uint b div 16 = q" "uint b mod 16 = q'" "uint b = 16 * q + q'" "0 \<le> q" "q < 16" "0 \<le> q'" "q' < 16"
    by (rule split_byte [of "uint b" 16 16]) (use uint_byte [of b] in simp_all)
  obtain r r' where r: "uint c div 64 = r" "uint c mod 64 = r'" "uint c = 64 * r + r'" "0 \<le> r" "r < 4" "0 \<le> r'" "r' < 64"
    by (rule split_byte [of "uint c" 64 4]) (use uint_byte [of c] in simp_all)
  have s: "sext0 a = p" "sext1 a b = p' * 16 + q" "sext2 b c = q' * 4 + r" "sext3 c = r'"
    unfolding sext_simps using p(1,2) q(1,2) r(1,2) by simp_all
  show "0 \<le> sext0 a \<and> sext0 a < 64" "0 \<le> sext1 a b \<and> sext1 a b < 64"
    "0 \<le> sext2 b c \<and> sext2 b c < 64" "0 \<le> sext3 c \<and> sext3 c < 64"
    unfolding s p(3) q(3) r(3) using p(4-7) q(4-7) r(4-7) by linarith+
  show "((sext0 a * 64 + sext1 a b) * 64 + sext2 b c) * 64 + sext3 c = uint a * 65536 + uint b * 256 + uint c"
    unfolding s p(3) q(3) r(3) by (simp add: algebra_simps)
qed

lemma acc_word:
  assumes "0 \<le> i" "i < 64"
  shows "push_bit 6 (word_of_int n :: u64) OR word_of_int i = word_of_int (n * 64 + i)"
proof -
  have "push_bit 6 n OR i = n * 64 + i"
    using assms concat_bit_eq [of 6 i n] by (simp add: concat_bit_def take_bit_int_eq_self or.commute push_bit_eq_mult)
  then have "word_of_int (push_bit 6 n OR i) = (word_of_int (n * 64 + i) :: u64)" by simp
  then show ?thesis by (simp add: of_int_or_eq push_bit_of_int)
qed

lemma byte_at:
  assumes "0 \<le> n" "n < 2 ^ 24"
  shows "ucast (drop_bit k (word_of_int n :: u64) AND 255) = (word_of_int (n div 2 ^ k) :: byte)"
proof (rule word_uint_eqI)
  have u: "uint (word_of_int n :: u64) = n" using assms by (simp add: uint_word_of_int)
  have "drop_bit k n \<le> n" "0 \<le> drop_bit k n"
    unfolding drop_bit_eq_div using assms zdiv_mono2 [of n 1 "2 ^ k"] by (simp_all add: pos_imp_zdiv_nonneg_iff)
  then have "drop_bit k (word_of_int n :: u64) = word_of_int (drop_bit k n)"
    using assms by (intro word_uint_eqI) (simp add: unsigned_drop_bit_eq u uint_word_of_int take_bit_int_eq_self)
  then show "uint (ucast (drop_bit k (word_of_int n :: u64) AND 255) :: byte) = uint (word_of_int (n div 2 ^ k) :: byte)"
    by (simp add: uint_word_of_int unsigned_ucast_eq take_bit_eq_mod unsigned_and_eq mask_mod drop_bit_eq_div
        mod_mod_cancel)
qed

section \<open>The decoder on encoded groups\<close>

lemma table_code:
  assumes "0 \<le> i" "i < 64"
  shows "\<not> sint (code_at i) < 0" "g_pMap ! unat (code_at i) \<noteq> 255" "g_pMap ! unat (code_at i) \<noteq> 254"
    "(ucast (g_pMap ! unat (code_at i)) :: u64) = word_of_int i"
proof -
  note e = table_entries [OF assms]
  have u: "uint (word_of_int i :: byte) = i" using assms by (simp add: uint_word_of_int)
  show "\<not> sint (code_at i) < 0" using e sint_small by blast
  have "word_of_int i \<noteq> (255 :: byte)" "word_of_int i \<noteq> (254 :: byte)"
    using u assms by (auto simp flip: word_uint_eq_iff dest: arg_cong [of _ _ uint])
  then show "g_pMap ! unat (code_at i) \<noteq> 255" "g_pMap ! unat (code_at i) \<noteq> 254" using e by auto
  have "(ucast (word_of_int i :: byte) :: u64) = word_of_int (uint (word_of_int i :: byte))"
    by (simp only: ucast_eq)
  then show "(ucast (g_pMap ! unat (code_at i)) :: u64) = word_of_int i" using e u by simp
qed

text \<open>One character: the accumulator \<open>n\<close> becomes \<open>m\<close>, the count of bytes \<open>g\<close> becomes \<open>g1\<close>.\<close>

definition feeds :: "byte \<Rightarrow> int \<Rightarrow> u64 \<Rightarrow> int \<Rightarrow> u64 \<Rightarrow> bool" where
  "feeds x n g m g1 \<longleftrightarrow> (\<forall>cap xs y out. decode_loop cap (x # xs) (word_of_int n) y g out =
     (if y + 1 = 4 then
        if of_nat (length out) + g1 > of_nat cap then Fine (False, out)
        else if length out + length (quad_bytes (word_of_int m) g1) > cap then OutOfBounds
        else decode_loop cap xs 0 0 g1 (out @ quad_bytes (word_of_int m) g1)
      else decode_loop cap xs (word_of_int m) (y + 1) g1 out))"

lemma feeds_code:
  assumes "0 \<le> i" "i < 64"
  shows "feeds (code_at i) n g (n * 64 + i) g"
  unfolding feeds_def decode_loop.simps Let_def table_code(4) [OF assms]
  using table_code(1-3) [OF assms] by (simp only: if_False simp_thms acc_word [OF assms])

lemma feeds_pad: "feeds 61 n g (n * 64) (g - 1)"
proof -
  have s: "\<not> sint (61 :: byte) < 0" by simp
  have a: "push_bit 6 (word_of_int n :: u64) OR 0 = word_of_int (n * 64)" using acc_word [of 0 n] by simp
  have d: "(254 :: byte) \<noteq> 255" by simp
  show ?thesis
    unfolding feeds_def decode_loop.simps Let_def padding_entry
    using s d by (simp only: if_False if_True simp_thms a)
qed

lemma feeds_inner: "feeds x n g m g1 \<Longrightarrow> y < 3 \<Longrightarrow>
    decode_loop cap (x # xs) (word_of_int n) y g out = decode_loop cap xs (word_of_int m) (Suc y) g1 out"
  unfolding feeds_def by simp

definition flushed :: "int \<Rightarrow> u64 \<Rightarrow> byte list" where
  "flushed n g = [word_of_int (n div 2 ^ 16)] @ (if g > 1 then [word_of_int (n div 2 ^ 8)] else [])
     @ (if g > 2 then [word_of_int n] else [])"

lemma quad_bytes_word: "0 \<le> n \<Longrightarrow> n < 2 ^ 24 \<Longrightarrow> quad_bytes (word_of_int n) g = flushed n g"
  using byte_at [of n 16] byte_at [of n 8] byte_at [of n 0]
  unfolding flushed_def quad_bytes_def by simp

lemma room_check:
  assumes "length out + unat g \<le> cap" "int cap < 2 ^ 63"
  shows "\<not> of_nat (length out) + g > (of_nat cap :: u64)"
proof -
  have c: "unat (of_nat cap :: u64) = cap" using assms by (simp add: unat_of_nat)
  have o: "unat (of_nat (length out) :: u64) = length out" using assms by (simp add: unat_of_nat)
  have "unat (of_nat (length out) + g) = length out + unat g"
    unfolding unat_word_ariths o using assms by simp
  then show ?thesis using assms c by (simp add: word_less_nat_alt)
qed

lemma feeds_last:
  assumes "feeds x n g m g1" "0 \<le> m" "m < 2 ^ 24"
    and "length out + unat g1 \<le> cap" "int cap < 2 ^ 63" "length (flushed m g1) \<le> unat g1"
  shows "decode_loop cap (x # xs) (word_of_int n) 3 g out = decode_loop cap xs 0 0 g1 (out @ flushed m g1)"
  using assms(1,6) room_check [OF assms(4,5)] quad_bytes_word [OF assms(2,3), of g1] assms(4)
  unfolding feeds_def by simp

lemma word_low_byte: "word_of_int (256 * k + uint b) = (b :: byte)"
proof -
  have "(256 :: byte) = 0" by simp
  then have "256 * word_of_int k + b = 0 * word_of_int k + b" by (simp only:)
  then show ?thesis by simp
qed

text \<open>A whole group.\<close>

lemma decode_group:
  assumes m: "m = uint a * 65536 + uint b * 256 + uint c"
    and f: "feeds x0 0 3 n0 3" "feeds x1 n0 3 n1 3" "feeds x2 n1 3 n2 g2" "feeds x3 n2 g2 m g3"
    and g: "unat g3 = 3 \<or> unat g3 = 2 \<or> unat g3 = 1" and room: "length out + unat g3 \<le> cap" "int cap < 2 ^ 63"
  shows "decode_loop cap (x0 # x1 # x2 # x3 # xs) 0 0 3 out
    = decode_loop cap xs 0 0 g3 (out @ take (unat g3) [a, b, c])"
proof -
  have mb: "0 \<le> m" "m < 2 ^ 24" using uint_byte [of a] uint_byte [of b] uint_byte [of c] unfolding m by simp_all
  have d16: "m div 2 ^ 16 = uint a"
  proof -
    have "m = (uint b * 256 + uint c) + uint a * 65536" unfolding m by simp
    then show ?thesis using uint_byte [of b] uint_byte [of c] by simp
  qed
  have d8: "m div 2 ^ 8 = 256 * uint a + uint b"
  proof -
    have s: "(uint c + x * 256) div 2 ^ 8 = x" for x using uint_byte [of c] by simp
    have "m = uint c + (256 * uint a + uint b) * 256" unfolding m by simp
    then show ?thesis by (simp only: s)
  qed
  have d0: "word_of_int m = c"
    using word_low_byte [of "256 * uint a + uint b" c] unfolding m by (simp add: algebra_simps)
  have fl: "flushed m g3 = take (unat g3) [a, b, c]"
    unfolding flushed_def d16 d8 d0 word_low_byte using g by (elim disjE) (simp_all add: word_less_nat_alt)
  have "decode_loop cap (x0 # x1 # x2 # x3 # xs) (word_of_int 0) 0 3 out
      = decode_loop cap (x3 # xs) (word_of_int n2) (Suc (Suc (Suc 0))) g2 out"
    using f by (simp only: feeds_inner less_numeral_extra numeral_3_eq_3 lessI Suc_mono zero_less_Suc)
  also have "\<dots> = decode_loop cap xs 0 0 g3 (out @ flushed m g3)"
    using feeds_last [OF f(4) mb room] g by (auto simp: fl numeral_3_eq_3 [symmetric])
  finally show ?thesis unfolding fl by simp
qed

lemma feeds_group:
  "feeds (code_at (sext0 a)) 0 g (sext0 a) g"
  "feeds (code_at (sext1 a b)) n g (n * 64 + sext1 a b) g"
  "feeds (code_at (sext2 b c)) n g (n * 64 + sext2 b c) g"
  "feeds (code_at (sext3 c)) n g (n * 64 + sext3 c) g"
  using feeds_code [of "sext0 a" 0 g] feeds_code [of "sext1 a b" n g] feeds_code [of "sext2 b c" n g]
    feeds_code [of "sext3 c" n g] sext_group(1-4) by simp_all

lemma sext_zero: "sext3 0 = 0" "sext2 0 0 = 0"
  by (simp_all add: sext3_def sext2_def)

lemma decode_encoded:
  assumes "length out + length bs \<le> cap" "int cap < 2 ^ 63"
  shows "decode_loop cap (encode_groups bs) 0 0 3 out = Fine (True, out @ bs)"
  using assms(1)
proof (induction bs arbitrary: out rule: encode_groups.induct)
  case (1 a b c rest)
  have "decode_loop cap (encode_groups (a # b # c # rest)) 0 0 3 out
      = decode_loop cap (encode_groups rest) 0 0 3 (out @ take (unat (3 :: u64)) [a, b, c])"
    unfolding encode_groups.simps
    by (rule decode_group [OF sext_group(5) feeds_group]) (use 1 assms(2) in simp_all)
  then show ?case using 1 by simp
next
  case (2 a b)
  have p: "feeds 61 n 3 (n * 64 + sext3 0) 2" for n using feeds_pad [of n 3] by (simp add: sext_zero)
  have "decode_loop cap (encode_groups [a, b]) 0 0 3 out
      = decode_loop cap [] 0 0 2 (out @ take (unat (2 :: u64)) [a, b, 0])"
    unfolding encode_groups.simps
    by (rule decode_group [OF sext_group(5) feeds_group(1-3) p]) (use 2 assms(2) in simp_all)
  then show ?case by simp
next
  case (3 a)
  have p: "feeds 61 n 3 (n * 64 + sext2 0 0) 2" for n using feeds_pad [of n 3] by (simp add: sext_zero)
  have q: "feeds 61 n 2 (n * 64 + sext3 0) 1" for n using feeds_pad [of n 2] by (simp add: sext_zero)
  have "decode_loop cap (encode_groups [a]) 0 0 3 out
      = decode_loop cap [] 0 0 1 (out @ take (unat (1 :: u64)) [a, 0, 0])"
    unfolding encode_groups.simps
    by (rule decode_group [OF sext_group(5) feeds_group(1,2) p q]) (use 3 assms(2) in simp_all)
  then show ?case by simp
qed simp

lemma encode_length: "length (encode_groups bs) = (length bs + 2) div 3 * 4"
proof (induction bs rule: encode_groups.induct)
  case (1 a b c rest)
  have "(length (a # b # c # rest) + 2) div 3 = (length rest + 2 + 3) div 3" by (simp add: add.commute)
  also have "\<dots> = (length rest + 2) div 3 + 1" by (rule div_add_self2) simp
  finally show ?case using 1 by simp
qed simp_all

section \<open>Staying inside the buffer\<close>

lemma decode_loop_safe:
  assumes "\<forall>x \<in> set s. unat x < 128" "length (filter (\<lambda>x. x = 61) s) < unat g" "unat g \<le> 3"
    and "length out \<le> cap" "int cap < 2 ^ 63"
  shows "\<exists>ok out'. decode_loop cap s t y g out = Fine (ok, out') \<and> length out' \<le> cap"
  using assms(1-4)
proof (induction s arbitrary: t y g out)
  case (Cons x s)
  have x: "\<not> sint x < 0" using Cons.prems(1) sint_small by simp
  have only: "x = 61" if "g_pMap ! unat x = 254"
  proof -
    have "list_all (\<lambda>n. g_pMap ! n = 254 \<longrightarrow> n = 61) [0..<128]" by code_simp
    then have "unat x = unat (61 :: byte)" using Cons.prems(1) that by (auto simp: list_all_iff)
    then show ?thesis by (simp only: word_unat_eq_iff)
  qed
  show ?case
  proof (cases "g_pMap ! unat x = 255")
    case True
    have "length (filter (\<lambda>x. x = 61) s) < unat g" using Cons.prems(2) by (simp split: if_splits)
    then show ?thesis using Cons.IH Cons.prems True x by simp
  next
    case False
    define g1 where "g1 = (if g_pMap ! unat x = 254 then g - 1 else g)"
    define t1 where "t1 = push_bit 6 t OR (if g_pMap ! unat x = 254 then 0 else ucast (g_pMap ! unat x))"
    have g1: "length (filter (\<lambda>x. x = 61) s) < unat g1" "unat g1 \<le> 3"
      using Cons.prems(2,3) only by (auto simp: g1_def unat_sub word_le_nat_alt split: if_splits)
    have q: "length (quad_bytes t1 g1) \<le> unat g1"
      using g1 by (auto simp: quad_bytes_def word_less_nat_alt)
    have room: "of_nat (length out) + g1 > (of_nat cap :: u64) \<or> length out + length (quad_bytes t1 g1) \<le> cap"
    proof -
      have "unat (of_nat cap :: u64) = cap" "unat (of_nat (length out) :: u64) = length out"
        using Cons.prems(4) assms(5) by (simp_all add: unat_of_nat)
      then have "unat (of_nat (length out) + g1) = length out + unat g1"
        unfolding unat_word_ariths using Cons.prems(4) assms(5) g1(2) by simp
      then show ?thesis
        using q \<open>unat (of_nat cap :: u64) = cap\<close> by (auto simp: word_less_nat_alt not_less)
    qed
    show ?thesis
      using Cons.IH [of g1 _ 0 0] Cons.IH [of g1 out t1 "Suc y"] Cons.prems(1,4) g1 room x False
      by (simp add: Let_def g1_def [symmetric] t1_def [symmetric]) auto
  qed
qed auto

text \<open>Three padding characters: one byte more than the buffer holds. A character above 127 indexes before the table.\<close>

lemma three_pads_overflow: "base64_decode [65, 61, 61, 61] 0 = OutOfBounds"
  by code_simp

lemma high_char_leaves_table: "base64_decode [200] 10 = OutOfBounds"
  by code_simp

text \<open>Padding in the middle is never taken back: every later group gives one byte.\<close>

lemma padding_sticks:
  "base64_decode [81, 81, 61, 61, 81, 85, 74, 68] 10 = Fine (True, [65, 65])"
  by code_simp

section \<open>Properties\<close>

text \<open>C23: Decoding undoes encoding. For any byte string, decoding its base64 text into a buffer that has room
  returns success and exactly the string, without reading outside the tables or writing outside the
  buffer; and the encoder with a caller's buffer writes the same text, terminated, into
  \<open>4 * ceil(n / 3) + 1\<close> bytes or refuses a smaller buffer.\<close>

theorem base64_round_trip:
  assumes "length bs \<le> cap" "int cap < 2 ^ 63"
  shows "base64_decode (snd (base64_encode_str bs)) cap = Fine (True, bs)
    \<and> base64_encode_buf bs n =
      (if n < (length bs + 2) div 3 * 4 + 1 then (False, [], n)
       else (True, snd (base64_encode_str bs) @ [0], (length bs + 2) div 3 * 4))"
  using decode_encoded [of "[]" bs cap] assms
  by (simp add: base64_decode_def base64_encode_str_def base64_encode_buf_def encode_length Let_def)

theorem base64_round_trip_witness:
  "base64_decode (snd (base64_encode_str [0, 255, 16, 7])) 4 = Fine (True, [0, 255, 16, 7])"
  using base64_round_trip [of "[0, 255, 16, 7]" 4 9] by simp

text \<open>A message that is turned into text is found again in it.\<close>

lemma message_text_round_trip:
  assumes "\<And>m xs. ser m = Some xs \<Longrightarrow> parse xs = Some m"
    and "convert_protoc_obj_to_str ser obj t = (True, t')" "int (length t') < 2 ^ 63"
  shows "convert_str_to_protoc_obj parse t' = Fine (Some obj)"
proof -
  from assms(2) obtain xs where xs: "ser obj = Some xs" "t' = snd (base64_encode_str xs)"
    by (auto simp: convert_protoc_obj_to_str_def split: option.splits)
  have "length xs \<le> length t'" using encode_length [of xs] by (simp add: xs(2) base64_encode_str_def)
  with decode_encoded [of "[]" xs "length t'"] assms(3) have "base64_decode t' (length t') = Fine (True, xs)"
    by (simp add: base64_decode_def base64_encode_str_def xs(2))
  then show ?thesis using assms(1) [OF xs(1)] by (simp add: convert_str_to_protoc_obj_def base64_str_to_normal_def)
qed

text \<open>C24: The decoder is memory safe on ordinary text. If every character is plain ASCII and at most two of them
  are padding, decoding anything whatsoever into a buffer of any size answers success or refusal, never
  writes more than the buffer holds, and never reads outside its table.\<close>

theorem base64_decode_safe:
  assumes "\<forall>x \<in> set s. unat x < 128" "length (filter (\<lambda>x. x = 61) s) \<le> 2" "int cap < 2 ^ 63"
  shows "\<exists>ok out. base64_decode s cap = Fine (ok, out) \<and> length out \<le> cap"
  unfolding base64_decode_def
  by (rule decode_loop_safe) (use assms in simp_all)

theorem base64_decode_safe_witness:
  "\<exists>ok out. base64_decode [81, 61, 33, 61, 10, 81, 81] 1 = Fine (ok, out) \<and> length out \<le> 1"
  by (rule base64_decode_safe) simp_all

end
