(* ===== verification/GateClient.thy ===== *)
theory GateClient
  imports TcpDataHandler Packet Counters
begin

text \<open>
  \<open>gate_server/client_connection.h\<close> and \<open>.cpp\<close>: one client of the gate server, the framing of its
  packets and the checks made on every packet. What the connection sends is collected in \<open>outbox\<close>.
  Shown: the framing part implements the contract \<open>framer\<close> for packets that are read whole (no policy
  request, 12 bytes at least where sequence numbers are checked), so the way TCP cuts such a stream does not
  matter; a connection object that is used again starts like a new one; sequence numbers only grow.
\<close>

section \<open>State\<close>

definition STATUS_DEFAULT :: int where "STATUS_DEFAULT = 0"
definition STATUS_PREPARE :: int where "STATUS_PREPARE = 1"
definition STATUS_PLAYER_LOGIN :: int where "STATUS_PLAYER_LOGIN = 3"
definition STATUS_IN_GAME :: int where "STATUS_IN_GAME = 4"
definition MAX_ACTION_SIZE :: nat where "MAX_ACTION_SIZE = 512"

lemmas status_defs = STATUS_DEFAULT_def STATUS_PREPARE_def STATUS_PLAYER_LOGIN_def STATUS_IN_GAME_def

text \<open>\<open>idle_expires\<close> is the time of \<open>m_idle_timer\<close>, or \<open>None\<close> while the timer is not running.\<close>

record client =
  m_seq_counter :: int
  m_uid :: int
  m_role_id :: int
  m_server_id :: int
  m_status :: int
  m_policy_status :: int
  m_last_time :: int
  m_last_ip :: "byte list"
  m_client_seq :: int
  m_last_heart :: int
  m_cur_heart :: int
  m_heart_time :: int
  m_threshold :: "threshold list"
  idle_expires :: "int option"
  outbox :: "byte list list"

text \<open>The configuration flags of the application that a connection looks at.\<close>

record gate_config =
  cfg_check_threshold :: bool
  cfg_check_seq :: bool

text \<open>The constructor; \<open>raw\<close> is the memory of the new object.\<close>

definition client_new :: "client \<Rightarrow> client" where
  "client_new raw = raw\<lparr>m_seq_counter := 0, m_uid := 0, m_role_id := 0, m_server_id := 0,
     m_status := STATUS_DEFAULT, m_last_time := 0, m_last_ip := [], m_client_seq := 0,
     m_policy_status := 0, idle_expires := None, outbox := []\<rparr>"

definition threshold_zero :: threshold where
  "threshold_zero = \<lparr>cur_cycle = 0, cur_counter = 0, limit = 0, cycle_second = 0\<rparr>"

text \<open>\<open>reset()\<close>; \<open>del_timer\<close> stops the idle timer.\<close>

definition client_reset :: "client \<Rightarrow> client" where
  "client_reset c = c\<lparr>m_seq_counter := 0, m_uid := 0, m_role_id := 0, m_server_id := 0,
     m_status := STATUS_DEFAULT, m_last_time := 0, m_last_ip := [], m_client_seq := 0,
     m_last_heart := 0, m_cur_heart := 0, m_heart_time := 0,
     m_threshold := replicate MAX_ACTION_SIZE threshold_zero, idle_expires := None\<rparr>"

definition set_login_ip :: "byte list \<Rightarrow> client \<Rightarrow> client" where
  "set_login_ip ip c = c\<lparr>m_last_ip := ip\<rparr>"

text \<open>
  \<open>on_connect()\<close>: \<open>now\<close> is \<open>time(0)\<close>, \<open>run_ms\<close> the clock of the timers; \<open>ok\<close> tells whether
  \<open>add_timer\<close> took the timer.
\<close>

definition on_connect :: "int \<Rightarrow> int \<Rightarrow> bool \<Rightarrow> client \<Rightarrow> client" where
  "on_connect now run_ms ok c =
     (let c1 = c\<lparr>m_client_seq := 0, m_cur_heart := 0, m_last_heart := 0, m_heart_time := to_int32 now,
                m_status := STATUS_DEFAULT, m_policy_status := 0,
                m_threshold := map (\<lambda>i. threshold_init 1 50) [0..<MAX_ACTION_SIZE]\<rparr>
      in if ok then c1\<lparr>idle_expires := Some (run_ms + 5000)\<rparr> else c1)"

definition on_player_login :: "client \<Rightarrow> client" where
  "on_player_login c = c\<lparr>m_status := STATUS_IN_GAME\<rparr>"

definition on_acc_login :: "int \<Rightarrow> client \<Rightarrow> client" where
  "on_acc_login role_id c = c\<lparr>m_role_id := role_id, m_status := STATUS_PLAYER_LOGIN\<rparr>"

definition get_next_seq :: "client \<Rightarrow> int \<times> client" where
  "get_next_seq c = (let n = to_int32 (m_seq_counter c + 1) in (n, c\<lparr>m_seq_counter := n\<rparr>))"

section \<open>Checks\<close>

definition check_seq :: "int \<Rightarrow> client \<Rightarrow> bool \<times> client" where
  "check_seq sn c = (if m_client_seq c \<ge> sn then (False, c) else (True, c\<lparr>m_client_seq := sn\<rparr>))"

definition check_heart :: "int \<Rightarrow> client \<Rightarrow> bool" where
  "check_heart v c \<longleftrightarrow> v = m_cur_heart c \<or> v = m_last_heart c"

definition check_threshold :: "int \<Rightarrow> int \<Rightarrow> client \<Rightarrow> bool \<times> client" where
  "check_threshold now msg_id c =
     (let i = unat (msgid_action_id (word_of_int msg_id)) mod MAX_ACTION_SIZE;
          th = threshold_inc now (m_threshold c ! i)
      in (\<not> is_limit th, c\<lparr>m_threshold := (m_threshold c)[i := th]\<rparr>))"

section \<open>Framing\<close>

text \<open>\<open>"<policy-file-request/>"\<close> and the answer, which is sent with its terminating 0.\<close>

definition POLICY_REQUEST :: "byte list" where
  "POLICY_REQUEST = map of_char ''<policy-file-request/>''"

definition POLICY_RESPONSE :: "byte list" where
  "POLICY_RESPONSE = map of_char
     (''<cross-domain-policy>'' @ ''<allow-access-from domain=''
      @ [CHR 0x27, CHR 0x2A, CHR 0x27] @ '' to-ports='' @ [CHR 0x27, CHR 0x2A, CHR 0x27]
      @ ''/></cross-domain-policy>'') @ [0]"

text \<open>The part of \<open>get_packet_info\<close> behind the policy test.\<close>

definition gate_head_info :: "client info_fn" where
  "gate_head_info c bs =
     (let pinfo = (if length bs < 4 then packet_info_zero\<lparr>pi_size := cs_head_bytes\<rparr>
                   else \<lparr>pi_size = uint (ntoh_int16 (peek16 0 bs)), pi_type = uint (ntoh_int16 (peek16 2 bs)),
                         pi_data = bs\<rparr>)
      in if pi_size pinfo < cs_head_bytes \<or> pi_size pinfo > 10240 then (-4, pinfo, c) else (0, pinfo, c))"

text \<open>
  \<open>get_packet_info(data, size, pi)\<close>. \<open>behind\<close> is what stands in memory behind the unread bytes:
  \<open>memcmp\<close> always compares 22 bytes.
\<close>

definition gate_packet_info :: "byte list \<Rightarrow> client info_fn" where
  "gate_packet_info behind c bs =
     (if m_policy_status c = 0 \<and> take (length POLICY_REQUEST) (bs @ behind) = POLICY_REQUEST
      then (0, packet_info_zero\<lparr>pi_data := bs, pi_size := int (length bs)\<rparr>, c\<lparr>m_policy_status := 1\<rparr>)
      else gate_head_info c bs)"

section \<open>Packets\<close>

text \<open>
  \<open>process_player_login\<close>: \<open>parse\<close> is the parser of the request body, \<open>rep\<close> the encoded response.
\<close>

definition process_player_login ::
  "(byte list \<Rightarrow> 'b option) \<Rightarrow> 'b cs_packet \<Rightarrow> byte list \<Rightarrow> client \<Rightarrow> packet_info \<Rightarrow> (int \<times> client) checked" where
  "process_player_login parse request rep c pinfo =
     (case cs_decode parse cs_player_login_request_type (pi_data pinfo) (pi_size pinfo) request of
        OutOfBounds \<Rightarrow> OutOfBounds
      | Fine (n, r) \<Rightarrow>
          if n \<noteq> pi_size pinfo then Fine (-1, c) else Fine (0, c\<lparr>outbox := outbox c @ [rep]\<rparr>))"

text \<open>
  \<open>process_packet\<close>. The sequence number stands at offset 8, whatever the size of the packet;
  \<open>behind\<close> is again the memory behind the unread bytes.
\<close>

definition gate_process ::
  "gate_config \<Rightarrow> int \<Rightarrow> byte list \<Rightarrow> (byte list \<Rightarrow> 'b option) \<Rightarrow> 'b cs_packet \<Rightarrow> byte list \<Rightarrow>
   client \<Rightarrow> packet_info \<Rightarrow> (int \<times> client) checked" where
  "gate_process cfg now behind parse request rep c pinfo =
     (if m_policy_status c = 1
      then Fine (0, c\<lparr>outbox := outbox c @ [POLICY_RESPONSE], m_policy_status := 2\<rparr>)
      else let (pass, c1) = (if cfg_check_threshold cfg then check_threshold now (pi_type pinfo) c else (True, c)) in
        if \<not> pass then Fine (0, c1)
        else let (pass2, c2) = (if cfg_check_seq cfg
                 then check_seq (sint (ntoh_int32 (peek32 8 (pi_data pinfo @ behind)))) c1 else (True, c1)) in
          if \<not> pass2 then Fine (-1, c2)
          else if pi_type pinfo = cs_player_login_request_type
          then process_player_login parse request rep c2 pinfo
          else Fine (0, c2))"

text \<open>
  The virtual method as the handler calls it. It has no way to answer \<open>OutOfBounds\<close>; -1 stands for it here
  and is never used, since every packet that \<open>get_packet_info\<close> hands over is decoded inside its bytes
  (\<open>gate_process_in_bounds\<close>).
\<close>

definition gate_process_packet ::
  "gate_config \<Rightarrow> int \<Rightarrow> byte list \<Rightarrow> (byte list \<Rightarrow> 'b option) \<Rightarrow> 'b cs_packet \<Rightarrow> byte list \<Rightarrow> client proc_fn" where
  "gate_process_packet cfg now behind parse request rep c pinfo =
     (case gate_process cfg now behind parse request rep c pinfo of Fine r \<Rightarrow> r | OutOfBounds \<Rightarrow> (-1, c))"

section \<open>The contract of the handler\<close>

lemma gate_head_info_cases:
  "gate_head_info c bs =
     (if length bs < 4 then (0, packet_info_zero\<lparr>pi_size := 4\<rparr>, c)
      else (if uint (ntoh_int16 (peek16 0 bs)) < 4 \<or> uint (ntoh_int16 (peek16 0 bs)) > 10240 then -4 else 0,
            \<lparr>pi_size = uint (ntoh_int16 (peek16 0 bs)), pi_type = uint (ntoh_int16 (peek16 2 bs)), pi_data = bs\<rparr>, c))"
  by (simp add: gate_head_info_def Let_def packet_info_zero_def cs_head_bytes_def)

lemma peek_append [block_simps]:
  "off + 2 \<le> length bs \<Longrightarrow> peek16 off (bs @ ys) = peek16 off bs"
  "off + 4 \<le> length bs \<Longrightarrow> peek32 off (bs @ ys) = peek32 off bs"
  by (simp_all add: peek16_def peek32_def region_append_left)

text \<open>Decoding a packet looks at the packet only.\<close>

lemma cs_decode_append:
  assumes "pi_size pinfo = uint (ntoh_int16 (peek16 0 bs))" "pi_size pinfo \<le> int (length bs)" "4 \<le> pi_size pinfo"
  shows "cs_decode parse pt (bs @ ys) (pi_size pinfo) r = cs_decode parse pt bs (pi_size pinfo) r"
proof -
  define n where "n = pi_size pinfo"
  have l: "4 \<le> length bs" using assms(2,3) by linarith
  have e: "peek16 0 (bs @ ys) = peek16 0 bs" "peek16 2 (bs @ ys) = peek16 2 bs" using l by (simp_all add: block_simps)
  have z: "uint (ntoh_int16 (peek16 0 bs)) = n" using assms(1) by (simp add: n_def)
  have n: "n \<le> int (length bs)" using assms(2) by (simp add: n_def)
  show ?thesis
  proof (cases "n < cs_head_size (word_of_int pt)")
    case True
    then show ?thesis by (simp add: cs_decode_def n_def Let_def)
  next
    case False
    then have f: "peek16 4 (bs @ ys) = peek16 4 bs \<and> peek16 6 (bs @ ys) = peek16 6 bs \<and> peek32 8 (bs @ ys) = peek32 8 bs"
      if "cs_head_have_plus (word_of_int pt)"
      using that n by (auto simp: head_size_defs block_simps)
    have "nat (cs_head_size (word_of_int pt)) + nat (n - cs_head_size (word_of_int pt)) \<le> length bs"
      using False n cs_head_size_bounds [of "word_of_int pt"] by linarith
    then have r: "region (bs @ ys) (nat (cs_head_size (word_of_int pt))) (nat (n - cs_head_size (word_of_int pt)))
        = region bs (nat (cs_head_size (word_of_int pt))) (nat (n - cs_head_size (word_of_int pt)))"
      by (rule region_append_left)
    show ?thesis
      using False n f
      by (cases "cs_head_have_plus (word_of_int pt)") (simp_all add: cs_decode_def Let_def e z r n_def [symmetric])
  qed
qed

abbreviation plain :: "gate_config \<Rightarrow> gate_config" where
  "plain cfg \<equiv> cfg\<lparr>cfg_check_seq := False\<rparr>"

text \<open>
  With the check of sequence numbers on, a packet of fewer than 12 bytes is checked by what happens to
  stand behind it. \<open>whole_packets\<close> is the processing that refuses such packets.
\<close>

definition whole_packets ::
  "gate_config \<Rightarrow> int \<Rightarrow> byte list \<Rightarrow> (byte list \<Rightarrow> 'b option) \<Rightarrow> 'b cs_packet \<Rightarrow> byte list \<Rightarrow> client proc_fn" where
  "whole_packets cfg now behind parse request rep c pinfo =
     (if cfg_check_seq cfg \<and> pi_size pinfo < 12 then (-1, c)
      else gate_process_packet cfg now behind parse request rep c pinfo)"

lemma whole_plain: "whole_packets (plain cfg) = gate_process_packet (plain cfg)"
  by (simp add: fun_eq_iff whole_packets_def)

lemma seq_field: "12 \<le> n \<Longrightarrow> n \<le> int (length bs) \<Longrightarrow> peek32 8 (bs @ ys) = peek32 8 bs"
  by (simp add: block_simps)

lemma whole_packets_behind:
  assumes "pi_size q = pi_size pinfo" "pi_type q = pi_type pinfo" "pi_data q = pi_data pinfo @ ys"
    and "pi_size pinfo = uint (ntoh_int16 (peek16 0 (pi_data pinfo)))" "4 \<le> pi_size pinfo"
    and "pi_size pinfo \<le> int (length (pi_data pinfo))"
  shows "whole_packets cfg now behind parse request rep c q = whole_packets cfg now behind' parse request rep c pinfo"
proof (cases "cfg_check_seq cfg \<and> pi_size pinfo < 12")
  case True
  then show ?thesis by (simp add: whole_packets_def assms(1))
next
  case False
  have login: "process_player_login parse request rep u q = process_player_login parse request rep u pinfo" for u
    unfolding process_player_login_def assms(1-3) cs_decode_append [OF assms(4,6,5)] ..
  have seq: "cfg_check_seq cfg \<Longrightarrow> peek32 8 (pi_data q @ behind) = peek32 8 (pi_data pinfo @ behind')"
    using False seq_field [OF _ assms(6)] by (simp add: assms(3))
  have "gate_process cfg now behind parse request rep c q = gate_process cfg now behind' parse request rep c pinfo"
  proof (cases "cfg_check_seq cfg = True")
    case True
    then have "cfg_check_seq cfg" by simp
    show ?thesis unfolding gate_process_def login assms(1,2) seq [OF \<open>cfg_check_seq cfg\<close>] ..
  next
    case False
    then have n: "cfg_check_seq cfg = False" by simp
    show ?thesis unfolding gate_process_def login assms(1,2) n if_False ..
  qed
  then show ?thesis by (simp add: whole_packets_def gate_process_packet_def assms(1))
qed

text \<open>What \<open>get_packet_info\<close> says of a packet that is there, whatever follows it.\<close>

lemma head_info_packet:
  assumes "gate_head_info u bs = (0, pinfo, u1)" "1 \<le> pi_size pinfo" "pi_size pinfo \<le> int (length bs)"
  shows "pinfo = \<lparr>pi_size = uint (ntoh_int16 (peek16 0 bs)), pi_type = uint (ntoh_int16 (peek16 2 bs)), pi_data = bs\<rparr>"
    and "4 \<le> pi_size pinfo" "u1 = u" "gate_head_info u (bs @ ys) = (0, pinfo\<lparr>pi_data := bs @ ys\<rparr>, u1)"
proof -
  have l: "\<not> length bs < 4" using assms by (auto simp: gate_head_info_cases split: if_splits)
  then show p: "pinfo = \<lparr>pi_size = uint (ntoh_int16 (peek16 0 bs)), pi_type = uint (ntoh_int16 (peek16 2 bs)), pi_data = bs\<rparr>"
      "4 \<le> pi_size pinfo" "u1 = u"
    using assms by (auto simp: gate_head_info_cases split: if_splits)
  show "gate_head_info u (bs @ ys) = (0, pinfo\<lparr>pi_data := bs @ ys\<rparr>, u1)"
    using assms(1) l p by (simp add: gate_head_info_cases block_simps split: if_splits)
qed

lemma gate_process_in_bounds:
  assumes "gate_head_info u bs = (0, pinfo, u1)" "1 \<le> pi_size pinfo" "pi_size pinfo \<le> int (length bs)"
  shows "gate_process cfg now behind parse request rep c pinfo \<noteq> OutOfBounds"
proof -
  note p = head_info_packet [OF assms]
  have "pi_size pinfo = uint (ntoh_int16 (peek16 0 bs))" "pi_data pinfo = bs" by (subst p(1), simp)+
  then have "cs_decode parse pt (pi_data pinfo) (pi_size pinfo) request \<noteq> OutOfBounds" for pt
    using assms(3) by (auto simp: cs_decode_def Let_def split: option.splits)
  then have "process_player_login parse request rep u2 pinfo \<noteq> OutOfBounds" for u2
    by (auto simp: process_player_login_def split: checked.splits)
  then show ?thesis by (auto simp: gate_process_def Let_def split: prod.splits)
qed

interpretation whole: framer gate_head_info "whole_packets cfg now behind parse request rep"
proof
  fix u bs ret pinfo u1 ys
  show "gate_head_info u bs = (ret, pinfo, u1) \<Longrightarrow> ret \<noteq> 0 \<Longrightarrow> \<exists>q. gate_head_info u (bs @ ys) = (ret, q, u1)"
    by (auto simp: gate_head_info_cases block_simps split: if_splits)
  show "gate_head_info u bs = (0, pinfo, u1) \<Longrightarrow> pi_size pinfo < 1 \<or> pi_size pinfo > MAX_PACKET \<Longrightarrow>
       \<exists>q. gate_head_info u (bs @ ys) = (0, q, u1) \<and> (pi_size q < 1 \<or> pi_size q > MAX_PACKET)"
    by (auto simp: gate_head_info_cases block_simps MAX_PACKET_def split: if_splits)
  show "gate_head_info u bs = (0, pinfo, u1) \<Longrightarrow> 1 \<le> pi_size pinfo \<Longrightarrow> int (length bs) < pi_size pinfo \<Longrightarrow> u1 = u"
    by (auto simp: gate_head_info_cases split: if_splits)
  assume i: "gate_head_info u bs = (0, pinfo, u1)" "1 \<le> pi_size pinfo" "pi_size pinfo \<le> int (length bs)"
  note p = head_info_packet [OF i]
  have "whole_packets cfg now behind parse request rep u1 (pinfo\<lparr>pi_data := bs @ ys\<rparr>)
      = whole_packets cfg now behind parse request rep u1 pinfo"
    by (rule whole_packets_behind [where ys = ys]) (use p(1,2) i(3) in simp_all)
  then show "\<exists>q. gate_head_info u (bs @ ys) = (0, q, u1) \<and> pi_size q = pi_size pinfo
      \<and> whole_packets cfg now behind parse request rep u1 q = whole_packets cfg now behind parse request rep u1 pinfo"
    using p(4) by auto
qed

interpretation gate: framer gate_head_info "gate_process_packet (plain cfg) now behind parse request rep"
  using whole.framer_axioms [of "plain cfg" now behind parse request rep] by (simp add: whole_plain)

section \<open>Streams of packets\<close>

lemma ntoh16_bytes: "uint (ntoh_int16 (of_le16 [a, b])) = 256 * uint a + uint b"
proof -
  have w: "ntoh_int16 (of_le16 [a, b]) = push_bit 8 (ucast a) OR ucast b"
    by (rule bit_word_eqI) (auto simp: ntoh_int16_def bswap_16_def of_le16_def bit_simps dest: bit_imp_le_length)
  have tb: "take_bit 8 (uint b) = uint b"
    using uint_range_size [of b] by (intro take_bit_int_eq_self) (simp_all add: word_size)
  have "push_bit 8 (uint a) OR uint b = 256 * uint a + uint b"
    using concat_bit_eq [of 8 "uint b" "uint a"]
    by (simp add: concat_bit_def tb or.commute push_bit_eq_mult)
  then have "(word_of_int (push_bit 8 (uint a) OR uint b) :: u16) = word_of_int (256 * uint a + uint b)"
    by (rule arg_cong)
  then have r: "ntoh_int16 (of_le16 [a, b]) = word_of_int (256 * uint a + uint b)"
    unfolding w by (simp only: of_int_or_eq push_bit_of_int ucast_eq)
  show ?thesis
    unfolding r uint_word_of_int using uint_range_size [of a] uint_range_size [of b]
    by (simp add: word_size)
qed

text \<open>No packet starts with the first byte of the policy request: it would be longer than 10240 bytes.\<close>

lemma angle_is_too_long:
  assumes "4 \<le> length bs" "hd bs = 60"
  shows "fst (gate_head_info c bs) = -4"
proof -
  obtain b0 b1 rest where bs: "bs = b0 # b1 # rest" using assms(1) by (metis list.size(3) not_numeral_le_zero
        neq_Nil_conv One_nat_def length_Cons numeral_le_one_iff semiring_norm(69))
  have "region bs 0 2 = [60, b1]" using assms(2) by (simp add: bs region_def)
  then have "uint (ntoh_int16 (peek16 0 bs)) = 256 * 60 + uint b1" by (simp add: peek16_def ntoh16_bytes)
  moreover have "0 \<le> uint b1" by simp
  ultimately have "uint (ntoh_int16 (peek16 0 bs)) > 10240" by linarith
  then show ?thesis using assms(1) by (simp add: gate_head_info_cases)
qed

definition no_angle :: "byte list \<Rightarrow> bool" where
  "no_angle bs \<longleftrightarrow> bs = [] \<or> hd bs \<noteq> 60"

lemma policy_needs_angle:
  assumes "no_angle bs" "bs \<noteq> []"
  shows "gate_packet_info behind c bs = gate_head_info c bs"
proof -
  have p: "hd POLICY_REQUEST = 60" "0 < length POLICY_REQUEST" by (simp_all add: POLICY_REQUEST_def)
  have "hd (take (length POLICY_REQUEST) (bs @ behind)) = hd bs"
    using assms(2) by (subst hd_take [OF p(2)]) simp
  then have "take (length POLICY_REQUEST) (bs @ behind) \<noteq> POLICY_REQUEST"
    using assms p(1) by (auto simp: no_angle_def)
  then show ?thesis by (simp add: gate_packet_info_def)
qed

lemma done_no_angle:
  assumes "frame_run gate_head_info P c bs = (Done, rest, c')" "no_angle rest"
  shows "no_angle bs"
proof (rule ccontr)
  assume "\<not> no_angle bs"
  then have bs: "bs \<noteq> []" "hd bs = 60" by (auto simp: no_angle_def)
  show False
  proof (cases "length bs < 4")
    case True
    then have "frame_run gate_head_info P c bs = (Done, bs, c)"
      using bs by (subst frame_run.simps) (simp add: gate_head_info_cases MAX_PACKET_def)
    then show False using assms bs by (simp add: no_angle_def)
  next
    case False
    obtain pinfo c1 where "gate_head_info c bs = (-4, pinfo, c1)"
      using angle_is_too_long [of bs c] False bs by (cases "gate_head_info c bs") auto
    then have "frame_run gate_head_info P c bs = (Event (-4), bs, c1)"
      using bs by (intro frame_run_ret) simp_all
    then show False using assms by simp
  qed
qed

lemma policy_frame_run:
  assumes "frame_run gate_head_info P c bs = (Done, rest, c')" "no_angle rest"
  shows "frame_run (gate_packet_info behind) P c bs = (Done, rest, c')"
  using assms
proof (induction "length bs" arbitrary: c bs rule: less_induct)
  case less
  show ?case
  proof (cases "bs = []")
    case False
    have i: "gate_packet_info behind c bs = gate_head_info c bs"
      using policy_needs_angle done_no_angle [OF less.prems] False by blast
    obtain ret pinfo c1 where h: "gate_head_info c bs = (ret, pinfo, c1)" by (cases "gate_head_info c bs")
    obtain ret2 c2 where pr: "P c1 pinfo = (ret2, c2)" by (cases "P c1 pinfo")
    show ?thesis
    proof (cases "ret = 0 \<and> 1 \<le> pi_size pinfo \<and> pi_size pinfo \<le> MAX_PACKET \<and> pi_size pinfo \<le> int (length bs) \<and> ret2 = 0")
      case True
      then have step: "frame_run I P c bs = frame_run I P c2 (drop (nat (pi_size pinfo)) bs)"
        if "I c bs = (ret, pinfo, c1)" for I
        using that pr False by (intro frame_run_step) auto
      have "length (drop (nat (pi_size pinfo)) bs) < length bs" using True False by simp
      from less.hyps [OF this _ less.prems(2)] show ?thesis
        using step [of gate_head_info] step [of "gate_packet_info behind"] h i less.prems(1) by simp
    next
      case False
      then have "frame_run (gate_packet_info behind) P c bs = frame_run gate_head_info P c bs"
        by (subst (1 2) frame_run.simps) (auto simp: i h pr split: if_splits)
      then show ?thesis using less.prems(1) by simp
    qed
  qed (use less.prems in simp)
qed

text \<open>A stream of whole packets is processed the same way with any memory behind it.\<close>

lemma whole_frame_run:
  assumes "frame_run gate_head_info (whole_packets cfg now m parse request rep) c bs = (Done, rest, c')"
  shows "frame_run gate_head_info (gate_process_packet cfg now m' parse request rep) c bs = (Done, rest, c')"
  using assms
proof (induction "length bs" arbitrary: c bs rule: less_induct)
  case less
  let ?W = "whole_packets cfg now m parse request rep" and ?P = "gate_process_packet cfg now m' parse request rep"
  show ?case
  proof (cases "bs = []")
    case False
    obtain ret pinfo c1 where h: "gate_head_info c bs = (ret, pinfo, c1)" by (cases "gate_head_info c bs")
    obtain ret2 c2 where pr: "?W c1 pinfo = (ret2, c2)" by (cases "?W c1 pinfo")
    show ?thesis
    proof (cases "ret = 0 \<and> 1 \<le> pi_size pinfo \<and> pi_size pinfo \<le> MAX_PACKET \<and> pi_size pinfo \<le> int (length bs)")
      case True
      then have i: "gate_head_info c bs = (0, pinfo, c1)" "1 \<le> pi_size pinfo" "pi_size pinfo \<le> int (length bs)"
        using h by simp_all
      note p = head_info_packet [OF i]
      have "ret2 = 0"
        using less.prems False h pr True by (subst (asm) frame_run.simps) (auto split: if_splits)
      then have ok: "\<not> (cfg_check_seq cfg \<and> pi_size pinfo < 12)" using pr by (auto simp: whole_packets_def)
      have "?W c1 pinfo = whole_packets cfg now m' parse request rep c1 pinfo"
        by (rule whole_packets_behind [where ys = "[]"]) (use p(1,2) i(3) in simp_all)
      then have pr': "?P c1 pinfo = (0, c2)" using ok pr \<open>ret2 = 0\<close> by (simp add: whole_packets_def split: if_splits)
      have step: "frame_run gate_head_info P c bs = frame_run gate_head_info P c2 (drop (nat (pi_size pinfo)) bs)"
        if "P c1 pinfo = (0, c2)" for P
        using that True False h by (intro frame_run_step) auto
      have "length (drop (nat (pi_size pinfo)) bs) < length bs" using True False by simp
      from less.hyps [OF this] show ?thesis
        using step [of ?W] step [of ?P] pr pr' \<open>ret2 = 0\<close> less.prems by simp
    next
      case False': False
      then have "frame_run gate_head_info ?P c bs = frame_run gate_head_info ?W c bs"
        by (subst (1 2) frame_run.simps) (auto simp: h split: if_splits)
      then show ?thesis using less.prems by simp
    qed
  qed (use less.prems in simp)
qed

text \<open>
  Reading a stream piece by piece; every piece comes with the memory behind it, which both
  \<open>get_packet_info\<close> and the processing \<open>P\<close> of the packets may look at.
\<close>

fun gate_reads ::
  "(byte list \<Rightarrow> client proc_fn) \<Rightarrow> client \<Rightarrow> byte list \<Rightarrow> (byte list \<times> byte list) list \<Rightarrow> outcome \<times> byte list \<times> client" where
  "gate_reads P c rest [] = (Done, rest, c)"
| "gate_reads P c rest ((x, behind) # xs) =
     (case frame_run (gate_packet_info behind) (P behind) c (rest @ x) of
        (Done, rest', c') \<Rightarrow> gate_reads P c' rest' xs
      | (Event e, rest', c') \<Rightarrow> (Event e, rest' @ concat (map fst xs), c'))"

lemma gate_reads_stream:
  fixes cfg now m parse request rep
  defines "W \<equiv> whole_packets cfg now m parse request rep"
  defines "P \<equiv> (\<lambda>behind. gate_process_packet cfg now behind parse request rep)"
  assumes "frame_run gate_head_info W c (rest0 @ concat (map fst xs)) = (Done, rest, c')" "no_angle rest"
    and "frame_run gate_head_info W c rest0 = (Done, rest0, c)"
  shows "gate_reads P c rest0 xs = (Done, rest, c')"
  using assms(3,5)
proof (induction xs arbitrary: c rest0)
  case (Cons y xs)
  obtain x behind where y: "y = (x, behind)" by fastforce
  have all: "frame_run gate_head_info W c ((rest0 @ x) @ concat (map fst xs)) = (Done, rest, c')"
    using Cons.prems(1) by (simp add: y)
  obtain r1 c1 where f: "frame_run gate_head_info W c (rest0 @ x) = (Done, r1, c1)"
    and g: "frame_run gate_head_info W c1 (r1 @ concat (map fst xs)) = (Done, rest, c')"
    using all whole.frame_run_append [of cfg now m parse request rep c "rest0 @ x" "concat (map fst xs)"]
    unfolding W_def by (auto split: prod.splits outcome.splits)
  have "no_angle r1"
    using done_no_angle [OF g assms(4)] by (cases r1) (auto simp: no_angle_def)
  moreover have "frame_run gate_head_info (P behind) c (rest0 @ x) = (Done, r1, c1)"
    using whole_frame_run f unfolding W_def P_def by blast
  ultimately have "frame_run (gate_packet_info behind) (P behind) c (rest0 @ x) = (Done, r1, c1)"
    by (intro policy_frame_run)
  moreover have "frame_run gate_head_info W c1 r1 = (Done, r1, c1)"
    using f whole.frame_run_done_idem unfolding W_def by blast
  ultimately show ?case using Cons.IH [OF g] by (simp add: y)
qed (simp add: assms(3))

section \<open>Sequence numbers\<close>

fun accepted_seqs :: "int list \<Rightarrow> client \<Rightarrow> int list" where
  "accepted_seqs [] c = []"
| "accepted_seqs (sn # sns) c =
     (case check_seq sn c of (ok, c') \<Rightarrow> if ok then sn # accepted_seqs sns c' else accepted_seqs sns c')"

lemma accepted_above: "x \<in> set (accepted_seqs sns c) \<Longrightarrow> m_client_seq c < x"
  by (induction sns arbitrary: c) (fastforce simp: check_seq_def split: if_splits)+

lemma accepted_sorted: "sorted_wrt (<) (accepted_seqs sns c)"
  by (induction sns arbitrary: c) (auto simp: check_seq_def dest: accepted_above)

section \<open>What the checks cannot do\<close>

text \<open>A policy request that arrives in two pieces is refused.\<close>

lemma split_policy_request_refused:
  "m_policy_status c = 0 \<Longrightarrow> fst (gate_packet_info (replicate 22 0) c (take 9 POLICY_REQUEST)) = -4"
  by (simp add: gate_packet_info_def POLICY_REQUEST_def gate_head_info_def packet_info_zero_def cs_head_bytes_def
      peek16_def region_def of_le16_def ntoh_int16_def bswap_16_def Let_def)

text \<open>A notification has a head of 4 bytes; the sequence check takes the bytes of whatever follows.\<close>

lemma seq_of_short_packet_from_behind:
  assumes "m_policy_status c = 0" "m_client_seq c = 5" "length ys = 8"
    and "pi_data pinfo = [0, 4, 0, 2]" "pi_type pinfo = 2" "pi_size pinfo = 4"
  shows "fst (gate_process_packet \<lparr>cfg_check_threshold = False, cfg_check_seq = True\<rparr> now (ys @ zs) parse r rep c pinfo) =
    (if 5 \<ge> sint (ntoh_int32 (peek32 4 ys)) then -1 else 0)"
proof -
  have "peek32 8 ([0, 4, 0, 2] @ ys @ zs) = peek32 4 ys"
    using assms(3) by (simp add: peek32_def region_def)
  then show ?thesis
    using assms by (simp add: gate_process_packet_def gate_process_def check_seq_def msg_defs)
qed

text \<open>A login does not change the status, so the idle timer closes even a client that logged in.\<close>

lemma login_keeps_status:
  "process_player_login parse r rep c pinfo = Fine (0, c') \<Longrightarrow> m_status c' = m_status c"
  by (auto simp: process_player_login_def split: checked.splits if_splits)

section \<open>Properties\<close>


definition sample_client :: client where
  "sample_client = client_new \<lparr>m_seq_counter = 1, m_uid = 1, m_role_id = 1, m_server_id = 1, m_status = 1,
     m_policy_status = 1, m_last_time = 1, m_last_ip = [], m_client_seq = 1, m_last_heart = 1, m_cur_heart = 1,
     m_heart_time = 1, m_threshold = [], idle_expires = None, outbox = []\<rparr>"


text \<open>A connection object carries nothing from one client to the next. After \<open>reset\<close>, setting the address and
  \<open>on_connect\<close>, a reused object differs from a newly constructed one in nothing but what was sent
  before: ids, status, policy state, heartbeats, sequence number and rate limits all start afresh.\<close>

lemma reused_client_is_fresh:
  "(on_connect now run_ms ok (set_login_ip ip (client_reset used)))\<lparr>outbox := []\<rparr>
     = on_connect now run_ms ok (set_login_ip ip (client_new raw))"
  by (simp add: on_connect_def set_login_ip_def client_reset_def client_new_def Let_def)

text \<open>Sequence numbers only grow: Whatever sequence numbers the packets of a client carry, those that
  \<open>check_seq\<close> accepts are strictly increasing and above the last accepted one: no packet is processed
  twice.\<close>

lemma seqs_increase:
  "sorted_wrt (<) (accepted_seqs sns c) \<and> (list_all (\<lambda>x. m_client_seq c < x) (accepted_seqs sns c))"
  using accepted_sorted accepted_above by (auto simp: list_all_iff)

end
