(* ===== verification/GateApp.thy ===== *)
theory GateApp
  imports GateClient
begin

text \<open>
  \<open>gate_server/gate_application.h\<close> and \<open>.cpp\<close>, with the parts of \<open>client_connection.cpp\<close> that act on
  the application: the pool of connection objects, the tables of users and roles, accepting, closing
  and timing out connections, forwarding. Connection objects live in a heap \<open>conns\<close>, indexed by their
  address; \<open>None\<close> is an address that is not allocated. Shown: over any run of the server no deleted
  object is touched, every object is either open or pooled, and the pool stays bounded; \<open>on_fini\<close> ends and
  deletes every user and every pooled object once.
\<close>

section \<open>State\<close>

record gate_app =
  conns :: "nat \<Rightarrow> client option"
  conn_open :: "nat \<Rightarrow> bool"
  uid2conn :: "((int \<times> int) \<times> nat) list"
  role_id2conn :: "(int \<times> nat) list"
  conn_pool :: "nat list"
  process_counter :: average_counter
  online_threshold :: int
  is_shuting_down :: bool
  acceptor_open :: bool

definition app_new :: "int \<Rightarrow> gate_app" where
  "app_new threshold = \<lparr>conns = (\<lambda>p. None), conn_open = (\<lambda>p. False), uid2conn = [], role_id2conn = [],
     conn_pool = [], process_counter = avg_clear, online_threshold = threshold, is_shuting_down = False,
     acceptor_open = True\<rparr>"

definition is_online_threshold :: "gate_app \<Rightarrow> bool" where
  "is_online_threshold a \<longleftrightarrow> online_threshold a < int (length (role_id2conn a))"

definition update_client :: "nat \<Rightarrow> (client \<Rightarrow> client) \<Rightarrow> gate_app \<Rightarrow> gate_app" where
  "update_client p f a = a\<lparr>conns := (conns a)(p := map_option f (conns a p))\<rparr>"

section \<open>Tables\<close>

definition get_user_connection :: "int \<Rightarrow> int \<Rightarrow> gate_app \<Rightarrow> nat option" where
  "get_user_connection uid server_id a = map_of (uid2conn a) (uid, server_id)"

definition get_role_connection :: "int \<Rightarrow> gate_app \<Rightarrow> nat option" where
  "get_role_connection role_id a = map_of (role_id2conn a) role_id"

text \<open>\<open>std::map::insert\<close> keeps an entry that is there.\<close>

definition set_user_connection :: "int \<Rightarrow> int \<Rightarrow> nat option \<Rightarrow> gate_app \<Rightarrow> gate_app" where
  "set_user_connection uid server_id conn a =
     (case conn of
        None \<Rightarrow> a\<lparr>uid2conn := filter (\<lambda>e. fst e \<noteq> (uid, server_id)) (uid2conn a)\<rparr>
      | Some p \<Rightarrow> if get_user_connection uid server_id a = None
                  then a\<lparr>uid2conn := ((uid, server_id), p) # uid2conn a\<rparr> else a)"

definition set_role_connection :: "int \<Rightarrow> nat option \<Rightarrow> gate_app \<Rightarrow> gate_app" where
  "set_role_connection role_id conn a =
     (case conn of
        None \<Rightarrow> a\<lparr>role_id2conn := filter (\<lambda>e. fst e \<noteq> role_id) (role_id2conn a)\<rparr>
      | Some p \<Rightarrow> a\<lparr>role_id2conn := (role_id, p) # filter (\<lambda>e. fst e \<noteq> role_id) (role_id2conn a)\<rparr>)"

section \<open>The pool\<close>

text \<open>\<open>p\<close> and \<open>raw\<close> are the address and the memory that \<open>new ClientConnection()\<close> gets.\<close>

definition alloc_connection :: "nat \<Rightarrow> client \<Rightarrow> gate_app \<Rightarrow> nat \<times> gate_app" where
  "alloc_connection p raw a =
     (if conn_pool a = [] then (p, a\<lparr>conns := (conns a)(p \<mapsto> client_new raw)\<rparr>)
      else (last (conn_pool a), a\<lparr>conn_pool := butlast (conn_pool a)\<rparr>))"

definition free_connection :: "nat \<Rightarrow> gate_app \<Rightarrow> gate_app" where
  "free_connection p a =
     (if length (conn_pool a) > 100 then a\<lparr>conns := (conns a)(p := None)\<rparr>
      else a\<lparr>conn_pool := conn_pool a @ [p]\<rparr>)"

section \<open>Closing, accepting, timing out\<close>

text \<open>\<open>ClientConnection::on_event\<close>; \<open>OutOfBounds\<close> when the object is not allocated.\<close>

definition on_event :: "nat \<Rightarrow> gate_app \<Rightarrow> gate_app checked" where
  "on_event p a =
     (case conns a p of
        None \<Rightarrow> OutOfBounds
      | Some c \<Rightarrow>
          let a1 = (if m_uid c > 0
                    then let a0 = set_user_connection (m_uid c) (m_server_id c) None a in
                      if m_role_id c > 0 then set_role_connection (m_role_id c) None a0 else a0
                    else a);
              a2 = update_client p (\<lambda>u. client_reset (u\<lparr>m_status := STATUS_DEFAULT\<rparr>)) a1;
              a3 = a2\<lparr>conn_open := (conn_open a2)(p := False)\<rparr>
          in Fine (free_connection p a3))"

text \<open>
  \<open>ClientAcceptor::on_connection\<close>; \<open>init_ok\<close> is the result of \<open>conn->init\<close>, \<open>ip\<close> the address of
  the peer.
\<close>

definition on_connection ::
  "nat \<Rightarrow> client \<Rightarrow> bool \<Rightarrow> byte list \<Rightarrow> int \<Rightarrow> int \<Rightarrow> bool \<Rightarrow> gate_app \<Rightarrow> int \<times> gate_app" where
  "on_connection p raw init_ok ip now run_ms timer_ok a =
     (if is_online_threshold a then (-1, a)
      else case alloc_connection p raw a of (conn, a1) \<Rightarrow>
        if \<not> init_ok then (-1, free_connection conn a1)
        else (0, update_client conn (\<lambda>u. on_connect now run_ms timer_ok (set_login_ip ip u))
                   (a1\<lparr>conn_open := (conn_open a1)(conn := True)\<rparr>)))"

text \<open>\<open>on_idle_timeout\<close>: the timer was taken off the wheel before the callback.\<close>

definition on_idle_timeout :: "int \<Rightarrow> int \<Rightarrow> bool \<Rightarrow> nat \<Rightarrow> gate_app \<Rightarrow> gate_app checked" where
  "on_idle_timeout now run_ms timer_ok p a =
     (case conns a p of
        None \<Rightarrow> OutOfBounds
      | Some c \<Rightarrow>
          let a1 = update_client p (\<lambda>u. u\<lparr>idle_expires := None\<rparr>) a in
          if m_status c < STATUS_PREPARE then on_event p a1
          else if now - m_heart_time c > 180 then on_event p a1
          else Fine (if timer_ok then update_client p (\<lambda>u. u\<lparr>idle_expires := Some (run_ms + 50000)\<rparr>) a1 else a1))"

text \<open>A packet of an open connection; the handler calls \<open>on_event\<close> when the connection refuses it.\<close>

definition on_packet ::
  "gate_config \<Rightarrow> int \<Rightarrow> byte list \<Rightarrow> (byte list \<Rightarrow> 'b option) \<Rightarrow> 'b cs_packet \<Rightarrow> byte list \<Rightarrow>
   nat \<Rightarrow> packet_info \<Rightarrow> gate_app \<Rightarrow> gate_app checked" where
  "on_packet cfg now behind parse request rep p pinfo a =
     (case conns a p of
        None \<Rightarrow> OutOfBounds
      | Some c \<Rightarrow>
          case gate_process_packet cfg now behind parse request rep c pinfo of (ret, c') \<Rightarrow>
            let a1 = update_client p (\<lambda>u. c') a in
            if ret \<noteq> 0 then on_event p a1 else Fine a1)"

definition on_delay_stop :: "gate_app \<Rightarrow> gate_app" where
  "on_delay_stop a = (if is_shuting_down a then a else a\<lparr>is_shuting_down := True, acceptor_open := False\<rparr>)"

text \<open>The loop of \<open>on_fini\<close>; \<open>None\<close> is a loop that does not end.\<close>

partial_function (option) close_users :: "gate_app \<Rightarrow> gate_app checked option" where
  "close_users a =
     (case uid2conn a of
        [] \<Rightarrow> Some (Fine a)
      | e # es \<Rightarrow> (case on_event (snd e) a of OutOfBounds \<Rightarrow> Some OutOfBounds | Fine a' \<Rightarrow> close_users a'))"

text \<open>
  \<open>on_fini\<close>: then the pooled objects are deleted one by one from the back; \<open>delete\<close> of an address
  that is not allocated is \<open>OutOfBounds\<close>. The vector keeps its pointers.
\<close>

fun delete_pooled :: "nat list \<Rightarrow> gate_app \<Rightarrow> gate_app checked" where
  "delete_pooled [] a = Fine a"
| "delete_pooled (p # ps) a =
     (case conns a p of
        None \<Rightarrow> OutOfBounds
      | Some c \<Rightarrow> delete_pooled ps (a\<lparr>conns := (conns a)(p := None)\<rparr>))"

definition on_fini :: "gate_app \<Rightarrow> gate_app checked option" where
  "on_fini a =
     (case close_users a of
        Some (Fine a1) \<Rightarrow> Some (delete_pooled (rev (conn_pool a1)) a1)
      | r \<Rightarrow> r)"

section \<open>Messages\<close>

fun send_all :: "byte list \<Rightarrow> nat list \<Rightarrow> gate_app \<Rightarrow> gate_app" where
  "send_all data [] a = a"
| "send_all data (p # ps) a =
     send_all data ps
       (case conns a p of
          Some c \<Rightarrow> if m_status c = STATUS_IN_GAME
                    then update_client p (\<lambda>u. u\<lparr>outbox := outbox u @ [data]\<rparr>) a else a
        | None \<Rightarrow> a)"

definition broadcast_all :: "byte list \<Rightarrow> gate_app \<Rightarrow> gate_app" where
  "broadcast_all data a = send_all data (map snd (role_id2conn a)) a"

text \<open>\<open>now_ms\<close> is \<open>time_ms()\<close>.\<close>

definition stat_process_time :: "int \<Rightarrow> int \<Rightarrow> int \<Rightarrow> gate_app \<Rightarrow> gate_app" where
  "stat_process_time now_ms begin_tick msg_type a =
     (let process_time = to_int32 ((now_ms AND 0x0fffffff) - begin_tick) in
      if begin_tick \<noteq> 0 \<and> process_time > 0 \<and> process_time < 5000
      then a\<lparr>process_counter := avg_add msg_type process_time (process_counter a)\<rparr> else a)"

text \<open>The head that \<open>forward_ss_packet\<close> builds: \<open>cs_head_plus head = {0}\<close> and three fields.\<close>

definition forward_head :: "packet_info \<Rightarrow> byte list" where
  "forward_head pinfo =
     poke16 0 (hton_int16 (word_of_int (pi_size pinfo + cs_head_size (word_of_int (pi_type pinfo)) - ss_head_size)))
       (blit (poke16 2 (peek16 2 (pi_data pinfo)) (replicate 12 0)) 8 (region (pi_data pinfo) 8 4))"

definition forward_ss_packet :: "int \<Rightarrow> nat \<Rightarrow> packet_info \<Rightarrow> gate_app \<Rightarrow> int \<times> gate_app" where
  "forward_ss_packet now_ms p pinfo a =
     (let begin_tick = sint (ntoh_int32 (peek32 12 (pi_data pinfo)));
          a1 = (if bit (pi_type pinfo) 0 then stat_process_time now_ms begin_tick (drop_bit 2 (pi_type pinfo)) a else a);
          head = take (nat (cs_head_size (word_of_int (pi_type pinfo)))) (forward_head pinfo);
          body = region (pi_data pinfo) (nat ss_head_size) (nat (pi_size pinfo - ss_head_size))
      in (0, update_client p (\<lambda>u. u\<lparr>outbox := outbox u @ [head, body]\<rparr>) a1))"

text \<open>The server head that \<open>forward_cs_packet\<close> fills in; sending it is commented out in the code.\<close>

definition forward_cs_head :: "int \<Rightarrow> packet_info \<Rightarrow> int \<Rightarrow> byte list" where
  "forward_cs_head now_ms pinfo key =
     poke32 12 (hton_int32 (word_of_int (now_ms AND 0x0fffffff)))
       (poke16 0 (hton_int16 (word_of_int (pi_size pinfo - cs_head_size (word_of_int (pi_type pinfo)) + ss_head_size)))
         (poke16 2 (hton_int16 (word_of_int (pi_type pinfo)))
           (blit (poke32 4 (hton_int32 (word_of_int key)) (replicate 16 0)) 8 (region (pi_data pinfo) 8 4))))"

text \<open>
  The head that \<open>ClientConnection::forward_packet\<close> fills in and does not send: the same but for the tick, which
  is stored without \<open>hton_int32\<close>. \<open>process_game_packet\<close> calls \<open>forward_cs_packet\<close> with the role of the client.
\<close>

definition forward_packet_head :: "int \<Rightarrow> packet_info \<Rightarrow> int \<Rightarrow> byte list" where
  "forward_packet_head now_ms pinfo key =
     poke32 12 (word_of_int now_ms)
       (poke16 0 (hton_int16 (word_of_int (pi_size pinfo - cs_head_size (word_of_int (pi_type pinfo)) + ss_head_size)))
         (poke16 2 (hton_int16 (word_of_int (pi_type pinfo)))
           (blit (poke32 4 (hton_int32 (word_of_int key)) (replicate 16 0)) 8 (region (pi_data pinfo) 8 4))))"

definition process_game_packet :: "int \<Rightarrow> packet_info \<Rightarrow> client \<Rightarrow> int \<times> byte list" where
  "process_game_packet now_ms pinfo c = (0, forward_cs_head now_ms pinfo (m_role_id c))"

section \<open>Runs of the server\<close>

text \<open>
  What can happen: a client connects at a fresh or pooled object, an open connection gets a packet or is
  closed by its handler, a running idle timer expires, the server is told to stop.
\<close>

inductive gate_step :: "(byte list \<Rightarrow> 'b option) \<Rightarrow> 'b cs_packet \<Rightarrow> gate_app \<Rightarrow> gate_app \<Rightarrow> bool"
  for parse request where
  accept: "conns a p = None \<Longrightarrow> acceptor_open a \<Longrightarrow> on_connection p raw init_ok ip now run_ms ok a = (r, a') \<Longrightarrow>
    gate_step parse request a a'"
| packet: "conn_open a p \<Longrightarrow> on_packet cfg now behind parse request rep p pinfo a = Fine a' \<Longrightarrow>
    gate_step parse request a a'"
| closed: "conn_open a p \<Longrightarrow> on_event p a = Fine a' \<Longrightarrow> gate_step parse request a a'"
| idle: "conns a p = Some c \<Longrightarrow> idle_expires c \<noteq> None \<Longrightarrow> on_idle_timeout now run_ms ok p a = Fine a' \<Longrightarrow>
    gate_step parse request a a'"
| stop: "gate_step parse request a (on_delay_stop a)"

inductive gate_reachable :: "(byte list \<Rightarrow> 'b option) \<Rightarrow> 'b cs_packet \<Rightarrow> int \<Rightarrow> gate_app \<Rightarrow> bool"
  for parse request threshold where
  start: "gate_reachable parse request threshold (app_new threshold)"
| step: "gate_reachable parse request threshold a \<Longrightarrow> gate_step parse request a a' \<Longrightarrow>
    gate_reachable parse request threshold a'"

definition quiet :: "client \<Rightarrow> bool" where
  "quiet c \<longleftrightarrow> idle_expires c = None"

text \<open>
  One object: not allocated, open, or pooled with its idle timer stopped. A user id is never assigned
  by the program as it stands.
\<close>

definition obj_ok :: "gate_app \<Rightarrow> nat \<Rightarrow> bool" where
  "obj_ok a p \<longleftrightarrow> (case conns a p of
       None \<Rightarrow> \<not> conn_open a p \<and> p \<notin> set (conn_pool a)
     | Some c \<Rightarrow> m_uid c = 0 \<and> (conn_open a p \<longleftrightarrow> p \<notin> set (conn_pool a)) \<and> (p \<in> set (conn_pool a) \<longrightarrow> quiet c))"

definition pool_ok :: "gate_app \<Rightarrow> bool" where
  "pool_ok a \<longleftrightarrow> distinct (conn_pool a) \<and> length (conn_pool a) \<le> 101 \<and> (\<forall>p. obj_ok a p)"

text \<open>Between being taken and being opened or given back an object is in neither place.\<close>

definition limbo :: "nat \<Rightarrow> gate_app \<Rightarrow> bool" where
  "limbo p a \<longleftrightarrow> distinct (conn_pool a) \<and> length (conn_pool a) \<le> 101 \<and> (\<forall>q. q \<noteq> p \<longrightarrow> obj_ok a q)
     \<and> p \<notin> set (conn_pool a) \<and> \<not> conn_open a p
     \<and> (case conns a p of None \<Rightarrow> False | Some c \<Rightarrow> m_uid c = 0 \<and> quiet c)"

lemma pool_ok_new: "pool_ok (app_new threshold)"
  by (simp add: pool_ok_def obj_ok_def app_new_def)

lemma obj_ok_cong:
  assumes "conns b q = conns a q" "conn_open b q = conn_open a q" "(q \<in> set (conn_pool b)) = (q \<in> set (conn_pool a))"
  shows "obj_ok b q = obj_ok a q"
  unfolding obj_ok_def assms ..

lemma pool_okI:
  assumes "distinct (conn_pool b)" "length (conn_pool b) \<le> 101" "obj_ok b p" "\<And>q. q \<noteq> p \<Longrightarrow> obj_ok b q"
  shows "pool_ok b"
  using assms unfolding pool_ok_def by metis

lemma limboD:
  assumes "limbo p a"
  shows "distinct (conn_pool a)" "length (conn_pool a) \<le> 101" "p \<notin> set (conn_pool a)" "\<not> conn_open a p"
    "q \<noteq> p \<Longrightarrow> obj_ok a q" "\<exists>c. conns a p = Some c \<and> m_uid c = 0 \<and> quiet c"
  using assms by (auto simp: limbo_def split: option.splits)

lemma limbo_free:
  assumes "limbo p a"
  shows "pool_ok (free_connection p a)"
proof -
  note l = limboD [OF assms]
  obtain c where c: "conns a p = Some c" "m_uid c = 0" "quiet c" using l(6) by blast
  have e: "free_connection p a = (if length (conn_pool a) > 100 then a\<lparr>conns := (conns a)(p := None)\<rparr>
      else a\<lparr>conn_pool := conn_pool a @ [p]\<rparr>)" by (simp add: free_connection_def)
  show ?thesis
  proof (rule pool_okI [where p = p])
    show "obj_ok (free_connection p a) p" using l(3,4) c by (simp add: e obj_ok_def)
    show "obj_ok (free_connection p a) q" if "q \<noteq> p" for q
      using l(5) [OF that] that by (subst obj_ok_cong [of _ q a]) (auto simp: e)
  qed (use l(1-3) in \<open>auto simp: e\<close>)
qed

lemma limbo_open:
  assumes "limbo p a" "\<And>c. m_uid (f c) = m_uid c"
  shows "pool_ok (update_client p f (a\<lparr>conn_open := (conn_open a)(p := True)\<rparr>))" (is "pool_ok ?b")
proof (rule pool_okI [where p = p])
  note l = limboD [OF assms(1)]
  obtain c where c: "conns a p = Some c" "m_uid c = 0" using l(6) by blast
  show "obj_ok ?b p" using l(3) c by (simp add: obj_ok_def update_client_def assms(2))
  show "obj_ok ?b q" if "q \<noteq> p" for q
    using l(5) [OF that] that by (subst obj_ok_cong [of _ q a]) (auto simp: update_client_def)
qed (use limboD [OF assms(1)] in \<open>auto simp: update_client_def\<close>)

lemma pool_okD: "pool_ok a \<Longrightarrow> obj_ok a q" "pool_ok a \<Longrightarrow> distinct (conn_pool a)" "pool_ok a \<Longrightarrow> length (conn_pool a) \<le> 101"
  by (auto simp: pool_ok_def)

lemma pool_ok_open:
  assumes "pool_ok a" "conn_open a p"
  shows "\<exists>c. conns a p = Some c \<and> m_uid c = 0 \<and> p \<notin> set (conn_pool a)"
  using pool_okD(1) [OF assms(1), of p] assms(2) by (auto simp: obj_ok_def split: option.splits)

lemma pool_ok_timer:
  assumes "pool_ok a" "conns a p = Some c" "idle_expires c \<noteq> None"
  shows "conn_open a p"
  using pool_okD(1) [OF assms(1), of p] assms(2,3) by (auto simp: obj_ok_def quiet_def)

lemma update_open_ok:
  assumes "pool_ok a" "conn_open a p" "\<And>c. conns a p = Some c \<Longrightarrow> m_uid (f c) = m_uid c"
  shows "pool_ok (update_client p f a)"
proof (rule pool_okI [where p = p])
  obtain c where c: "conns a p = Some c" "m_uid c = 0" "p \<notin> set (conn_pool a)"
    using pool_ok_open [OF assms(1,2)] by blast
  then show "obj_ok (update_client p f a) p" using assms(2,3) by (simp add: obj_ok_def update_client_def)
  show "obj_ok (update_client p f a) q" if "q \<noteq> p" for q
    using pool_okD(1) [OF assms(1), of q] that by (subst obj_ok_cong [of _ q a]) (auto simp: update_client_def)
qed (use pool_okD [OF assms(1)] in \<open>auto simp: update_client_def\<close>)

lemma on_event_open:
  assumes "pool_ok a" "conn_open a p"
  shows "\<exists>a'. on_event p a = Fine a' \<and> pool_ok a'"
proof -
  obtain c where c: "conns a p = Some c" "m_uid c = 0" "p \<notin> set (conn_pool a)"
    using pool_ok_open [OF assms] by blast
  define a3 where "a3 = (update_client p (\<lambda>u. client_reset (u\<lparr>m_status := STATUS_DEFAULT\<rparr>)) a)
    \<lparr>conn_open := (conn_open a)(p := False)\<rparr>"
  have "obj_ok a3 q" if "q \<noteq> p" for q
    using pool_okD(1) [OF assms(1), of q] that
    by (subst obj_ok_cong [of _ q a]) (auto simp: a3_def update_client_def)
  then have "limbo p a3"
    using pool_okD(2,3) [OF assms(1)] c
    by (simp add: limbo_def a3_def update_client_def client_reset_def quiet_def)
  then show ?thesis using c limbo_free by (simp add: on_event_def a3_def Let_def update_client_def)
qed

lemma alloc_limbo:
  assumes "pool_ok a" "conns a p = None" "alloc_connection p raw a = (q, a1)"
  shows "limbo q a1"
proof (cases "conn_pool a = []")
  case True
  then have a1: "q = p" "a1 = a\<lparr>conns := (conns a)(p \<mapsto> client_new raw)\<rparr>"
    using assms(3) by (auto simp: alloc_connection_def)
  have "\<not> conn_open a p" using pool_okD(1) [OF assms(1), of p] assms(2) by (simp add: obj_ok_def)
  moreover have "obj_ok a1 r" if "r \<noteq> p" for r
    using pool_okD(1) [OF assms(1), of r] that by (subst obj_ok_cong [of _ r a]) (auto simp: a1)
  ultimately show ?thesis
    using True by (simp add: limbo_def a1 client_new_def quiet_def)
next
  case False
  then obtain qs where qs: "conn_pool a = qs @ [q]" "a1 = a\<lparr>conn_pool := qs\<rparr>"
    using assms(3) by (auto simp: alloc_connection_def) (metis append_butlast_last_id)
  have "obj_ok a1 r" if "r \<noteq> q" for r
    using pool_okD(1) [OF assms(1), of r] that by (subst obj_ok_cong [of _ r a]) (auto simp: qs)
  moreover have "\<not> conn_open a q" "case conns a q of None \<Rightarrow> False | Some c \<Rightarrow> m_uid c = 0 \<and> quiet c"
    using pool_okD(1) [OF assms(1), of q] by (auto simp: qs obj_ok_def split: option.splits)
  ultimately show ?thesis
    using pool_okD(2,3) [OF assms(1)] by (simp add: limbo_def qs)
qed

lemma on_connection_ok:
  assumes "pool_ok a" "conns a p = None" "on_connection p raw init_ok ip now run_ms ok a = (r, a')"
  shows "pool_ok a'"
proof (cases "is_online_threshold a")
  case True
  then show ?thesis using assms by (simp add: on_connection_def)
next
  case False
  obtain q a1 where al: "alloc_connection p raw a = (q, a1)" by fastforce
  note lim = alloc_limbo [OF assms(1,2) al]
  have uid: "m_uid (on_connect now run_ms ok (set_login_ip ip u)) = m_uid u" for u
    by (simp add: on_connect_def set_login_ip_def Let_def)
  show ?thesis
  proof (cases init_ok)
    case True
    then have "a' = update_client q (\<lambda>u. on_connect now run_ms ok (set_login_ip ip u))
        (a1\<lparr>conn_open := (conn_open a1)(q := True)\<rparr>)"
      using assms(3) False al by (simp add: on_connection_def)
    then show ?thesis using limbo_open [OF lim uid] by simp
  next
    case False
    then have "a' = free_connection q a1"
      using assms(3) \<open>\<not> is_online_threshold a\<close> al by (simp add: on_connection_def)
    then show ?thesis using limbo_free [OF lim] by simp
  qed
qed

lemma gate_process_uid:
  assumes "gate_process_packet cfg now behind parse request rep c pinfo = (ret, c')"
  shows "m_uid c' = m_uid c"
proof -
  have login: "m_uid c2 = m_uid c1" if "process_player_login parse request rep c1 pinfo = Fine (r, c2)" for r c1 c2
    using that by (auto simp: process_player_login_def split: checked.splits if_splits)
  show ?thesis
    using assms
    by (auto simp: gate_process_packet_def gate_process_def check_seq_def check_threshold_def Let_def
        split: checked.splits if_splits dest: login)
qed

lemma on_packet_ok:
  assumes "pool_ok a" "conn_open a p"
  shows "\<exists>a'. on_packet cfg now behind parse request rep p pinfo a = Fine a' \<and> pool_ok a'"
proof -
  obtain c where c: "conns a p = Some c" using pool_ok_open [OF assms] by blast
  obtain ret c' where g: "gate_process_packet cfg now behind parse request rep c pinfo = (ret, c')" by fastforce
  define a1 where "a1 = update_client p (\<lambda>u. c') a"
  have a1: "pool_ok a1" "conn_open a1 p"
    using update_open_ok [OF assms, of "\<lambda>u. c'"] gate_process_uid [OF g] c assms(2)
    by (simp_all add: a1_def update_client_def)
  then show ?thesis
    using on_event_open [OF a1] c g by (simp add: on_packet_def a1_def [symmetric] Let_def)
qed

lemma on_idle_timeout_ok:
  assumes "pool_ok a" "conn_open a p"
  shows "\<exists>a'. on_idle_timeout now run_ms ok p a = Fine a' \<and> pool_ok a'"
proof -
  obtain c where c: "conns a p = Some c" using pool_ok_open [OF assms] by blast
  define a1 where "a1 = update_client p (\<lambda>u. u\<lparr>idle_expires := None\<rparr>) a"
  have a1: "pool_ok a1" "conn_open a1 p"
    using update_open_ok [OF assms, of "\<lambda>u. u\<lparr>idle_expires := None\<rparr>"] assms(2)
    by (simp_all add: a1_def update_client_def)
  have "pool_ok (update_client p (\<lambda>u. u\<lparr>idle_expires := Some (run_ms + 50000)\<rparr>) a1)"
    by (rule update_open_ok [OF a1]) simp
  then show ?thesis
    using on_event_open [OF a1] a1 c by (simp add: on_idle_timeout_def a1_def [symmetric] Let_def)
qed

lemma gate_step_ok: "gate_step parse request a a' \<Longrightarrow> pool_ok a \<Longrightarrow> pool_ok a'"
proof (induction rule: gate_step.induct)
  case (accept a p raw init_ok ip now run_ms ok r a')
  then show ?case using on_connection_ok by blast
next
  case (packet a p cfg now behind rep pinfo a')
  then show ?case using on_packet_ok [of a p cfg now behind parse request rep pinfo] by auto
next
  case (closed a p a')
  then show ?case using on_event_open by fastforce
next
  case (idle a p c now run_ms ok a')
  then show ?case using pool_ok_timer on_idle_timeout_ok [of a p now run_ms ok] by fastforce
next
  case (stop a)
  have "obj_ok (on_delay_stop a) q = obj_ok a q" for q
    by (rule obj_ok_cong) (simp_all add: on_delay_stop_def)
  with stop show ?case by (simp add: pool_ok_def) (simp add: on_delay_stop_def)
qed

lemma reachable_pool_ok: "gate_reachable parse request threshold a \<Longrightarrow> pool_ok a"
  by (induction rule: gate_reachable.induct) (auto intro: pool_ok_new gate_step_ok)

section \<open>Shutting down\<close>

text \<open>
  Every entry of the user table is the entry of the client it points to. A \<open>std::map\<close> holds every key
  once.
\<close>

definition users_ok :: "gate_app \<Rightarrow> bool" where
  "users_ok a \<longleftrightarrow> distinct (map fst (uid2conn a)) \<and> distinct (map snd (uid2conn a))
     \<and> (\<forall>e \<in> set (uid2conn a). \<exists>c. conns a (snd e) = Some c \<and> m_uid c > 0 \<and> fst e = (m_uid c, m_server_id c))"

text \<open>The pool of a well-formed state: distinct, allocated, and none of them in the user table.\<close>

definition fini_ok :: "gate_app \<Rightarrow> bool" where
  "fini_ok a \<longleftrightarrow> users_ok a \<and> distinct (conn_pool a)
     \<and> (\<forall>p \<in> set (conn_pool a). conns a p \<noteq> None \<and> p \<notin> snd ` set (uid2conn a))"

text \<open>Closing a user's connection: its object is deleted or goes to the pool, no other object changes.\<close>

lemma on_event_user:
  assumes "users_ok a" "uid2conn a = e # es"
  shows "\<exists>a'. on_event (snd e) a = Fine a' \<and> uid2conn a' = es
    \<and> (\<forall>q. q \<noteq> snd e \<longrightarrow> conns a' q = conns a q)
    \<and> (conn_pool a' = conn_pool a @ [snd e] \<and> conns a' (snd e) \<noteq> None
       \<or> conn_pool a' = conn_pool a \<and> conns a' (snd e) = None)"
proof -
  obtain c where c: "conns a (snd e) = Some c" "m_uid c > 0" "fst e = (m_uid c, m_server_id c)"
    using assms by (auto simp: users_ok_def)
  have others: "fst f \<noteq> fst e" if "f \<in> set es" for f
  proof -
    have "fst e \<notin> fst ` set es" using assms by (simp add: users_ok_def)
    then show ?thesis using that by (metis image_eqI)
  qed
  show ?thesis
    using c assms(2) others
    by (auto simp: on_event_def Let_def free_connection_def update_client_def set_user_connection_def
        set_role_connection_def filter_id_conv)
qed

lemma close_users_ends:
  "fini_ok a \<Longrightarrow> \<exists>a'. close_users a = Some (Fine a') \<and> uid2conn a' = [] \<and> distinct (conn_pool a')
     \<and> (\<forall>p \<in> set (conn_pool a'). conns a' p \<noteq> None)
     \<and> set (conn_pool a) \<subseteq> set (conn_pool a') \<and> set (conn_pool a') \<subseteq> set (conn_pool a) \<union> snd ` set (uid2conn a)
     \<and> (\<forall>q. q \<notin> snd ` set (uid2conn a) \<longrightarrow> conns a' q = conns a q)
     \<and> (\<forall>q \<in> snd ` set (uid2conn a). q \<notin> set (conn_pool a') \<longrightarrow> conns a' q = None)"
proof (induction "length (uid2conn a)" arbitrary: a rule: less_induct)
  case less
  show ?case
  proof (cases "uid2conn a")
    case Nil
    with less.prems show ?thesis by (subst close_users.simps) (simp add: fini_ok_def)
  next
    case (Cons e es)
    obtain b where b: "on_event (snd e) a = Fine b" "uid2conn b = es" "\<And>q. q \<noteq> snd e \<Longrightarrow> conns b q = conns a q"
      "conn_pool b = conn_pool a @ [snd e] \<and> conns b (snd e) \<noteq> None \<or> conn_pool b = conn_pool a \<and> conns b (snd e) = None"
      using on_event_user [OF _ Cons] less.prems by (auto simp: fini_ok_def)
    have new: "snd e \<notin> snd ` set es" "snd e \<notin> set (conn_pool a)"
      using less.prems Cons by (auto simp: fini_ok_def users_ok_def)
    have "users_ok b"
      using less.prems new(1) Cons b(2,3) unfolding fini_ok_def users_ok_def by (metis distinct.simps(2) image_eqI list.set_intros(2) list.simps(9))
    moreover have "distinct (conn_pool b) \<and> (\<forall>p \<in> set (conn_pool b). conns b p \<noteq> None \<and> p \<notin> snd ` set es)"
      using less.prems new Cons b(3,4) unfolding fini_ok_def by (auto simp del: split_paired_All) (metis image_eqI snd_conv)+
    ultimately have ok: "fini_ok b" using b(2) by (simp add: fini_ok_def)
    have c: "close_users a = close_users b" using Cons b(1) by (subst close_users.simps) simp
    from less.hyps [OF _ ok] b(2) Cons obtain a' where a': "close_users b = Some (Fine a')" "uid2conn a' = []" "distinct (conn_pool a')"
      "\<forall>p \<in> set (conn_pool a'). conns a' p \<noteq> None" "set (conn_pool b) \<subseteq> set (conn_pool a')"
      "set (conn_pool a') \<subseteq> set (conn_pool b) \<union> snd ` set es" "\<forall>q. q \<notin> snd ` set es \<longrightarrow> conns a' q = conns b q"
      "\<forall>q \<in> snd ` set es. q \<notin> set (conn_pool a') \<longrightarrow> conns a' q = None" by auto
    have own: "conns a' (snd e) = None" if "snd e \<notin> set (conn_pool a')"
      using a'(5,7) b(4) new(1) that by auto
    show ?thesis
      unfolding c Cons by (intro exI [of _ a'] conjI) (use a' b(3,4) own in auto)
  qed
qed

lemma delete_pooled_ends:
  "distinct ps \<Longrightarrow> \<forall>p \<in> set ps. conns a p \<noteq> None \<Longrightarrow>
   delete_pooled ps a = Fine (a\<lparr>conns := (\<lambda>p. if p \<in> set ps then None else conns a p)\<rparr>)"
proof (induction ps arbitrary: a)
  case Nil
  then show ?case by simp
next
  case (Cons p ps)
  then obtain c where "conns a p = Some c" by auto
  moreover have "\<forall>q \<in> set ps. conns (a\<lparr>conns := (conns a)(p := None)\<rparr>) q \<noteq> None" using Cons.prems by auto
  ultimately show ?case using Cons.IH Cons.prems by (auto intro!: gate_app.equality)
qed

text \<open>A pointer that is twice in the pool is deleted twice.\<close>

lemma double_pointer_deleted_twice:
  "conns a p \<noteq> None \<Longrightarrow> uid2conn a = [] \<Longrightarrow> conn_pool a = [p, p] \<Longrightarrow> on_fini a = Some OutOfBounds"
  by (auto simp: on_fini_def close_users.simps)

text \<open>In a state the server reaches the user table is empty and the pool is as required.\<close>

lemma no_users:
  "gate_step parse request a a' \<Longrightarrow> uid2conn a = [] \<Longrightarrow> uid2conn a' = []"
proof -
  have ev: "uid2conn b' = []" if "on_event p b = Fine b'" "uid2conn b = []" for p b b'
    using that by (auto simp: on_event_def Let_def free_connection_def update_client_def set_user_connection_def
        set_role_connection_def split: option.splits if_splits)
  have up: "uid2conn (update_client p f b) = uid2conn b" for p f b by (simp add: update_client_def)
  show "gate_step parse request a a' \<Longrightarrow> uid2conn a = [] \<Longrightarrow> uid2conn a' = []"
  proof (induction rule: gate_step.induct)
    case (accept a p raw init_ok ip now run_ms ok r a')
    then show ?case by (auto simp: on_connection_def alloc_connection_def free_connection_def up split: if_splits prod.splits)
  next
    case (packet a p cfg now behind rep pinfo a')
    then show ?case by (auto simp: on_packet_def Let_def up split: option.splits prod.splits if_splits dest: ev)
  next
    case (idle a p c now run_ms ok a')
    then show ?case by (auto simp: on_idle_timeout_def Let_def up split: if_splits dest: ev)
  qed (auto simp: on_delay_stop_def dest: ev)
qed

lemma reachable_fini_ok:
  assumes "gate_reachable parse request threshold a"
  shows "fini_ok a"
proof -
  have "uid2conn a = []"
    using assms by (induction rule: gate_reachable.induct) (auto simp: app_new_def intro: no_users)
  moreover have "conns a p \<noteq> None" if "p \<in> set (conn_pool a)" for p
    using pool_okD(1) [OF reachable_pool_ok [OF assms], of p] that by (auto simp: obj_ok_def split: option.splits)
  ultimately show ?thesis
    using pool_okD(2) [OF reachable_pool_ok [OF assms]] by (simp add: fini_ok_def users_ok_def)
qed

text \<open>
  A second login under the same ids is not entered in the table; closing the second connection then
  removes the entry of the first.
\<close>

lemma second_login_erases_first:
  assumes "conns a q = Some c" "m_uid c = 7" "m_server_id c = 1" "uid2conn a = [((7, 1), p)]" "p \<noteq> q"
  shows "set_user_connection 7 1 (Some q) a = a"
    and "\<exists>a'. on_event q a = Fine a' \<and> get_user_connection 7 1 a' = None"
proof -
  show "set_user_connection 7 1 (Some q) a = a"
    using assms by (simp add: set_user_connection_def get_user_connection_def)
  show "\<exists>a'. on_event q a = Fine a' \<and> get_user_connection 7 1 a' = None"
    using assms by (simp add: on_event_def Let_def free_connection_def update_client_def set_user_connection_def
        set_role_connection_def get_user_connection_def)
qed

section \<open>Forwarding\<close>

lemma forward_head_fields:
  assumes "16 \<le> length (pi_data pinfo)"
  shows "length (forward_head pinfo) = 12"
    and "peek16 0 (forward_head pinfo) = hton_int16 (word_of_int (pi_size pinfo + cs_head_size (word_of_int (pi_type pinfo)) - ss_head_size))"
    and "peek16 2 (forward_head pinfo) = peek16 2 (pi_data pinfo)"
    and "region (forward_head pinfo) 8 4 = region (pi_data pinfo) 8 4"
proof -
  define m where "m = poke16 2 (peek16 2 (pi_data pinfo)) (replicate 12 0)"
  define k where "k = region (pi_data pinfo) 8 4"
  have lm: "length m = 12" by (simp add: m_def length_poke)
  have lk: "length k = 4" using assms by (simp add: k_def block_simps)
  define b where "b = blit m 8 k"
  have lb: "length b = 12" using lm lk by (simp add: b_def length_blit)
  have f: "forward_head pinfo = poke16 0 (hton_int16 (word_of_int (pi_size pinfo
      + cs_head_size (word_of_int (pi_type pinfo)) - ss_head_size))) b"
    by (simp add: forward_head_def b_def m_def k_def)
  show "length (forward_head pinfo) = 12" unfolding f using lb by (simp add: length_poke)
  show "peek16 0 (forward_head pinfo) = hton_int16 (word_of_int (pi_size pinfo + cs_head_size (word_of_int (pi_type pinfo)) - ss_head_size))"
    unfolding f using lb by (simp add: peek_poke_same)
  have "peek16 2 b = peek16 2 m"
    unfolding b_def peek16_def using lm by (simp add: region_blit_before)
  also have "\<dots> = peek16 2 (pi_data pinfo)" unfolding m_def by (simp add: peek_poke_same)
  finally show "peek16 2 (forward_head pinfo) = peek16 2 (pi_data pinfo)"
    unfolding f using lb by (simp add: peek_poke_other)
  have "region b 8 4 = k" unfolding b_def using lm lk region_blit_same [of 8 m k] by simp
  then show "region (forward_head pinfo) 8 4 = region (pi_data pinfo) 8 4"
    unfolding f k_def using lb by (simp add: region_poke_other)
qed

text \<open>The two heads agree up to the tick; a receiver that converts the tick reads only one of them right.\<close>

lemma forward_heads:
  assumes "12 \<le> length (pi_data pinfo)"
  shows "take 12 (forward_packet_head now_ms pinfo key) = take 12 (forward_cs_head now_ms pinfo key)"
    and "ntoh_int32 (peek32 12 (forward_cs_head now_ms pinfo key)) = word_of_int (now_ms AND 0x0fffffff)"
    and "peek32 12 (forward_packet_head now_ms pinfo key) = word_of_int now_ms"
proof -
  define m where "m = poke16 0 (hton_int16 (word_of_int (pi_size pinfo - cs_head_size (word_of_int (pi_type pinfo)) + ss_head_size)))
         (poke16 2 (hton_int16 (word_of_int (pi_type pinfo)))
           (blit (poke32 4 (hton_int32 (word_of_int key)) (replicate 16 0)) 8 (region (pi_data pinfo) 8 4)))"
  have lm: "length m = 16" using assms by (simp add: m_def length_poke length_blit block_simps)
  have p: "take 12 (poke32 12 v m) = take 12 m" for v using lm by (simp add: poke32_def blit_def)
  show "take 12 (forward_packet_head now_ms pinfo key) = take 12 (forward_cs_head now_ms pinfo key)"
    unfolding forward_packet_head_def forward_cs_head_def m_def [symmetric] p ..
  show "ntoh_int32 (peek32 12 (forward_cs_head now_ms pinfo key)) = word_of_int (now_ms AND 0x0fffffff)"
    "peek32 12 (forward_packet_head now_ms pinfo key) = word_of_int now_ms"
    unfolding forward_packet_head_def forward_cs_head_def m_def [symmetric] using lm by (simp_all add: peek_poke_same)
qed

section \<open>Properties\<close>

text \<open>Between events the gate never touches a deleted connection object. Answers are collected here, as if no send
  failed (\<open>GateSession\<close> follows a failing one). In every state the server can reach, closing an open
  connection, handling any packet of it, and the expiry of any running idle timer work on allocated
  objects; every allocated object is either open or pooled exactly once, and the pool holds at most 101
  objects, with their timers stopped.\<close>

lemma gate_objects_safe:
  assumes "gate_reachable parse request threshold a"
  shows "distinct (conn_pool a) \<and> length (conn_pool a) \<le> 101
    \<and> (conns a p \<noteq> None \<longleftrightarrow> conn_open a p \<or> p \<in> set (conn_pool a))
    \<and> \<not> (conn_open a p \<and> p \<in> set (conn_pool a))
    \<and> (conn_open a p \<longrightarrow> on_event p a \<noteq> OutOfBounds \<and> on_packet cfg now behind parse request rep p pinfo a \<noteq> OutOfBounds)
    \<and> (\<forall>c. conns a p = Some c \<longrightarrow> idle_expires c \<noteq> None \<longrightarrow> on_idle_timeout now run_ms ok p a \<noteq> OutOfBounds)"
proof -
  note ok = reachable_pool_ok [OF assms]
  have o: "obj_ok a p" using pool_okD(1) [OF ok] .
  have e: "on_event p a \<noteq> OutOfBounds" "on_packet cfg now behind parse request rep p pinfo a \<noteq> OutOfBounds" if "conn_open a p"
    using on_event_open [OF ok that] on_packet_ok [OF ok that, of cfg now behind parse request rep pinfo] by auto
  have t: "on_idle_timeout now run_ms ok p a \<noteq> OutOfBounds" if "conns a p = Some c" "idle_expires c \<noteq> None" for c
    using on_idle_timeout_ok [OF ok pool_ok_timer [OF ok that], of now run_ms ok] by auto
  show ?thesis
    using o pool_okD(2,3) [OF ok] e t by (auto simp: obj_ok_def split: option.splits)
qed

lemma sample_gate_run:
  "gate_reachable (\<lambda>x. Some ()) \<lparr>cs_code = 0, cs_reserved = 0, cs_seq = 0, cs_body = ()\<rparr> 5
     (snd (on_connection 3 sample_client True [] 0 0 True (app_new 5)))"
  by (rule gate_reachable.step [OF gate_reachable.start]) (rule gate_step.accept [where p = 3], simp_all add: app_new_def prod_eq_iff)

lemma gate_objects_safe_witness:
  "on_event 3 (snd (on_connection 3 sample_client True [] 0 0 True (app_new 5))) \<noteq> OutOfBounds"
proof -
  have "conn_open (snd (on_connection 3 sample_client True [] 0 0 True (app_new 5))) 3"
    by (simp add: on_connection_def is_online_threshold_def app_new_def alloc_connection_def update_client_def)
  then show ?thesis using gate_objects_safe [OF sample_gate_run, of 3] by blast
qed

text \<open>C34: Shutting down ends and deletes every object once. Assumed is a well-formed state: every entry of
  the user table is the entry of the live client it points to, no client is entered twice (nothing in
  the sources fills the table: \<open>set_user_connection\<close> has no caller that enters a client), and the pool
  holds distinct live objects that are not in the table. Every state the server reaches is of this
  kind (\<open>reachable_fini_ok\<close>). Then the loop of \<open>on_fini\<close>, which closes the first user until there is
  none, terminates with an empty table; the loop over the pool deletes live objects only, none
  twice; afterwards the objects of all users and of the pool are gone and no other object has changed.\<close>

theorem gate_fini_terminates:
  assumes "fini_ok a"
  shows "\<exists>a'. on_fini a = Some (Fine a') \<and> uid2conn a' = []
    \<and> conns a' = (\<lambda>p. if p \<in> set (conn_pool a) \<or> p \<in> snd ` set (uid2conn a) then None else conns a p)"
proof -
  obtain b where b: "close_users a = Some (Fine b)" "uid2conn b = []" "distinct (conn_pool b)"
    "\<forall>p \<in> set (conn_pool b). conns b p \<noteq> None" "set (conn_pool a) \<subseteq> set (conn_pool b)"
    "set (conn_pool b) \<subseteq> set (conn_pool a) \<union> snd ` set (uid2conn a)"
    "\<forall>q. q \<notin> snd ` set (uid2conn a) \<longrightarrow> conns b q = conns a q"
    "\<forall>q \<in> snd ` set (uid2conn a). q \<notin> set (conn_pool b) \<longrightarrow> conns b q = None"
    using close_users_ends [OF assms] by blast
  have "on_fini a = Some (Fine (b\<lparr>conns := (\<lambda>p. if p \<in> set (conn_pool b) then None else conns b p)\<rparr>))"
    using b(1) delete_pooled_ends [of "rev (conn_pool b)" b] b(3,4) by (simp add: on_fini_def)
  moreover have "(if p \<in> set (conn_pool b) then None else conns b p)
      = (if p \<in> set (conn_pool a) \<or> p \<in> snd ` set (uid2conn a) then None else conns a p)" for p
    using b(5-8) by auto
  ultimately show ?thesis using b(2) by simp
qed

theorem gate_fini_terminates_witness:
  "\<exists>a'. on_fini ((app_new 5)\<lparr>conns := [3 \<mapsto> sample_client\<lparr>m_uid := 7, m_server_id := 2\<rparr>, 4 \<mapsto> sample_client],
         uid2conn := [((7, 2), 3)], conn_pool := [4]\<rparr>)
     = Some (Fine a') \<and> uid2conn a' = [] \<and> conns a' 3 = None \<and> conns a' 4 = None"
proof -
  have "fini_ok ((app_new 5)\<lparr>conns := [3 \<mapsto> sample_client\<lparr>m_uid := 7, m_server_id := 2\<rparr>, 4 \<mapsto> sample_client],
         uid2conn := [((7, 2), 3)], conn_pool := [4]\<rparr>)"
    by (simp add: fini_ok_def users_ok_def)
  from gate_fini_terminates [OF this] show ?thesis by auto
qed

text \<open>A forwarded server message is a well-formed client packet. The bytes that \<open>forward_ss_packet\<close> sends are a
  head whose length field is the number of bytes sent and whose message id is that of the server
  message, followed by exactly the body of the server message; a head with room for it carries the
  sequence number.\<close>

lemma forward_ss_well_formed:
  assumes "conns a p = Some c" "16 \<le> pi_size pinfo" "pi_size pinfo \<le> int (length (pi_data pinfo))"
    and "pi_size pinfo - 4 < 65536" "pi_type pinfo = uint (ntoh_int16 (peek16 2 (pi_data pinfo)))"
    and "forward_ss_packet now_ms p pinfo a = (ret, a')"
  shows "\<exists>head body. conns a' p = Some (c\<lparr>outbox := outbox c @ [head, body]\<rparr>)
    \<and> uint (ntoh_int16 (peek16 0 (head @ body))) = int (length (head @ body))
    \<and> uint (ntoh_int16 (peek16 2 (head @ body))) = pi_type pinfo
    \<and> body = region (pi_data pinfo) 16 (nat (pi_size pinfo) - 16)
    \<and> (cs_head_have_plus (word_of_int (pi_type pinfo)) \<longrightarrow> region (head @ body) 8 4 = region (pi_data pinfo) 8 4)"
proof -
  define hs where "hs = cs_head_size (word_of_int (pi_type pinfo))"
  have hs: "hs = 4 \<or> hs = 12" "cs_head_have_plus (word_of_int (pi_type pinfo)) \<longrightarrow> hs = 12"
    by (auto simp: hs_def head_size_defs)
  have d: "16 \<le> length (pi_data pinfo)" using assms(2,3) by linarith
  note f = forward_head_fields [OF d]
  define head where "head = take (nat hs) (forward_head pinfo)"
  define body where "body = region (pi_data pinfo) 16 (nat (pi_size pinfo) - 16)"
  have lh: "length head = nat hs" using f(1) hs(1) by (auto simp: head_def)
  have lb: "int (length body) = pi_size pinfo - 16"
    using assms(2,3) by (simp add: body_def block_simps)
  have total: "int (length (head @ body)) = pi_size pinfo + hs - 16" using lh lb hs(1) by auto
  have w: "uint (word_of_int (pi_size pinfo + hs - 16) :: u16) = pi_size pinfo + hs - 16"
    unfolding uint_word_of_int using hs(1) assms(2,4) by auto
  have r: "region (head @ body) off n = region (forward_head pinfo) off n" if "off + n \<le> nat hs" for off n
    using that lh by (simp add: head_def region_append_left region_take)
  have out: "conns a' p = Some (c\<lparr>outbox := outbox c @ [head, body]\<rparr>)"
    using assms(1,2,6) by (auto simp: forward_ss_packet_def Let_def update_client_def stat_process_time_def
        head_def body_def hs_def ss_head_size_def nat_diff_distrib)
  have "uint (ntoh_int16 (peek16 0 (head @ body))) = int (length (head @ body))"
    unfolding total peek16_def using r [of 0 2] f(2) w hs(1) by (auto simp: peek16_def hs_def [symmetric] ss_head_size_def)
  moreover have "uint (ntoh_int16 (peek16 2 (head @ body))) = pi_type pinfo"
    unfolding peek16_def using r [of 2 2] f(3) hs(1) assms(5) by (auto simp: peek16_def)
  moreover have "cs_head_have_plus (word_of_int (pi_type pinfo)) \<longrightarrow> region (head @ body) 8 4 = region (pi_data pinfo) 8 4"
    using r [of 8 4] f(4) hs(2) by auto
  ultimately show ?thesis using out body_def by blast
qed

lemma forward_ss_well_formed_witness:
  "\<exists>head body. conns (snd (forward_ss_packet 0 3 \<lparr>pi_size = 18, pi_type = 6, pi_data = [0, 18, 0, 6] @ replicate 12 0 @ [1, 2]\<rparr>
       ((app_new 5)\<lparr>conns := [3 \<mapsto> sample_client]\<rparr>))) 3 = Some (sample_client\<lparr>outbox := outbox sample_client @ [head, body]\<rparr>)
     \<and> uint (ntoh_int16 (peek16 0 (head @ body))) = int (length (head @ body))"
proof -
  let ?p = "\<lparr>pi_size = 18, pi_type = 6, pi_data = [0, 18, 0, 6] @ replicate 12 0 @ [1, 2]\<rparr>"
  let ?a = "(app_new 5)\<lparr>conns := [3 \<mapsto> sample_client]\<rparr>"
  obtain ret a' where e: "forward_ss_packet 0 3 ?p ?a = (ret, a')" by fastforce
  have h: "conns ?a 3 = Some sample_client" "16 \<le> pi_size ?p" "pi_size ?p \<le> int (length (pi_data ?p))"
    "pi_size ?p - 4 < 65536" "pi_type ?p = uint (ntoh_int16 (peek16 2 (pi_data ?p)))"
    by (simp_all add: peek16_def region_def ntoh16_bytes)
  from forward_ss_well_formed [OF h e] show ?thesis unfolding e snd_conv by blast
qed

end
