(* ===== verification/BenchClient.thy ===== *)
theory BenchClient
  imports TcpDataHandler Packet
begin

text \<open>
  \<open>bench_client/client_connection.cpp\<close> and the timer loop of \<open>client_application.cpp\<close>: the load
  generator. Shown: its connection class implements the contract \<open>framer\<close>, so \<open>on_read\<close> gives the same
  result for every way of cutting the stream, and the timer starts every player in turn.
\<close>

section \<open>A connection\<close>

definition STATUS_ACC_LOGIN :: int where "STATUS_ACC_LOGIN = 1"
definition BENCH_PLAYER_LOGIN :: int where "BENCH_PLAYER_LOGIN = 3"

text \<open>\<open>m_expires\<close> is the time of the running timer, \<open>sent_logins\<close> the ids of the login requests given to \<open>send\<close>.\<close>

record bench_client =
  b_uid :: int
  b_delt_x :: int
  b_delt_y :: int
  b_count :: int
  b_status :: int
  b_error_count :: int
  gm_executed :: bool
  has_response :: bool
  b_expires :: "int option"
  sent_logins :: "int list"

text \<open>The constructor; \<open>raw\<close> is the memory of the object. The quest and gm texts are left out.\<close>

definition bench_client_new :: "bench_client \<Rightarrow> bench_client" where
  "bench_client_new raw = raw\<lparr>b_uid := 0, b_status := STATUS_ACC_LOGIN, b_expires := None, sent_logins := []\<rparr>"

definition bench_run :: "int \<Rightarrow> int \<Rightarrow> int \<Rightarrow> bench_client \<Rightarrow> bench_client" where
  "bench_run uid delay_ms run_ms c =
     (let c1 = c\<lparr>b_uid := uid, b_delt_x := 0, b_delt_y := 0, b_count := 0, b_status := STATUS_ACC_LOGIN,
                b_error_count := 0, gm_executed := False, has_response := True\<rparr>
      in if b_expires c1 = None then c1\<lparr>b_expires := Some (run_ms + delay_ms)\<rparr> else c1)"

text \<open>\<open>on_event\<close> without \<open>fini\<close> of the handler; the timer is left running.\<close>

definition bench_on_event :: "bench_client \<Rightarrow> bench_client" where
  "bench_on_event c = c\<lparr>b_delt_x := 0, b_delt_y := 0, b_status := STATUS_ACC_LOGIN\<rparr>"

definition bench_packet_info :: "bench_client info_fn" where
  "bench_packet_info c bs =
     (if length bs < 4 then (0, packet_info_zero\<lparr>pi_size := cs_head_bytes\<rparr>, c)
      else (0, \<lparr>pi_size = uint (ntoh_int16 (peek16 0 bs)), pi_type = uint (ntoh_int16 (peek16 2 bs)), pi_data = bs\<rparr>, c))"

definition process_game_packet_response :: "bench_client \<Rightarrow> packet_info \<Rightarrow> int \<times> bench_client" where
  "process_game_packet_response c pinfo = (0, c)"

definition process_player_login_response :: "bench_client \<Rightarrow> packet_info \<Rightarrow> int \<times> bench_client" where
  "process_player_login_response c pinfo = (1, c)"

definition bench_process_packet :: "bench_client proc_fn" where
  "bench_process_packet c pinfo =
     (if pi_type pinfo = cs_player_login_response_type
      then if b_status c = BENCH_PLAYER_LOGIN then process_player_login_response c pinfo else (-1, c)
      else process_game_packet_response c pinfo)"

text \<open>\<open>now\<close> is \<open>time(NULL)\<close>; the result of \<open>send\<close> only goes into the log.\<close>

definition send_player_login :: "int \<Rightarrow> bench_client \<Rightarrow> bench_client" where
  "send_player_login now c =
     c\<lparr>sent_logins := sent_logins c @ [c_mod now 1000], b_status := BENCH_PLAYER_LOGIN\<rparr>"

text \<open>The timer was taken off the wheel before the callback.\<close>

definition bench_on_timeout :: "int \<Rightarrow> int \<Rightarrow> bench_client \<Rightarrow> bench_client" where
  "bench_on_timeout now run_ms c =
     (send_player_login now c)\<lparr>b_expires := Some (run_ms + 5000)\<rparr>"

text \<open>Every answer to a login is taken for an error: the handler closes the connection.\<close>

lemma login_response_closes:
  assumes "b_status c = BENCH_PLAYER_LOGIN" "pi_type pinfo = cs_player_login_response_type"
  shows "fst (bench_process_packet c pinfo) = 1"
  using assms by (simp add: bench_process_packet_def process_player_login_response_def)

lemma bench_peek_append: "4 \<le> length bs \<Longrightarrow> peek16 0 (bs @ ys) = peek16 0 bs \<and> peek16 2 (bs @ ys) = peek16 2 bs"
  by (simp add: peek16_def region_append_left)

interpretation bench: framer bench_packet_info bench_process_packet
proof
  fix u bs ret pinfo u1 ys
  show "bench_packet_info u bs = (ret, pinfo, u1) \<Longrightarrow> ret \<noteq> 0 \<Longrightarrow> \<exists>q. bench_packet_info u (bs @ ys) = (ret, q, u1)"
    by (auto simp: bench_packet_info_def split: if_splits)
  show "bench_packet_info u bs = (0, pinfo, u1) \<Longrightarrow> pi_size pinfo < 1 \<or> pi_size pinfo > MAX_PACKET \<Longrightarrow>
       \<exists>q. bench_packet_info u (bs @ ys) = (0, q, u1) \<and> (pi_size q < 1 \<or> pi_size q > MAX_PACKET)"
    by (auto simp: bench_packet_info_def bench_peek_append MAX_PACKET_def packet_info_zero_def cs_head_bytes_def
        split: if_splits)
  show "bench_packet_info u bs = (0, pinfo, u1) \<Longrightarrow> 1 \<le> pi_size pinfo \<Longrightarrow> int (length bs) < pi_size pinfo \<Longrightarrow> u1 = u"
    by (auto simp: bench_packet_info_def split: if_splits)
  show "bench_packet_info u bs = (0, pinfo, u1) \<Longrightarrow> 1 \<le> pi_size pinfo \<Longrightarrow> pi_size pinfo \<le> int (length bs) \<Longrightarrow>
       \<exists>q. bench_packet_info u (bs @ ys) = (0, q, u1) \<and> pi_size q = pi_size pinfo
         \<and> bench_process_packet u1 q = bench_process_packet u1 pinfo"
    by (auto simp: bench_packet_info_def bench_peek_append packet_info_zero_def cs_head_bytes_def
        bench_process_packet_def process_player_login_response_def process_game_packet_response_def split: if_splits)
qed

section \<open>The application\<close>

text \<open>
  A player slot of \<open>m_conn_list\<close>: whether it is connected, and its connection. \<open>init_ok i\<close> is the
  result of \<open>init\<close>, which connects to the gate. \<open>None\<close> is an access outside the array, or a division by
  zero.
\<close>

record bench_app =
  conn_list :: "(bool \<times> bench_client) list"
  max_count :: int
  begin_uid :: int
  cur_count :: int

definition bench_on_timer :: "bool \<Rightarrow> int \<Rightarrow> bench_app \<Rightarrow> bench_app option" where
  "bench_on_timer init_ok run_ms a =
     (if cur_count a < 0 \<or> cur_count a \<ge> int (length (conn_list a)) \<or> max_count a = 0 then None
      else let i = nat (cur_count a);
               a1 = (case conn_list a ! i of (connected, c) \<Rightarrow>
                 if connected then a
                 else if init_ok
                 then a\<lparr>conn_list := (conn_list a)[i := (True, bench_run (begin_uid a + cur_count a) 1000 run_ms c)]\<rparr>
                 else a)
           in Some (a1\<lparr>cur_count := c_mod (cur_count a + 1) (max_count a)\<rparr>))"

fun bench_ticks :: "(bool \<times> int) list \<Rightarrow> bench_app \<Rightarrow> bench_app option" where
  "bench_ticks [] a = Some a"
| "bench_ticks ((ok, ms) # xs) a = (case bench_on_timer ok ms a of None \<Rightarrow> None | Some a' \<Rightarrow> bench_ticks xs a')"

text \<open>\<open>get_npc_info\<close>: \<open>r\<close> is \<open>rand()\<close>.\<close>

definition get_npc_info :: "int \<Rightarrow> 'n list \<Rightarrow> 'n" where
  "get_npc_info r npcs = npcs ! nat (r mod int (length npcs))"

lemma no_players_crash: "max_count a = 0 \<Longrightarrow> conn_list a = [] \<Longrightarrow> bench_on_timer ok ms a = None"
  by (simp add: bench_on_timer_def)

definition app_ok :: "bench_app \<Rightarrow> bool" where
  "app_ok a \<longleftrightarrow> 0 < max_count a \<and> max_count a < 2 ^ 31 \<and> int (length (conn_list a)) = max_count a
     \<and> 0 \<le> cur_count a \<and> cur_count a < max_count a"

lemma on_timer_ok:
  assumes "app_ok a"
  shows "\<exists>a'. bench_on_timer ok ms a = Some a' \<and> app_ok a' \<and> max_count a' = max_count a
    \<and> cur_count a' = (cur_count a + 1) mod max_count a
    \<and> (\<forall>i < length (conn_list a). int i \<noteq> cur_count a \<longrightarrow> conn_list a' ! i = conn_list a ! i)
    \<and> (\<forall>i < length (conn_list a). fst (conn_list a ! i) \<longrightarrow> fst (conn_list a' ! i))
    \<and> (ok \<longrightarrow> fst (conn_list a' ! nat (cur_count a)))"
proof -
  obtain b c where bc: "conn_list a ! nat (cur_count a) = (b, c)" by fastforce
  have m: "c_mod (cur_count a + 1) (max_count a) = (cur_count a + 1) mod max_count a"
    using assms by (simp add: app_ok_def c_mod_nonneg)
  have "0 \<le> (cur_count a + 1) mod max_count a" "(cur_count a + 1) mod max_count a < max_count a"
    using assms by (simp_all add: app_ok_def)
  moreover have "nat (cur_count a) < length (conn_list a)" using assms by (auto simp: app_ok_def)
  ultimately show ?thesis
    using assms by (auto simp: bench_on_timer_def bc m app_ok_def Let_def nth_list_update)
qed

lemma ticks_connect:
  assumes "app_ok a" "list_all fst xs"
  shows "\<exists>a'. bench_ticks xs a = Some a' \<and> app_ok a' \<and> max_count a' = max_count a
    \<and> (\<forall>i < length (conn_list a). fst (conn_list a ! i) \<longrightarrow> fst (conn_list a' ! i))
    \<and> (\<forall>j < length xs. fst (conn_list a' ! nat ((cur_count a + int j) mod max_count a)))"
  using assms
proof (induction xs arbitrary: a)
  case (Cons x xs)
  obtain ok ms where x: "x = (ok, ms)" by fastforce
  from on_timer_ok [OF Cons.prems(1), of ok ms] obtain a1 where
    a1: "bench_on_timer ok ms a = Some a1" "app_ok a1" "max_count a1 = max_count a"
      "cur_count a1 = (cur_count a + 1) mod max_count a"
      "\<forall>i < length (conn_list a). fst (conn_list a ! i) \<longrightarrow> fst (conn_list a1 ! i)"
      "fst (conn_list a1 ! nat (cur_count a))"
    using Cons.prems(2) x by auto
  have len: "length (conn_list a1) = length (conn_list a)"
    using a1(2,3) Cons.prems(1) by (simp add: app_ok_def)
  from Cons.IH [OF a1(2)] Cons.prems(2) obtain a' where
    a': "bench_ticks xs a1 = Some a'" "app_ok a'" "max_count a' = max_count a1"
      "\<forall>i < length (conn_list a1). fst (conn_list a1 ! i) \<longrightarrow> fst (conn_list a' ! i)"
      "\<forall>j < length xs. fst (conn_list a' ! nat ((cur_count a1 + int j) mod max_count a1))"
    by auto
  have "fst (conn_list a' ! nat ((cur_count a + int j) mod max_count a))" if j: "j < length (x # xs)" for j
  proof (cases j)
    case 0
    have "nat (cur_count a) < length (conn_list a1)" "(cur_count a + int 0) mod max_count a = cur_count a"
      using Cons.prems(1) len by (auto simp: app_ok_def)
    then show ?thesis using a'(4) a1(6) by (simp add: 0)
  next
    case (Suc k)
    have "(cur_count a1 + int k) mod max_count a1 = (cur_count a + int j) mod max_count a"
      unfolding a1(3,4) Suc mod_add_left_eq by (simp add: algebra_simps)
    moreover have "fst (conn_list a' ! nat ((cur_count a1 + int k) mod max_count a1))" using a'(5) j Suc by simp
    ultimately show ?thesis by (simp only:)
  qed
  then show ?case using a1 a' len by (simp add: x)
qed auto

section \<open>Properties\<close>

text \<open>The load generator reads the same packets however TCP cuts the stream: on two sockets that deliver the same
  bytes in different segments, \<open>on_read\<close> with the framing of this connection class ends in the same way,
  leaves the same state of the connection and the same unread bytes.\<close>

lemma bench_reads_any_segmentation:
  assumes "buf_inv b" "0 < space_size b" "alloc_total alloc"
    and "frame_run bench_packet_info bench_process_packet u (pending b) = (Done, pending b, u)"
    and "would_block s1" "would_block s2" "stream s1 = stream s2"
    and "on_read bench_packet_info bench_process_packet alloc True b u s1 = (x1, b1, u1, t1)"
    and "on_read bench_packet_info bench_process_packet alloc True b u s2 = (x2, b2, u2, t2)"
  shows "x1 = x2 \<and> u1 = u2 \<and> pending b1 @ stream t1 = pending b2 @ stream t2"
  by (rule bench.on_read_segmentation [OF assms])

definition sample_bench :: bench_client where
  "sample_bench = \<lparr>b_uid = 0, b_delt_x = 0, b_delt_y = 0, b_count = 0, b_status = 1, b_error_count = 0,
     gm_executed = False, has_response = True, b_expires = None, sent_logins = []\<rparr>"

definition empty_rbuf :: buffer where
  "empty_rbuf = \<lparr>m_begin = 64, m_end = 72, m_data = 64, m_space = 64, block = replicate 8 0\<rparr>"

lemma bench_reads_any_segmentation_witness:
  "fst (on_read bench_packet_info bench_process_packet sample_alloc True empty_rbuf sample_bench
      \<lparr>segments = [[0], [4, 0, 2, 0]], sock_end = SockErr EAGAIN\<rparr>)
   = fst (on_read bench_packet_info bench_process_packet sample_alloc True empty_rbuf sample_bench
      \<lparr>segments = [[0, 4, 0, 2, 0]], sock_end = SockErr EAGAIN\<rparr>)"
proof -
  let ?r = "\<lambda>segs. on_read bench_packet_info bench_process_packet sample_alloc True empty_rbuf sample_bench
      \<lparr>segments = segs, sock_end = SockErr EAGAIN\<rparr>"
  obtain x1 b1 u1 t1 where r1: "?r [[0], [4, 0, 2, 0]] = (x1, b1, u1, t1)" by (metis prod_cases4)
  obtain x2 b2 u2 t2 where r2: "?r [[0, 4, 0, 2, 0]] = (x2, b2, u2, t2)" by (metis prod_cases4)
  have b: "buf_inv empty_rbuf" "0 < space_size empty_rbuf" "pending empty_rbuf = []"
    by (simp_all add: empty_rbuf_def buf_inv_def space_size_def pending_def region_def)
  have "x1 = x2 \<and> u1 = u2 \<and> pending b1 @ stream t1 = pending b2 @ stream t2"
    by (rule bench_reads_any_segmentation [OF b(1,2) sample_alloc_total _ _ _ _ r1 r2])
      (simp_all add: b(3) would_block_def stream_def)
  then show ?thesis by (simp add: r1 r2)
qed

text \<open>Every player gets its turn. Starting from a well-formed list of players, as many timer ticks as there are
  players, with every connection attempt succeeding, connect all of them; the index never leaves the
  array and no player that is connected is touched again.\<close>

lemma bench_connects_all:
  assumes "app_ok a" "list_all fst xs" "int (length xs) = max_count a"
  shows "\<exists>a'. bench_ticks xs a = Some a' \<and> app_ok a' \<and> list_all fst (conn_list a')"
proof -
  from ticks_connect [OF assms(1,2)] obtain a' where
    a': "bench_ticks xs a = Some a'" "app_ok a'" "max_count a' = max_count a"
      "\<forall>j < length xs. fst (conn_list a' ! nat ((cur_count a + int j) mod max_count a))"
    by auto
  have "fst (conn_list a' ! i)" if i: "i < length (conn_list a')" for i
  proof -
    define n where "n = max_count a"
    have n: "0 < n" "0 \<le> cur_count a" "cur_count a < n" "int i < n"
      using assms(1) a'(2,3) i by (auto simp: app_ok_def n_def)
    define j where "j = nat ((int i - cur_count a) mod n)"
    have ij: "int j = (int i - cur_count a) mod n" using n(1) by (simp add: j_def)
    have "int j < n" unfolding ij by (rule pos_mod_bound [OF n(1)])
    then have "j < length xs" using assms(3) by (simp add: n_def)
    moreover have "(cur_count a + int j) mod n = int i" unfolding ij mod_add_right_eq using n by simp
    ultimately show ?thesis using a'(4) n_def by (metis nat_int)
  qed
  then show ?thesis using a'(1,2) by (auto simp: list_all_length)
qed

lemma bench_connects_all_witness:
  "\<exists>a'. bench_ticks [(True, 0), (True, 1000), (True, 2000)]
       \<lparr>conn_list = replicate 3 (False, sample_bench), max_count = 3, begin_uid = 10, cur_count = 2\<rparr> = Some a'
     \<and> list_all fst (conn_list a')"
  using bench_connects_all [of "\<lparr>conn_list = replicate 3 (False, sample_bench), max_count = 3, begin_uid = 10, cur_count = 2\<rparr>"
      "[(True, 0), (True, 1000), (True, 2000)]"] by (auto simp: app_ok_def)

end
