(* ===== verification/TcpConnection.thy ===== *)
theory TcpConnection
  imports TcpDataHandler
begin

text \<open>
  \<open>framework/tcp_connection.h\<close> and \<open>.cpp\<close>: the older of the two connection classes, which calls a
  \<open>packet_processor\<close> (\<open>framework/packet_processor.h\<close>) instead of virtual methods of its own. It
  shares the buffers and the reactor with \<open>tcp_data_handler\<close>; the differences are what this theory
  is about: one read per event, one error code for every framing error, no upper bound on the packet
  size, a write before the queue is looked at, and a second write inside \<open>send\<close>. The
  processor's \<open>get_info\<close> and \<open>process\<close> are the arguments \<open>info\<close> and \<open>proc\<close>; its notifications are
  recorded in order.
\<close>

section \<open>State\<close>

record connection_id =
  cid_fd :: int
  cid_timestamp :: int

definition cid_ne :: "connection_id \<Rightarrow> connection_id \<Rightarrow> bool" where
  "cid_ne i o' \<longleftrightarrow> cid_fd i \<noteq> cid_fd o' \<or> cid_timestamp i \<noteq> cid_timestamp o'"

definition cid_eq :: "connection_id \<Rightarrow> connection_id \<Rightarrow> bool" where
  "cid_eq i o' \<longleftrightarrow> cid_fd i = cid_fd o' \<and> cid_timestamp i = cid_timestamp o'"

lemma cid_eq_iff: "cid_eq i o' \<longleftrightarrow> i = o'" and cid_ne_iff: "cid_ne i o' \<longleftrightarrow> i \<noteq> o'"
  by (auto simp: cid_eq_def cid_ne_def)

text \<open>The notifications \<open>on_connected\<close>, \<open>on_disconnect\<close> and \<open>on_error\<close> of the processor.\<close>

datatype conn_event = OnConnected | OnDisconnect | OnConnError int

record tcp_conn =
  c_self :: handler
  c_rbuf :: buffer
  c_sbuf :: buffer
  c_id :: connection_id
  c_reactor :: bool
  c_processor :: bool

definition conn_new :: "handler \<Rightarrow> tcp_conn" where
  "conn_new me = \<lparr>c_self = me, c_rbuf = buffer_new, c_sbuf = buffer_new,
     c_id = \<lparr>cid_fd = -1, cid_timestamp = 0\<rparr>, c_reactor = False, c_processor = False\<rparr>"

definition conn_connected :: "tcp_conn \<Rightarrow> bool" where
  "conn_connected c \<longleftrightarrow> cid_fd (c_id c) \<noteq> -1"

section \<open>Opening and closing\<close>

text \<open>
  \<open>init(reactor, fd, processor)\<close> with a reactor and a processor; \<open>ra\<close> and \<open>sa\<close> are the answers of
  \<open>malloc\<close> for the two buffers of 1024 bytes, \<open>now\<close> is \<open>time(0)\<close>. The results of the two
  \<open>buffer::init\<close> calls are not looked at, the pointers \<open>space()\<close> are.
\<close>

definition conn_init ::
  "alloc_result \<Rightarrow> alloc_result \<Rightarrow> bool \<Rightarrow> int \<Rightarrow> int \<Rightarrow> tcp_conn \<Rightarrow> reactor \<Rightarrow>
   int \<times> tcp_conn \<times> reactor \<times> conn_event list" where
  "conn_init ra sa ok now fd c r =
     (if cid_fd (c_id c) \<ge> 0 \<or> fd < 0 then (-1, c, r, [])
      else let c1 = c\<lparr>c_rbuf := snd (buffer_init ra 1024 (c_rbuf c)),
                      c_sbuf := snd (buffer_init sa 1024 (c_sbuf c))\<rparr> in
        if m_space (c_rbuf c1) = 0 \<or> m_space (c_sbuf c1) = 0 then (-2, c1, r, [])
        else case add_handler ok fd (Some (c_self c1)) EVENT_READ r of (ret, r1) \<Rightarrow>
          if ret \<noteq> 0 then (-3, c1, r1, [])
          else (0, c1\<lparr>c_reactor := True, c_processor := True,
                      c_id := \<lparr>cid_fd = fd, cid_timestamp = now\<rparr>\<rparr>, r1, [OnConnected]))"

text \<open>
  \<open>init(reactor, host, port, processor)\<close> for a host that is not \<open>NULL\<close>; \<open>sock\<close> is the result of
  \<open>create_tcp_client\<close>. The last component lists the descriptors it closes.
\<close>

definition conn_init_host ::
  "alloc_result \<Rightarrow> alloc_result \<Rightarrow> bool \<Rightarrow> int \<Rightarrow> int \<Rightarrow> tcp_conn \<Rightarrow> reactor \<Rightarrow>
   int \<times> tcp_conn \<times> reactor \<times> conn_event list \<times> int list" where
  "conn_init_host ra sa ok now sock c r =
     (if cid_fd (c_id c) \<ge> 0 then (-1, c, r, [], [])
      else if sock < 0 then (-2, c, r, [], [])
      else case conn_init ra sa ok now sock c r of (ret, c1, r1, evs) \<Rightarrow>
        (ret, c1, r1, evs, if ret \<noteq> 0 then [sock] else []))"

definition conn_fini :: "tcp_conn \<Rightarrow> reactor \<Rightarrow> tcp_conn \<times> reactor \<times> conn_event list \<times> int list" where
  "conn_fini c r =
     (if cid_fd (c_id c) \<ge> 0
      then (c\<lparr>c_id := \<lparr>cid_fd = -1, cid_timestamp = 0\<rparr>, c_reactor := False,
              c_rbuf := buffer_fini (c_rbuf c), c_sbuf := buffer_fini (c_sbuf c)\<rparr>,
            del_handler (cid_fd (c_id c)) r, [OnDisconnect], [cid_fd (c_id c)])
      else (c, r, [], []))"

section \<open>Reading\<close>

text \<open>The inner loop of \<open>on_read\<close>. \<open>Event e\<close> stands for \<open>handle_error(e)\<close> and the return after it.\<close>

function conn_parse ::
  "'u info_fn \<Rightarrow> 'u proc_fn \<Rightarrow> (int \<Rightarrow> alloc_result) \<Rightarrow> buffer \<Rightarrow> 'u \<Rightarrow> outcome \<times> buffer \<times> 'u" where
  "conn_parse info proc alloc b u =
     (if data_size b > 0
      then (case info u (pending b) of (ret, pinfo, u1) \<Rightarrow>
        if ret \<noteq> 0 \<or> pi_size pinfo < 1 then (Event ERROR_TYPE_REQUEST, b, u1)
        else if data_size b \<ge> pi_size pinfo
        then (case proc u1 pinfo of (ret2, u2) \<Rightarrow>
               if ret2 \<noteq> 0 then (Event ERROR_TYPE_REQUEST, b, u2)
               else conn_parse info proc alloc (snd (pop_data (pi_size pinfo) b)) u2)
        else if space_size b < pi_size pinfo - data_size b
        then (case buffer_resize (alloc (capacity b + pi_size pinfo)) (capacity b + pi_size pinfo) b of
                (ret3, b3) \<Rightarrow>
                  if ret3 \<noteq> 0 then (Event ERROR_TYPE_MEMORY, b3, u1) else (Done, b3, u1))
        else (Done, b, u1))
      else (Done, b, u))"
  by pat_completeness auto

termination
  by (relation "measure (\<lambda>(info, proc, alloc, b, u). nat (data_size b))")
    (auto simp: nat_less_iff not_less intro: pop_data_shrinks)

declare conn_parse.simps [simp del]

text \<open>
  \<open>on_read\<close>. The test \<open>errno != EAGAIN || errno != EINTR\<close> is kept as it is written.
\<close>

definition conn_on_read ::
  "'u info_fn \<Rightarrow> 'u proc_fn \<Rightarrow> (int \<Rightarrow> alloc_result) \<Rightarrow> tcp_conn \<Rightarrow> 'u \<Rightarrow> socket_in \<Rightarrow>
   outcome \<times> tcp_conn \<times> 'u \<times> socket_in" where
  "conn_on_read info proc alloc c u s =
     (case recv (nat (space_size (c_rbuf c))) s of
        (Received xs, s1) \<Rightarrow>
          if xs = [] then (Event ERROR_TYPE_PEER_CLOSE, c, u, s1)
          else (case conn_parse info proc alloc
                       (snd (push_data (int (length xs)) (store_at_space xs (c_rbuf c)))) u of
                  (Event e, b2, u2) \<Rightarrow> (Event e, c\<lparr>c_rbuf := b2\<rparr>, u2, s1)
                | (Done, b2, u2) \<Rightarrow> (Done, c\<lparr>c_rbuf := buffer_adjust b2\<rparr>, u2, s1))
      | (RecvErr e, s1) \<Rightarrow>
          if e \<noteq> EAGAIN \<or> e \<noteq> EINTR then (Event ERROR_TYPE_SYSTEM, c, u, s1) else (Done, c, u, s1))"

definition conn_on_error :: "outcome" where
  "conn_on_error = Event ERROR_TYPE_SYSTEM"

section \<open>Writing\<close>

text \<open>
  \<open>on_write\<close>. \<open>res\<close> is the answer of \<open>write\<close>. \<open>None\<close> is the call through a \<open>NULL\<close> reactor.
\<close>

definition conn_on_write ::
  "send_result \<Rightarrow> bool \<Rightarrow> int \<Rightarrow> tcp_conn \<Rightarrow> reactor \<Rightarrow>
   (outcome \<times> byte list \<times> tcp_conn \<times> reactor) option" where
  "conn_on_write res ok fd c r =
     (case (if data_size (c_sbuf c) > 0
            then (case res of
                    Sent n \<Rightarrow>
                      if n > 0
                      then (let k = min n (nat (data_size (c_sbuf c)))
                            in (Done, take k (pending (c_sbuf c)),
                                c\<lparr>c_sbuf := buffer_adjust (snd (pop_data (int k) (c_sbuf c)))\<rparr>))
                      else (Done, [], c)
                  | SendErr e \<Rightarrow>
                      if e \<noteq> EAGAIN \<and> e \<noteq> EINTR then (Event ERROR_TYPE_SYSTEM, [], c)
                      else (Done, [], c))
            else (Done, [], c)) of
        (Event e, out, c1) \<Rightarrow> Some (Event e, out, c1, r)
      | (Done, out, c1) \<Rightarrow>
          if data_size (c_sbuf c1) = 0
          then (if c_reactor c1
                then Some (Done, out, c1, snd (mod_handler ok fd (Some (c_self c1)) EVENT_READ r))
                else None)
          else Some (Done, out, c1, r))"

text \<open>
  The end that both \<open>send\<close> functions share: the bytes are queued, the handler asks for write
  events and, without the delay flag, tries to write at once. The result of \<open>on_write\<close> is lost
  for the caller: \<open>send\<close> answers 0.
\<close>

definition conn_queue ::
  "send_result \<Rightarrow> bool \<Rightarrow> bool \<Rightarrow> byte list \<Rightarrow> buffer \<Rightarrow> tcp_conn \<Rightarrow> reactor \<Rightarrow>
   (int \<times> outcome \<times> byte list \<times> tcp_conn \<times> reactor) option" where
  "conn_queue res ok delay bytes sb c r =
     (if \<not> c_reactor c then None
      else let c1 = c\<lparr>c_sbuf := snd (push_data (int (length bytes)) (store_at_space bytes sb))\<rparr>;
               r1 = snd (mod_handler ok (cid_fd (c_id c)) (Some (c_self c)) (EVENT_READ OR EVENT_WRITE) r)
           in if delay then Some (0, Done, [], c1, r1)
              else map_option (\<lambda>(ev, out, c2, r2). (0, ev, out, c2, r2))
                     (conn_on_write res ok (cid_fd (c_id c1)) c1 r1))"

text \<open>\<open>send(data, size, delay_flag)\<close>: \<open>res1\<close> answers the direct write, \<open>res2\<close> the one in \<open>on_write\<close>.\<close>

definition conn_send ::
  "(int \<Rightarrow> alloc_result) \<Rightarrow> send_result \<Rightarrow> send_result \<Rightarrow> bool \<Rightarrow> byte list \<Rightarrow> bool \<Rightarrow> tcp_conn \<Rightarrow> reactor \<Rightarrow>
   (int \<times> outcome \<times> byte list \<times> tcp_conn \<times> reactor) option" where
  "conn_send alloc res1 res2 ok data delay c r =
     (let direct = (data_size (c_sbuf c) = 0 \<and> \<not> delay) in
      case (if direct
            then (case res1 of
                    Sent k \<Rightarrow> Some (min k (length data))
                  | SendErr e \<Rightarrow> if e \<noteq> EAGAIN \<and> e \<noteq> EINTR then None else Some 0)
            else Some 0) of
        None \<Rightarrow> Some (-1, Done, [], c, r)
      | Some sent \<Rightarrow>
          if direct \<and> sent = length data then Some (0, Done, data, c, r)
          else (case ensure_space alloc (int (length data - sent)) (c_sbuf c) of
                  (ret, sb) \<Rightarrow>
                    if ret \<noteq> 0 then Some (-1, Done, take sent data, c, r)
                    else map_option (\<lambda>(rc, ev, out, c2, r2). (rc, ev, take sent data @ out, c2, r2))
                           (conn_queue res2 ok delay (drop sent data) sb c r)))"

text \<open>
  \<open>send(packet*, delay_flag)\<close>; \<open>need\<close> and \<open>encode\<close> as in \<open>tcp_send_packet\<close>. Here an encoder
  may answer 0 bytes: only negative results are errors.
\<close>

definition conn_send_packet ::
  "(int \<Rightarrow> alloc_result) \<Rightarrow> send_result \<Rightarrow> bool \<Rightarrow> int \<Rightarrow> (int \<Rightarrow> byte list option) \<Rightarrow> bool \<Rightarrow>
   tcp_conn \<Rightarrow> reactor \<Rightarrow> (int \<times> outcome \<times> byte list \<times> tcp_conn \<times> reactor) option" where
  "conn_send_packet alloc res ok need encode delay c r =
     (case ensure_space alloc need (c_sbuf c) of (ret, sb) \<Rightarrow>
        if ret \<noteq> 0 then Some (-1, Done, [], c, r)
        else case encode (space_size sb) of
               None \<Rightarrow> Some (-1, Done, [], c\<lparr>c_sbuf := sb\<rparr>, r)
             | Some bytes \<Rightarrow> conn_queue res ok delay bytes sb c r)"

text \<open>\<open>get_sock_addr\<close> and \<open>get_remote_addr\<close>; \<open>res\<close> is the answer of \<open>getsockname\<close> or \<open>getpeername\<close>.\<close>

definition conn_addr :: "int \<times> 'a \<Rightarrow> tcp_conn \<Rightarrow> int \<times> 'a option" where
  "conn_addr res c = (if cid_fd (c_id c) < 0 then (-1, None) else (fst res, Some (snd res)))"

section \<open>The connection reads like a tcp_data_handler\<close>

text \<open>
  The callbacks as \<open>tcp_connection\<close> sees them: whatever error code they answer, the connection
  reports \<open>ERROR_TYPE_REQUEST\<close>.
\<close>

definition one_code_info :: "'u info_fn \<Rightarrow> 'u info_fn" where
  "one_code_info info u bs =
     (case info u bs of (ret, p, u1) \<Rightarrow> (if ret \<noteq> 0 then ERROR_TYPE_REQUEST else 0, p, u1))"

definition one_code_proc :: "'u proc_fn \<Rightarrow> 'u proc_fn" where
  "one_code_proc proc u p = (case proc u p of (ret, u1) \<Rightarrow> (if ret \<noteq> 0 then ERROR_TYPE_REQUEST else 0, u1))"

text \<open>
  \<open>tcp_connection\<close> has no bound on the packet size of its own; \<open>limited info\<close> is a packet
  function that refuses the sizes which the other class refuses.
\<close>

definition limited :: "'u info_fn \<Rightarrow> 'u info_fn" where
  "limited info u bs =
     (case info u bs of (ret, p, u1) \<Rightarrow> (if ret = 0 \<and> pi_size p > MAX_PACKET then ERROR_TYPE_REQUEST else ret, p, u1))"

definition sizes_bounded :: "'u info_fn \<Rightarrow> bool" where
  "sizes_bounded info \<longleftrightarrow> (\<forall>u bs p u1. info u bs = (0, p, u1) \<longrightarrow> pi_size p \<le> MAX_PACKET)"

lemma error_request_nonzero [simp]: "ERROR_TYPE_REQUEST \<noteq> 0"
  by (simp add: ERROR_TYPE_REQUEST_def)

lemma one_code_info_eq:
  "info u bs = (ret, p, u1) \<Longrightarrow>
   one_code_info info u bs = (if ret \<noteq> 0 then ERROR_TYPE_REQUEST else 0, p, u1)"
  by (simp add: one_code_info_def)

lemma one_code_proc_eq:
  "proc u p = (ret, u1) \<Longrightarrow> one_code_proc proc u p = (if ret \<noteq> 0 then ERROR_TYPE_REQUEST else 0, u1)"
  by (simp add: one_code_proc_def)

lemma limited_bounded: "limited info = info \<longleftrightarrow> sizes_bounded info"
proof
  assume l: "limited info = info"
  show "sizes_bounded info"
    unfolding sizes_bounded_def
  proof (intro allI impI)
    fix u bs p u1
    assume "info u bs = (0, p, u1)"
    with fun_cong [OF fun_cong [OF l], of u bs] show "pi_size p \<le> MAX_PACKET"
      by (simp add: limited_def split: if_splits)
  qed
next
  assume "sizes_bounded info"
  then show "limited info = info"
    by (force simp: fun_eq_iff limited_def sizes_bounded_def split: prod.splits)
qed

lemma conn_parse_is_parse_loop:
  "conn_parse (limited info) proc alloc b u = parse_loop (one_code_info info) (one_code_proc proc) alloc b u"
proof (induction "limited info" proc alloc b u rule: conn_parse.induct)
  case (1 proc alloc b u)
  obtain ret pinfo u1 where i: "info u (pending b) = (ret, pinfo, u1)" by (cases "info u (pending b)")
  obtain ret2 u2 where p: "proc u1 pinfo = (ret2, u2)" by (cases "proc u1 pinfo")
  have l: "limited info u (pending b) = (if ret = 0 \<and> pi_size pinfo > 4194304 then ERROR_TYPE_REQUEST else ret, pinfo, u1)"
    by (simp add: limited_def i MAX_PACKET_def)
  note unfold = conn_parse.simps [of "limited info" proc alloc b u]
    parse_loop.simps [of "one_code_info info" "one_code_proc proc" alloc b u]
  show ?case
  proof (cases "data_size b > 0 \<and> ret = 0 \<and> 1 \<le> pi_size pinfo \<and> pi_size pinfo \<le> data_size b \<and> ret2 = 0
      \<and> pi_size pinfo \<le> 4194304")
    case True
    with "1.hyps" [OF _ l [symmetric] refl _ _ p [symmetric]]
    have "conn_parse (limited info) proc alloc (snd (pop_data (pi_size pinfo) b)) u2
        = parse_loop (one_code_info info) (one_code_proc proc) alloc (snd (pop_data (pi_size pinfo) b)) u2"
      by auto
    with True show ?thesis
      unfolding unfold by (simp add: i l p one_code_info_eq one_code_proc_eq)
  next
    case False
    then show ?thesis
      unfolding unfold by (auto simp: i l p one_code_info_eq one_code_proc_eq split: prod.splits)
  qed
qed

text \<open>
  One read of the connection is one turn of the other class's \<open>on_read\<close> without its read-all
  flag, except when nothing can be read: there \<open>tcp_data_handler\<close> goes on and \<open>tcp_connection\<close>
  reports a system error, for its test is always true.
\<close>

lemma conn_on_read_cases:
  "conn_on_read info proc alloc c u s =
     (case recv (nat (space_size (c_rbuf c))) s of
        (Received xs, s1) \<Rightarrow>
          if xs = [] then (Event ERROR_TYPE_PEER_CLOSE, c, u, s1)
          else (case conn_parse info proc alloc
                       (snd (push_data (int (length xs)) (store_at_space xs (c_rbuf c)))) u of
                  (Event e, b2, u2) \<Rightarrow> (Event e, c\<lparr>c_rbuf := b2\<rparr>, u2, s1)
                | (Done, b2, u2) \<Rightarrow> (Done, c\<lparr>c_rbuf := buffer_adjust b2\<rparr>, u2, s1))
      | (RecvErr e, s1) \<Rightarrow> (Event ERROR_TYPE_SYSTEM, c, u, s1))"
  by (auto simp: conn_on_read_def split: recv_result.splits prod.splits)

lemma conn_on_read_same:
  assumes "segments s \<noteq> [] \<or> sock_end s = PeerClosed"
    and "on_read (one_code_info info) (one_code_proc proc) alloc False (c_rbuf c) u s = (x, b, u', s')"
  shows "conn_on_read (limited info) proc alloc c u s = (x, c\<lparr>c_rbuf := b\<rparr>, u', s')"
proof -
  obtain res s1 where r: "recv (nat (space_size (c_rbuf c))) s = (res, s1)" by fastforce
  from r assms(1) obtain xs where res: "res = Received xs"
    by (auto simp: recv_def split: list.splits sock_end.splits)
  show ?thesis
    using assms(2)
    unfolding on_read.simps [of "one_code_info info" "one_code_proc proc" alloc False "c_rbuf c" u s]
      conn_on_read_cases
      conn_parse_is_parse_loop r res
    by (auto simp: Let_def split: if_splits outcome.splits prod.splits)
qed

lemma conn_on_read_blocked:
  assumes "segments s = []" "sock_end s = SockErr e"
  shows "conn_on_read info proc alloc c u s = (Event ERROR_TYPE_SYSTEM, c, u, s)"
    and "e = EAGAIN \<Longrightarrow> on_read info proc alloc readall b u s = (Done, b, u, s)"
  using assms by (simp_all add: conn_on_read_cases recv_empty on_read_empty)

section \<open>The sending half\<close>

lemma queue_bytes:
  assumes "buf_inv sb" "int (length ys) \<le> space_size sb"
    and "sb2 = snd (push_data (int (length ys)) (store_at_space ys sb))"
  shows "buf_inv sb2 \<and> pending sb2 = pending sb @ ys"
proof (cases "ys = []")
  case True
  then show ?thesis using assms by (simp add: push_data_def store_at_space_def blit_def)
next
  case False
  obtain q sb3 where q: "push_data (int (length ys)) (store_at_space ys sb) = (q, sb3)" by fastforce
  with buffer_fill [OF assms(1) False assms(2) q] assms(3) show ?thesis by simp
qed

lemma conn_on_write_ok:
  assumes inv: "buf_inv (c_sbuf c)" and re: "c_reactor c"
  obtains x out c' r' where "conn_on_write res ok fd c r = Some (x, out, c', r')"
    "buf_inv (c_sbuf c')" "out @ pending (c_sbuf c') = pending (c_sbuf c)" "c_reactor c'"
proof (cases "data_size (c_sbuf c) > 0 \<and> (\<exists>n. res = Sent n \<and> n > 0)")
  case True
  then obtain n where n: "res = Sent n" "n > 0" by blast
  let ?k = "min n (nat (data_size (c_sbuf c)))"
  have k: "1 \<le> int ?k" "int ?k \<le> int (length (pending (c_sbuf c)))"
    using True n length_pending [OF inv] by auto
  from pop_data_ret [OF inv k] obtain sb where sb: "pop_data (int ?k) (c_sbuf c) = (0, sb)" by blast
  let ?c = "c\<lparr>c_sbuf := buffer_adjust sb\<rparr>"
  have "conn_on_write res ok fd c r =
      Some (Done, take ?k (pending (c_sbuf c)), ?c,
        if data_size (c_sbuf ?c) = 0 then snd (mod_handler ok fd (Some (c_self c)) EVENT_READ r) else r)"
    using True n sb re by (simp add: conn_on_write_def Let_def)
  moreover have "buf_inv (c_sbuf ?c)" "take ?k (pending (c_sbuf c)) @ pending (c_sbuf ?c) = pending (c_sbuf c)"
    using pop_data_ok [OF inv sb] buffer_adjust_ok [of sb] by simp_all
  ultimately show ?thesis using re that by simp
next
  case False
  then have "\<exists>x r'. conn_on_write res ok fd c r = Some (x, [], c, r')"
    using re by (cases res) (auto simp: conn_on_write_def)
  then show ?thesis using inv re that by auto
qed

lemma conn_queue_ok:
  assumes "buf_inv sb" "int (length ys) \<le> space_size sb" "c_reactor c"
  obtains x out c' r' where "conn_queue res ok delay ys sb c r = Some (0, x, out, c', r')"
    "buf_inv (c_sbuf c')" "out @ pending (c_sbuf c') = pending sb @ ys" "c_reactor c'"
proof -
  let ?sb = "snd (push_data (int (length ys)) (store_at_space ys sb))"
  let ?c = "c\<lparr>c_sbuf := ?sb\<rparr>"
  let ?r = "snd (mod_handler ok (cid_fd (c_id c)) (Some (c_self c)) (EVENT_READ OR EVENT_WRITE) r)"
  note q = queue_bytes [OF assms(1,2) refl]
  show ?thesis
  proof (cases delay)
    case True
    with assms(3) have "conn_queue res ok delay ys sb c r = Some (0, Done, [], ?c, ?r)"
      by (simp add: conn_queue_def Let_def)
    with q assms(3) that show ?thesis by simp
  next
    case False
    have "buf_inv (c_sbuf ?c)" "c_reactor ?c" using q assms(3) by simp_all
    then obtain x out c' r' where w: "conn_on_write res ok (cid_fd (c_id c)) ?c ?r = Some (x, out, c', r')"
      "buf_inv (c_sbuf c')" "out @ pending (c_sbuf c') = pending (c_sbuf ?c)" "c_reactor c'"
      by (rule conn_on_write_ok)
    with False assms(3) have "conn_queue res ok delay ys sb c r = Some (0, x, out, c', r')"
      by (simp add: conn_queue_def Let_def)
    with w q that show ?thesis by simp
  qed
qed

lemma conn_send_stream_lemma:
  assumes inv: "buf_inv (c_sbuf c)" and al: "alloc_sound alloc" and re: "c_reactor c"
  obtains ret x out c' r' where "conn_send alloc res1 res2 ok data delay c r = Some (ret, x, out, c', r')"
    "buf_inv (c_sbuf c')" "ret = 0 \<Longrightarrow> out @ pending (c_sbuf c') = pending (c_sbuf c) @ data"
    "ret \<noteq> 0 \<Longrightarrow> c' = c \<and> ret = -1 \<and> (\<exists>rest. data = out @ rest)"
proof -
  define direct where "direct = (data_size (c_sbuf c) = 0 \<and> \<not> delay)"
  define sent where "sent = (if direct then (case res1 of
      Sent k \<Rightarrow> Some (min k (length data))
    | SendErr e \<Rightarrow> if e \<noteq> EAGAIN \<and> e \<noteq> EINTR then None else Some 0) else Some 0)"
  note eq = conn_send_def [of alloc res1 res2 ok data delay c r, unfolded Let_def,
      folded direct_def, folded sent_def]
  have empty: "direct \<Longrightarrow> pending (c_sbuf c) = []"
    using length_pending [OF inv] by (simp add: direct_def)
  show ?thesis
  proof (cases sent)
    case None
    with eq inv show ?thesis by (intro that [of "-1" Done "[]" c r]) auto
  next
    case (Some k)
    show ?thesis
    proof (cases "direct \<and> k = length data")
      case True
      with eq Some inv empty show ?thesis by (intro that [of 0 Done data c r]) auto
    next
      case part: False
      obtain rr sb where rs: "ensure_space alloc (int (length data - k)) (c_sbuf c) = (rr, sb)" by fastforce
      note room = ensure_space_ok [OF inv al rs]
      show ?thesis
      proof (cases "rr = 0")
        case False
        with eq Some part rs have "conn_send alloc res1 res2 ok data delay c r = Some (-1, Done, take k data, c, r)"
          by auto
        moreover have "\<exists>rest. data = take k data @ rest" by (metis append_take_drop_id)
        ultimately show ?thesis using inv by (intro that [of "-1" Done "take k data" c r]) auto
      next
        case True
        with room have sb: "buf_inv sb" "pending sb = pending (c_sbuf c)"
          "int (length (drop k data)) \<le> space_size sb" by simp_all
        obtain x out c' r' where w: "conn_queue res2 ok delay (drop k data) sb c r = Some (0, x, out, c', r')"
          "buf_inv (c_sbuf c')" "out @ pending (c_sbuf c') = pending sb @ drop k data"
          by (rule conn_queue_ok [OF sb(1,3) re])
        have run: "conn_send alloc res1 res2 ok data delay c r = Some (0, x, take k data @ out, c', r')"
          using eq Some part rs True w(1) by (auto simp del: drop_eq_Nil)
        have "k = 0 \<or> pending (c_sbuf c) = []"
          using Some empty by (auto simp: sent_def split: if_splits)
        then have "(take k data @ out) @ pending (c_sbuf c') = pending (c_sbuf c) @ data"
          using w(3) sb(2) by auto
        with run w(2) show ?thesis by (intro that [of 0 x "take k data @ out" c' r']) auto
      qed
    qed
  qed
qed

text \<open>
  A direct write that the socket takes in part, and no memory for the rest: \<open>send\<close> answers -1 after
  bytes have left, and nothing records how many.
\<close>

lemma conn_send_half:
  assumes "data_size (c_sbuf c) = 0" "space_size (c_sbuf c) < int (length data - k)" "k < length data"
    and "\<And>n. alloc n = None"
  shows "conn_send alloc (Sent k) res2 ok data False c r = Some (-1, Done, take k data, c, r)"
  using assms by (simp add: conn_send_def ensure_space_def buffer_resize_def Let_def split: if_splits)

text \<open>A delayed send on a connection that was never opened goes through a \<open>NULL\<close> reactor.\<close>

lemma conn_send_closed:
  assumes "alloc_total alloc" "data \<noteq> []"
  shows "conn_send alloc res1 res2 ok data True (conn_new me) r = None"
  using assms
  by (simp add: conn_send_def conn_new_def conn_queue_def ensure_space_def buffer_resize_def alloc_total_def
      buffer_new_def space_size_def capacity_def Let_def split: option.splits)

section \<open>Opening and closing\<close>

definition conn_inv :: "tcp_conn \<Rightarrow> reactor \<Rightarrow> bool" where
  "conn_inv c r \<longleftrightarrow> reactor_inv r \<and> buf_inv (c_rbuf c) \<and> buf_inv (c_sbuf c) \<and>
     (if cid_fd (c_id c) < 0 then \<not> c_reactor c
      else c_reactor c \<and> handler_at r (cid_fd (c_id c)) = Some (c_self c) \<and>
           interest r (cid_fd (c_id c)) \<noteq> None)"

lemma conn_inv_new: "reactor_inv r \<Longrightarrow> conn_inv (conn_new me) r"
  by (simp add: conn_inv_def conn_new_def)

lemma buffer_init_inv:
  "alloc_ok n r \<Longrightarrow> buf_inv b \<Longrightarrow> buf_inv (snd (buffer_init r n b))"
  by (auto simp: buffer_init_def alloc_ok_def buf_inv_def split: option.splits)

lemma conn_init_open:
  assumes "reactor_inv r" "buf_inv (c_rbuf c)" "buf_inv (c_sbuf c)" "alloc_ok 1024 ra" "alloc_ok 1024 sa"
    and "conn_init ra sa ok now fd c r = (0, c1, r1, evs)"
  shows "conn_inv c1 r1 \<and> evs = [OnConnected] \<and> c_id c1 = \<lparr>cid_fd = fd, cid_timestamp = now\<rparr>
    \<and> interest r fd = None \<and> interest r1 = (interest r)(fd \<mapsto> EPOLLIN) \<and> fd < m_maxfd r1"
proof -
  let ?rb = "snd (buffer_init ra 1024 (c_rbuf c))" and ?sb = "snd (buffer_init sa 1024 (c_sbuf c))"
  let ?c = "c\<lparr>c_rbuf := ?rb, c_sbuf := ?sb\<rparr>"
  obtain ret r2 where a: "add_handler ok fd (Some (c_self c)) EVENT_READ r = (ret, r2)" by fastforce
  have run: "ret = 0" "r1 = r2" "evs = [OnConnected]"
      "c1 = ?c\<lparr>c_reactor := True, c_processor := True, c_id := \<lparr>cid_fd = fd, cid_timestamp = now\<rparr>\<rparr>"
    using assms(6) a by (auto simp: conn_init_def Let_def split: if_splits)
  note h = add_handler_at [OF assms(1) a [unfolded run(1)]]
  note i = reactor_inv_add [OF assms(1) a]
  show ?thesis
    using run h i buffer_init_inv [OF assms(4,2)] buffer_init_inv [OF assms(5,3)]
    by (simp add: conn_inv_def)
qed

lemma conn_init_refused:
  assumes "conn_init ra sa ok now fd c r = (ret, c1, r1, evs)" "ret \<noteq> 0"
  shows "r1 = r \<and> evs = [] \<and> c_id c1 = c_id c"
  using assms by (auto simp: conn_init_def add_handler_def Let_def split: if_splits prod.splits)

lemma conn_fini_closed:
  assumes "conn_inv c r" "conn_fini c r = (c1, r1, evs, closed)"
  shows "conn_inv c1 r1 \<and> \<not> conn_connected c1 \<or> cid_fd (c_id c) < -1"
    and "cid_fd (c_id c) \<ge> 0 \<Longrightarrow> evs = [OnDisconnect] \<and> closed = [cid_fd (c_id c)]
      \<and> handler_at r1 (cid_fd (c_id c)) = None \<and> interest r1 = (interest r)(cid_fd (c_id c) := None)"
    and "conn_fini c1 r1 = (c1, r1, [], [])"
proof -
  have reg: "cid_fd (c_id c) \<ge> 0 \<Longrightarrow> interest r (cid_fd (c_id c)) \<noteq> None" and inv: "reactor_inv r"
    using assms(1) by (auto simp: conn_inv_def split: if_splits)
  show "conn_inv c1 r1 \<and> \<not> conn_connected c1 \<or> cid_fd (c_id c) < -1"
    using assms reactor_inv_del [OF inv] buffer_fini_ok
    by (auto simp: conn_fini_def conn_inv_def conn_connected_def split: if_splits)
  show "conn_fini c1 r1 = (c1, r1, [], [])"
    using assms(2) by (auto simp: conn_fini_def split: if_splits)
  assume "cid_fd (c_id c) \<ge> 0"
  with interest_registered [OF inv reg] assms(2) del_handler_gone [OF inv]
  show "evs = [OnDisconnect] \<and> closed = [cid_fd (c_id c)]
      \<and> handler_at r1 (cid_fd (c_id c)) = None \<and> interest r1 = (interest r)(cid_fd (c_id c) := None)"
    by (auto simp: conn_fini_def del_handler_def set_handler_def split: if_splits)
qed

section \<open>Properties\<close>

text \<open>C37: \<open>tcp_connection::on_read\<close> handles what it reads exactly as one turn of the other connection
  class, \<open>tcp_data_handler::on_read\<close>, does when every error code of the callbacks is replaced by
  \<open>ERROR_TYPE_REQUEST\<close>: same packets to the processor, same rest in the buffer, same outcome. There are
  two differences. A socket with nothing to read is always a system error for \<open>tcp_connection\<close>, also for
  \<open>EAGAIN\<close> and \<open>EINTR\<close>. And \<open>tcp_connection\<close> has no limit of 4194304 bytes for a packet: it agrees
  with the other class once its packet function refuses larger sizes (\<open>limited info\<close>), which is the
  function itself if and only if it never reports a larger one.\<close>

theorem connection_reads_like_handler:
  assumes "on_read (one_code_info info) (one_code_proc proc) alloc False (c_rbuf c) u s = (x, b, u', s')"
  shows "conn_on_read (limited info) proc alloc c u s =
      (if segments s = [] \<and> sock_end s \<noteq> PeerClosed then (Event ERROR_TYPE_SYSTEM, c, u, s)
       else (x, c\<lparr>c_rbuf := b\<rparr>, u', s'))
    \<and> (limited info = info \<longleftrightarrow> sizes_bounded info)"
proof (cases "segments s = [] \<and> sock_end s \<noteq> PeerClosed")
  case True
  then obtain e where "segments s = []" "sock_end s = SockErr e" by (cases "sock_end s") auto
  then show ?thesis by (simp add: conn_on_read_blocked limited_bounded)
next
  case False
  with conn_on_read_same [OF _ assms] show ?thesis by (auto simp: limited_bounded)
qed

text \<open>A packet above the limit is an error for the one class, the other makes room for it and waits.\<close>

lemma connection_waits_for_large_packet:
  assumes "info u (pending b) = (0, p, u1)" "0 < data_size b" "data_size b < pi_size p" "MAX_PACKET < pi_size p"
    and "buffer_resize (alloc (capacity b + pi_size p)) (capacity b + pi_size p) b = (0, b')"
  shows "parse_loop info proc alloc b u = (Event ERROR_TYPE_REQUEST, b, u1)"
    and "\<exists>b2. conn_parse info proc alloc b u = (Done, b2, u1)"
proof -
  show "parse_loop info proc alloc b u = (Event ERROR_TYPE_REQUEST, b, u1)"
    using assms(1,2,4) by (simp add: parse_loop.simps MAX_PACKET_def)
  show "\<exists>b2. conn_parse info proc alloc b u = (Done, b2, u1)"
    using assms by (simp add: conn_parse.simps MAX_PACKET_def)
qed

lemma sample_info_bounded: "sizes_bounded sample_info"
  by (auto simp: sizes_bounded_def sample_info_def MAX_PACKET_def)

definition sample_conn :: tcp_conn where
  "sample_conn = (conn_new 1)\<lparr>c_id := \<lparr>cid_fd = 3, cid_timestamp = 7\<rparr>, c_reactor := True, c_processor := True,
     c_rbuf := \<lparr>m_begin = 64, m_end = 72, m_data = 64, m_space = 64, block = replicate 8 0\<rparr>,
     c_sbuf := \<lparr>m_begin = 96, m_end = 104, m_data = 96, m_space = 96, block = replicate 8 0\<rparr>\<rparr>"

lemma sample_conn_turn:
  "on_read (one_code_info sample_info) (one_code_proc sample_proc) sample_alloc False (c_rbuf sample_conn) []
     \<lparr>segments = [[1, 2, 3, 4]], sock_end = SockErr EAGAIN\<rparr>
   = (Done, \<lparr>m_begin = 128, m_end = 142, m_data = 131, m_space = 132, block = [1, 2, 3, 4, 0, 0, 0, 0, 0, 0, 0, 0, 0, 0]\<rparr>,
      [[1, 2, 3]], \<lparr>segments = [], sock_end = SockErr EAGAIN\<rparr>)"
  by code_simp

theorem connection_reads_like_handler_witness:
  "conn_on_read (limited sample_info) sample_proc sample_alloc sample_conn [] \<lparr>segments = [], sock_end = SockErr EAGAIN\<rparr>
     = (Event ERROR_TYPE_SYSTEM, sample_conn, [], \<lparr>segments = [], sock_end = SockErr EAGAIN\<rparr>)
   \<and> (\<exists>c. conn_on_read sample_info sample_proc sample_alloc sample_conn [] \<lparr>segments = [[1, 2, 3, 4]], sock_end = SockErr EAGAIN\<rparr>
     = (Done, c, [[1, 2, 3]], \<lparr>segments = [], sock_end = SockErr EAGAIN\<rparr>))"
proof -
  obtain x b u' s' where "on_read (one_code_info sample_info) (one_code_proc sample_proc) sample_alloc False
      (c_rbuf sample_conn) [] \<lparr>segments = [], sock_end = SockErr EAGAIN\<rparr> = (x, b, u', s')"
    by (metis prod_cases4)
  from connection_reads_like_handler [OF this] connection_reads_like_handler [OF sample_conn_turn] show ?thesis
    using sample_info_bounded by auto
qed

text \<open>C28: \<open>tcp_connection::send\<close> on an open connection never fails to return and is a faithful byte pipe:
  when it answers 0, what the socket took (in the direct write and in \<open>on_write\<close>) followed by the queue is
  the old queue followed by the new data. When it answers -1 nothing is queued, but a prefix of the data
  may already have left: the caller cannot tell.\<close>

theorem connection_send_stream:
  assumes "buf_inv (c_sbuf c)" "alloc_sound alloc" "c_reactor c"
  shows "\<exists>ret x out c' r'. conn_send alloc res1 res2 ok data delay c r = Some (ret, x, out, c', r')
    \<and> buf_inv (c_sbuf c')
    \<and> (if ret = 0 then out @ pending (c_sbuf c') = pending (c_sbuf c) @ data
       else ret = -1 \<and> c' = c \<and> (\<exists>rest. data = out @ rest))"
  by (rule conn_send_stream_lemma [OF assms, of res1 res2 ok data delay r]) auto

theorem connection_send_stream_witness:
  "\<exists>x out c' r'. conn_send sample_alloc (Sent 2) (Sent 1) True [1, 2, 3, 4, 5] False sample_conn sample_reactor
     = Some (0, x, out, c', r') \<and> out @ pending (c_sbuf c') = [1, 2, 3, 4, 5]"
proof -
  have inv: "buf_inv (c_sbuf sample_conn)" "c_reactor sample_conn" "pending (c_sbuf sample_conn) = []"
    by (simp_all add: sample_conn_def buf_inv_def pending_def region_def)
  from connection_send_stream [OF inv(1) alloc_total_sound [OF sample_alloc_total] inv(2),
      of "Sent 2" "Sent 1" True "[1, 2, 3, 4, 5]" False sample_reactor]
  obtain ret x out c' r' where run:
    "conn_send sample_alloc (Sent 2) (Sent 1) True [1, 2, 3, 4, 5] False sample_conn sample_reactor
       = Some (ret, x, out, c', r')"
    and st: "if ret = 0 then out @ pending (c_sbuf c') = pending (c_sbuf sample_conn) @ [1, 2, 3, 4, 5]
       else ret = -1 \<and> c' = sample_conn \<and> (\<exists>rest. [1, 2, 3, 4, 5] = out @ rest)"
    by blast
  have "ensure_space sample_alloc 3 (c_sbuf sample_conn) = (0, c_sbuf sample_conn)"
    by (simp add: ensure_space_def sample_conn_def space_size_def)
  with run have "ret = 0"
    by (auto simp: conn_send_def conn_queue_def Let_def sample_conn_def data_size_def)
  with run st inv(3) show ?thesis by auto
qed

text \<open>The life of a connection opened with \<open>tcp_connection::init(reactor, host, port, processor)\<close>: a
  refused one leaves the reactor as it was and closes the descriptor it had created; an accepted one is
  registered under its descriptor, and \<open>fini\<close> then closes that descriptor exactly once, leaves the reactor
  without it and with every other registration, tells the processor once, and can be repeated.\<close>

lemma connection_closes_what_it_opens:
  assumes "reactor_inv r" "alloc_ok 1024 ra" "alloc_ok 1024 sa" "0 \<le> sock"
    and "conn_init_host ra sa ok now sock (conn_new me) r = (ret, c1, r1, evs, closed)"
    and "conn_fini c1 r1 = (c2, r2, evs2, closed2)"
  shows "closed @ closed2 = [sock] \<and> interest r2 = interest r \<and> conn_inv c2 r2 \<and> \<not> conn_connected c2
    \<and> evs @ evs2 = (if ret = 0 then [OnConnected, OnDisconnect] else [])
    \<and> conn_fini c2 r2 = (c2, r2, [], [])"
proof -
  obtain evs1 where i: "conn_init ra sa ok now sock (conn_new me) r = (ret, c1, r1, evs1)" "evs = evs1"
    and cl: "closed = (if ret \<noteq> 0 then [sock] else [])"
    using assms(4,5) by (auto simp: conn_init_host_def conn_new_def split: prod.splits)
  have new: "buf_inv (c_rbuf (conn_new me))" "buf_inv (c_sbuf (conn_new me))"
    by (simp_all add: conn_new_def)
  show ?thesis
  proof (cases "ret = 0")
    case True
    from conn_init_open [OF assms(1) new assms(2,3) i(1) [unfolded True]]
    have o: "conn_inv c1 r1" "evs1 = [OnConnected]" "cid_fd (c_id c1) = sock" "interest r sock = None"
      "interest r1 = (interest r)(sock \<mapsto> EPOLLIN)" by simp_all
    from conn_fini_closed [OF o(1) assms(6)] o assms(4) True i(2) cl show ?thesis by auto
  next
    case False
    from conn_init_refused [OF i(1) False] have n: "r1 = r" "evs1 = []" "c_id c1 = c_id (conn_new me)"
      by simp_all
    then have f: "c2 = c1 \<and> r2 = r1 \<and> evs2 = [] \<and> closed2 = []" "\<not> conn_connected c1"
      using assms(6) by (simp_all add: conn_fini_def conn_new_def conn_connected_def)
    have "conn_inv c1 r"
      using i(1) False buffer_init_inv [OF assms(2) new(1)] buffer_init_inv [OF assms(3) new(2)] assms(1) new
      by (auto simp: conn_init_def conn_inv_def conn_new_def Let_def split: if_splits prod.splits)
    with f n i(2) cl False show ?thesis by (simp add: conn_fini_def conn_new_def)
  qed
qed

lemma connection_closes_what_it_opens_witness:
  "\<exists>c1 r1 c2 r2. conn_init_host (Some (64, replicate 1024 0)) (Some (2048, replicate 1024 0)) True 7 4
       (conn_new 2) sample_reactor = (0, c1, r1, [OnConnected], [])
     \<and> conn_fini c1 r1 = (c2, r2, [OnDisconnect], [4]) \<and> interest r2 = interest sample_reactor"
proof -
  let ?ra = "Some (64, replicate 1024 (0 :: byte)) :: alloc_result"
  let ?sa = "Some (2048, replicate 1024 (0 :: byte)) :: alloc_result"
  obtain ret c1 r1 evs closed where run:
    "conn_init_host ?ra ?sa True 7 4 (conn_new 2) sample_reactor = (ret, c1, r1, evs, closed)"
    by (metis prod_cases5)
  obtain c2 r2 evs2 closed2 where fin: "conn_fini c1 r1 = (c2, r2, evs2, closed2)" by (metis prod_cases4)
  have "fst (add_handler True 4 (Some 2) EVENT_READ sample_reactor) = 0"
    by (simp add: sample_reactor_def add_handler_def reactor_init_def reactor_new_def set_handler_def
        MIN_FD_SIZE_def Let_def)
  with run have r: "ret = 0 \<and> evs = [OnConnected] \<and> closed = []"
    by (auto simp: conn_init_host_def conn_init_def conn_new_def buffer_init_def buffer_new_def Let_def
        split: prod.splits if_splits)
  have "alloc_ok 1024 ?ra" "alloc_ok 1024 ?sa" by (simp_all add: alloc_ok_def)
  from connection_closes_what_it_opens [OF sample_reactor_inv(1) this _ run fin] r run fin
  show ?thesis by auto
qed

end
