(* ===== verification/Application.thy ===== *)
theory Application
  imports TimerWheel
begin

text \<open>
  \<open>framework/application.h\<close> and \<open>.cpp\<close>: the main loop of every server program. The loop runs the
  timers (theory TimerWheel), waits for events and then looks at the status that the signal handlers
  and the delay timer set. The timer wheel is the real one: the periodic timer and the delay timer
  are two of its timers; the application's own timers, its handlers and the bodies of its virtual functions are
  arguments, given as the calls they make.
\<close>

section \<open>Command line\<close>

record options =
  config_file :: "string option"
  work_path :: "string option"
  daemon :: bool

datatype opt_result = Parsed options | BadOption | ShowAndExit

text \<open>
  The loop of \<open>parse_option\<close> over \<open>argv[1], ...\<close>; the end of the list is the \<open>NULL\<close> behind the last
  argument. A letter decides, what follows \<open>-d\<close> or a lone \<open>-\<close> is not looked at.
\<close>

fun parse_args :: "string list \<Rightarrow> options \<Rightarrow> opt_result" where
  "parse_args [] opts = (if config_file opts = None then BadOption else Parsed opts)"
| "parse_args (a # rest) opts =
     (case a of
        [] \<Rightarrow> BadOption
      | c # p \<Rightarrow>
          if c \<noteq> CHR ''-'' then BadOption
          else case p of
            [] \<Rightarrow> parse_args rest opts
          | k # q \<Rightarrow>
              if k = CHR ''h'' \<or> k = CHR ''v'' then ShowAndExit
              else if k = CHR ''d'' then parse_args rest (opts\<lparr>daemon := True\<rparr>)
              else if k = CHR ''c'' then
                (if q \<noteq> [] then parse_args rest (opts\<lparr>config_file := Some q\<rparr>)
                 else case rest of
                        [] \<Rightarrow> BadOption
                      | b # rest' \<Rightarrow> parse_args rest' (opts\<lparr>config_file := Some b\<rparr>))
              else if k = CHR ''w'' then
                (if q \<noteq> [] then parse_args rest (opts\<lparr>work_path := Some q\<rparr>)
                 else case rest of
                        [] \<Rightarrow> BadOption
                      | b # rest' \<Rightarrow> parse_args rest' (opts\<lparr>work_path := Some b\<rparr>))
              else BadOption)"

definition parse_option :: "string list \<Rightarrow> opt_result" where
  "parse_option argv = parse_args (tl argv) \<lparr>config_file = None, work_path = None, daemon = False\<rparr>"

section \<open>State\<close>

definition STATUS_STOP :: int where "STATUS_STOP = 0"
definition STATUS_RUN :: int where "STATUS_RUN = 1"
definition STATUS_RELOAD :: int where "STATUS_RELOAD = 2"
definition STATUS_PRE_STOP :: int where "STATUS_PRE_STOP = 3"
definition DEFAULT_INTERVAL :: int where "DEFAULT_INTERVAL = 600000"

lemmas status_defs = STATUS_STOP_def STATUS_RUN_def STATUS_RELOAD_def STATUS_PRE_STOP_def

text \<open>The calls of the virtual functions, in order.\<close>

datatype app_event = OnTimer | OnReload | OnDelayStop | OnFini

record app =
  app_status :: int
  interval_ms :: int
  delay_ms :: int
  app_trace :: "app_event list"

text \<open>The two timers of the object, as references of the wheel.\<close>

definition m_timer :: timer where "m_timer = 0"
definition m_delay_timer :: timer where "m_delay_timer = 1"

definition application_new :: app where
  "application_new = \<lparr>app_status = STATUS_STOP, interval_ms = DEFAULT_INTERVAL, delay_ms = 0, app_trace = []\<rparr>"

definition set_status :: "int \<Rightarrow> app \<Rightarrow> app" where
  "set_status n a = a\<lparr>app_status := n\<rparr>"

definition set_timer :: "int \<Rightarrow> app \<Rightarrow> int \<times> app" where
  "set_timer n a =
     (if n < 10 \<or> n > DEFAULT_INTERVAL * 10 then (-1, a) else (0, a\<lparr>interval_ms := n\<rparr>))"

definition set_delay_stop :: "int \<Rightarrow> app \<Rightarrow> int \<times> app" where
  "set_delay_stop n a =
     (if n < 0 \<or> n > DEFAULT_INTERVAL * 10 then (-1, a) else (0, a\<lparr>delay_ms := n\<rparr>))"

definition called :: "app_event \<Rightarrow> app \<Rightarrow> app" where
  "called e a = a\<lparr>app_trace := app_trace a @ [e]\<rparr>"

section \<open>Signals\<close>

datatype signal = SIGINT | SIGTERM | SIGQUIT | SIGUSR1 | SIGUSR2 | SIGPIPE | SIGALRM | SIGHUP

definition on_signal :: "signal \<Rightarrow> app \<Rightarrow> app" where
  "on_signal signo a =
     (if signo \<in> {SIGINT, SIGTERM, SIGQUIT, SIGUSR2} then set_status STATUS_PRE_STOP a
      else if signo = SIGUSR1 then set_status STATUS_RELOAD a
      else a)"

text \<open>\<open>main\<close> routes five signals to \<open>send_signal\<close> and ignores three.\<close>

definition sig_handler :: "signal \<Rightarrow> app \<Rightarrow> app" where
  "sig_handler signo a = (if signo \<in> {SIGPIPE, SIGALRM, SIGHUP} then a else on_signal signo a)"

section \<open>The timers of the application\<close>

text \<open>
  A piece of the derived program: the calls on the timer wheel that it makes and what it does to the
  application object (\<open>set_status\<close> is public, \<open>set_timer\<close> and \<open>set_delay_stop\<close> are protected). The bodies of
  the virtual functions \<open>on_timer\<close>, \<open>on_reload\<close>, \<open>on_delay_stop\<close> are such pieces, and so is what the event
  handlers do.
\<close>

type_synonym body = "wheel \<Rightarrow> app \<Rightarrow> timer_call list \<times> app"

definition run_body :: "body \<Rightarrow> wheel \<times> app \<Rightarrow> wheel \<times> app" where
  "run_body b st = (case st of (s, a) \<Rightarrow> case b s a of (cs, a') \<Rightarrow> (fold do_call cs s, a'))"

text \<open>
  \<open>clk s\<close> is what \<open>get_run_ms()\<close> answers at the moment the wheel is in state \<open>s\<close>; \<open>minute\<close> is the body
  of \<open>on_timer\<close>, \<open>ext\<close> are the callbacks of the other timers.
\<close>

definition on_timeout_calls :: "(wheel \<Rightarrow> int) \<Rightarrow> body \<Rightarrow> wheel \<Rightarrow> app \<Rightarrow> timer_call list \<times> app" where
  "on_timeout_calls clk minute s a =
     (case minute s (called OnTimer a) of (cs, a') \<Rightarrow>
        (cs @ [SetExpired m_timer (clk (fold do_call cs s) + interval_ms a'), AddTimer m_timer], a'))"

definition app_callback :: "(wheel \<Rightarrow> int) \<Rightarrow> body \<Rightarrow> app on_timeout \<Rightarrow> app on_timeout" where
  "app_callback clk minute ext t s a =
     (if t = m_timer then on_timeout_calls clk minute s a
      else if t = m_delay_timer then ([], set_status STATUS_STOP a)
      else ext t s a)"

section \<open>The main loop\<close>

text \<open>
  What one turn of the loop meets: \<open>turn_now\<close> is the time it starts with, \<open>turn_clock\<close> the later
  readings of the clock, \<open>turn_handlers\<close> what the handlers do in \<open>run_once\<close>, the three bodies,
  \<open>turn_signals\<close> the signals up to the test of the status and \<open>call_signals\<close> those that arrive
  while \<open>on_reload\<close> or \<open>on_delay_stop\<close> runs. The tests of one turn read one value of the
  status, and the signals of a turn come after its timers and handlers.
\<close>

record turn =
  turn_now :: int
  turn_clock :: "wheel \<Rightarrow> int"
  turn_handlers :: body
  timer_body :: body
  reload_body :: body
  stop_body :: body
  turn_signals :: "signal list"
  call_signals :: "signal list"

text \<open>The argument of \<open>epoll_wait\<close>: a 64-bit difference cut to an \<open>int\<close>.\<close>

definition poll_timeout :: "int \<Rightarrow> wheel \<Rightarrow> int" where
  "poll_timeout now s = to_int32 (next_expired s - now + 2)"

definition app_turn :: "app on_timeout \<Rightarrow> turn \<Rightarrow> wheel \<times> app \<Rightarrow> (bool \<times> wheel \<times> app) option" where
  "app_turn ext tn st =
     (case st of (s, a) \<Rightarrow>
        case run_until (app_callback (turn_clock tn) (timer_body tn) ext) (turn_now tn) s a of
          None \<Rightarrow> None
        | Some (s1, a1, log) \<Rightarrow>
            case run_body (turn_handlers tn) (s1, a1) of (s2, ah) \<Rightarrow>
            let a2 = fold sig_handler (turn_signals tn) ah
            in if app_status a2 = STATUS_RELOAD
               then case run_body (reload_body tn) (s2, called OnReload a2) of (s3, a3) \<Rightarrow>
                      Some (False, s3, set_status STATUS_RUN (fold sig_handler (call_signals tn) a3))
               else if app_status a2 = STATUS_PRE_STOP
               then case run_body (stop_body tn) (del_timer m_timer s2, called OnDelayStop a2) of (s3, a3) \<Rightarrow>
                    let a4 = fold sig_handler (call_signals tn) a3
                    in if delay_ms a4 < 10 then Some (False, s3, set_status STATUS_STOP a4)
                       else Some (False, fold do_call [SetExpired m_delay_timer (turn_clock tn s3 + delay_ms a4),
                                                       AddTimer m_delay_timer] s3,
                                  set_status STATUS_RUN a4)
               else if app_status a2 = STATUS_STOP then Some (True, s2, a2)
               else Some (False, s2, a2))"

text \<open>The loop over the turns that happen: \<open>True\<close> when it was left by \<open>break\<close>.\<close>

fun app_loop :: "app on_timeout \<Rightarrow> turn list \<Rightarrow> wheel \<times> app \<Rightarrow> (bool \<times> wheel \<times> app) option" where
  "app_loop ext [] st = Some (False, st)"
| "app_loop ext (tn # tns) st =
     (case app_turn ext tn st of
        None \<Rightarrow> None
      | Some (True, st') \<Rightarrow> Some (True, st')
      | Some (False, st') \<Rightarrow> app_loop ext tns st')"

text \<open>
  \<open>start\<close>. \<open>now\<close> and \<open>clk\<close> are the readings of the clock before the loop, \<open>epoll_ret\<close> the result of
  \<open>event_engine.init\<close>, \<open>on_init\<close> the virtual function, \<open>minute\<close> the body of the first \<open>on_timer\<close>. The change of directory, the daemon
  mode and the redirection of the standard streams are system calls without a trace here.
  \<open>Throws\<close> is an exception of \<open>timer_engine.init\<close>, \<open>Hangs\<close> a run of the timers that does not return.
\<close>

datatype start_result = StartFailed | Exited | Throws | Hangs | Running wheel app | Stopped wheel app

definition app_start ::
  "app on_timeout \<Rightarrow> string list \<Rightarrow> int \<Rightarrow> int \<Rightarrow> (wheel \<Rightarrow> int) \<Rightarrow> body \<Rightarrow>
   (wheel \<Rightarrow> app \<Rightarrow> int \<times> wheel \<times> app) \<Rightarrow> turn list \<Rightarrow> start_result" where
  "app_start ext argv epoll_ret now clk minute on_init tns =
     (case parse_option argv of
        BadOption \<Rightarrow> StartFailed
      | ShowAndExit \<Rightarrow> Exited
      | Parsed opts \<Rightarrow>
          if epoll_ret \<noteq> 0 then StartFailed
          else case timer_init now 14 (wheel_new (\<lambda>t. 0)) of
            None \<Rightarrow> Throws
          | Some (ret, s0) \<Rightarrow>
              if ret \<noteq> 0 then StartFailed
              else case on_init s0 application_new of (ret1, s1, a1) \<Rightarrow>
                if ret1 \<noteq> 0 then StartFailed
                else case run_body (on_timeout_calls clk minute) (s1, set_status STATUS_RUN a1) of st \<Rightarrow>
                       case app_loop ext tns st of
                          None \<Rightarrow> Hangs
                        | Some (True, s3, a3) \<Rightarrow> Stopped s3 (called OnFini a3)
                        | Some (False, s3, a3) \<Rightarrow> Running s3 a3)"

section \<open>What signals do to the status\<close>

definition stop_signal :: "signal \<Rightarrow> bool" where
  "stop_signal signo \<longleftrightarrow> signo \<in> {SIGINT, SIGTERM, SIGQUIT, SIGUSR2}"

lemma sig_handler_keeps [simp]:
  "interval_ms (sig_handler g a) = interval_ms a" "delay_ms (sig_handler g a) = delay_ms a"
  "app_trace (sig_handler g a) = app_trace a"
  by (simp_all add: sig_handler_def on_signal_def set_status_def)

lemma signals_keep [simp]:
  "interval_ms (fold sig_handler gs a) = interval_ms a" "delay_ms (fold sig_handler gs a) = delay_ms a"
  "app_trace (fold sig_handler gs a) = app_trace a"
  by (induction gs arbitrary: a) simp_all

lemma last_stop_signal:
  "stop_signal g \<Longrightarrow> app_status (fold sig_handler (gs @ [g]) a) = STATUS_PRE_STOP"
  by (auto simp: stop_signal_def sig_handler_def on_signal_def set_status_def)

section \<open>A run of the timers, seen from the application\<close>

text \<open>The bounds that \<open>set_timer\<close> and \<open>set_delay_stop\<close> enforce.\<close>

definition app_ok :: "app \<Rightarrow> bool" where
  "app_ok a \<longleftrightarrow> 10 \<le> interval_ms a \<and> interval_ms a \<le> DEFAULT_INTERVAL * 10
     \<and> 0 \<le> delay_ms a \<and> delay_ms a \<le> DEFAULT_INTERVAL * 10"

lemma application_new_ok: "app_ok application_new"
  by (simp add: app_ok_def application_new_def DEFAULT_INTERVAL_def)

lemma set_timer_ok: "app_ok a \<Longrightarrow> app_ok (snd (set_timer n a)) \<and> app_ok (snd (set_delay_stop n a))"
  by (auto simp: app_ok_def set_timer_def set_delay_stop_def)

text \<open>The clock does not run backwards, and not more than 2 ^ 27 ms (a day and a half) ahead of the wheel.\<close>

definition clock_near :: "(wheel \<Rightarrow> int) \<Rightarrow> bool" where
  "clock_near clk \<longleftrightarrow> (\<forall>s. curr_expired s \<le> clk s \<and> clk s \<le> curr_expired s + 2 ^ 27)"

text \<open>
  The callbacks of the application's own timers: their timer calls are in range, they leave the
  delay timer alone and do not write the status, the delay or a bad interval.
\<close>

definition ext_ok :: "app on_timeout \<Rightarrow> bool" where
  "ext_ok ext \<longleftrightarrow>
     (\<forall>t s w. app_ok w \<longrightarrow> (wheel_inv s \<and> \<not> linked t s \<longrightarrow> calls_near (fst (ext t s w)) s)
        \<and> app_ok (snd (ext t s w)) \<and> app_status (snd (ext t s w)) = app_status w
        \<and> delay_ms (snd (ext t s w)) = delay_ms w \<and> DelTimer m_delay_timer \<notin> set (fst (ext t s w)))"

text \<open>
  The same of a body: timer calls in range, the delay timer left alone, no write to the status or
  the delay, no bad interval.
\<close>

definition body_ok :: "body \<Rightarrow> bool" where
  "body_ok b \<longleftrightarrow>
     (\<forall>s w. app_ok w \<longrightarrow> (wheel_inv s \<longrightarrow> calls_near (fst (b s w)) s)
        \<and> app_ok (snd (b s w)) \<and> app_status (snd (b s w)) = app_status w
        \<and> delay_ms (snd (b s w)) = delay_ms w \<and> DelTimer m_delay_timer \<notin> set (fst (b s w)))"

lemma calls_near_append: "calls_near (xs @ ys) s \<longleftrightarrow> calls_near xs s \<and> calls_near ys (fold do_call xs s)"
  by (induction xs arbitrary: s) auto

lemma called_ok [simp]: "app_ok (called e a) = app_ok a" "app_status (called e a) = app_status a"
  "delay_ms (called e a) = delay_ms a"
  by (simp_all add: called_def app_ok_def)

lemma on_timeout_near:
  assumes "clock_near clk" "body_ok minute" "app_ok a" "wheel_inv s"
  shows "calls_near (fst (on_timeout_calls clk minute s a)) s"
proof -
  obtain cs a' where b: "minute s (called OnTimer a) = (cs, a')" by fastforce
  define s' where "s' = fold do_call cs s"
  have ok: "calls_near cs s" "app_ok a'"
    using assms(2,3,4) b unfolding body_ok_def by (metis called_ok(1) fst_conv, metis called_ok(1) snd_conv)
  have "curr_expired s' \<le> clk s'" "clk s' \<le> curr_expired s' + 134217728"
    using assms(1) unfolding clock_near_def by simp_all
  then have "calls_near [SetExpired m_timer (clk s' + interval_ms a'), AddTimer m_timer] s'"
    using ok(2) by (auto simp: call_near_def set_expired_def near_def app_ok_def DEFAULT_INTERVAL_def)
  then show ?thesis
    using ok(1) by (simp add: on_timeout_calls_def b calls_near_append s'_def [symmetric])
qed

lemma on_timeout_kept:
  assumes "body_ok minute" "app_ok w"
  shows "app_ok (snd (on_timeout_calls clk minute s w)) \<and> delay_ms (snd (on_timeout_calls clk minute s w)) = delay_ms w
    \<and> app_status (snd (on_timeout_calls clk minute s w)) = app_status w
    \<and> DelTimer m_delay_timer \<notin> set (fst (on_timeout_calls clk minute s w))"
proof -
  obtain cs a' where b: "minute s (called OnTimer w) = (cs, a')" by fastforce
  have w: "app_ok (called OnTimer w)" using assms(2) by simp
  from assms(1) [unfolded body_ok_def, rule_format, OF w, of s] show ?thesis
    by (simp add: b on_timeout_calls_def)
qed

lemma app_callback_kept:
  assumes "body_ok minute" "ext_ok ext" "app_ok w"
  shows "app_ok (snd (app_callback clk minute ext t s w)) \<and> delay_ms (snd (app_callback clk minute ext t s w)) = delay_ms w
    \<and> app_status (snd (app_callback clk minute ext t s w)) = (if t = m_delay_timer then STATUS_STOP else app_status w)
    \<and> DelTimer m_delay_timer \<notin> set (fst (app_callback clk minute ext t s w))"
proof (cases "t = m_timer")
  case True
  then show ?thesis
    using on_timeout_kept [OF assms(1,3)] by (simp add: app_callback_def m_timer_def m_delay_timer_def)
next
  case False
  then show ?thesis
    using assms(2,3) by (auto simp: app_callback_def ext_ok_def set_status_def app_ok_def)
qed

lemma app_callback_near:
  assumes "clock_near clk" "body_ok minute" "ext_ok ext" "app_ok w" "wheel_inv s" "\<not> linked t s"
  shows "calls_near (fst (app_callback clk minute ext t s w)) s"
  using assms on_timeout_near by (auto simp: app_callback_def ext_ok_def)

text \<open>
  The timers of a turn: they return, the delay timer stops the program exactly when it fires, and
  it fires when it is due.
\<close>

lemma run_timers:
  assumes clk: "clock_near clk" and minute: "body_ok minute" and ext: "ext_ok ext" and a: "app_ok a"
    and rest: "at_rest s" and now: "curr_expired s \<le> now"
  obtains s' a' log where "run_until (app_callback clk minute ext) now s a = Some (s', a', log)" "at_rest s'"
    "curr_expired s' = now" "max_expired s' = max_expired s" "app_ok a'" "delay_ms a' = delay_ms a"
    "app_status a' = (if m_delay_timer \<in> fst ` set log then STATUS_STOP else app_status a)"
    "linked m_delay_timer s \<longrightarrow> m_delay_timer \<in> fst ` set log
       \<or> linked m_delay_timer s' \<and> expired s' m_delay_timer = expired s m_delay_timer
         \<and> now \<le> expired s m_delay_timer"
proof -
  let ?cb = "app_callback clk minute ext"
  let ?g = "guard_cb app_ok ?cb"
  let ?Q = "\<lambda>w log. app_ok w \<and> delay_ms w = delay_ms a
      \<and> app_status w = (if m_delay_timer \<in> fst ` set (log :: firing list) then STATUS_STOP else app_status a)"
  have near: "cb_near ?g"
    using app_callback_near [OF clk minute ext] by (simp add: cb_near_def guard_cb_def)
  obtain s' a' log where r: "run_until ?g now s a = Some (s', a', log)" "at_rest s'"
    "curr_expired s' = max (curr_expired s) now"
    "\<forall>x. keeps ?g x \<longrightarrow> settled x s log s'"
    by (rule run_until_correct [OF rest near, of now a]) (use now in auto)
  have keep: "app_ok w \<Longrightarrow> app_ok (snd (?cb t s w))" for t s w
    using app_callback_kept [OF minute ext] by blast
  have run: "run_until ?cb now s a = Some (s', a', log)"
    using run_until_guard [OF r(1) _ a] keep by blast
  have "app_status (snd (?g t s w)) = (if t = m_delay_timer then STATUS_STOP else app_status w)"
    if "app_ok w" for t s w
    using app_callback_kept [OF minute ext that] that by (simp add: guard_cb_def)
  then have kept: "log_kept ?Q ?g"
    using app_callback_kept [OF minute ext] by (simp add: log_kept_def guard_cb_def)
  have "?Q a' log" by (rule run_until_log [OF r(1) kept]) (simp add: a)
  moreover have "keeps ?g m_delay_timer"
    using app_callback_kept [OF minute ext] by (simp add: keeps_def guard_cb_def)
  then have "settled m_delay_timer s log s'" using r(4) by blast
  then have "linked m_delay_timer s \<longrightarrow> m_delay_timer \<in> fst ` set log
       \<or> linked m_delay_timer s' \<and> expired s' m_delay_timer = expired s m_delay_timer"
    by (force simp: settled_def)
  moreover have "now \<le> expired s' m_delay_timer" if "linked m_delay_timer s'"
    using linked_due [OF _ that] r(2,3) now by (auto simp: at_rest_def)
  ultimately show thesis using that run r(2,3) now run_until_reach [OF run] by auto
qed

section \<open>One turn\<close>

text \<open>
  What is asked of a turn: a clock in range, and an \<open>on_timer\<close> and handlers that make timer calls in range
  only, keep their hands off the delay timer and do not write the status or the delay. \<open>on_reload\<close> is
  free. \<open>stop_ok\<close> is asked of \<open>on_delay_stop\<close> alone: it may also change the delay, to another one of at
  least 10 ms, and write the status, which the loop overwrites.
\<close>

definition turn_ok :: "turn \<Rightarrow> bool" where
  "turn_ok tn \<longleftrightarrow> clock_near (turn_clock tn) \<and> body_ok (timer_body tn) \<and> body_ok (turn_handlers tn)"

definition stop_ok :: "body \<Rightarrow> bool" where
  "stop_ok b \<longleftrightarrow>
     (\<forall>s w. app_ok w \<longrightarrow> (wheel_inv s \<longrightarrow> calls_near (fst (b s w)) s)
        \<and> app_ok (snd (b s w)) \<and> (10 \<le> delay_ms w \<longrightarrow> 10 \<le> delay_ms (snd (b s w))))"

lemma calls_time: "at_rest s \<Longrightarrow> calls_near cs s \<Longrightarrow> curr_expired (fold do_call cs s) = curr_expired s"
  using calls_inv [of s cs] by (simp add: at_rest_def same_time_def)

lemma run_body_rest:
  assumes "run_body b (s, a) = (s', a')" "calls_near (fst (b s a)) s" "at_rest s"
  shows "at_rest s' \<and> curr_expired s' = curr_expired s \<and> max_expired s' = max_expired s \<and> a' = snd (b s a)
    \<and> (linked x s \<and> DelTimer x \<notin> set (fst (b s a)) \<longrightarrow> linked x s' \<and> expired s' x = expired s x)"
proof -
  have s': "s' = fold do_call (fst (b s a)) s" "a' = snd (b s a)"
    using assms(1) by (auto simp: run_body_def split: prod.splits)
  have "wheel_inv s" using assms(3) by (simp add: at_rest_def)
  then show ?thesis
    using calls_rest [OF assms(3,2)] calls_time [OF assms(3,2)] calls_keep [OF _ assms(2)] s' calls_reach by simp
qed

lemma handlers_rest:
  assumes "body_ok b" "run_body b (s, a) = (s', a')" "at_rest s" "app_ok a"
  shows "at_rest s' \<and> curr_expired s' = curr_expired s \<and> max_expired s' = max_expired s \<and> app_ok a'
    \<and> app_status a' = app_status a \<and> delay_ms a' = delay_ms a
    \<and> (linked m_delay_timer s \<longrightarrow> linked m_delay_timer s' \<and> expired s' m_delay_timer = expired s m_delay_timer)"
proof -
  have "wheel_inv s" using assms(3) by (simp add: at_rest_def)
  then have b: "calls_near (fst (b s a)) s" "app_ok (snd (b s a))" "app_status (snd (b s a)) = app_status a"
    "delay_ms (snd (b s a)) = delay_ms a" "DelTimer m_delay_timer \<notin> set (fst (b s a))"
    using assms(1,4) by (simp_all add: body_ok_def)
  from run_body_rest [OF assms(2) b(1) assms(3), of m_delay_timer] b(2-5) show ?thesis by simp
qed

lemma quiet_turn:
  assumes tn: "turn_ok tn" "turn_signals tn = []" and ext: "ext_ok ext" and a: "app_ok a" "app_status a = STATUS_RUN"
    and rest: "at_rest s" and now: "curr_expired s \<le> turn_now tn" and l: "linked m_delay_timer s"
  shows "\<exists>s' a'. app_turn ext tn (s, a) = Some (True, s', a') \<and> app_status a' = STATUS_STOP
    \<or> app_turn ext tn (s, a) = Some (False, s', a') \<and> at_rest s' \<and> curr_expired s' = turn_now tn
      \<and> app_ok a' \<and> app_status a' = STATUS_RUN \<and> linked m_delay_timer s'
      \<and> expired s' m_delay_timer = expired s m_delay_timer \<and> turn_now tn \<le> expired s m_delay_timer"
proof -
  have ok: "clock_near (turn_clock tn)" "body_ok (timer_body tn)" "body_ok (turn_handlers tn)"
    using tn(1) by (simp_all add: turn_ok_def)
  obtain s1 a1 log where r: "run_until (app_callback (turn_clock tn) (timer_body tn) ext) (turn_now tn) s a = Some (s1, a1, log)"
    "at_rest s1" "curr_expired s1 = turn_now tn" "max_expired s1 = max_expired s" "app_ok a1" "delay_ms a1 = delay_ms a"
    "app_status a1 = (if m_delay_timer \<in> fst ` set log then STATUS_STOP else app_status a)"
    "linked m_delay_timer s \<longrightarrow> m_delay_timer \<in> fst ` set log
       \<or> linked m_delay_timer s1 \<and> expired s1 m_delay_timer = expired s m_delay_timer
         \<and> turn_now tn \<le> expired s m_delay_timer"
    by (rule run_timers [OF ok(1,2) ext a(1) rest now])
  obtain s2 a2 where h: "run_body (turn_handlers tn) (s1, a1) = (s2, a2)" by fastforce
  note h2 = handlers_rest [OF ok(3) h r(2,5)]
  have turn: "app_turn ext tn (s, a) = Some (app_status a2 = STATUS_STOP, s2, a2)"
    using r(1,7) tn(2) a(2) h h2 by (auto simp: app_turn_def Let_def status_defs)
  show ?thesis
  proof (cases "m_delay_timer \<in> fst ` set log")
    case True
    with r(7) turn h2 show ?thesis by auto
  next
    case False
    with r(7) a(2) have "app_status a1 = STATUS_RUN" by auto
    moreover have "linked m_delay_timer s1" "expired s1 m_delay_timer = expired s m_delay_timer"
      "turn_now tn \<le> expired s m_delay_timer"
      using r(8) l False by auto
    ultimately show ?thesis using turn h2 r(3) by (auto simp: status_defs)
  qed
qed

text \<open>The turn that finds a stop request: the periodic timer goes, the delay timer is set.\<close>

lemma del_timer_reach [simp]: "max_expired (del_timer t s) = max_expired s"
  by (simp add: del_timer_def)

lemma del_timer_rest: "at_rest s \<Longrightarrow> at_rest (del_timer t s) \<and> curr_expired (del_timer t s) = curr_expired s
    \<and> \<not> linked t (del_timer t s)"
proof -
  assume "at_rest s"
  then have "at_rest (del_timer t s)" using do_call_rest [of s "DelTimer t"] by (simp add: call_near_def)
  moreover have "curr_expired (del_timer t s) = curr_expired s" by (simp add: del_timer_def unlink_def)
  moreover have "\<not> linked t (del_timer t s)" by (simp add: del_timer_def linked_unlink)
  ultimately show ?thesis by simp
qed

lemma set_delay:
  assumes "at_rest s" "max_expired s = 2 ^ 28" "clock_near clk" "10 \<le> d" "d \<le> DEFAULT_INTERVAL * 10"
    and "s' = fold do_call [SetExpired m_delay_timer (clk s + d), AddTimer m_delay_timer] s"
  shows "at_rest s' \<and> curr_expired s' = curr_expired s \<and> linked m_delay_timer s'
    \<and> (\<not> linked m_delay_timer s \<longrightarrow> expired s' m_delay_timer = clk s + d)"
proof -
  let ?cs = "[SetExpired m_delay_timer (clk s + d), AddTimer m_delay_timer]"
  let ?e = "clk s + d - curr_expired s"
  have clk: "curr_expired s \<le> clk s" "clk s \<le> curr_expired s + 134217728"
    using assms(3) unfolding clock_near_def by simp_all
  then have e: "1 \<le> ?e" "?e \<le> 2 ^ 28" using assms(4,5) by (simp_all add: DEFAULT_INTERVAL_def)
  have near: "calls_near ?cs s"
    using e by (auto simp: call_near_def set_expired_def near_def)
  have i: "has_arrays s" using assms(1) by (simp add: at_rest_def wheel_inv_def geometry_def)
  have "linked m_delay_timer s' \<and> (\<not> linked m_delay_timer s \<longrightarrow> expired s' m_delay_timer = clk s + d)"
  proof (cases "linked m_delay_timer s")
    case True
    have "calls_near ?cs s" "DelTimer m_delay_timer \<notin> set ?cs" using near by simp_all
    from calls_keep [OF _ this True] assms(1,6) True show ?thesis by (simp add: at_rest_def)
  next
    case False
    let ?s = "s\<lparr>expired := (expired s)(m_delay_timer := clk s + d)\<rparr>"
    have un: "\<not> linked m_delay_timer ?s" using False by (simp add: linked_def)
    have w: "wheel_inv ?s" "near m_delay_timer ?s"
      using set_expired_inv [of s m_delay_timer "clk s + d"] assms(1) False e
      by (simp_all add: set_expired_def at_rest_def near_def)
    obtain ret where at: "add_timer m_delay_timer ?s = (ret, s')"
      using assms(6) False by (simp add: set_expired_def) (metis prod.collapse)
    have "ret = 0"
      using at un i e assms(2) by (auto simp: add_timer_def Let_def to_int32_id split: if_splits)
    have "linked m_delay_timer s' \<and> expired s' m_delay_timer = expired ?s m_delay_timer"
      using add_timer_inv [OF w(1) _ at] w(2) \<open>ret = 0\<close> by auto
    then show ?thesis by simp
  qed
  with calls_rest [OF assms(1) near] calls_time [OF assms(1) near] assms(6) show ?thesis by simp
qed

lemma stop_turn:
  assumes tn: "turn_ok tn" "turn_signals tn = gs @ [g]" "stop_signal g" "stop_ok (stop_body tn)" and ext: "ext_ok ext"
    and a: "app_ok a" "10 \<le> delay_ms a" and rest: "at_rest s" and reach: "max_expired s = 2 ^ 28"
    and now: "curr_expired s \<le> turn_now tn"
  obtains s' a' where "app_turn ext tn (s, a) = Some (False, s', a')" "at_rest s'" "curr_expired s' = turn_now tn"
    "app_ok a'" "app_status a' = STATUS_RUN" "linked m_delay_timer s'"
proof -
  have ok: "clock_near (turn_clock tn)" "body_ok (timer_body tn)" "body_ok (turn_handlers tn)"
    using tn(1) by (simp_all add: turn_ok_def)
  obtain s1 a1 log where r: "run_until (app_callback (turn_clock tn) (timer_body tn) ext) (turn_now tn) s a = Some (s1, a1, log)"
    "at_rest s1" "curr_expired s1 = turn_now tn" "max_expired s1 = max_expired s" "app_ok a1" "delay_ms a1 = delay_ms a"
    by (rule run_timers [OF ok(1,2) ext a(1) rest now])
  obtain s2 ah where h: "run_body (turn_handlers tn) (s1, a1) = (s2, ah)" by fastforce
  note h2 = handlers_rest [OF ok(3) h r(2,5)]
  define a2 where "a2 = fold sig_handler (turn_signals tn) ah"
  have a2: "app_ok (called OnDelayStop a2)" "10 \<le> delay_ms (called OnDelayStop a2)"
    using h2 r(6) a(2) by (simp_all add: a2_def app_ok_def called_def)
  define sd where "sd = del_timer m_timer s2"
  have sd: "at_rest sd" "curr_expired sd = turn_now tn" "max_expired sd = 2 ^ 28"
    using del_timer_rest [of s2 m_timer] h2 r(3,4) reach by (simp_all add: sd_def)
  obtain s3 a3 where b: "run_body (stop_body tn) (sd, called OnDelayStop a2) = (s3, a3)" by fastforce
  have "wheel_inv sd" using sd(1) by (simp add: at_rest_def)
  then have near: "calls_near (fst (stop_body tn sd (called OnDelayStop a2))) sd"
    and a3': "app_ok (snd (stop_body tn sd (called OnDelayStop a2)))" "10 \<le> delay_ms (snd (stop_body tn sd (called OnDelayStop a2)))"
    using tn(4) a2 by (simp_all add: stop_ok_def)
  note s3 = run_body_rest [OF b near sd(1)]
  define a4 where "a4 = fold sig_handler (call_signals tn) a3"
  have d: "10 \<le> delay_ms a4" "delay_ms a4 \<le> DEFAULT_INTERVAL * 10" "app_ok a4"
    using s3 a3' by (simp_all add: a4_def app_ok_def)
  have d34: "delay_ms a4 = delay_ms a3" by (simp add: a4_def)
  define s4 where "s4 = fold do_call [SetExpired m_delay_timer (turn_clock tn s3 + delay_ms a4), AddTimer m_delay_timer] s3"
  have st: "app_status a2 = STATUS_PRE_STOP" using last_stop_signal [OF tn(3)] tn(2) by (simp add: a2_def)
  have s3': "at_rest s3" "max_expired s3 = 2 ^ 28" "curr_expired s3 = turn_now tn" using s3 sd by simp_all
  note set = set_delay [OF s3'(1,2) ok(1) d(1,2) s4_def]
  have "app_turn ext tn (s, a) = Some (False, s4, set_status STATUS_RUN a4)"
    using r(1) st h b d(1) d34 unfolding app_turn_def
    by (simp add: Let_def a2_def [symmetric] a4_def [symmetric] sd_def [symmetric] s4_def status_defs del: fold_simps)
  moreover have "app_ok (set_status STATUS_RUN a4)"
    using d(3) by (simp add: app_ok_def set_status_def)
  ultimately show thesis using that set s3'(3) by (simp add: set_status_def)
qed

lemma quiet_loop:
  assumes "ext_ok ext" "\<forall>tn \<in> set tns. turn_ok tn \<and> turn_signals tn = []" "sorted (map turn_now tns)"
    and "app_ok a" "app_status a = STATUS_RUN" "at_rest s" "\<forall>tn \<in> set tns. curr_expired s \<le> turn_now tn"
    and "linked m_delay_timer s" "\<exists>tn \<in> set tns. expired s m_delay_timer < turn_now tn"
  shows "\<exists>s' a'. app_loop ext tns (s, a) = Some (True, s', a') \<and> app_status a' = STATUS_STOP"
  using assms
proof (induction tns arbitrary: s a)
  case (Cons tn tns)
  from quiet_turn [of tn ext a s] Cons.prems obtain s' a' where
    "app_turn ext tn (s, a) = Some (True, s', a') \<and> app_status a' = STATUS_STOP
    \<or> app_turn ext tn (s, a) = Some (False, s', a') \<and> at_rest s' \<and> curr_expired s' = turn_now tn
      \<and> app_ok a' \<and> app_status a' = STATUS_RUN \<and> linked m_delay_timer s'
      \<and> expired s' m_delay_timer = expired s m_delay_timer \<and> turn_now tn \<le> expired s m_delay_timer"
    by auto
  then show ?case
  proof
    assume step: "app_turn ext tn (s, a) = Some (False, s', a') \<and> at_rest s' \<and> curr_expired s' = turn_now tn
      \<and> app_ok a' \<and> app_status a' = STATUS_RUN \<and> linked m_delay_timer s'
      \<and> expired s' m_delay_timer = expired s m_delay_timer \<and> turn_now tn \<le> expired s m_delay_timer"
    with Cons.IH [of a' s'] Cons.prems show ?thesis by auto
  qed simp
qed simp

section \<open>Properties\<close>


definition start_wheel :: wheel where
  "start_wheel = snd (the (timer_init 0 14 (wheel_new (\<lambda>t. 0))))"

lemma start_wheel_init: "timer_init 0 14 (wheel_new (\<lambda>t. 0)) = Some (0, start_wheel)"
  by (simp add: start_wheel_def timer_init_def wheel_new_def to_int16_id Let_def)

lemma start_wheel_facts: "at_rest start_wheel" "curr_expired start_wheel = 0" "\<not> linked t start_wheel"
    "max_expired start_wheel = 2 ^ 28"
proof -
  from timer_init_rest [OF start_wheel_init]
  show "at_rest start_wheel" "curr_expired start_wheel = 0" "\<not> linked t start_wheel" by simp_all
  show "max_expired start_wheel = 2 ^ 28"
    by (simp add: start_wheel_def timer_init_def wheel_new_def to_int16_id to_int32_id Let_def)
qed

lemma run_until_no_time:
  assumes "at_rest s" "now = curr_expired s"
  shows "run_until cb now s w = Some (s, w, [])"
proof -
  have le: "curr_expired s \<le> next_expired s" using assms(1) by (simp add: at_rest_def)
  have "skip_ahead now s = s" using le assms(2) by (simp add: skip_ahead_def to_int32_id Let_def)
  moreover have "run_loop cb now s w [] = Some (s, w, [])"
    using assms(2) by (subst run_loop.simps) simp
  ultimately show ?thesis using le by (simp add: run_until_def update_next_def)
qed

definition sample_turn :: "int \<Rightarrow> signal list \<Rightarrow> turn" where
  "sample_turn now gs = \<lparr>turn_now = now, turn_clock = curr_expired, turn_handlers = (\<lambda>s a. ([], a)),
     timer_body = (\<lambda>s a. ([], a)), reload_body = (\<lambda>s a. ([], a)), stop_body = (\<lambda>s a. ([], a)), turn_signals = gs, call_signals = []\<rparr>"

lemma sample_turn_ok: "turn_ok (sample_turn now gs)" "stop_ok (stop_body (sample_turn now gs))"
  by (simp_all add: turn_ok_def stop_ok_def body_ok_def sample_turn_def clock_near_def)

definition sample_app :: app where
  "sample_app = application_new\<lparr>app_status := STATUS_RUN, delay_ms := 100\<rparr>"


text \<open>With a delay below 10 ms, the default, the turn of the request asks for the end and the next turn ends.\<close>

lemma stop_without_delay:
  assumes "app_turn ext tn (s, a) = Some (b, s', a')" "turn_signals tn = gs @ [g]" "stop_signal g" "delay_ms a' < 10"
  shows "\<not> b \<and> app_status a' = STATUS_STOP"
proof -
  have "app_status (fold sig_handler (gs @ [g]) a1) = STATUS_PRE_STOP" for a1 by (rule last_stop_signal [OF assms(3)])
  with assms(1,2,4) show ?thesis
    by (auto simp: app_turn_def Let_def set_status_def status_defs split: option.splits prod.splits if_splits
        simp del: fold_append)
qed

section \<open>Facts behind the findings\<close>

text \<open>
  A reload overwrites the status with \<open>STATUS_RUN\<close>, whatever happened in the turn: a stop signal that
  arrives while \<open>on_reload\<close> runs is lost, and so is the expiry of the delay timer in the same turn, after
  which the program has neither timer left.
\<close>

lemma reload_forgets_stop:
  assumes "app_turn ext tn (s, a) = Some (b, s', a')" "turn_signals tn = gs @ [SIGUSR1]"
  shows "\<not> b \<and> app_status a' = STATUS_RUN"
proof -
  have "app_status (fold sig_handler (gs @ [SIGUSR1]) a1) = STATUS_RELOAD" for a1
    by (simp add: sig_handler_def on_signal_def set_status_def)
  with assms show ?thesis
    by (auto simp: app_turn_def Let_def set_status_def split: option.splits prod.splits simp del: fold_append)
qed

text \<open>The same for the turn that serves a stop request with a delay.\<close>

lemma delay_forgets_signals:
  assumes "app_turn ext tn (s, a) = Some (b, s', a')" "turn_signals tn = gs @ [SIGTERM]" "STATUS_STOP \<noteq> app_status a'"
  shows "\<not> b \<and> app_status a' = STATUS_RUN"
proof -
  have "app_status (fold sig_handler (gs @ [SIGTERM]) a1) = STATUS_PRE_STOP" for a1
    using last_stop_signal [of SIGTERM] by (simp add: stop_signal_def)
  with assms show ?thesis
    by (auto simp: app_turn_def Let_def set_status_def status_defs split: option.splits prod.splits if_splits simp del: fold_append)
qed

text \<open>The options are read by their first letter: \<open>-dfoo\<close> is \<open>-d\<close>, and a lone \<open>-\<close> is skipped.\<close>

lemma option_letters:
  "parse_option [''srv'', ''-dfoo'', ''-'', ''-c'', ''a.xml'', ''-w/tmp'']
     = Parsed \<lparr>config_file = Some ''a.xml'', work_path = Some ''/tmp'', daemon = True\<rparr>"
  "parse_option [''srv'', ''-d''] = BadOption" "parse_option [''srv'', ''-c''] = BadOption"
  "parse_option [''srv'', ''a.xml''] = BadOption"
  by (simp_all add: parse_option_def)

end
