(* ===== verification/Logger.thy ===== *)
theory Logger
  imports Prelude
begin

text \<open>
  \<open>framework/day_roll_logger.h\<close> and \<open>.cpp\<close>: log lines are formatted into a buffer at its write
  position and flushed to a file that changes with the date. The buffer is a block of exact size, so
  that every store behind its end is the result \<open>OutOfBounds\<close>. The files are a map from names to
  contents; what \<open>open\<close>, \<open>write\<close> and the clock answer is an argument.
\<close>

section \<open>Formatting\<close>

text \<open>The conversion \<open>%0wd\<close> of a number that is not negative.\<close>

definition pad_dec :: "nat \<Rightarrow> nat \<Rightarrow> byte list" where
  "pad_dec w n = replicate (w - length (dec_digits n)) 48 @ dec_digits n"

text \<open>\<open>m_now\<close> after \<open>tm_year += 1900\<close> and \<open>tm_mon += 1\<close>.\<close>

record tm =
  tm_year :: nat
  tm_mon :: nat
  tm_mday :: nat
  tm_hour :: nat
  tm_min :: nat
  tm_sec :: nat

definition log_level_str :: "nat \<Rightarrow> byte list" where
  "log_level_str ll = ascii ([[], ''error'', ''warn'', ''info'', ''debug'', []] ! ll)"

definition date_text :: "tm \<Rightarrow> byte list" where
  "date_text t = pad_dec 4 (tm_year t) @ [45] @ pad_dec 2 (tm_mon t) @ [45] @ pad_dec 2 (tm_mday t)"

text \<open>\<open>"%04d-%02d-%02d %02d:%02d:%02d,%s,"\<close>.\<close>

definition line_head :: "tm \<Rightarrow> nat \<Rightarrow> byte list" where
  "line_head t ll =
     date_text t @ [32] @ pad_dec 2 (tm_hour t) @ [58] @ pad_dec 2 (tm_min t) @ [58] @ pad_dec 2 (tm_sec t)
       @ [44] @ log_level_str ll @ [44]"

section \<open>State\<close>

definition LOG_LEVEL_NONE :: int where "LOG_LEVEL_NONE = 0"
definition LOG_LEVEL_ERROR :: int where "LOG_LEVEL_ERROR = 1"
definition LOG_LEVEL_DEBUG :: int where "LOG_LEVEL_DEBUG = 4"
definition MAX_PREFIX_SIZE :: nat where "MAX_PREFIX_SIZE = 1024"
definition MAX_LINE_SIZE :: int where "MAX_LINE_SIZE = 4096"
definition MIN_IOBUF_SIZE :: int where "MIN_IOBUF_SIZE = MAX_LINE_SIZE"
definition MAX_IOBUF_SIZE :: int where "MAX_IOBUF_SIZE = MAX_LINE_SIZE * 1000"
definition MAX_LINE_CONTENT :: nat where "MAX_LINE_CONTENT = 4032"

record memory_buffer =
  mb_size :: int
  mb_pos :: int
  mb_data :: "byte list"

text \<open>\<open>lg_path\<close> is the name of the file behind \<open>m_fd\<close>.\<close>

record logger =
  lg_fd :: int
  lg_path :: "byte list"
  lg_filedate :: nat
  lg_level :: int
  lg_delay :: int
  lg_buf :: "memory_buffer option"
  lg_prefix :: "byte list"
  lg_now :: tm

type_synonym disk = "byte list \<Rightarrow> byte list"

definition logger_new :: logger where
  "logger_new = \<lparr>lg_fd = -1, lg_path = [], lg_filedate = 0, lg_level = 0, lg_delay = 0, lg_buf = None,
     lg_prefix = [], lg_now = \<lparr>tm_year = 0, tm_mon = 0, tm_mday = 0, tm_hour = 0, tm_min = 0, tm_sec = 0\<rparr>\<rparr>"

text \<open>
  What the system answers during one call: the local time, the descriptor of \<open>open\<close>, the number of
  bytes that \<open>write\<close> takes of the given number, or -1.
\<close>

record log_env =
  e_now :: "tm option"
  e_open :: int
  e_write :: "int \<Rightarrow> int"

section \<open>Flushing and rolling\<close>

text \<open>
  \<open>flush\<close>. A result of -1 of \<open>write\<close> is taken for a short write: the \<open>memmove\<close> then starts at the
  byte before \<open>data\<close>, the high byte of \<open>pos\<close>. The branch for errors is never reached.
\<close>

definition flush :: "log_env \<Rightarrow> logger \<Rightarrow> disk \<Rightarrow> (int \<times> logger \<times> disk) checked" where
  "flush e l d =
     (if lg_fd l < 0 then Fine (-1, l, d)
      else case lg_buf l of
        None \<Rightarrow> OutOfBounds
      | Some b \<Rightarrow>
          if mb_pos b < 1 then Fine (-1, l, d)
          else let len = e_write e (mb_pos b);
                   pos = nat (mb_pos b);
                   d1 = d(lg_path l := d (lg_path l) @ take (nat len) (take pos (mb_data b)))
               in if len = mb_pos b then Fine (0, l\<lparr>lg_buf := Some (b\<lparr>mb_pos := 0\<rparr>)\<rparr>, d1)
                  else if len < 0
                  then (if pos + 1 > length (mb_data b) then OutOfBounds
                        else Fine (0, l\<lparr>lg_buf := Some (b\<lparr>mb_pos := mb_pos b + 1,
                               mb_data := blit (mb_data b) 0 (word_of_int (drop_bit 24 (mb_pos b)) # take pos (mb_data b))\<rparr>)\<rparr>, d1))
                  else Fine (0, l\<lparr>lg_buf := Some (b\<lparr>mb_pos := mb_pos b - len,
                               mb_data := blit (mb_data b) 0 (region (mb_data b) (nat len) (nat (mb_pos b - len)))\<rparr>)\<rparr>, d1))"

definition date_key :: "tm \<Rightarrow> nat" where
  "date_key t = push_bit 8 (tm_mon t) OR tm_mday t"

definition file_name :: "byte list \<Rightarrow> tm \<Rightarrow> byte list" where
  "file_name prefix t = take (2 * MAX_PREFIX_SIZE - 1) (prefix @ [45] @ date_text t @ ascii ''.log'')"

definition prepare :: "log_env \<Rightarrow> logger \<Rightarrow> disk \<Rightarrow> (int \<times> logger \<times> disk) checked" where
  "prepare e l d =
     (case e_now e of
        None \<Rightarrow> Fine (-1, l, d)
      | Some t \<Rightarrow>
          let l1 = l\<lparr>lg_now := t\<rparr> in
          if lg_filedate l1 = date_key t then Fine (0, l1, d)
          else if lg_prefix l1 = ascii ''/dev/null'' then Fine (0, l1, d)
          else if e_open e < 0 then Fine (-1, l1, d)
          else (case (if lg_fd l1 \<ge> 0 then flush e l1 d else Fine (0, l1, d)) of
                  OutOfBounds \<Rightarrow> OutOfBounds
                | Fine (ret, l2, d2) \<Rightarrow>
                    Fine (0, l2\<lparr>lg_fd := e_open e, lg_path := file_name (lg_prefix l2) t,
                                lg_filedate := date_key t\<rparr>, d2)))"

text \<open>
  \<open>init\<close> with a prefix; \<open>mem\<close> is the block that \<open>realloc\<close> gives, as long as was asked for.
\<close>

definition logger_buf_size :: "int \<Rightarrow> int \<times> int" where
  "logger_buf_size n =
     (if n < MIN_IOBUF_SIZE then (0, MIN_IOBUF_SIZE) else if n > MAX_IOBUF_SIZE then (1, MAX_IOBUF_SIZE) else (1, n))"

definition logger_init ::
  "log_env \<Rightarrow> byte list option \<Rightarrow> byte list \<Rightarrow> int \<Rightarrow> int \<Rightarrow> logger \<Rightarrow> disk \<Rightarrow> (int \<times> logger \<times> disk) checked" where
  "logger_init e mem prefix log_level buf_size l d =
     (let lv = (if log_level < LOG_LEVEL_ERROR then LOG_LEVEL_ERROR else log_level);
          lv = (if lv > LOG_LEVEL_DEBUG then LOG_LEVEL_DEBUG else lv);
          l1 = l\<lparr>lg_level := lv, lg_prefix := take (MAX_PREFIX_SIZE - 1) prefix\<rparr>
      in case logger_buf_size buf_size of (delay, n) \<Rightarrow>
        (case mem of
           None \<Rightarrow> Fine (-2, l1\<lparr>lg_delay := delay, lg_buf := None\<rparr>, d)
         | Some blk \<Rightarrow>
             prepare e (l1\<lparr>lg_delay := delay, lg_buf := Some \<lparr>mb_size = n - 8, mb_pos = 0, mb_data = blk\<rparr>\<rparr>) d))"

definition logger_fini :: "log_env \<Rightarrow> logger \<Rightarrow> disk \<Rightarrow> (logger \<times> disk) checked" where
  "logger_fini e l d =
     (if lg_fd l \<ge> 0
      then (case flush e l d of
              OutOfBounds \<Rightarrow> OutOfBounds
            | Fine (ret, l1, d1) \<Rightarrow>
                Fine (l1\<lparr>lg_fd := -1, lg_level := LOG_LEVEL_NONE, lg_filedate := 0, lg_prefix := [], lg_buf := None\<rparr>, d1))
      else Fine (l\<lparr>lg_buf := None\<rparr>, d))"

section \<open>Writing a line\<close>

text \<open>A store of bytes at a position of the block, or past its end.\<close>

definition store_at :: "nat \<Rightarrow> byte list \<Rightarrow> byte list \<Rightarrow> byte list option" where
  "store_at off xs blk = (if off + length xs \<le> length blk then Some (blit blk off xs) else None)"

text \<open>
  The end both functions share: \<open>n\<close> is the offset behind the line. A missing newline is added with a
  terminating 0, and the buffer is flushed when less than one line of room is left.
\<close>

definition end_line :: "log_env \<Rightarrow> nat \<Rightarrow> memory_buffer \<Rightarrow> logger \<Rightarrow> disk \<Rightarrow> (int \<times> logger \<times> disk) checked" where
  "end_line e n b l d =
     (case (if mb_data b ! (n - 1) \<noteq> 10
            then map_option (\<lambda>blk. (n + 1, blk)) (store_at n [10, 0] (mb_data b))
            else Some (n, mb_data b)) of
        None \<Rightarrow> OutOfBounds
      | Some (m, blk) \<Rightarrow>
          let b1 = b\<lparr>mb_data := blk, mb_pos := int m\<rparr>; l1 = l\<lparr>lg_buf := Some b1\<rparr> in
          if mb_size b1 - mb_pos b1 < MAX_LINE_SIZE
          then (case flush e l1 d of
                  OutOfBounds \<Rightarrow> OutOfBounds
                | Fine (ret, l2, d2) \<Rightarrow> Fine (if ret \<noteq> 0 then -3 else 0, l2, d2))
          else Fine (0, l1, d))"

text \<open>\<open>write_format\<close>; \<open>content\<close> is the text that the format and its arguments give.\<close>

definition write_format :: "log_env \<Rightarrow> int \<Rightarrow> byte list \<Rightarrow> logger \<Rightarrow> disk \<Rightarrow> (int \<times> logger \<times> disk) checked" where
  "write_format e ll content l d =
     (if lg_fd l < 0 \<or> ll > lg_level l \<or> ll < LOG_LEVEL_ERROR then Fine (-1, l, d)
      else case prepare e l d of
        OutOfBounds \<Rightarrow> OutOfBounds
      | Fine (ret, l1, d1) \<Rightarrow>
          if ret \<noteq> 0 then Fine (-1, l1, d1)
          else (case lg_buf l1 of
            None \<Rightarrow> OutOfBounds
          | Some b \<Rightarrow>
              let head = line_head (lg_now l1) (nat ll); p = nat (mb_pos b) in
              case store_at p (head @ [0]) (mb_data b) of
                None \<Rightarrow> OutOfBounds
              | Some blk1 \<Rightarrow>
                  (case store_at (p + length head) (take (MAX_LINE_CONTENT - 1) content @ [0]) blk1 of
                     None \<Rightarrow> OutOfBounds
                   | Some blk2 \<Rightarrow>
                       end_line e (p + length head + min (length content) MAX_LINE_CONTENT)
                         (b\<lparr>mb_data := blk2\<rparr>) l1 d1)))"

definition write_string :: "log_env \<Rightarrow> int \<Rightarrow> byte list \<Rightarrow> logger \<Rightarrow> disk \<Rightarrow> (int \<times> logger \<times> disk) checked" where
  "write_string e ll content l d =
     (if lg_fd l < 0 \<or> ll > lg_level l \<or> ll < LOG_LEVEL_ERROR then Fine (-1, l, d)
      else case prepare e l d of
        OutOfBounds \<Rightarrow> OutOfBounds
      | Fine (ret, l1, d1) \<Rightarrow>
          if ret \<noteq> 0 then Fine (-1, l1, d1)
          else (case lg_buf l1 of
            None \<Rightarrow> OutOfBounds
          | Some b \<Rightarrow>
              let text = line_head (lg_now l1) (nat ll) @ content; p = nat (mb_pos b) in
              case store_at p (take (nat MAX_LINE_SIZE - 1) text @ [0]) (mb_data b) of
                None \<Rightarrow> OutOfBounds
              | Some blk \<Rightarrow>
                  end_line e (p + min (length text) MAX_LINE_CONTENT) (b\<lparr>mb_data := blk\<rparr>) l1 d1))"

section \<open>The length of a line\<close>

lemma length_pad_dec: "n < 10 ^ w \<Longrightarrow> 0 < w \<Longrightarrow> length (pad_dec w n) = w"
  using length_dec_digits [of n w] by (simp add: pad_dec_def)

definition tm_ok :: "tm \<Rightarrow> bool" where
  "tm_ok t \<longleftrightarrow> tm_year t < 10000 \<and> tm_mon t < 100 \<and> tm_mday t < 100 \<and> tm_hour t < 100
     \<and> tm_min t < 100 \<and> tm_sec t < 100"

lemma log_level_str_length: "ll \<le> 5 \<Longrightarrow> length (log_level_str ll) \<le> 5"
  by (simp add: log_level_str_def ascii_def less_Suc_eq_le numeral_eq_Suc le_Suc_eq) auto

lemma line_head_length:
  assumes "tm_ok t" "ll \<le> 5"
  shows "length (line_head t ll) \<le> 26" "line_head t ll \<noteq> []"
proof -
  note f = length_pad_dec [of "tm_year t" 4] length_pad_dec [of _ 2]
  show "length (line_head t ll) \<le> 26"
    using assms(1) log_level_str_length [OF assms(2)]
    by (simp add: line_head_def date_text_def tm_ok_def f)
  show "line_head t ll \<noteq> []" by (simp add: line_head_def)
qed

section \<open>The buffer\<close>

text \<open>
  Between calls the buffer is empty or has room for a line of 4096 bytes. Its size is at least 4088:
  4096 less the two fields in front.
\<close>

definition log_room :: "memory_buffer \<Rightarrow> bool" where
  "log_room b \<longleftrightarrow> int (length (mb_data b)) = mb_size b \<and> 4088 \<le> mb_size b \<and> 0 \<le> mb_pos b
     \<and> (mb_pos b = 0 \<or> MAX_LINE_SIZE \<le> mb_size b - mb_pos b)"

definition buffered :: "memory_buffer \<Rightarrow> byte list" where
  "buffered b = take (nat (mb_pos b)) (mb_data b)"

definition logger_inv :: "logger \<Rightarrow> bool" where
  "logger_inv l \<longleftrightarrow> 0 \<le> lg_fd l \<and> lg_level l \<le> LOG_LEVEL_DEBUG \<and> (\<exists>b. lg_buf l = Some b \<and> log_room b)"

lemma logger_init_inv:
  assumes "logger_init e (Some blk) prefix lv n logger_new d = Fine (0, l, d')"
    and "int (length blk) = snd (logger_buf_size n) - 8" "prefix \<noteq> ascii ''/dev/null''"
    and "length prefix < MAX_PREFIX_SIZE" "\<forall>t. e_now e = Some t \<longrightarrow> date_key t \<noteq> 0"
  shows "logger_inv l"
  using assms
  by (auto simp: logger_init_def prepare_def logger_new_def logger_inv_def log_room_def logger_buf_size_def
      LOG_LEVEL_DEBUG_def LOG_LEVEL_ERROR_def MIN_IOBUF_SIZE_def MAX_IOBUF_SIZE_def MAX_LINE_SIZE_def
      Let_def split: option.splits if_splits)

text \<open>A file system that takes every byte.\<close>

definition writes_all :: "log_env \<Rightarrow> bool" where
  "writes_all e \<longleftrightarrow> (\<forall>k. e_write e k = k)"

lemma flush_all:
  assumes "writes_all e" "0 \<le> lg_fd l" "lg_buf l = Some b" "1 \<le> mb_pos b"
  shows "flush e l d = Fine (0, l\<lparr>lg_buf := Some (b\<lparr>mb_pos := 0\<rparr>)\<rparr>, d(lg_path l := d (lg_path l) @ buffered b))"
  using assms by (auto simp: flush_def writes_all_def buffered_def Let_def)

lemma store_at_Some:
  assumes "off + length xs \<le> length blk"
  obtains blk' where "store_at off xs blk = Some blk'" "length blk' = length blk"
    "take (off + length xs) blk' = take off blk @ xs" "\<And>n. n \<le> off \<Longrightarrow> take n blk' = take n blk"
proof (rule that [of "blit blk off xs"])
  show "store_at off xs blk = Some (blit blk off xs)" using assms by (simp add: store_at_def)
  show "length (blit blk off xs) = length blk" using assms by (simp add: length_blit)
  show "take (off + length xs) (blit blk off xs) = take off blk @ xs"
    using assms by (simp add: blit_def)
  show "take n (blit blk off xs) = take n blk" if "n \<le> off" for n
    using assms that by (simp add: blit_def min_def)
qed

text \<open>The stored line: the text and a newline if it does not end in one.\<close>

definition with_newline :: "byte list \<Rightarrow> byte list" where
  "with_newline xs = (if last xs = 10 then xs else xs @ [10])"

lemma end_line_ok:
  assumes all: "writes_all e" and fd: "0 \<le> lg_fd l" and lv: "lg_level l \<le> LOG_LEVEL_DEBUG"
    and len: "int (length (mb_data b)) = mb_size b" "4088 \<le> mb_size b"
    and line: "take n (mb_data b) = old @ text" "text \<noteq> []" "n = length (old @ text)"
    and room: "n + 2 \<le> length (mb_data b)"
  obtains l' d' b' where "end_line e n b l d = Fine (0, l', d')" "lg_buf l' = Some b'" "log_room b'"
    "l'\<lparr>lg_buf := None\<rparr> = l\<lparr>lg_buf := None\<rparr>"
    "d' (lg_path l) @ buffered b' = d (lg_path l) @ old @ with_newline text" "\<And>p. p \<noteq> lg_path l \<Longrightarrow> d' p = d p"
proof -
  have n: "0 < n" using line(2,3) by simp
  have ch: "mb_data b ! (n - 1) = last text"
  proof -
    have "mb_data b ! (n - 1) = take n (mb_data b) ! (n - 1)" using n by simp
    also have "\<dots> = last (old @ text)" using line n by (simp add: last_conv_nth)
    also have "\<dots> = last text" using line(2) by simp
    finally show ?thesis .
  qed
  have two: "n + length [10, 0 :: byte] \<le> length (mb_data b)" using room by simp
  obtain blk' where st: "store_at n [10, 0] (mb_data b) = Some blk'" "length blk' = length (mb_data b)"
    "take (n + 2) blk' = take n (mb_data b) @ [10, 0]"
    by (rule store_at_Some [OF two]) simp
  have one: "take (n + 1) blk' = take n (mb_data b) @ [10]"
  proof -
    have "take (n + 1) blk' = take (n + 1) (take (n + 2) blk')" by simp
    also have "\<dots> = take n (mb_data b) @ [10]" using room unfolding st(3) by simp
    finally show ?thesis .
  qed
  define m where "m = (if last text = 10 then n else n + 1)"
  define blk where "blk = (if last text = 10 then mb_data b else blk')"
  define b1 where "b1 = b\<lparr>mb_data := blk, mb_pos := int m\<rparr>"
  define l1 where "l1 = l\<lparr>lg_buf := Some b1\<rparr>"
  have b1: "buffered b1 = old @ with_newline text" "int (length (mb_data b1)) = mb_size b1" "mb_size b1 = mb_size b"
    "1 \<le> mb_pos b1" "lg_buf l1 = Some b1" "lg_fd l1 = lg_fd l" "lg_path l1 = lg_path l"
    "l1\<lparr>lg_buf := None\<rparr> = l\<lparr>lg_buf := None\<rparr>"
    using line one st(2) len n
    by (auto simp: b1_def l1_def m_def blk_def buffered_def with_newline_def Suc_le_eq)
  have eq: "end_line e n b l d =
      (if mb_size b1 - mb_pos b1 < MAX_LINE_SIZE
       then (case flush e l1 d of
               OutOfBounds \<Rightarrow> OutOfBounds
             | Fine (ret, l2, d2) \<Rightarrow> Fine (if ret \<noteq> 0 then -3 else 0, l2, d2))
       else Fine (0, l1, d))"
    using ch st(1) by (simp add: end_line_def m_def blk_def b1_def l1_def Let_def)
  show ?thesis
  proof (cases "mb_size b1 - mb_pos b1 < MAX_LINE_SIZE")
    case True
    have fl: "0 \<le> lg_fd l1" using fd b1(6) by simp
    from eq True have "end_line e n b l d = Fine (0, l1\<lparr>lg_buf := Some (b1\<lparr>mb_pos := 0\<rparr>)\<rparr>,
        d(lg_path l1 := d (lg_path l1) @ buffered b1))"
      unfolding flush_all [OF all fl b1(5,4)] by simp
    then show ?thesis
      by (rule that [of _ _ "b1\<lparr>mb_pos := 0\<rparr>"]) (use b1 len(2) in \<open>simp_all add: log_room_def buffered_def\<close>)
  next
    case False
    with eq have "end_line e n b l d = Fine (0, l1, d)" by simp
    then show ?thesis
      by (rule that [of _ _ b1]) (use b1 len(2) False in \<open>simp_all add: log_room_def\<close>)
  qed
qed

text \<open>The content as it ends up in the buffer: cut to 4031 bytes, with the terminating 0 behind it.\<close>

definition cut_content :: "byte list \<Rightarrow> byte list" where
  "cut_content content =
     (if length content < MAX_LINE_CONTENT then content else take (MAX_LINE_CONTENT - 1) content @ [0])"

definition log_line :: "tm \<Rightarrow> nat \<Rightarrow> byte list \<Rightarrow> byte list" where
  "log_line t ll content = with_newline (line_head t ll @ cut_content content)"

lemma format_line:
  assumes all: "writes_all e" and fd: "0 \<le> lg_fd l" and lv: "lg_level l \<le> LOG_LEVEL_DEBUG" "ll \<le> 5"
    and b: "log_room b" and t: "tm_ok t"
  obtains blk1 blk2 l' d' b' where "store_at (nat (mb_pos b)) (line_head t ll @ [0]) (mb_data b) = Some blk1"
    "store_at (nat (mb_pos b) + length (line_head t ll)) (take (MAX_LINE_CONTENT - 1) content @ [0]) blk1 = Some blk2"
    "end_line e (nat (mb_pos b) + length (line_head t ll) + min (length content) MAX_LINE_CONTENT)
       (b\<lparr>mb_data := blk2\<rparr>) l d = Fine (0, l', d')"
    "lg_buf l' = Some b'" "log_room b'" "l'\<lparr>lg_buf := None\<rparr> = l\<lparr>lg_buf := None\<rparr>"
    "d' (lg_path l) @ buffered b' = d (lg_path l) @ buffered b @ log_line t ll content"
    "\<And>p. p \<noteq> lg_path l \<Longrightarrow> d' p = d p"
proof -
  let ?h = "line_head t ll" and ?p = "nat (mb_pos b)" and ?body = "take (MAX_LINE_CONTENT - 1) content @ [0]"
  note h = line_head_length [OF t lv(2)]
  have sz: "?p + 4088 \<le> length (mb_data b)"
    using b by (auto simp: log_room_def MAX_LINE_SIZE_def)
  have body: "length ?body \<le> 4032" by (simp add: MAX_LINE_CONTENT_def)
  have f1: "?p + length (?h @ [0]) \<le> length (mb_data b)" using sz h(1) by simp
  obtain blk1 where s1: "store_at ?p (?h @ [0]) (mb_data b) = Some blk1" "length blk1 = length (mb_data b)"
    "take (?p + length (?h @ [0])) blk1 = take ?p (mb_data b) @ ?h @ [0]"
    by (rule store_at_Some [OF f1]) blast
  have head: "take (?p + length ?h) blk1 = buffered b @ ?h"
  proof -
    have "take (?p + length ?h) blk1 = take (?p + length ?h) (take (?p + length (?h @ [0])) blk1)" by simp
    also have "\<dots> = buffered b @ ?h" using sz unfolding s1(3) buffered_def by simp
    finally show ?thesis .
  qed
  have f2: "?p + length ?h + length ?body \<le> length blk1" using sz h(1) body s1(2) by linarith
  obtain blk2 where s2: "store_at (?p + length ?h) ?body blk1 = Some blk2" "length blk2 = length blk1"
    "take (?p + length ?h + length ?body) blk2 = take (?p + length ?h) blk1 @ ?body"
    by (rule store_at_Some [OF f2]) blast
  let ?n = "?p + length ?h + min (length content) MAX_LINE_CONTENT"
  have cut: "length (cut_content content) = min (length content) MAX_LINE_CONTENT"
    "take (length (cut_content content)) ?body = cut_content content"
    by (auto simp: cut_content_def MAX_LINE_CONTENT_def min_def)
  have le: "length (cut_content content) \<le> length ?body"
    by (auto simp: cut_content_def MAX_LINE_CONTENT_def min_def)
  have line: "take ?n blk2 = buffered b @ ?h @ cut_content content"
  proof -
    have "take ?n blk2 = take ?n (take (?p + length ?h + length ?body) blk2)"
      using le unfolding cut(1) [symmetric] by (simp add: min_def)
    also have "\<dots> = take ?n ((buffered b @ ?h) @ ?body)" unfolding s2(3) head ..
    also have "\<dots> = (buffered b @ ?h) @ take (length (cut_content content)) ?body"
      using sz unfolding cut(1) [symmetric] by (simp add: buffered_def)
    finally show ?thesis unfolding cut(2) by simp
  qed
  let ?b = "b\<lparr>mb_data := blk2\<rparr>"
  have len: "int (length (mb_data ?b)) = mb_size ?b" "4088 \<le> mb_size ?b"
    using b s1(2) s2(2) by (simp_all add: log_room_def)
  have n: "?n = length (buffered b @ ?h @ cut_content content)"
    using sz cut(1) by (simp add: buffered_def)
  have room: "?n + 2 \<le> length (mb_data ?b)"
    using sz h(1) s1(2) s2(2) by (simp add: MAX_LINE_CONTENT_def)
  have line': "take ?n (mb_data ?b) = buffered b @ ?h @ cut_content content" "?h @ cut_content content \<noteq> []"
    using line h(2) by simp_all
  from end_line_ok [OF all fd lv(1) len line' n room] obtain l' d' b' where
    "end_line e ?n ?b l d = Fine (0, l', d')" "lg_buf l' = Some b'" "log_room b'"
    "l'\<lparr>lg_buf := None\<rparr> = l\<lparr>lg_buf := None\<rparr>"
    "d' (lg_path l) @ buffered b' = d (lg_path l) @ buffered b @ with_newline (?h @ cut_content content)"
    "\<And>p. p \<noteq> lg_path l \<Longrightarrow> d' p = d p"
    by metis
  with s1(1) s2(1) show thesis
    by (intro that [of blk1 blk2 l' d' b']) (auto simp: log_line_def)
qed

text \<open>What \<open>prepare\<close> does: nothing, or it moves the buffered lines to the old file and opens the next.\<close>

definition rolls :: "tm \<Rightarrow> logger \<Rightarrow> bool" where
  "rolls t l \<longleftrightarrow> lg_filedate l \<noteq> date_key t \<and> lg_prefix l \<noteq> ascii ''/dev/null''"

lemma prepare_ok:
  assumes "logger_inv l" "lg_buf l = Some b" "e_now e = Some t" "writes_all e"
  obtains (fails) "rolls t l" "e_open e < 0" "prepare e l d = Fine (-1, l\<lparr>lg_now := t\<rparr>, d)"
  | (same) "\<not> rolls t l" "prepare e l d = Fine (0, l\<lparr>lg_now := t\<rparr>, d)"
  | (rolled) l1 where "rolls t l" "0 \<le> e_open e"
      "prepare e l d = Fine (0, l1, d(lg_path l := d (lg_path l) @ buffered b))"
      "l1\<lparr>lg_buf := None\<rparr> = l\<lparr>lg_now := t, lg_fd := e_open e, lg_path := file_name (lg_prefix l) t,
          lg_filedate := date_key t, lg_buf := None\<rparr>"
      "lg_buf l1 = Some (b\<lparr>mb_pos := 0\<rparr>)"
proof -
  consider "\<not> rolls t l" | "rolls t l" "e_open e < 0" | "rolls t l" "0 \<le> e_open e" by linarith
  then show thesis
  proof cases
    case 1
    then show ?thesis using assms(3) by (intro same) (auto simp: rolls_def prepare_def Let_def)
  next
    case 2
    then show ?thesis using assms(3) by (intro fails) (auto simp: rolls_def prepare_def Let_def)
  next
    case 3
    let ?l = "l\<lparr>lg_now := t\<rparr>"
    have fd: "0 \<le> lg_fd ?l" and pos: "0 \<le> mb_pos b" and buf: "lg_buf ?l = Some b"
      using assms(1,2) by (auto simp: logger_inv_def log_room_def)
    show ?thesis
    proof (cases "mb_pos b = 0")
      case True
      then have "flush e ?l d = Fine (-1, ?l, d)" using assms(2) fd by (simp add: flush_def)
      moreover have "d(lg_path l := d (lg_path l) @ buffered b) = d" "b\<lparr>mb_pos := 0\<rparr> = b"
        using True by (auto simp: buffered_def)
      ultimately show ?thesis
        using 3 assms(2,3) fd
        by (intro rolled [of "?l\<lparr>lg_fd := e_open e, lg_path := file_name (lg_prefix l) t, lg_filedate := date_key t\<rparr>"])
          (auto simp: rolls_def prepare_def Let_def)
    next
      case False
      then have "1 \<le> mb_pos b" using pos by simp
      from flush_all [OF assms(4) fd buf this] show ?thesis
        using 3 assms(2,3) fd
        by (intro rolled [of "?l\<lparr>lg_buf := Some (b\<lparr>mb_pos := 0\<rparr>), lg_fd := e_open e,
              lg_path := file_name (lg_prefix l) t, lg_filedate := date_key t\<rparr>"])
          (auto simp: rolls_def prepare_def Let_def)
    qed
  qed
qed

lemma write_format_unfold:
  assumes "0 \<le> lg_fd l" "1 \<le> ll" "ll \<le> lg_level l" "prepare e l d = Fine (0, l1, d1)" "lg_buf l1 = Some b"
    and "store_at (nat (mb_pos b)) (line_head (lg_now l1) (nat ll) @ [0]) (mb_data b) = Some blk1"
    and "store_at (nat (mb_pos b) + length (line_head (lg_now l1) (nat ll)))
           (take (MAX_LINE_CONTENT - 1) content @ [0]) blk1 = Some blk2"
  shows "write_format e ll content l d =
    end_line e (nat (mb_pos b) + length (line_head (lg_now l1) (nat ll)) + min (length content) MAX_LINE_CONTENT)
       (b\<lparr>mb_data := blk2\<rparr>) l1 d1"
  using assms by (simp add: write_format_def LOG_LEVEL_ERROR_def Let_def)

lemma write_after_prepare:
  assumes "0 \<le> lg_fd l" "1 \<le> ll" "ll \<le> lg_level l" "writes_all e" "tm_ok t"
    and p: "prepare e l d = Fine (0, l1, d1)" "lg_buf l1 = Some b" "log_room b" "lg_now l1 = t" "0 \<le> lg_fd l1"
    "lg_level l1 \<le> LOG_LEVEL_DEBUG" "lg_level l1 = lg_level l"
  shows "\<exists>l2 d2 b2. write_format e ll content l d = Fine (0, l2, d2) \<and> lg_buf l2 = Some b2 \<and> logger_inv l2
    \<and> lg_path l2 = lg_path l1 \<and> d2 (lg_path l1) @ buffered b2 = d1 (lg_path l1) @ buffered b @ log_line t (nat ll) content
    \<and> (\<forall>p. p \<noteq> lg_path l1 \<longrightarrow> d2 p = d1 p)"
proof -
  have ll: "nat ll \<le> 5" using assms(3) p(6,7) by (simp add: LOG_LEVEL_DEBUG_def)
  obtain blk1 blk2 l2 d2 b2 where w: "store_at (nat (mb_pos b)) (line_head t (nat ll) @ [0]) (mb_data b) = Some blk1"
    "store_at (nat (mb_pos b) + length (line_head t (nat ll))) (take (MAX_LINE_CONTENT - 1) content @ [0]) blk1 = Some blk2"
    "end_line e (nat (mb_pos b) + length (line_head t (nat ll)) + min (length content) MAX_LINE_CONTENT)
       (b\<lparr>mb_data := blk2\<rparr>) l1 d1 = Fine (0, l2, d2)"
    "lg_buf l2 = Some b2" "log_room b2" "l2\<lparr>lg_buf := None\<rparr> = l1\<lparr>lg_buf := None\<rparr>"
    "d2 (lg_path l1) @ buffered b2 = d1 (lg_path l1) @ buffered b @ log_line t (nat ll) content"
    "\<And>p. p \<noteq> lg_path l1 \<Longrightarrow> d2 p = d1 p"
    by (rule format_line [OF assms(4) p(5,6) ll p(3) assms(5), where content = content and d = d1]) blast
  have same: "lg_fd l2 = lg_fd l1" "lg_level l2 = lg_level l1" "lg_path l2 = lg_path l1"
    using arg_cong [OF w(6), of lg_fd] arg_cong [OF w(6), of lg_level] arg_cong [OF w(6), of lg_path] by simp_all
  have run: "write_format e ll content l d = Fine (0, l2, d2)"
    using write_format_unfold [OF assms(1-3) p(1,2), unfolded p(4), OF w(1,2)] w(3) by simp
  have "logger_inv l2" using same w(4,5) p(5,6) by (simp add: logger_inv_def)
  with run w(4,7,8) same(3) show ?thesis by blast
qed

section \<open>Properties\<close>

text \<open>C13: The logger loses no line and stays inside its buffer while the disk takes what it is given. Assumed is an
  open logger and a \<open>write\<close> that takes all bytes (after a failing one the buffered lines move up and a later
  line leaves the block, \<open>failed_flush_shifts\<close> and \<open>full_buffer_overflows\<close>). Then \<open>write_format\<close> at an
  enabled level never leaves the buffer, whatever the length of the text. When the date has changed
  and the new day's file cannot be opened, the line is dropped: the answer is -1, and file and buffer
  stay as they were. Otherwise the line is added behind everything written before: to the same file and
  buffer, or, when the date has changed, to the new day's file after the buffered lines have been
  completed in the old one.\<close>

theorem log_line_written:
  assumes "logger_inv l" "lg_buf l = Some b" "e_now e = Some t" "tm_ok t" "writes_all e" "1 \<le> ll" "ll \<le> lg_level l"
  shows "\<exists>ret l' d' b'. write_format e ll content l d = Fine (ret, l', d') \<and> logger_inv l' \<and> lg_buf l' = Some b'
    \<and> (if rolls t l \<and> e_open e < 0 then ret = -1 \<and> d' = d \<and> b' = b
       else ret = 0 \<and>
         (if rolls t l
          then lg_path l' = file_name (lg_prefix l) t \<and>
            (lg_path l' \<noteq> lg_path l \<longrightarrow> d' (lg_path l) = d (lg_path l) @ buffered b
               \<and> d' (lg_path l') @ buffered b' = d (lg_path l') @ log_line t (nat ll) content)
          else lg_path l' = lg_path l
            \<and> d' (lg_path l) @ buffered b' = d (lg_path l) @ buffered b @ log_line t (nat ll) content))"
proof -
  have fd: "0 \<le> lg_fd l" and lv: "lg_level l \<le> LOG_LEVEL_DEBUG" and room: "log_room b"
    using assms(1,2) by (auto simp: logger_inv_def)
  from assms(1,2,3,5) show ?thesis
  proof (cases rule: prepare_ok [where d = d])
    case fails
    then have "write_format e ll content l d = Fine (-1, l\<lparr>lg_now := t\<rparr>, d)"
      using fd assms(6,7) by (simp add: write_format_def LOG_LEVEL_ERROR_def)
    with fails assms(1,2) show ?thesis by (auto simp: logger_inv_def)
  next
    case same
    have "lg_buf (l\<lparr>lg_now := t\<rparr>) = Some b" "0 \<le> lg_fd (l\<lparr>lg_now := t\<rparr>)" using assms(2) fd by simp_all
    from write_after_prepare [OF fd assms(6,7,5,4) same(2) this(1) room _ this(2), of content] lv same(1)
    show ?thesis by auto
  next
    case (rolled l1)
    have eq: "lg_fd l1 = e_open e" "lg_path l1 = file_name (lg_prefix l) t" "lg_now l1 = t" "lg_level l1 = lg_level l"
      using arg_cong [OF rolled(4), of lg_fd] arg_cong [OF rolled(4), of lg_path]
        arg_cong [OF rolled(4), of lg_now] arg_cong [OF rolled(4), of lg_level] by simp_all
    have "log_room (b\<lparr>mb_pos := 0\<rparr>)" "buffered (b\<lparr>mb_pos := 0\<rparr>) = []"
      using room by (simp_all add: log_room_def buffered_def)
    moreover have "0 \<le> lg_fd l1" "lg_level l1 \<le> LOG_LEVEL_DEBUG" using rolled(2) eq lv by simp_all
    ultimately show ?thesis
      using write_after_prepare [OF fd assms(6,7,5,4) rolled(3,5) _ eq(3) _ _ eq(4), of content] rolled(1,2) eq(2)
      by auto
  qed
qed

definition sample_tm :: tm where
  "sample_tm = \<lparr>tm_year = 2011, tm_mon = 10, tm_mday = 19, tm_hour = 9, tm_min = 5, tm_sec = 0\<rparr>"

definition sample_log_buf :: memory_buffer where
  "sample_log_buf = \<lparr>mb_size = 4088, mb_pos = 0, mb_data = replicate 4088 0\<rparr>"

definition sample_logger :: logger where
  "sample_logger = logger_new\<lparr>lg_fd := 3, lg_path := ascii ''srv-2011-10-18.log'', lg_filedate := 2578,
     lg_level := 3, lg_buf := Some sample_log_buf, lg_prefix := ascii ''srv''\<rparr>"

definition sample_log_env :: log_env where
  "sample_log_env = \<lparr>e_now = Some sample_tm, e_open = 4, e_write = (\<lambda>k. k)\<rparr>"

lemma sample_log_values:
  "file_name (lg_prefix sample_logger) sample_tm = ascii ''srv-2011-10-19.log''"
  "log_line sample_tm 1 (ascii ''disk full'') = ascii ''2011-10-19 09:05:00,error,disk full'' @ [10]"
  "rolls sample_tm sample_logger" "ascii ''srv-2011-10-19.log'' \<noteq> lg_path sample_logger"
proof -
  have d: "dec_digits 2011 = [50, 48, 49, 49]" "dec_digits 10 = [49, 48]" "dec_digits 19 = [49, 57]"
    "dec_digits 9 = [57]" "dec_digits 5 = [53]" "dec_digits 0 = [48]"
    by (simp_all add: dec_digits.simps)
  show "file_name (lg_prefix sample_logger) sample_tm = ascii ''srv-2011-10-19.log''"
    by (simp add: file_name_def sample_logger_def sample_tm_def date_text_def pad_dec_def d ascii_def
        MAX_PREFIX_SIZE_def)
  show "log_line sample_tm 1 (ascii ''disk full'') = ascii ''2011-10-19 09:05:00,error,disk full'' @ [10]"
    by (simp add: log_line_def with_newline_def cut_content_def line_head_def log_level_str_def
        sample_tm_def date_text_def pad_dec_def d ascii_def MAX_LINE_CONTENT_def)
  have "date_key sample_tm = 2579" unfolding date_key_def sample_tm_def by simp
  then show "rolls sample_tm sample_logger"
    by (simp add: rolls_def sample_logger_def ascii_def)
  show "ascii ''srv-2011-10-19.log'' \<noteq> lg_path sample_logger"
    by (simp add: sample_logger_def ascii_def)
qed

theorem log_line_written_witness:
  "\<exists>l' d' b'. write_format sample_log_env 1 (ascii ''disk full'') sample_logger (\<lambda>p. []) = Fine (0, l', d')
     \<and> lg_buf l' = Some b'
     \<and> d' (ascii ''srv-2011-10-19.log'') @ buffered b' = ascii ''2011-10-19 09:05:00,error,disk full'' @ [10]"
proof -
  have inv: "logger_inv sample_logger" "lg_buf sample_logger = Some sample_log_buf"
    by (simp_all add: logger_inv_def sample_logger_def sample_log_buf_def log_room_def LOG_LEVEL_DEBUG_def)
  have env: "e_now sample_log_env = Some sample_tm" "tm_ok sample_tm" "writes_all sample_log_env"
    "\<not> e_open sample_log_env < 0"
    by (simp_all add: sample_log_env_def writes_all_def tm_ok_def sample_tm_def)
  have lv: "1 \<le> (1 :: int)" "1 \<le> lg_level sample_logger" by (simp_all add: sample_logger_def)
  from log_line_written [OF inv env(1-3) lv, of "ascii ''disk full''" "\<lambda>p. []"] obtain ret l' d' b' where
    r: "write_format sample_log_env 1 (ascii ''disk full'') sample_logger (\<lambda>p. []) = Fine (ret, l', d')"
    "lg_buf l' = Some b'" "ret = 0" "lg_path l' = ascii ''srv-2011-10-19.log''"
    "d' (lg_path l') @ buffered b' = [] @ log_line sample_tm (nat 1) (ascii ''disk full'')"
    using sample_log_values(3,4) env(4) unfolding sample_log_values(1) by auto
  have "nat 1 = (1 :: nat)" by simp
  with r sample_log_values(2) show ?thesis by auto
qed

section \<open>Facts behind the findings\<close>

text \<open>A failed \<open>write\<close> is taken for a short one: the lines move one byte up and \<open>flush\<close> reports success.\<close>

lemma failed_flush_shifts:
  assumes "0 \<le> lg_fd l" "lg_buf l = Some b" "1 \<le> mb_pos b" "e_write e (mb_pos b) = -1"
    and "mb_pos b < int (length (mb_data b))" "mb_pos b < 2 ^ 24"
  shows "\<exists>b'. flush e l d = Fine (0, l\<lparr>lg_buf := Some b'\<rparr>, d) \<and> mb_pos b' = mb_pos b + 1
    \<and> buffered b' = 0 # buffered b"
proof -
  have z: "drop_bit 24 (mb_pos b) = 0" using assms(3,6) by (simp add: drop_bit_eq_div)
  have fit: "nat (mb_pos b) + 1 \<le> length (mb_data b)" using assms(3,5) by linarith
  have nn: "nat (mb_pos b + 1) = Suc (nat (mb_pos b))" using assms(3) by simp
  let ?b = "b\<lparr>mb_pos := mb_pos b + 1, mb_data := blit (mb_data b) 0 (0 # take (nat (mb_pos b)) (mb_data b))\<rparr>"
  have "flush e l d = Fine (0, l\<lparr>lg_buf := Some ?b\<rparr>, d)"
    using assms z fit by (simp add: flush_def Let_def)
  moreover have "buffered ?b = 0 # buffered b"
    using fit by (simp add: buffered_def blit_def nn)
  ultimately show ?thesis by (intro exI [of _ ?b]) simp
qed

text \<open>With no room left, which failing or short writes lead to, the next line is stored past the block.\<close>

lemma full_buffer_overflows:
  assumes "prepare e l d = Fine (0, l1, d1)" "0 \<le> lg_fd l" "1 \<le> ll" "ll \<le> lg_level l" "lg_buf l1 = Some b"
    and "int (length (mb_data b)) \<le> mb_pos b"
  shows "write_format e ll content l d = OutOfBounds"
proof -
  have "\<not> nat (mb_pos b) + length (xs @ [0 :: byte]) \<le> length (mb_data b)" for xs
    using assms(6) by (auto simp: not_le)
  then have "store_at (nat (mb_pos b)) (xs @ [0]) (mb_data b) = None" for xs
    by (simp only: store_at_def if_False)
  with assms(1-5) show ?thesis by (simp add: write_format_def LOG_LEVEL_ERROR_def Let_def)
qed

text \<open>A line that is cut ends in a 0 byte, which \<open>vsnprintf\<close> put there.\<close>

lemma cut_line_has_zero: "MAX_LINE_CONTENT \<le> length content \<Longrightarrow> 0 \<in> set (log_line t ll content)"
  by (simp add: log_line_def with_newline_def cut_content_def)

text \<open>
  Without a buffer size the block has 4088 bytes, but \<open>write_string\<close> allows \<open>snprintf\<close> to store 4096.
\<close>

lemma long_string_overflows:
  assumes "prepare e l d = Fine (0, l1, d1)" "0 \<le> lg_fd l" "1 \<le> ll" "ll \<le> lg_level l"
    and "lg_buf l1 = Some b" "mb_pos b = 0" "length (mb_data b) = 4088" "4088 \<le> length content"
  shows "write_string e ll content l d = OutOfBounds"
proof -
  let ?text = "line_head (lg_now l1) (nat ll) @ content"
  have "line_head (lg_now l1) (nat ll) \<noteq> []" by (simp add: line_head_def)
  then have "1 \<le> length (line_head (lg_now l1) (nat ll))" by (simp add: Suc_le_eq)
  with assms(7,8) have "\<not> 0 + length (take (nat MAX_LINE_SIZE - 1) ?text @ [0]) \<le> length (mb_data b)"
    by (simp add: MAX_LINE_SIZE_def)
  then have "store_at 0 (take (nat MAX_LINE_SIZE - 1) ?text @ [0]) (mb_data b) = None"
    by (simp only: store_at_def if_False)
  with assms(1-6) show ?thesis by (simp add: write_string_def LOG_LEVEL_ERROR_def Let_def)
qed

end
