(* ===== verification/TimeUtil.thy ===== *)
theory TimeUtil
  imports Prelude "HOL-Library.Product_Lexorder"
begin

text \<open>
  \<open>framework/time_util.h\<close>: the clock readings and the calendar arithmetic that the servers use for
  daily and weekly resets. Times are \<open>time_t\<close> values as integers. The local time zone is a constant
  offset \<open>off\<close> (seconds east of UTC): the zone the code is written for has no daylight saving time.
\<close>

section \<open>Local time\<close>

definition SECONDS_OF_HOUR :: int where "SECONDS_OF_HOUR = 3600"
definition SECONDS_OF_DAY :: int where "SECONDS_OF_DAY = 24 * 3600"
definition SECONDS_OF_WEEK :: int where "SECONDS_OF_WEEK = SECONDS_OF_DAY * 7"
definition INT_MAX :: int where "INT_MAX = 2147483647"

lemmas seconds_defs = SECONDS_OF_HOUR_def SECONDS_OF_DAY_def SECONDS_OF_WEEK_def

text \<open>
  \<open>struct tm\<close>: year, month and day of month are kept as the number of the day they name, counted
  from 1970-01-01 (a Thursday).
\<close>

record cal =
  cal_day :: int
  cal_hour :: int
  cal_min :: int
  cal_sec :: int
  cal_wday :: int

definition localtime :: "int \<Rightarrow> int \<Rightarrow> cal" where
  "localtime off t =
     (let s = (t + off) mod SECONDS_OF_DAY; d = (t + off) div SECONDS_OF_DAY
      in \<lparr>cal_day = d, cal_hour = s div 3600, cal_min = s mod 3600 div 60, cal_sec = s mod 60,
          cal_wday = (d + 4) mod 7\<rparr>)"

definition mktime :: "int \<Rightarrow> cal \<Rightarrow> int" where
  "mktime off c = cal_day c * SECONDS_OF_DAY + cal_hour c * 3600 + cal_min c * 60 + cal_sec c - off"

lemma hms_sum: "s div 3600 * 3600 + s mod 3600 div 60 * 60 + s mod 60 = (s :: int)"
proof -
  have "s mod 3600 mod 60 = s mod 60" by (rule mod_mod_cancel) simp
  then show ?thesis
    using div_mult_mod_eq [of s 3600] div_mult_mod_eq [of "s mod 3600" 60] by linarith
qed

lemma hms_bounds:
  assumes "0 \<le> (s :: int)" "s < 86400"
  shows "0 \<le> s div 3600" "s div 3600 < 24" "0 \<le> s mod 3600 div 60" "s mod 3600 div 60 < 60"
    "0 \<le> s mod 60" "s mod 60 < 60"
proof -
  have "s div 3600 \<le> 86399 div 3600" using assms by (intro zdiv_mono1) simp_all
  then show "s div 3600 < 24" by simp
  have "0 \<le> s mod 3600" "s mod 3600 \<le> 3599" using pos_mod_bound [of 3600 s] by simp_all
  moreover from this have "s mod 3600 div 60 \<le> 3599 div 60" by (intro zdiv_mono1) simp_all
  ultimately show "0 \<le> s mod 3600 div 60" "s mod 3600 div 60 < 60" by (simp_all add: pos_imp_zdiv_nonneg_iff)
qed (use assms in \<open>simp_all add: pos_imp_zdiv_nonneg_iff\<close>)

lemma div_eq_iff_range:
  assumes "0 < (n :: int)"
  shows "x div n = q \<longleftrightarrow> q * n \<le> x \<and> x < (q + 1) * n"
proof
  assume "x div n = q"
  then have "x = q * n + x mod n" using div_mult_mod_eq [of x n] by simp
  with pos_mod_sign [OF assms, of x] pos_mod_bound [OF assms, of x]
  show "q * n \<le> x \<and> x < (q + 1) * n" by (simp add: algebra_simps)
next
  assume "q * n \<le> x \<and> x < (q + 1) * n"
  then show "x div n = q"
    by (intro int_div_pos_eq [of _ _ _ "x - q * n"]) (simp_all add: algebra_simps)
qed

lemma mktime_localtime: "mktime off (localtime off t) = t"
proof -
  define s where "s = (t + off) mod SECONDS_OF_DAY"
  define d where "d = (t + off) div SECONDS_OF_DAY"
  have "localtime off t = \<lparr>cal_day = d, cal_hour = s div 3600, cal_min = s mod 3600 div 60, cal_sec = s mod 60,
      cal_wday = (d + 4) mod 7\<rparr>"
    by (simp only: localtime_def Let_def s_def d_def)
  then have "mktime off (localtime off t) = d * SECONDS_OF_DAY + s - off"
    using hms_sum [of s] by (simp add: mktime_def)
  moreover have "d * SECONDS_OF_DAY + s = t + off" unfolding d_def s_def by (rule div_mult_mod_eq)
  ultimately show ?thesis by linarith
qed

section \<open>The clock\<close>

definition time_ms :: "int \<times> int \<Rightarrow> int" where
  "time_ms tv = fst tv * 1000 + c_div (snd tv) 1000"

definition time_us :: "int \<times> int \<Rightarrow> int" where
  "time_us tv = fst tv * 1000000 + snd tv"

definition clock_us :: "int \<times> int \<Rightarrow> int" where
  "clock_us ts = fst ts * 1000000 + c_div (snd ts) 1000"

text \<open>
  \<open>get_tsc_us\<close>: the list holds the readings of the two counters after each \<open>usleep\<close>; \<open>None\<close> when none
  of them shows progress of the clock.
\<close>

fun tsc_us_loop :: "int \<Rightarrow> int \<Rightarrow> (int \<times> int) list \<Rightarrow> int option" where
  "tsc_us_loop begin_tsc begin_us [] = None"
| "tsc_us_loop begin_tsc begin_us ((tsc, us) # rest) =
     (if us - begin_us < 1 then tsc_us_loop begin_tsc begin_us rest
      else Some (c_div (tsc - begin_tsc) (us - begin_us)))"

section \<open>Days\<close>

text \<open>\<open>now\<close> is \<open>time(NULL)\<close>, which replaces a time of 0.\<close>

definition elapsed_of_day :: "int \<Rightarrow> int \<Rightarrow> int \<Rightarrow> int \<Rightarrow> int" where
  "elapsed_of_day off now cur day_seconds =
     (let cur = (if cur = 0 then now else cur);
          zero = mktime off ((localtime off cur)\<lparr>cal_hour := 0, cal_min := 0, cal_sec := 0\<rparr>)
      in c_mod (cur - zero) day_seconds)"

definition is_same_day_tm :: "cal \<Rightarrow> cal \<Rightarrow> bool" where
  "is_same_day_tm a b \<longleftrightarrow> cal_day a = cal_day b"

text \<open>\<open>tz\<close> is the global \<open>timezone\<close> of the C library: seconds west of UTC.\<close>

definition is_same_day :: "int \<Rightarrow> int \<Rightarrow> int \<Rightarrow> int \<Rightarrow> bool" where
  "is_same_day tz a b day_seconds \<longleftrightarrow> c_div (a - tz) day_seconds = c_div (b - tz) day_seconds"

section \<open>Times of day\<close>

record simple_time =
  st_hour :: int
  st_min :: int
  st_sec :: int

definition seconds_of :: "simple_time \<Rightarrow> int" where
  "seconds_of a = st_hour a * SECONDS_OF_HOUR + st_min a * 60 + st_sec a"

definition seconds_diff :: "simple_time \<Rightarrow> simple_time \<Rightarrow> int" where
  "seconds_diff start fin = seconds_of fin - seconds_of start"

definition convert_from_simple_time :: "simple_time \<Rightarrow> cal \<Rightarrow> cal" where
  "convert_from_simple_time a c = c\<lparr>cal_hour := st_hour a, cal_min := st_min a, cal_sec := st_sec a\<rparr>"

definition convert_from_tm :: "cal \<Rightarrow> simple_time" where
  "convert_from_tm c = \<lparr>st_hour = cal_hour c, st_min = cal_min c, st_sec = cal_sec c\<rparr>"

definition time_cmp :: "simple_time \<Rightarrow> simple_time \<Rightarrow> int" where
  "time_cmp a b =
     (if st_hour a > st_hour b then 1
      else if st_hour a < st_hour b then -1
      else if st_min a > st_min b then 1
      else if st_min a < st_min b then -1
      else if st_sec a > st_sec b then 1
      else if st_sec a < st_sec b then -1
      else 0)"

text \<open>The order of \<open>time_cmp\<close> is a linear order on times of the day.\<close>

definition time_key :: "'a simple_time_scheme \<Rightarrow> int \<times> int \<times> int \<times> 'a" where
  "time_key a = (st_hour a, st_min a, st_sec a, simple_time.more a)"

lemma time_key_inject: "time_key a = time_key b \<longleftrightarrow> a = b"
  by (cases a; cases b) (simp add: time_key_def)

instantiation simple_time_ext :: (linorder) linorder
begin

definition less_eq_simple_time_ext :: "'a simple_time_scheme \<Rightarrow> 'a simple_time_scheme \<Rightarrow> bool" where
  "less_eq_simple_time_ext a b \<longleftrightarrow> time_key a \<le> time_key b"

definition less_simple_time_ext :: "'a simple_time_scheme \<Rightarrow> 'a simple_time_scheme \<Rightarrow> bool" where
  "less_simple_time_ext a b \<longleftrightarrow> time_key a < time_key b"

instance
  by standard (simp_all only: less_eq_simple_time_ext_def less_simple_time_ext_def less_le_not_le order_refl
      linear, auto simp flip: time_key_inject)

end

lemma time_cmp_order: "time_cmp a b = (if a < b then -1 else if a = b then 0 else 1)"
proof -
  have "time_cmp a b = (if time_key a < time_key b then -1 else if time_key a = time_key b then 0 else 1)"
    by (simp add: time_cmp_def time_key_def less_prod_def)
  then show ?thesis by (simp add: less_simple_time_ext_def time_key_inject)
qed

definition time_cmp_tm :: "cal \<Rightarrow> int \<Rightarrow> int \<Rightarrow> int \<Rightarrow> int" where
  "time_cmp_tm c h m s = time_cmp (convert_from_tm c) \<lparr>st_hour = h, st_min = m, st_sec = s\<rparr>"

text \<open>The clock is read once for the time of day and once in \<open>get_seconds_elapsed_of_the_day\<close>.\<close>

definition seconds_to_nearest_time :: "int \<Rightarrow> int \<Rightarrow> int \<Rightarrow> int \<Rightarrow> int \<Rightarrow> int \<Rightarrow> int" where
  "seconds_to_nearest_time off now1 now2 h m s =
     (let now = localtime off now1; cmp = time_cmp_tm now h m s
      in if cmp > 0 then SECONDS_OF_DAY - elapsed_of_day off now2 0 SECONDS_OF_DAY + (h * 3600 + m * 60 + s)
         else if cmp = 0 then 0
         else (h - cal_hour now) * 3600 + (m - cal_min now) * 60 - cal_sec now + s)"

section \<open>Weeks and counting days\<close>

definition elapsed_of_week :: "int \<Rightarrow> int \<Rightarrow> int \<Rightarrow> int" where
  "elapsed_of_week off now now_sec =
     (let t = (if now_sec = 0 then now else now_sec)
      in cal_wday (localtime off t) * SECONDS_OF_DAY + elapsed_of_day off now t SECONDS_OF_DAY)"

definition passed_days_between :: "int \<Rightarrow> int \<Rightarrow> int \<Rightarrow> int \<Rightarrow> int \<Rightarrow> int" where
  "passed_days_between off now last_time end_time day_seconds =
     (if last_time < 0 then INT_MAX
      else if last_time > end_time then 0
      else if last_time = end_time then 1
      else if last_time = 0
      then c_div end_time day_seconds + (if c_mod end_time day_seconds > 0 then 1 else 0)
      else let left = day_seconds - elapsed_of_day off now last_time day_seconds
           in if end_time - last_time < left then 1
              else c_div (end_time - last_time - left) day_seconds + 1
                   + (if c_mod (end_time - last_time - left) day_seconds > 0 then 1 else 0))"

definition passed_days_since :: "int \<Rightarrow> int \<Rightarrow> int \<Rightarrow> int \<Rightarrow> int" where
  "passed_days_since off now last_time day_seconds =
     (if last_time < 0 then INT_MAX
      else if last_time > now then 0
      else if last_time = now then 1
      else if last_time = 0
      then c_div now day_seconds + (if c_mod now day_seconds > 0 then 1 else 0)
      else let left = day_seconds - elapsed_of_day off now last_time day_seconds
           in if now - last_time < left then 1
              else c_div (now - last_time - left) day_seconds + 1
                   + (if c_mod (now - last_time - left) day_seconds > 0 then 1 else 0))"

definition is_same_week :: "int \<Rightarrow> int \<Rightarrow> int \<Rightarrow> int \<Rightarrow> int \<Rightarrow> bool" where
  "is_same_week off tz now a b =
     (if a = 0 \<or> b = 0 then False
      else if \<bar>a - b\<bar> > SECONDS_OF_WEEK then False
      else if is_same_day tz a b SECONDS_OF_DAY then True
      else let elapsed = elapsed_of_week off now a; left = SECONDS_OF_WEEK - elapsed
           in if b < a then (if a - b > elapsed then False else True)
              else (if b - a > left then False else True))"

section \<open>Calendar days and weeks\<close>

definition day_no :: "int \<Rightarrow> int \<Rightarrow> int" where
  "day_no off t = (t + off) div 86400"

definition week_no :: "int \<Rightarrow> int \<Rightarrow> int" where
  "week_no off t = (t + off + 4 * 86400) div 604800"

lemma elapsed_of_day_eq:
  assumes "cur \<noteq> 0"
  shows "elapsed_of_day off now cur SECONDS_OF_DAY = (cur + off) mod 86400"
proof -
  have "cur - ((cur + off) div 86400 * 86400 - off) = (cur + off) mod 86400"
    using div_mult_mod_eq [of "cur + off" 86400] by linarith
  then show ?thesis using assms
    by (simp add: elapsed_of_day_def mktime_def localtime_def SECONDS_OF_DAY_def Let_def c_mod_nonneg)
qed

lemma elapsed_of_week_eq:
  assumes "t \<noteq> 0"
  shows "elapsed_of_week off now t = (t + off + 4 * 86400) mod 604800"
proof -
  have "(t + off + 4 * 86400) mod (86400 * 7) = 86400 * ((t + off + 4 * 86400) div 86400 mod 7)
      + (t + off + 4 * 86400) mod 86400"
    by (rule zmod_zmult2_eq) simp
  also have "(t + off + 4 * 86400) div 86400 = (t + off) div 86400 + 4"
    using div_mult_self1 [of 86400 "t + off" 4] by simp
  also have "(t + off + 4 * 86400) mod 86400 = (t + off) mod 86400" by (rule mod_mult_self1)
  finally have "((t + off) div 86400 + 4) mod 7 * 86400 + (t + off) mod 86400 = (t + off + 4 * 86400) mod 604800"
    by simp
  then show ?thesis using assms elapsed_of_day_eq [OF assms, of off now]
    by (simp add: elapsed_of_week_def localtime_def SECONDS_OF_DAY_def Let_def)
qed

lemma is_same_day_iff:
  assumes "0 \<le> a + off" "0 \<le> b + off"
  shows "is_same_day (- off) a b SECONDS_OF_DAY \<longleftrightarrow> day_no off a = day_no off b"
  using assms by (simp add: is_same_day_def day_no_def SECONDS_OF_DAY_def c_div_nonneg)

lemma same_day_same_week: "day_no off a = day_no off b \<Longrightarrow> week_no off a = week_no off b"
proof -
  have "week_no off t = (day_no off t + 4) div 7" for t
  proof -
    have "(t + off + 4 * 86400) div (86400 * 7) = (t + off + 4 * 86400) div 86400 div 7"
      by (rule zdiv_zmult2_eq) simp
    also have "(t + off + 4 * 86400) div 86400 = (t + off) div 86400 + 4"
    using div_mult_self1 [of 86400 "t + off" 4] by simp
    finally show ?thesis by (simp add: week_no_def day_no_def)
  qed
  then show "day_no off a = day_no off b \<Longrightarrow> week_no off a = week_no off b" by simp
qed

lemma seconds_to_nearest_exact:
  assumes "0 \<le> h" "h < 24" "0 \<le> m" "m < 60" "0 \<le> s" "s < 60" "now \<noteq> 0"
  shows "seconds_to_nearest_time off now now h m s = (h * 3600 + m * 60 + s - (now + off)) mod 86400"
proof -
  define x where "x = (now + off) mod 86400"
  have x: "0 \<le> x" "x < 86400" by (simp_all add: x_def)
  define hh where "hh = x div 3600"
  define mm where "mm = x mod 3600 div 60"
  define ss where "ss = x mod 60"
  have b: "0 \<le> hh" "hh < 24" "0 \<le> mm" "mm < 60" "0 \<le> ss" "ss < 60" "x = hh * 3600 + mm * 60 + ss"
    using hms_bounds [OF x] hms_sum [of x] by (simp_all add: hh_def mm_def ss_def)
  define y where "y = h * 3600 + m * 60 + s"
  have el: "elapsed_of_day off now 0 SECONDS_OF_DAY = x"
    using elapsed_of_day_eq [OF assms(7)] assms(7) by (simp add: elapsed_of_day_def x_def)
  have lt: "localtime off now = \<lparr>cal_day = (now + off) div 86400, cal_hour = hh, cal_min = mm, cal_sec = ss,
      cal_wday = ((now + off) div 86400 + 4) mod 7\<rparr>"
    by (simp add: localtime_def SECONDS_OF_DAY_def x_def [symmetric] hh_def mm_def ss_def Let_def)
  have cmp: "time_cmp_tm (localtime off now) h m s = (if x > y then 1 else if x < y then -1 else 0)"
    using assms(1-6) b unfolding y_def lt time_cmp_tm_def time_cmp_def convert_from_tm_def by auto
  have r: "(y - (now + off)) mod 86400 = (y - x) mod 86400"
    unfolding x_def by (simp add: mod_diff_right_eq)
  have y: "0 \<le> y" "y < 86400" using assms(1-6) by (simp_all add: y_def)
  have "(y - x) mod 86400 = (if x > y then 86400 - x + y else y - x)"
  proof (cases "x > y")
    case True
    have "(y - x) mod 86400 = (y - x + 86400) mod 86400" by simp
    also have "\<dots> = y - x + 86400" using True x y by (intro mod_pos_pos_trivial) auto
    finally show ?thesis using True by simp
  next
    case False
    then have "(y - x) mod 86400 = y - x" using x y by (intro mod_pos_pos_trivial) auto
    then show ?thesis using False by simp
  qed
  then show ?thesis
    unfolding seconds_to_nearest_time_def Let_def cmp el y_def [symmetric] r
    by (auto simp: SECONDS_OF_DAY_def lt y_def b(7))
qed

section \<open>Properties\<close>

text \<open>\<open>is_same_week\<close> is exact but for one instant. For times after the local epoch it answers whether both
  lie in the same local week from Sunday to Saturday, except that the first second of the week after
  \<open>a\<close>, as second argument, still counts as the same week.\<close>

lemma same_week_exact:
  assumes "a \<noteq> 0" "b \<noteq> 0" "0 \<le> a + off" "0 \<le> b + off"
  shows "is_same_week off (- off) now a b \<longleftrightarrow>
    week_no off a = week_no off b \<or> b + off + 4 * 86400 = (week_no off a + 1) * 604800"
proof -
  define x where "x = a + off + 4 * 86400"
  define y where "y = b + off + 4 * 86400"
  define q where "q = x div 604800"
  define r where "r = x mod 604800"
  have x: "x = q * 604800 + r" "0 \<le> r" "r < 604800"
    by (simp_all add: q_def r_def)
  have wa: "week_no off a = q" by (simp add: week_no_def q_def x_def)
  have wb: "week_no off b = q \<longleftrightarrow> q * 604800 \<le> y \<and> y < (q + 1) * 604800"
    unfolding week_no_def y_def [symmetric] by (rule div_eq_iff_range) simp
  have ab: "a - b = x - y" by (simp add: x_def y_def)
  have el: "elapsed_of_week off now a = r" using elapsed_of_week_eq [OF assms(1)] by (simp add: r_def x_def)
  have day: "is_same_day (- off) a b SECONDS_OF_DAY \<Longrightarrow> week_no off b = q"
    using is_same_day_iff [OF assms(3,4)] same_day_same_week wa by metis
  have def': "is_same_week off (- off) now a b \<longleftrightarrow> \<bar>x - y\<bar> \<le> 604800 \<and>
      (is_same_day (- off) a b SECONDS_OF_DAY \<or> (if y < x then x - y \<le> r else y - x \<le> 604800 - r))"
    using assms(1,2) ab by (auto simp: is_same_week_def el seconds_defs Let_def)
  show ?thesis
    unfolding def' wa y_def [symmetric] using day wb x by (auto simp: algebra_simps)
qed

lemma same_week_exact_witness:
  "is_same_week 28800 (-28800) 0 1318953600 1319212799 \<and> \<not> is_same_week 28800 (-28800) 0 1318953600 1319385600
   \<and> is_same_week 28800 (-28800) 0 1318953600 1319299200
   \<and> week_no 28800 1318953600 \<noteq> week_no 28800 1319299200"
  using same_week_exact [of 1318953600 1319212799 28800 0] same_week_exact [of 1318953600 1319385600 28800 0]
    same_week_exact [of 1318953600 1319299200 28800 0]
  by (simp add: week_no_def)

text \<open>\<open>get_passed_days_between\<close> (and \<open>get_passed_days_since\<close>, which is the same with the present time)
  counts local calendar days, the first one included; only when the end is exactly a local midnight
  it is one day short, for the day that begins then is not counted.\<close>

lemma passed_days_exact:
  assumes "0 < a" "a \<le> b"
  shows "passed_days_between off now a b SECONDS_OF_DAY =
      day_no off b - day_no off a + 1 - (if day_no off a < day_no off b \<and> (b + off) mod 86400 = 0 then 1 else 0)
    \<and> passed_days_since off b a SECONDS_OF_DAY = passed_days_between off b a b SECONDS_OF_DAY"
proof -
  define x where "x = a + off"
  define z where "z = b + off"
  define q where "q = x div 86400"
  define r where "r = x mod 86400"
  have x: "x = q * 86400 + r" "0 \<le> r" "r < 86400" by (simp_all add: q_def r_def)
  have el: "elapsed_of_day off now a SECONDS_OF_DAY = r" for now
    using elapsed_of_day_eq [of a] assms(1) by (simp add: r_def x_def)
  define w where "w = z - (q + 1) * 86400"
  have w: "b - a - (SECONDS_OF_DAY - r) = w" "b - a < SECONDS_OF_DAY - r \<longleftrightarrow> w < 0"
  proof -
    have "b - a = z - x" by (simp add: x_def z_def)
    then show "b - a - (SECONDS_OF_DAY - r) = w" "b - a < SECONDS_OF_DAY - r \<longleftrightarrow> w < 0"
      unfolding w_def SECONDS_OF_DAY_def using x(1) by auto
  qed
  have da: "day_no off a = q" "day_no off b = z div 86400" by (simp_all add: day_no_def q_def x_def z_def)
  have le: "q * 86400 + r \<le> z" using assms(2) x by (simp add: x_def z_def)
  have main: "passed_days_between off now a b SECONDS_OF_DAY =
      (if a = b then 1 else if w < 0 then 1 else w div 86400 + 1 + (if w mod 86400 > 0 then 1 else 0))" for now
  proof -
    have "\<not> w < 0 \<Longrightarrow> c_div w SECONDS_OF_DAY = w div 86400" "\<not> w < 0 \<Longrightarrow> c_mod w SECONDS_OF_DAY = w mod 86400"
      by (simp_all add: SECONDS_OF_DAY_def c_div_nonneg c_mod_nonneg)
    with assms w show ?thesis by (simp add: passed_days_between_def el Let_def)
  qed
  have zw: "z = w + (q + 1) * 86400" by (simp add: w_def)
  have z: "z div 86400 = w div 86400 + q + 1" "z mod 86400 = w mod 86400"
    unfolding zw using mod_mult_self1 [of w "q + 1" 86400] div_mult_self1 [of 86400 w "q + 1"] by simp_all
  have eq: "passed_days_between off now a b SECONDS_OF_DAY =
      day_no off b - day_no off a + 1 - (if day_no off a < day_no off b \<and> (b + off) mod 86400 = 0 then 1 else 0)"
  proof (cases "w < 0")
    case True
    then have "z div 86400 = q" using le x
      by (subst div_eq_iff_range) (simp_all add: w_def)
    then show ?thesis using True da by (simp add: main)
  next
    case False
    then have "a \<noteq> b" using x by (auto simp: w_def z_def x_def)
    moreover have "0 \<le> w mod 86400" "0 \<le> w div 86400" using False by (simp_all add: pos_imp_zdiv_nonneg_iff)
    ultimately show ?thesis
      using False unfolding main da z(1) z_def [symmetric] z(2) by auto
  qed
  moreover have "passed_days_since off b a SECONDS_OF_DAY = passed_days_between off b a b SECONDS_OF_DAY"
    by (simp add: passed_days_since_def passed_days_between_def)
  ultimately show ?thesis by blast
qed

lemma passed_days_exact_witness:
  "passed_days_between 28800 0 1318953600 1319040000 SECONDS_OF_DAY = 1
   \<and> passed_days_between 28800 0 1318953600 1319040001 SECONDS_OF_DAY = 2"
  using passed_days_exact [of 1318953600 1319040000 28800 0] passed_days_exact [of 1318953600 1319040001 28800 0]
  by (simp add: day_no_def)

end
