(* ===== verification/NameValue.thy ===== *)
theory NameValue
  imports Prelude "HOL-Library.List_Lexorder"
begin

text \<open>
  \<open>public/namevalue_saver.h\<close> and \<open>.cpp\<close>: a table of names and numbers that is saved to a text file
  with the help of a temporary and a backup file. The file system is a map from names to contents and
  saving is a list of single steps, so that a crash between any two of them can be stated.
\<close>

section \<open>The table\<close>

text \<open>\<open>map<string,int>\<close>: the pairs in the order of the map, by name.\<close>

type_synonym nv_table = "(byte list \<times> int) list"

fun nv_set :: "byte list \<Rightarrow> int \<Rightarrow> nv_table \<Rightarrow> nv_table" where
  "nv_set k v [] = [(k, v)]"
| "nv_set k v ((k', v') # xs) =
     (if k = k' then (k, v) # xs
      else if k < k' then (k, v) # (k', v') # xs
      else (k', v') # nv_set k v xs)"

definition nv_get :: "byte list \<Rightarrow> nv_table \<Rightarrow> int" where
  "nv_get k t = (case map_of t k of None \<Rightarrow> -1 | Some v \<Rightarrow> v)"

section \<open>Files\<close>

type_synonym filesystem = "byte list \<rightharpoonup> byte list"

datatype file_op =
    Rename "byte list" "byte list"
  | Create "byte list"
  | Append "byte list" "byte list"
  | Delete "byte list"

text \<open>A rename of a file that is not there fails and changes nothing.\<close>

fun do_op :: "file_op \<Rightarrow> filesystem \<Rightarrow> filesystem" where
  "do_op (Rename p q) fs = (case fs p of None \<Rightarrow> fs | Some xs \<Rightarrow> fs(q \<mapsto> xs, p := None))"
| "do_op (Create p) fs = fs(p \<mapsto> [])"
| "do_op (Append p xs) fs = fs(p := map_option (\<lambda>ys. ys @ xs) (fs p))"
| "do_op (Delete p) fs = fs(p := None)"

text \<open>
  \<open>copy_file\<close>: the destination is opened without \<open>O_TRUNC\<close>, so what is longer stays behind the copy.
  \<open>off\<close> is the variable \<open>bytesCopied\<close>, from which \<open>sendfile\<close> takes its start and which is not
  initialised.
\<close>

definition copy_file :: "int \<Rightarrow> byte list \<Rightarrow> byte list \<Rightarrow> filesystem \<Rightarrow> filesystem" where
  "copy_file off src dst fs =
     (case fs src of
        None \<Rightarrow> fs
      | Some xs \<Rightarrow>
          let old = (case fs dst of None \<Rightarrow> [] | Some ys \<Rightarrow> ys);
              new = (if off < 0 then [] else drop (nat off) xs)
          in fs(dst \<mapsto> new @ drop (length new) old))"

section \<open>Saving\<close>

definition EXPIRATION :: "byte list" where
  "EXPIRATION = ascii ''[EXPIRATION]''"

record saver =
  file_name :: "byte list"
  nv_int :: nv_table

definition saver_new :: "byte list \<Rightarrow> saver" where
  "saver_new name = \<lparr>file_name = name @ ascii ''.data'', nv_int = []\<rparr>"

definition saver_set :: "byte list \<Rightarrow> int \<Rightarrow> saver \<Rightarrow> saver" where
  "saver_set k v s = s\<lparr>nv_int := nv_set k v (nv_int s)\<rparr>"

definition saver_get :: "byte list \<Rightarrow> saver \<Rightarrow> int" where
  "saver_get k s = nv_get k (nv_int s)"

definition saver_clear :: "saver \<Rightarrow> saver" where
  "saver_clear s = s\<lparr>nv_int := []\<rparr>"

definition saver_path :: "saver \<Rightarrow> byte list" where
  "saver_path s = ascii ''./file_saver'' @ [47] @ file_name s"

definition tmp_path :: "saver \<Rightarrow> byte list" where
  "tmp_path s = saver_path s @ ascii ''.tmp''"

definition old_path :: "saver \<Rightarrow> byte list" where
  "old_path s = saver_path s @ ascii ''.old''"

text \<open>Each \<open>endl\<close> sends one line to the file.\<close>

definition saved_lines :: "int \<Rightarrow> nv_table \<Rightarrow> byte list list" where
  "saved_lines e t = concat (map (\<lambda>(k, v). [k @ [10], show_int v @ [10]]) ((EXPIRATION, e) # t))"

definition saved_text :: "int \<Rightarrow> nv_table \<Rightarrow> byte list" where
  "saved_text e t = concat (saved_lines e t)"

definition save_ops :: "int \<Rightarrow> saver \<Rightarrow> file_op list" where
  "save_ops e s =
     [Rename (saver_path s) (old_path s), Create (tmp_path s)]
       @ map (Append (tmp_path s)) (saved_lines e (nv_int s))
       @ [Rename (tmp_path s) (saver_path s), Delete (old_path s)]"

definition save :: "int \<Rightarrow> saver \<Rightarrow> filesystem \<Rightarrow> filesystem" where
  "save e s fs = fold do_op (save_ops e s) fs"

section \<open>Loading\<close>

text \<open>What \<open>load\<close> does to the files before it reads.\<close>

definition repair :: "int \<Rightarrow> saver \<Rightarrow> filesystem \<Rightarrow> filesystem" where
  "repair off s fs =
     (let fs1 = do_op (Delete (tmp_path s)) fs
      in if fs1 (old_path s) \<noteq> None
         then do_op (Delete (old_path s)) (copy_file off (old_path s) (saver_path s) fs1)
         else fs1)"

text \<open>
  \<open>in_file >> name\<close> and \<open>in_file >> value\<close>. The second gives whether it succeeded, the value it
  stores (at the end of the file it stores none) and the rest.
\<close>

definition read_word :: "byte list \<Rightarrow> byte list \<times> byte list" where
  "read_word bs = (let p = dropWhile is_space bs in (takeWhile (\<lambda>c. \<not> is_space c) p, dropWhile (\<lambda>c. \<not> is_space c) p))"

definition int_at :: "int \<Rightarrow> byte list \<Rightarrow> bool \<times> int \<times> byte list" where
  "int_at before p =
     (if p = [] then (False, before, [])
      else let neg = (hd p = 45);
               q = (if hd p = 45 \<or> hd p = 43 then tl p else p);
               ds = takeWhile is_digit q;
               v = (if neg then - digits_value ds else digits_value ds)
           in if ds = [] then (False, 0, q)
              else if v < - (2 ^ 31) then (False, - (2 ^ 31), drop (length ds) q)
              else if v > 2 ^ 31 - 1 then (False, 2 ^ 31 - 1, drop (length ds) q)
              else (True, v, drop (length ds) q))"

definition read_int :: "int \<Rightarrow> byte list \<Rightarrow> bool \<times> int \<times> byte list" where
  "read_int before bs = int_at before (dropWhile is_space bs)"

lemma read_word_shorter:
  "read_word bs = (w, rest) \<Longrightarrow> w \<noteq> [] \<Longrightarrow> length rest < length bs"
proof -
  assume r: "read_word bs = (w, rest)" "w \<noteq> []"
  have "length w + length rest = length (dropWhile is_space bs)"
    using r(1) by (auto simp: read_word_def Let_def simp flip: length_append)
  with r(2) length_dropWhile_le [of is_space bs] show ?thesis by (cases w) auto
qed

lemma read_int_shorter: "length (snd (snd (read_int v bs))) \<le> length bs"
proof -
  have "length (snd (snd (int_at v p))) \<le> length p" for p
    by (cases p) (auto simp: int_at_def Let_def)
  from this [of "dropWhile is_space bs"] show ?thesis
    unfolding read_int_def using length_dropWhile_le [of is_space bs] by linarith
qed

lemma entry_shorter:
  "(w, rest) = read_word bs \<Longrightarrow> w \<noteq> [] \<Longrightarrow> (ok, v1, rest1) = read_int v rest \<Longrightarrow> length rest1 < length bs"
  using read_word_shorter [of bs w rest] read_int_shorter [of v rest] by (metis le_less_trans snd_conv)

text \<open>The loop of \<open>load\<close>; \<open>v\<close> is the variable \<open>value\<close>, at first not initialised.\<close>

function load_entries :: "int \<Rightarrow> int \<Rightarrow> byte list \<Rightarrow> nv_table \<Rightarrow> bool \<times> nv_table" where
  "load_entries now v bs t =
     (case read_word bs of (name, rest) \<Rightarrow>
        if name = [] then (True, t)
        else case read_int v rest of (ok, v1, rest1) \<Rightarrow>
          let t1 = nv_set name v1 t in
          if name = EXPIRATION \<and> v1 \<noteq> 0 \<and> now \<ge> v1 then (False, [])
          else if \<not> ok then (True, t1)
          else load_entries now v1 rest1 t1)"
  by pat_completeness auto
termination
  by (relation "measure (\<lambda>(now, v, bs, t). length bs)") (auto intro: entry_shorter)

declare load_entries.simps [simp del]

definition load :: "int \<Rightarrow> int \<Rightarrow> int \<Rightarrow> saver \<Rightarrow> filesystem \<Rightarrow> bool \<times> saver \<times> filesystem" where
  "load now junk off s fs =
     (let fs1 = repair off s fs in
      case fs1 (saver_path s) of
        None \<Rightarrow> (False, s\<lparr>nv_int := []\<rparr>, fs1)
      | Some bs \<Rightarrow>
          (case load_entries now junk bs [] of (ok, t) \<Rightarrow> (ok, s\<lparr>nv_int := t\<rparr>, fs1)))"

section \<open>The table is a map\<close>

lemma nv_set_map: "map_of (nv_set k v t) = (map_of t)(k \<mapsto> v)"
  by (induction k v t rule: nv_set.induct) auto

lemma nv_get_set: "nv_get k (nv_set k' v t) = (if k = k' then v else nv_get k t)"
  by (simp add: nv_get_def nv_set_map)

section \<open>Reading back what was written\<close>

text \<open>Names that survive the text format: not empty and without white space.\<close>

definition plain_name :: "byte list \<Rightarrow> bool" where
  "plain_name k \<longleftrightarrow> k \<noteq> [] \<and> (\<forall>c \<in> set k. \<not> is_space c)"

definition is_int :: "int \<Rightarrow> bool" where
  "is_int v \<longleftrightarrow> - (2 ^ 31) \<le> v \<and> v < 2 ^ 31"

lemma newline_space: "is_space 10" "\<not> is_digit 10" "\<not> is_space 45" "\<not> is_digit 45"
  by (simp_all add: is_space_def is_digit_def)

lemma digit_not_special: "is_digit c \<Longrightarrow> \<not> is_space c \<and> c \<noteq> 45 \<and> c \<noteq> 43"
  by (auto simp: is_digit_def is_space_def word_le_nat_alt)

lemma read_word_line:
  assumes "plain_name k"
  shows "read_word (k @ 10 # rest) = (k, 10 # rest)"
proof -
  obtain c cs where k: "k = c # cs" using assms by (cases k) (auto simp: plain_name_def)
  have d: "dropWhile is_space (k @ 10 # rest) = k @ 10 # rest"
    using assms by (simp add: k plain_name_def)
  have all: "\<And>x. x \<in> set k \<Longrightarrow> \<not> is_space x" using assms by (simp add: plain_name_def)
  show ?thesis
    unfolding read_word_def d Let_def using all newline_space(1)
    by (simp add: takeWhile_append2 dropWhile_append2)
qed

lemma read_digits:
  assumes "\<forall>c \<in> set ds. is_digit c" 
  shows "takeWhile is_digit (ds @ 10 # rest) = ds"
  using assms newline_space(2) by (simp add: takeWhile_append2)

lemma read_int_line:
  assumes "is_int v"
  shows "read_int junk (10 # show_int v @ 10 # rest) = (True, v, 10 # rest)"
proof -
  define ds where "ds = dec_digits (nat \<bar>v\<bar>)"
  have ds: "\<forall>c \<in> set ds. is_digit c" "ds \<noteq> []" "digits_value ds = \<bar>v\<bar>"
    by (auto simp: ds_def dec_digits_are_digits digits_value_dec)
  have sh: "show_int v = (if v < 0 then 45 # ds else ds)" by (simp add: show_int_def ds_def)
  obtain c cs where c: "ds = c # cs" using ds(2) by (cases ds) auto
  have c': "\<not> is_space c" "c \<noteq> 45" "c \<noteq> 43" using ds(1) digit_not_special [of c] by (auto simp: c)
  have p: "dropWhile is_space (10 # show_int v @ 10 # rest) = show_int v @ 10 # rest"
    using c' newline_space by (simp add: sh c)
  note t = read_digits [OF ds(1), of rest]
  show ?thesis
  proof (cases "v < 0")
    case True
    then have "int_at junk (show_int v @ 10 # rest) = (True, v, 10 # rest)"
      using assms ds t by (simp add: int_at_def sh is_int_def Let_def)
    then show ?thesis by (simp only: read_int_def p)
  next
    case False
    have "hd (ds @ 10 # rest) = c" by (simp add: c)
    then have "int_at junk (show_int v @ 10 # rest) = (True, v, 10 # rest)"
      using assms False ds t c'(2,3) by (simp add: int_at_def sh is_int_def Let_def)
    then show ?thesis by (simp only: read_int_def p)
  qed
qed

lemma load_skips_newline: "load_entries now v (10 # bs) t = load_entries now v bs t"
proof -
  have "read_word (10 # bs) = read_word bs" by (simp add: read_word_def newline_space)
  then show ?thesis by (subst (1 2) load_entries.simps) simp
qed

definition expires :: "int \<Rightarrow> byte list \<Rightarrow> int \<Rightarrow> bool" where
  "expires now k v \<longleftrightarrow> k = EXPIRATION \<and> v \<noteq> 0 \<and> now \<ge> v"

lemma load_line:
  assumes "plain_name k" "is_int v" "\<not> expires now k v"
  shows "load_entries now junk (k @ 10 # show_int v @ 10 # rest) t = load_entries now v rest (nv_set k v t)"
proof -
  have "k \<noteq> []" using assms(1) by (simp add: plain_name_def)
  then have "load_entries now junk (k @ 10 # show_int v @ 10 # rest) t = load_entries now v (10 # rest) (nv_set k v t)"
    using read_word_line [OF assms(1)] read_int_line [OF assms(2)] assms(3)
    by (subst load_entries.simps) (auto simp: expires_def Let_def)
  then show ?thesis by (simp add: load_skips_newline)
qed

definition entry_text :: "byte list \<times> int \<Rightarrow> byte list" where
  "entry_text kv = fst kv @ 10 # show_int (snd kv) @ [10]"

lemma saved_text_entries: "saved_text e t = concat (map entry_text ((EXPIRATION, e) # t))"
proof -
  have "concat (concat (map (\<lambda>(k, v). [k @ [10], show_int v @ [10]]) xs)) = concat (map entry_text xs)" for xs
    by (induction xs) (auto simp: entry_text_def)
  from this [of "(EXPIRATION, e) # t"] show ?thesis unfolding saved_text_def saved_lines_def .
qed

lemma load_entries_saved:
  assumes "\<forall>(k, v) \<in> set xs. plain_name k \<and> is_int v \<and> \<not> expires now k v"
  shows "load_entries now junk (concat (map entry_text xs)) t = (True, fold (\<lambda>(k, v). nv_set k v) xs t)"
  using assms
proof (induction xs arbitrary: junk t)
  case Nil
  show ?case by (subst load_entries.simps) (simp add: read_word_def)
next
  case (Cons kv xs)
  obtain k v where kv: "kv = (k, v)" by fastforce
  have "load_entries now junk (concat (map entry_text (kv # xs))) t
      = load_entries now junk (k @ 10 # show_int v @ 10 # concat (map entry_text xs)) t"
    by (simp add: kv entry_text_def)
  also have "\<dots> = load_entries now v (concat (map entry_text xs)) (nv_set k v t)"
    using Cons.prems by (intro load_line) (auto simp: kv)
  also have "\<dots> = (True, fold (\<lambda>(k, v). nv_set k v) xs (nv_set k v t))"
    using Cons by simp
  finally show ?case by (simp add: kv)
qed

lemma fold_nv_set_map:
  "distinct (map fst xs) \<Longrightarrow> map_of (fold (\<lambda>(k, v). nv_set k v) xs t) = map_of t ++ map_of xs"
proof (induction xs arbitrary: t)
  case (Cons kv xs)
  obtain k v where kv: "kv = (k, v)" by fastforce
  from Cons.prems have n: "map_of xs k = None" by (simp add: kv map_of_eq_None_iff)
  have "map_of (fold (\<lambda>(k, v). nv_set k v) (kv # xs) t) = map_of (nv_set k v t) ++ map_of xs"
    using Cons by (simp add: kv)
  also have "\<dots> = map_of t ++ map_of (kv # xs)"
    using n by (intro ext) (auto simp: kv nv_set_map map_add_def split: option.splits)
  finally show ?case .
qed simp

lemma expiration_plain: "plain_name EXPIRATION"
  by (simp add: plain_name_def EXPIRATION_def ascii_def is_space_def)

section \<open>The files of a save\<close>

lemma paths_differ:
  "tmp_path s \<noteq> saver_path s" "old_path s \<noteq> saver_path s" "tmp_path s \<noteq> old_path s"
  by (simp_all add: tmp_path_def old_path_def ascii_def)

lemma fold_append:
  "fs p = Some ys \<Longrightarrow> fold do_op (map (Append p) xs) fs = fs(p \<mapsto> ys @ concat xs)"
proof (induction xs arbitrary: fs ys)
  case (Cons x xs)
  then show ?case by (simp add: fun_upd_def) (rule ext, simp add: fun_upd_def)
qed auto

text \<open>The files after the first two steps and some of the lines, and after the last rename.\<close>

definition saving :: "saver \<Rightarrow> byte list \<Rightarrow> filesystem \<Rightarrow> filesystem" where
  "saving s text fs = (do_op (Rename (saver_path s) (old_path s)) fs)(tmp_path s \<mapsto> text)"

lemma take_save_ops:
  assumes "lines = saved_lines e (nv_int s)" "2 \<le> k" "k \<le> length lines + 2"
  shows "fold do_op (take k (save_ops e s)) fs = saving s (concat (take (k - 2) lines)) fs"
proof -
  obtain j where k: "k = Suc (Suc j)" using assms(2) by (cases k; cases "k - 1") auto
  then have j: "j \<le> length lines" using assms(3) by simp
  have "take k (save_ops e s) = [Rename (saver_path s) (old_path s), Create (tmp_path s)]
      @ map (Append (tmp_path s)) (take j lines)"
    using j by (simp add: k save_ops_def assms(1) take_map)
  then show ?thesis
    by (simp add: saving_def k fold_append [where ys = "[]"])
qed

lemma take_save_ops_end:
  assumes "n = length (saved_lines e (nv_int s))"
  shows "fold do_op (take (n + 3) (save_ops e s)) fs
      = do_op (Rename (tmp_path s) (saver_path s)) (saving s (saved_text e (nv_int s)) fs)"
    and "n + 4 \<le> k \<Longrightarrow> fold do_op (take k (save_ops e s)) fs
      = do_op (Delete (old_path s)) (do_op (Rename (tmp_path s) (saver_path s)) (saving s (saved_text e (nv_int s)) fs))"
proof -
  let ?pre = "[Rename (saver_path s) (old_path s), Create (tmp_path s)]
       @ map (Append (tmp_path s)) (saved_lines e (nv_int s))"
  have pre: "fold do_op ?pre fs = saving s (saved_text e (nv_int s)) fs"
    by (simp add: saving_def saved_text_def fold_append [where ys = "[]"])
  have "take (n + 3) (save_ops e s) = ?pre @ [Rename (tmp_path s) (saver_path s)]"
    by (simp add: save_ops_def assms numeral_3_eq_3)
  then show "fold do_op (take (n + 3) (save_ops e s)) fs
      = do_op (Rename (tmp_path s) (saver_path s)) (saving s (saved_text e (nv_int s)) fs)"
    using pre by simp
  assume "n + 4 \<le> k"
  then have "take k (save_ops e s) = ?pre @ [Rename (tmp_path s) (saver_path s), Delete (old_path s)]"
    by (simp add: save_ops_def assms)
  then show "fold do_op (take k (save_ops e s)) fs
      = do_op (Delete (old_path s)) (do_op (Rename (tmp_path s) (saver_path s)) (saving s (saved_text e (nv_int s)) fs))"
    using pre by simp
qed

lemma save_files: "save e s fs = (saving s (saved_text e (nv_int s)) fs)
    (saver_path s \<mapsto> saved_text e (nv_int s), tmp_path s := None, old_path s := None)"
proof -
  have "save e s fs = fold do_op (take (length (saved_lines e (nv_int s)) + 4) (save_ops e s)) fs"
    by (simp add: save_def save_ops_def)
  then show ?thesis
    by (simp add: take_save_ops_end(2) [OF refl]) (simp add: saving_def)
qed

section \<open>Properties\<close>


definition sample_saver :: saver where
  "sample_saver = saver_set (ascii ''gold'') (-5) (saver_set (ascii ''exp'') 70 (saver_new (ascii ''t'')))"


text \<open>
  What the recovery copies of the backup: \<open>load\<close> hands \<open>sendfile\<close> the variable \<open>offset\<close>, which it never sets, so
  the copy starts wherever that variable happens to point; it is complete when it is 0.
\<close>

definition copied_from :: "int \<Rightarrow> byte list \<Rightarrow> byte list" where
  "copied_from off xs = (if off < 0 then [] else drop (nat off) xs)"

lemma copied_from_start [simp]: "copied_from 0 xs = xs"
  by (simp add: copied_from_def)

text \<open>C25: What a crash during \<open>save\<close> leaves. No backup file lies around before. If the process stops after any
  number \<open>k\<close> of the steps of \<open>save\<close> (every line of the file is a step), the next \<open>load\<close> removes the temporary
  file and the backup and finds: the old file as it was, when no step was done; what it copies of the
  backup, from the first rename to before the last one; the new contents after the last step. Between
  the last rename and the removal of the backup, the copy of the backup is laid over the longer new file
  without truncating it. The copy starts at the uninitialised offset \<open>off\<close>: with 0, and only then for
  a file that is not empty, it is the old contents (\<open>copied_from\<close>, \<open>copy_from_behind\<close>).\<close>

theorem save_crash_states:
  assumes "fs (old_path s) = None" "n = length (saved_lines e (nv_int s))"
    and "fs' = repair off s (fold do_op (take k (save_ops e s)) fs)"
  shows "fs' (tmp_path s) = None \<and> fs' (old_path s) = None \<and>
    fs' (saver_path s) =
      (if k = 0 then fs (saver_path s)
       else if k \<le> n + 2 then map_option (copied_from off) (fs (saver_path s))
       else if k = n + 3
       then (case fs (saver_path s) of
               None \<Rightarrow> Some (saved_text e (nv_int s))
             | Some old \<Rightarrow>
                 let c = copied_from off old in Some (c @ drop (length c) (saved_text e (nv_int s))))
       else Some (saved_text e (nv_int s)))
    \<and> (\<forall>old. old \<noteq> [] \<longrightarrow> (copied_from off old = old \<longleftrightarrow> off = 0))"
proof -
  note d = paths_differ [of s] paths_differ [of s, symmetric]
  let ?T = "saved_text e (nv_int s)"
  consider (before) "k = 0" | (renamed) "k = 1" | (writing) "2 \<le> k" "k \<le> n + 2" | (both) "k = n + 3" | (over) "n + 4 \<le> k"
    by linarith
  then have "fs' (tmp_path s) = None \<and> fs' (old_path s) = None \<and>
    fs' (saver_path s) =
      (if k = 0 then fs (saver_path s)
       else if k \<le> n + 2 then map_option (copied_from off) (fs (saver_path s))
       else if k = n + 3
       then (case fs (saver_path s) of
               None \<Rightarrow> Some ?T
             | Some old \<Rightarrow> let c = copied_from off old in Some (c @ drop (length c) ?T))
       else Some ?T)"
  proof cases
    case before
    with assms d show ?thesis by (auto simp: repair_def)
  next
    case renamed
    then have "take k (save_ops e s) = [Rename (saver_path s) (old_path s)]" by (simp add: save_ops_def)
    with assms renamed d show ?thesis
      by (auto simp: repair_def copy_file_def copied_from_def Let_def split: option.splits)
  next
    case writing
    with assms(2) have "fold do_op (take k (save_ops e s)) fs
        = saving s (concat (take (k - 2) (saved_lines e (nv_int s)))) fs"
      by (intro take_save_ops) auto
    with assms writing d show ?thesis
      by (auto simp: saving_def repair_def copy_file_def copied_from_def Let_def split: option.splits)
  next
    case both
    have "fold do_op (take k (save_ops e s)) fs = do_op (Rename (tmp_path s) (saver_path s)) (saving s ?T fs)"
      using take_save_ops_end(1) [OF assms(2)] both by simp
    with assms both d show ?thesis
      by (auto simp: saving_def repair_def copy_file_def copied_from_def Let_def split: option.splits)
  next
    case over
    have "fold do_op (take k (save_ops e s)) fs
        = do_op (Delete (old_path s)) (do_op (Rename (tmp_path s) (saver_path s)) (saving s ?T fs))"
      using take_save_ops_end(2) [OF assms(2) over] .
    with assms over d show ?thesis
      by (auto simp: saving_def repair_def copy_file_def copied_from_def Let_def split: option.splits)
  qed
moreover have "copied_from off old = old \<longleftrightarrow> off = 0" if "old \<noteq> []" for old
    using that by (cases old) (auto simp: copied_from_def dest!: arg_cong [where f = length])
  ultimately show ?thesis by blast
qed

theorem save_crash_states_witness:
  "repair 0 sample_saver (fold do_op (take 3 (save_ops 0 sample_saver)) [saver_path sample_saver \<mapsto> [65, 66]])
     (saver_path sample_saver) = Some [65, 66]
   \<and> repair 1 sample_saver (fold do_op (take 3 (save_ops 0 sample_saver)) [saver_path sample_saver \<mapsto> [65, 66]])
     (saver_path sample_saver) = Some [66]"
proof -
  let ?fs = "[saver_path sample_saver \<mapsto> [65, 66 :: byte]]"
  have old: "?fs (old_path sample_saver) = None" using paths_differ [of sample_saver] by simp
  have "repair off sample_saver (fold do_op (take 3 (save_ops 0 sample_saver)) ?fs) (saver_path sample_saver)
      = Some (copied_from off [65, 66])" for off
    using save_crash_states [where s = sample_saver and fs = ?fs and e = 0 and k = 3 and off = off, OF old refl refl]
    by (simp add: saved_lines_def del: fun_upd_apply) simp
  then show ?thesis by (simp add: copied_from_def)
qed

section \<open>Facts behind the findings\<close>

text \<open>
  A table that was loaded holds the expiration as an entry. Saved again with a later one, the file has
  both, and the old one, which comes later, makes the next \<open>load\<close> throw everything away.
\<close>

lemma second_expiration_wins:
  assumes "is_int e" "is_int e'" "e = 0 \<or> now < e" "expires now EXPIRATION e'"
  shows "load_entries now junk (saved_text e [(EXPIRATION, e')]) [] = (False, [])"
proof -
  have "saved_text e [(EXPIRATION, e')] = EXPIRATION @ 10 # show_int e @ 10 # EXPIRATION @ 10 # show_int e' @ 10 # []"
    by (simp add: saved_text_entries entry_text_def)
  moreover have "\<not> expires now EXPIRATION e" using assms(3) by (auto simp: expires_def)
  ultimately have "load_entries now junk (saved_text e [(EXPIRATION, e')]) []
      = load_entries now e (EXPIRATION @ 10 # show_int e' @ 10 # []) (nv_set EXPIRATION e [])"
    using load_line [OF expiration_plain assms(1)] by simp
  also have "\<dots> = (False, [])"
    using read_word_line [OF expiration_plain] read_int_line [OF assms(2)] assms(4) expiration_plain
    by (subst load_entries.simps) (simp add: expires_def plain_name_def Let_def)
  finally show ?thesis .
qed

text \<open>The start of the copy is not initialised; behind the end nothing is copied at all.\<close>

lemma copy_from_behind:
  "fs src = Some xs \<Longrightarrow> fs dst = None \<Longrightarrow> int (length xs) \<le> off \<Longrightarrow> copy_file off src dst fs dst = Some []"
  by (simp add: copy_file_def Let_def)

end
