(* ===== verification/Acceptor.thy ===== *)
theory Acceptor
  imports Reactor
begin

text \<open>
  \<open>framework/tcp_acceptor.h\<close> and \<open>.cpp\<close>: the listening socket \<open>tcp_acceptor\<close> and the template
  \<open>tcp_service_handler\<close>. Both accept in a loop and give each new descriptor to the application
  (\<open>conn\<close>), which takes it or refuses it. What \<open>accept\<close> answers is a list.
\<close>

section \<open>State\<close>

datatype accept_answer = Accepted int | AcceptErr errno

record acceptor =
  ac_self :: handler
  ac_fd :: int
  ac_reactor :: bool

definition acceptor_new :: "handler \<Rightarrow> acceptor" where
  "acceptor_new me = \<lparr>ac_self = me, ac_fd = -1, ac_reactor = False\<rparr>"

definition MAX_ACCEPT_ONCE :: nat where "MAX_ACCEPT_ONCE = 32"
definition SERVICE_MAX_ACCEPT_ONCE :: nat where "SERVICE_MAX_ACCEPT_ONCE = 256"

text \<open>\<open>sfd\<close> is the result of \<open>create_tcp_service\<close>; the list holds the descriptors that are closed.\<close>

definition acceptor_init :: "int \<Rightarrow> bool \<Rightarrow> acceptor \<Rightarrow> reactor \<Rightarrow> int \<times> acceptor \<times> reactor \<times> int list" where
  "acceptor_init sfd ok a r =
     (if ac_fd a \<ge> 0 then (-1, a, r, [])
      else if sfd < 0 then (-2, a, r, [])
      else case add_handler ok sfd (Some (ac_self a)) EVENT_READ r of (ret, r1) \<Rightarrow>
        if ret \<noteq> 0 then (-3, a, r1, [sfd])
        else (0, a\<lparr>ac_reactor := True, ac_fd := sfd\<rparr>, r1, []))"

definition acceptor_fini :: "acceptor \<Rightarrow> reactor \<Rightarrow> acceptor \<times> reactor \<times> int list" where
  "acceptor_fini a r =
     (if ac_fd a \<ge> 0 then (a\<lparr>ac_fd := -1\<rparr>, del_handler (ac_fd a) r, [ac_fd a]) else (a, r, []))"

text \<open>\<open>accept\<close>: a closed descriptor gives \<open>EBADF\<close>, an empty queue \<open>EAGAIN\<close>.\<close>

definition EBADF :: errno where "EBADF = EOTHER 9"

definition accept :: "int \<Rightarrow> accept_answer list \<Rightarrow> accept_answer \<times> accept_answer list" where
  "accept fd as =
     (if fd < 0 then (AcceptErr EBADF, as)
      else case as of [] \<Rightarrow> (AcceptErr EAGAIN, []) | x # xs \<Rightarrow> (x, xs))"

section \<open>The accept loop\<close>

text \<open>
  What the loop works on: the acceptor, the reactor, the application, the answers to come, and what has
  become of the descriptors: \<open>taken\<close> by the application, \<open>refused\<close> and closed, and \<open>own\<close>, the closed
  descriptors of the listener itself.
\<close>

record 'w accepting =
  acc :: acceptor
  rea :: reactor
  world :: 'w
  answers :: "accept_answer list"
  taken :: "int list"
  refused :: "int list"
  own :: "int list"

definition give :: "('w \<Rightarrow> int \<Rightarrow> int \<times> 'w) \<Rightarrow> int \<Rightarrow> 'w accepting \<Rightarrow> 'w accepting" where
  "give conn cfd s =
     (case conn (world s) cfd of (ret, w) \<Rightarrow>
        if ret \<noteq> 0 then s\<lparr>world := w, refused := refused s @ [cfd]\<rparr>
        else s\<lparr>world := w, taken := taken s @ [cfd]\<rparr>)"

text \<open>\<open>on_error\<close>: \<open>fini\<close>.\<close>

definition acceptor_on_error :: "'w accepting \<Rightarrow> 'w accepting" where
  "acceptor_on_error s =
     (case acceptor_fini (acc s) (rea s) of (a, r, cl) \<Rightarrow> s\<lparr>acc := a, rea := r, own := own s @ cl\<rparr>)"

text \<open>\<open>on_read\<close>; after \<open>on_error\<close> the loop goes on with the closed descriptor -1.\<close>

primrec accept_loop :: "('w \<Rightarrow> int \<Rightarrow> int \<times> 'w) \<Rightarrow> nat \<Rightarrow> 'w accepting \<Rightarrow> 'w accepting" where
  "accept_loop conn 0 s = s"
| "accept_loop conn (Suc n) s =
     (case accept (ac_fd (acc s)) (answers s) of (x, as) \<Rightarrow>
        let s1 = s\<lparr>answers := as\<rparr> in
        case x of
          Accepted cfd \<Rightarrow> accept_loop conn n (give conn cfd s1)
        | AcceptErr e \<Rightarrow>
            if e = EAGAIN \<or> e = EMFILE \<or> e = ENFILE then s1
            else if e = EINTR \<or> e = ECONNABORTED then accept_loop conn n s1
            else accept_loop conn n (acceptor_on_error s1))"

definition acceptor_on_read :: "('w \<Rightarrow> int \<Rightarrow> int \<times> 'w) \<Rightarrow> 'w accepting \<Rightarrow> 'w accepting" where
  "acceptor_on_read conn s = accept_loop conn MAX_ACCEPT_ONCE s"

text \<open>
  \<open>tcp_service_handler::on_read\<close> does the same on the descriptor it is given, and its \<open>on_error\<close>
  only closes that: \<open>closed\<close> says that this has happened.
\<close>

primrec service_loop ::
  "('w \<Rightarrow> int \<Rightarrow> int \<times> 'w) \<Rightarrow> int \<Rightarrow> nat \<Rightarrow> bool \<times> 'w accepting \<Rightarrow> bool \<times> 'w accepting" where
  "service_loop conn fd 0 st = st"
| "service_loop conn fd (Suc n) st =
     (case st of (closed, s) \<Rightarrow>
        case accept (if closed then -1 else fd) (answers s) of (x, as) \<Rightarrow>
          let s1 = s\<lparr>answers := as\<rparr> in
          case x of
            Accepted cfd \<Rightarrow> service_loop conn fd n (closed, give conn cfd s1)
          | AcceptErr e \<Rightarrow>
              if e = EAGAIN \<or> e = EMFILE \<or> e = ENFILE then (closed, s1)
              else if e = EINTR \<or> e = ECONNABORTED then service_loop conn fd n (closed, s1)
              else service_loop conn fd n (True, s1\<lparr>own := own s1 @ [fd]\<rparr>))"

definition service_on_read :: "('w \<Rightarrow> int \<Rightarrow> int \<times> 'w) \<Rightarrow> int \<Rightarrow> 'w accepting \<Rightarrow> bool \<times> 'w accepting" where
  "service_on_read conn fd s = service_loop conn fd SERVICE_MAX_ACCEPT_ONCE (False, s)"

section \<open>Opening and closing the listener\<close>

lemma acceptor_init_opened:
  assumes "reactor_inv r" "acceptor_init sfd ok a r = (0, a1, r1, closed)"
  shows "closed = [] \<and> 0 \<le> sfd \<and> a1 = a\<lparr>ac_reactor := True, ac_fd := sfd\<rparr> \<and> reactor_inv r1
    \<and> interest r sfd = None \<and> interest r1 = (interest r)(sfd \<mapsto> EPOLLIN) \<and> handler_at r1 sfd = Some (ac_self a)"
proof -
  have add: "add_handler ok sfd (Some (ac_self a)) EVENT_READ r = (0, r1)" "0 \<le> sfd" "closed = []"
      "a1 = a\<lparr>ac_reactor := True, ac_fd := sfd\<rparr>"
    using assms(2) by (auto simp: acceptor_init_def split: if_splits prod.splits)
  from add_handler_at [OF assms(1) add(1)] reactor_inv_add [OF assms(1) add(1)] add show ?thesis by simp
qed

lemma acceptor_init_refused:
  assumes "acceptor_init sfd ok a r = (ret, a1, r1, closed)" "ret \<noteq> 0" "ac_fd a < 0"
  shows "a1 = a \<and> r1 = r \<and> closed = (if sfd < 0 then [] else [sfd])"
  using assms by (auto simp: acceptor_init_def add_handler_def split: if_splits prod.splits)

lemma acceptor_fini_closed:
  assumes "reactor_inv r" "acceptor_fini a r = (a1, r1, closed)" "0 \<le> ac_fd a \<Longrightarrow> interest r (ac_fd a) \<noteq> None"
  shows "reactor_inv r1
    \<and> (if 0 \<le> ac_fd a
       then a1 = a\<lparr>ac_fd := -1\<rparr> \<and> closed = [ac_fd a] \<and> interest r1 = (interest r)(ac_fd a := None)
       else a1 = a \<and> closed = [] \<and> r1 = r)"
  using assms interest_registered [OF assms(1), of "ac_fd a"] reactor_inv_del [OF assms(1), of "ac_fd a"]
  by (auto simp: acceptor_fini_def del_handler_def split: if_splits)

section \<open>What becomes of the descriptors\<close>

text \<open>The descriptors among some answers.\<close>

primrec fds :: "accept_answer list \<Rightarrow> int list" where
  "fds [] = []"
| "fds (x # xs) = (case x of Accepted fd \<Rightarrow> [fd] | AcceptErr e \<Rightarrow> []) @ fds xs"

lemma fds_append: "fds (xs @ ys) = fds xs @ fds ys"
  by (induction xs) auto

text \<open>
  \<open>settles s s' used\<close>: of the answers \<open>used\<close> every descriptor was either taken or refused, in order.
\<close>

definition settles :: "'w accepting \<Rightarrow> 'w accepting \<Rightarrow> accept_answer list \<Rightarrow> bool" where
  "settles s s' used \<longleftrightarrow> answers s = used @ answers s' \<and>
     (\<exists>t f. taken s' = taken s @ t \<and> refused s' = refused s @ f \<and> fds used \<in> shuffles t f)"

lemma settles_refl: "settles s s []"
  by (simp add: settles_def)

lemma settles_give:
  assumes "answers s = Accepted cfd # as"
  shows "settles s (give conn cfd (s\<lparr>answers := as\<rparr>)) [Accepted cfd]"
  using assms by (auto simp: settles_def give_def split: prod.splits)

lemma shuffles_append:
  "xs \<in> shuffles a b \<Longrightarrow> ys \<in> shuffles c d \<Longrightarrow> xs @ ys \<in> shuffles (a @ c) (b @ d)"
proof (induction xs arbitrary: a b)
  case Nil
  then show ?case by simp
next
  case (Cons x xs)
  from Cons.prems(1) consider a' where "a = x # a'" "xs \<in> shuffles a' b" | b' where "b = x # b'" "xs \<in> shuffles a b'"
    by (auto simp: Cons_in_shuffles_iff neq_Nil_conv)
  then show ?case
  proof cases
    case (1 a')
    with Cons.IH [OF 1(2) Cons.prems(2)] show ?thesis by (auto intro: Cons_in_shuffles_leftI)
  next
    case (2 b')
    with Cons.IH [OF 2(2) Cons.prems(2)] show ?thesis by (auto intro: Cons_in_shuffles_rightI)
  qed
qed

lemma settles_trans:
  assumes "settles s1 s2 u" "settles s2 s3 v"
  shows "settles s1 s3 (u @ v)"
proof -
  obtain t f t' f' where "answers s1 = u @ answers s2" "answers s2 = v @ answers s3"
    "taken s2 = taken s1 @ t" "refused s2 = refused s1 @ f" "fds u \<in> shuffles t f"
    "taken s3 = taken s2 @ t'" "refused s3 = refused s2 @ f'" "fds v \<in> shuffles t' f'"
    using assms by (auto simp: settles_def)
  then show ?thesis
    using shuffles_append [of "fds u" t f "fds v" t' f']
    by (auto simp: settles_def fds_append)
qed

lemma settles_error: "settles s (acceptor_on_error s) []"
  by (simp add: settles_def acceptor_on_error_def acceptor_fini_def)

lemma settles_skip: "answers s = x # as \<Longrightarrow> fds [x] = [] \<Longrightarrow> settles s (s\<lparr>answers := as\<rparr>) [x]"
  by (simp add: settles_def)

lemma settles_same: "settles s (s\<lparr>answers := answers s\<rparr>) []"
  by (simp add: settles_def)

text \<open>The listener is open and has closed nothing, or it has closed its descriptor once.\<close>

definition own_once :: "int \<Rightarrow> 'w accepting \<Rightarrow> bool" where
  "own_once fd s \<longleftrightarrow> ac_fd (acc s) = fd \<and> own s = [] \<or> ac_fd (acc s) = -1 \<and> own s = [fd]"

lemma own_once_error: "0 \<le> fd \<Longrightarrow> own_once fd s \<Longrightarrow> own_once fd (acceptor_on_error s)"
  by (auto simp: own_once_def acceptor_on_error_def acceptor_fini_def)

lemma own_once_give: "own_once fd s \<Longrightarrow> own_once fd (give conn cfd s)"
  by (auto simp: own_once_def give_def split: prod.splits)

text \<open>One turn of the loop: it stops, or it goes on with one answer less, or with a closed listener.\<close>

lemma accept_cases:
  obtains (none) "accept fd as = (AcceptErr EAGAIN, as)" "0 \<le> fd" "as = []"
  | (bad) "accept fd as = (AcceptErr EBADF, as)" "fd < 0"
  | (one) x xs where "accept fd as = (x, xs)" "as = x # xs" "0 \<le> fd"
  by (cases "fd < 0"; cases as) (auto simp: accept_def)

lemma accept_loop_settles:
  assumes "0 \<le> fd" "own_once fd s"
  shows "\<exists>used. settles s (accept_loop conn n s) used \<and> length used \<le> n \<and> own_once fd (accept_loop conn n s)"
  using assms(2)
proof (induction n arbitrary: s)
  case 0
  then show ?case using settles_refl by fastforce
next
  case (Suc n)
  have go: ?case
    if st: "settles s s1 u" "length u \<le> 1" "own_once fd s1" and eq: "accept_loop conn (Suc n) s = accept_loop conn n s1" for s1 u
  proof -
    from Suc.IH [OF st(3)] obtain used where
      "settles s1 (accept_loop conn n s1) used" "length used \<le> n" "own_once fd (accept_loop conn n s1)" by blast
    with settles_trans [OF st(1)] st(2) eq show ?thesis
      by (intro exI [of _ "u @ used"]) auto
  qed
  show ?case
  proof (cases rule: accept_cases [of "ac_fd (acc s)" "answers s"])
    case none
    then have "accept_loop conn (Suc n) s = s\<lparr>answers := answers s\<rparr>" by simp
    then show ?thesis using settles_refl Suc.prems by fastforce
  next
    case bad
    then have "accept_loop conn (Suc n) s = accept_loop conn n (acceptor_on_error s)"
      by (simp add: EBADF_def)
    with settles_error own_once_error [OF assms(1) Suc.prems] show ?thesis by (intro go) auto
  next
    case (one x xs)
    let ?s = "s\<lparr>answers := xs\<rparr>"
    have own: "own_once fd ?s" using Suc.prems by (simp add: own_once_def)
    show ?thesis
    proof (cases x)
      case (Accepted cfd)
      have "settles s (give conn cfd ?s) [Accepted cfd]" using one Accepted by (intro settles_give) simp
      with one Accepted own_once_give [OF own] show ?thesis by (intro go) auto
    next
      case (AcceptErr e)
      have skip: "settles s ?s [x]" using one AcceptErr by (intro settles_skip) simp_all
      consider "e = EAGAIN \<or> e = EMFILE \<or> e = ENFILE" | "e = EINTR \<or> e = ECONNABORTED"
        | "e \<noteq> EAGAIN" "e \<noteq> EMFILE" "e \<noteq> ENFILE" "e \<noteq> EINTR" "e \<noteq> ECONNABORTED" by blast
      then show ?thesis
      proof cases
        case 1
        then have "accept_loop conn (Suc n) s = ?s" using one AcceptErr by auto
        then show ?thesis using skip own by (intro exI [of _ "[x]"]) auto
      next
        case 2
        then have "accept_loop conn (Suc n) s = accept_loop conn n ?s" using one AcceptErr by auto
        then show ?thesis using skip own by (intro go) auto
      next
        case 3
        then have eq: "accept_loop conn (Suc n) s = accept_loop conn n (acceptor_on_error ?s)"
          using one AcceptErr by auto
        have "settles s (acceptor_on_error ?s) ([x] @ [])" by (rule settles_trans [OF skip settles_error])
        then show ?thesis using eq own_once_error [OF assms(1) own] by (intro go) auto
      qed
    qed
  qed
qed

section \<open>Properties\<close>

text \<open>C31: The listener loses no connection and closes none that it gave away. One read event of \<open>tcp_acceptor\<close>
  uses up at most 32 answers of \<open>accept\<close>; every descriptor among them was, in order, either taken by the
  application or refused by it and closed, exactly once; and whatever errors \<open>accept\<close> reports, also
  when the loop goes on after a fatal one, the listening descriptor is closed at most once.\<close>

theorem acceptor_settles_descriptors:
  assumes "0 \<le> ac_fd (acc s)" "taken s = []" "refused s = []" "own s = []" "s' = acceptor_on_read conn s"
  shows "\<exists>used. answers s = used @ answers s' \<and> length used \<le> 32 \<and> fds used \<in> shuffles (taken s') (refused s')
    \<and> (ac_fd (acc s') = ac_fd (acc s) \<and> own s' = [] \<or> ac_fd (acc s') = -1 \<and> own s' = [ac_fd (acc s)])"
proof -
  have "own_once (ac_fd (acc s)) s" using assms(4) by (simp add: own_once_def)
  from accept_loop_settles [OF assms(1) this, of conn MAX_ACCEPT_ONCE] assms(2-5) show ?thesis
    by (auto simp: acceptor_on_read_def settles_def own_once_def MAX_ACCEPT_ONCE_def)
qed

definition sample_accepting :: "nat accepting" where
  "sample_accepting = \<lparr>acc = \<lparr>ac_self = 1, ac_fd = 3, ac_reactor = True\<rparr>, rea = reactor_new, world = 0,
     answers = [Accepted 5, AcceptErr EINTR, Accepted 6, AcceptErr (EOTHER 22), Accepted 7],
     taken = [], refused = [], own = []\<rparr>"

definition sample_conn_fn :: "nat \<Rightarrow> int \<Rightarrow> int \<times> nat" where
  "sample_conn_fn w fd = (if w = 1 then (-1, w) else (0, w + 1))"

lemma sample_accept_run:
  "accept_loop sample_conn_fn (Suc (Suc (Suc (Suc n)))) sample_accepting
     = accept_loop sample_conn_fn n (sample_accepting\<lparr>acc := \<lparr>ac_self = 1, ac_fd = -1, ac_reactor = True\<rparr>,
         world := 1, answers := [Accepted 7], taken := [5], refused := [6], own := [3]\<rparr>)"
  by (simp add: sample_accepting_def sample_conn_fn_def accept_def give_def acceptor_on_error_def
      acceptor_fini_def del_handler_def reactor_new_def)

lemma accept_loop_closed:
  "ac_fd (acc s) < 0 \<Longrightarrow> accept_loop conn n s = s"
proof (induction n)
  case (Suc n)
  then have "accept_loop conn (Suc n) s = accept_loop conn n (acceptor_on_error s)"
    by (simp add: accept_def EBADF_def)
  moreover have "acceptor_on_error s = s"
    using Suc.prems by (simp add: acceptor_on_error_def acceptor_fini_def)
  ultimately show ?case using Suc by simp
qed simp

theorem acceptor_settles_descriptors_witness:
  "\<exists>used s'. s' = acceptor_on_read sample_conn_fn sample_accepting \<and> fds used = [5, 6] \<and> taken s' = [5]
     \<and> refused s' = [6] \<and> own s' = [3] \<and> fds used \<in> shuffles (taken s') (refused s')"
proof -
  define s' where "s' = acceptor_on_read sample_conn_fn sample_accepting"
  have n: "MAX_ACCEPT_ONCE = Suc (Suc (Suc (Suc 28)))" by (simp add: MAX_ACCEPT_ONCE_def)
  have r: "s' = accept_loop sample_conn_fn 28 (sample_accepting\<lparr>acc := \<lparr>ac_self = 1, ac_fd = -1, ac_reactor = True\<rparr>,
         world := 1, answers := [Accepted 7], taken := [5], refused := [6], own := [3]\<rparr>)"
    unfolding s'_def acceptor_on_read_def n by (rule sample_accept_run)
  have v: "taken s' = [5]" "refused s' = [6]" "own s' = [3]" "answers s' = [Accepted 7]"
    unfolding r by (subst accept_loop_closed; simp)+
  have "0 \<le> ac_fd (acc sample_accepting)" "taken sample_accepting = []" "refused sample_accepting = []"
    "own sample_accepting = []" by (simp_all add: sample_accepting_def)
  from acceptor_settles_descriptors [OF this s'_def] obtain used where
    u: "answers sample_accepting = used @ answers s'" "fds used \<in> shuffles (taken s') (refused s')" by blast
  have "fds (answers sample_accepting) = fds used @ fds (answers s')" unfolding u(1) by (rule fds_append)
  then have "fds used = [5, 6]" by (simp add: v sample_accepting_def)
  with u(2) v s'_def show ?thesis by blast
qed

section \<open>Facts behind the findings\<close>

text \<open>
  The template's \<open>on_error\<close> closes the descriptor and the loop goes on: it is closed again in every turn
  that is left.
\<close>

lemma service_closes_again:
  "service_loop conn fd n (True, s) = (True, s\<lparr>own := own s @ replicate n fd\<rparr>)"
proof (induction n arbitrary: s)
  case (Suc n)
  have "service_loop conn fd (Suc n) (True, s) = service_loop conn fd n (True, s\<lparr>own := own s @ [fd]\<rparr>)"
    by (simp add: accept_def EBADF_def)
  also have "\<dots> = (True, s\<lparr>own := own s @ [fd] @ replicate n fd\<rparr>)" unfolding Suc.IH by simp
  finally show ?case by simp
qed simp

end
