(* ===== verification/Udp.thy ===== *)
theory Udp
  imports TcpDataHandler
begin

text \<open>
  \<open>framework/udp_data_handler.h\<close>, \<open>udp_server.h\<close> and their \<open>.cpp\<close> files: the stream handler's buffers
  and framing loop on datagram sockets. Here a read takes one whole datagram, of which what does not
  fit is lost, and every write is a datagram of its own, so the results are lists of datagrams.
\<close>

section \<open>State\<close>

record udp_handler =
  u_self :: handler
  u_rbuf :: buffer
  u_sbuf :: buffer
  u_fd :: int
  u_port :: int
  u_reactor :: bool

definition INIT_RECV_BUF_SIZE :: int where "INIT_RECV_BUF_SIZE = 4096"
definition INIT_SEND_BUF_SIZE :: int where "INIT_SEND_BUF_SIZE = 8192"

definition udp_new :: "handler \<Rightarrow> udp_handler" where
  "udp_new me = \<lparr>u_self = me, u_rbuf = buffer_new, u_sbuf = buffer_new, u_fd = -1, u_port = 0, u_reactor = False\<rparr>"

text \<open>\<open>init(reactor, fd)\<close>; nothing asks whether the handler is open already.\<close>

definition udp_init ::
  "alloc_result \<Rightarrow> alloc_result \<Rightarrow> bool \<Rightarrow> int \<Rightarrow> udp_handler \<Rightarrow> reactor \<Rightarrow> int \<times> udp_handler \<times> reactor" where
  "udp_init ra sa ok fd h r =
     (if fd < 0 then (-1, h, r)
      else let h1 = h\<lparr>u_rbuf := snd (buffer_init ra INIT_RECV_BUF_SIZE (u_rbuf h)),
                      u_sbuf := snd (buffer_init sa INIT_SEND_BUF_SIZE (u_sbuf h))\<rparr> in
        if m_space (u_rbuf h1) = 0 \<or> m_space (u_sbuf h1) = 0 then (-2, h1, r)
        else case add_handler ok fd (Some (u_self h1)) EVENT_READ r of (ret, r1) \<Rightarrow>
          if ret \<noteq> 0 then (-3, h1, r1) else (0, h1\<lparr>u_reactor := True, u_fd := fd\<rparr>, r1))"

text \<open>
  \<open>init(reactor, host, port)\<close>: \<open>sock_fd\<close> is set before anything is checked. \<open>sock\<close> is the result of
  \<open>create_udp_client\<close>; the list holds the descriptors it closes.
\<close>

definition udp_init_host ::
  "alloc_result \<Rightarrow> alloc_result \<Rightarrow> bool \<Rightarrow> int \<Rightarrow> int \<Rightarrow> udp_handler \<Rightarrow> reactor \<Rightarrow>
   int \<times> udp_handler \<times> reactor \<times> int list" where
  "udp_init_host ra sa ok port sock h r =
     (let h1 = h\<lparr>u_port := port, u_fd := sock\<rparr> in
      if sock < 0 then (-2, h1, r, [])
      else case udp_init ra sa ok sock h1 r of (ret, h2, r1) \<Rightarrow>
        (ret, h2, r1, if ret \<noteq> 0 then [sock] else []))"

text \<open>\<open>fini\<close>; \<open>None\<close> is the call through a \<open>NULL\<close> reactor.\<close>

definition udp_fini :: "udp_handler \<Rightarrow> reactor \<Rightarrow> (udp_handler \<times> reactor \<times> int list) option" where
  "udp_fini h r =
     (if u_fd h \<ge> 0
      then (if u_reactor h
            then Some (h\<lparr>u_fd := -1, u_reactor := False, u_rbuf := buffer_fini (u_rbuf h),
                         u_sbuf := buffer_fini (u_sbuf h)\<rparr>, del_handler (u_fd h) r, [u_fd h])
            else None)
      else Some (h, r, []))"

section \<open>Reading\<close>

text \<open>A read takes one datagram; the segments of \<open>socket_in\<close> are the datagrams.\<close>

definition recv_datagram :: "nat \<Rightarrow> socket_in \<Rightarrow> recv_result \<times> socket_in" where
  "recv_datagram n s =
     (case segments s of
        [] \<Rightarrow> (case sock_end s of PeerClosed \<Rightarrow> (Received [], s) | SockErr e \<Rightarrow> (RecvErr e, s))
      | x # xs \<Rightarrow> (Received (take n x), s\<lparr>segments := xs\<rparr>))"

text \<open>
  \<open>on_read\<close>. The loop over the packets is word for word that of \<open>tcp_data_handler\<close>. An empty datagram
  ends in the branch for errors, where \<open>errno\<close> still has an old value, \<open>stale\<close>.
\<close>

definition udp_on_read ::
  "'u info_fn \<Rightarrow> 'u proc_fn \<Rightarrow> (int \<Rightarrow> alloc_result) \<Rightarrow> errno \<Rightarrow> udp_handler \<Rightarrow> 'u \<Rightarrow> socket_in \<Rightarrow>
   outcome \<times> udp_handler \<times> 'u \<times> socket_in" where
  "udp_on_read info proc alloc stale h u s =
     (case recv_datagram (nat (space_size (u_rbuf h))) s of
        (Received xs, s1) \<Rightarrow>
          if xs = []
          then (if stale \<noteq> EAGAIN \<and> stale \<noteq> EINTR then (Event ERROR_TYPE_SYSTEM, h, u, s1) else (Done, h, u, s1))
          else (case parse_loop info proc alloc
                       (snd (push_data (int (length xs)) (store_at_space xs (u_rbuf h)))) u of
                  (Event e, b2, u2) \<Rightarrow> (Event e, h\<lparr>u_rbuf := b2\<rparr>, u2, s1)
                | (Done, b2, u2) \<Rightarrow> (Done, h\<lparr>u_rbuf := buffer_adjust b2\<rparr>, u2, s1))
      | (RecvErr e, s1) \<Rightarrow>
          if e \<noteq> EAGAIN \<and> e \<noteq> EINTR then (Event ERROR_TYPE_SYSTEM, h, u, s1) else (Done, h, u, s1))"

section \<open>Writing\<close>

definition udp_on_write ::
  "send_result \<Rightarrow> bool \<Rightarrow> int \<Rightarrow> udp_handler \<Rightarrow> reactor \<Rightarrow> byte list list \<times> udp_handler \<times> reactor" where
  "udp_on_write res ok fd h r =
     (case (if data_size (u_sbuf h) > 0
            then (case res of
                    Sent n \<Rightarrow>
                      if n > 0
                      then (let k = min n (nat (data_size (u_sbuf h)))
                            in (False, [take k (pending (u_sbuf h))],
                                h\<lparr>u_sbuf := buffer_adjust (snd (pop_data (int k) (u_sbuf h)))\<rparr>))
                      else (False, [], h)
                  | SendErr e \<Rightarrow> (True, [], h))
            else (False, [], h)) of
        (ends, out, h1) \<Rightarrow>
          if ends then (out, h1, r)
          else if data_size (u_sbuf h1) = 0
          then (out, h1, snd (mod_handler ok fd (Some (u_self h1)) EVENT_READ r))
          else (out, h1, r))"

definition udp_queue ::
  "send_result \<Rightarrow> bool \<Rightarrow> bool \<Rightarrow> byte list \<Rightarrow> buffer \<Rightarrow> udp_handler \<Rightarrow> reactor \<Rightarrow>
   byte list list \<times> udp_handler \<times> reactor" where
  "udp_queue res ok delay bytes sb h r =
     (let h1 = h\<lparr>u_sbuf := snd (push_data (int (length bytes)) (store_at_space bytes sb))\<rparr>;
          r1 = snd (mod_handler ok (u_fd h) (Some (u_self h)) (EVENT_READ OR EVENT_WRITE) r)
      in if delay then ([], h1, r1) else udp_on_write res ok (u_fd h1) h1 r1)"

text \<open>
  \<open>send(data, size, delay_flag)\<close> on an open handler. The direct write does not send \<open>data\<close> but the empty
  send buffer: an empty datagram. \<open>res1\<close> says whether it fails; it cannot accept more than 0 bytes.
\<close>

definition udp_send ::
  "(int \<Rightarrow> alloc_result) \<Rightarrow> send_result \<Rightarrow> send_result \<Rightarrow> bool \<Rightarrow> byte list \<Rightarrow> bool \<Rightarrow> udp_handler \<Rightarrow> reactor \<Rightarrow>
   int \<times> byte list list \<times> udp_handler \<times> reactor" where
  "udp_send alloc res1 res2 ok data delay h r =
     (let direct = (data_size (u_sbuf h) = 0 \<and> \<not> delay) in
      case (if direct
            then (case res1 of
                    Sent k \<Rightarrow> Some [[]]
                  | SendErr e \<Rightarrow> if e \<noteq> EAGAIN \<and> e \<noteq> EINTR then None else Some [])
            else Some []) of
        None \<Rightarrow> (-1, [], h, r)
      | Some out1 \<Rightarrow>
          if direct \<and> data = [] then (0, out1, h, r)
          else (case ensure_space alloc (int (length data)) (u_sbuf h) of
                  (ret, sb) \<Rightarrow>
                    if ret \<noteq> 0 then (-1, out1, h, r)
                    else (case udp_queue res2 ok delay data sb h r of
                            (out2, h2, r2) \<Rightarrow> (0, out1 @ out2, h2, r2))))"

definition udp_send_packet ::
  "(int \<Rightarrow> alloc_result) \<Rightarrow> send_result \<Rightarrow> bool \<Rightarrow> int \<Rightarrow> (int \<Rightarrow> byte list option) \<Rightarrow> bool \<Rightarrow>
   udp_handler \<Rightarrow> reactor \<Rightarrow> int \<times> byte list list \<times> udp_handler \<times> reactor" where
  "udp_send_packet alloc res ok need encode delay h r =
     (case ensure_space alloc need (u_sbuf h) of (ret, sb) \<Rightarrow>
        if ret \<noteq> 0 then (-1, [], h, r)
        else case encode (space_size sb) of
               None \<Rightarrow> (-1, [], h\<lparr>u_sbuf := sb\<rparr>, r)
             | Some bytes \<Rightarrow> (case udp_queue res ok delay bytes sb h r of (out, h2, r2) \<Rightarrow> (0, out, h2, r2)))"

section \<open>The server\<close>

text \<open>\<open>udp_server\<close>: it is registered before it has buffers. \<open>sock\<close> is the result of \<open>create_udp_service\<close>.\<close>

record udp_server =
  s_self :: handler
  s_fd :: int
  s_reactor :: bool
  s_rbuf :: buffer
  s_sbuf :: buffer

definition server_new :: "handler \<Rightarrow> udp_server" where
  "server_new me = \<lparr>s_self = me, s_fd = -1, s_reactor = False, s_rbuf = buffer_new, s_sbuf = buffer_new\<rparr>"

definition server_init ::
  "alloc_result \<Rightarrow> alloc_result \<Rightarrow> bool \<Rightarrow> int \<Rightarrow> udp_server \<Rightarrow> reactor \<Rightarrow> int \<times> udp_server \<times> reactor \<times> int list" where
  "server_init ra sa ok sock h r =
     (if s_fd h \<ge> 0 then (-1, h, r, [])
      else if sock < 0 then (-2, h, r, [])
      else case add_handler ok sock (Some (s_self h)) EVENT_READ r of (ret, r1) \<Rightarrow>
        if ret \<noteq> 0 then (-3, h, r1, [sock])
        else let h1 = h\<lparr>s_rbuf := snd (buffer_init ra INIT_RECV_BUF_SIZE (s_rbuf h)),
                        s_sbuf := snd (buffer_init sa INIT_SEND_BUF_SIZE (s_sbuf h))\<rparr> in
          if m_space (s_rbuf h1) = 0 \<or> m_space (s_sbuf h1) = 0 then (-2, h1, r1, [])
          else (0, h1\<lparr>s_reactor := True, s_fd := sock\<rparr>, r1, []))"

definition server_fini :: "udp_server \<Rightarrow> reactor \<Rightarrow> udp_server \<times> reactor \<times> int list" where
  "server_fini h r =
     (if s_fd h \<ge> 0 then (h\<lparr>s_fd := -1\<rparr>, del_handler (s_fd h) r, [s_fd h]) else (h, r, []))"

text \<open>\<open>on_event\<close> and \<open>on_error\<close> close the server.\<close>

definition server_on_event :: "udp_server \<Rightarrow> reactor \<Rightarrow> udp_server \<times> reactor \<times> int list" where
  "server_on_event h r = server_fini h r"

text \<open>
  \<open>on_read\<close>: the result of \<open>recvfrom\<close> is a \<open>size_t\<close>, so -1 is a large number and \<open>push_data\<close> refuses
  it. The outcome \<open>Event e\<close> stands for \<open>handle_error(e)\<close>, that is \<open>on_event\<close>.
\<close>

definition server_on_read ::
  "'u info_fn \<Rightarrow> 'u proc_fn \<Rightarrow> (int \<Rightarrow> alloc_result) \<Rightarrow> errno \<Rightarrow> udp_server \<Rightarrow> 'u \<Rightarrow> socket_in \<Rightarrow>
   outcome \<times> udp_server \<times> 'u \<times> socket_in" where
  "server_on_read info proc alloc stale h u s =
     (case recv_datagram (nat (space_size (s_rbuf h))) s of
        (res, s1) \<Rightarrow>
          if res = Received []
          then (if stale \<noteq> EAGAIN \<and> stale \<noteq> EINTR then (Event ERROR_TYPE_SYSTEM, h, u, s1) else (Done, h, u, s1))
          else let b1 = (case res of
                           Received xs \<Rightarrow> snd (push_data (int (length xs)) (store_at_space xs (s_rbuf h)))
                         | RecvErr e \<Rightarrow> snd (push_data (to_int32 (2 ^ 64 - 1)) (s_rbuf h)))
               in (case parse_loop info proc alloc b1 u of
                     (Event e, b2, u2) \<Rightarrow> (Event e, h\<lparr>s_rbuf := b2\<rparr>, u2, s1)
                   | (Done, b2, u2) \<Rightarrow> (Done, h\<lparr>s_rbuf := buffer_adjust b2\<rparr>, u2, s1)))"

section \<open>Reading frames the datagrams\<close>

lemma udp_read_frames:
  assumes "buf_inv (u_rbuf h)" "alloc_total alloc" "segments s = x # xs" "x \<noteq> []"
    and "int (length x) \<le> space_size (u_rbuf h)"
    and "udp_on_read info proc alloc stale h u s = (y, h', u', s')"
  shows "frame_run info proc u (pending (u_rbuf h) @ x) = (y, pending (u_rbuf h'), u')
    \<and> buf_inv (u_rbuf h') \<and> segments s' = xs"
proof -
  have r: "recv_datagram (nat (space_size (u_rbuf h))) s = (Received x, s\<lparr>segments := xs\<rparr>)"
    using assms(3,5) by (simp add: recv_datagram_def)
  obtain ret b1 where p: "push_data (int (length x)) (store_at_space x (u_rbuf h)) = (ret, b1)" by fastforce
  note f = buffer_fill [OF assms(1,4,5) p]
  obtain y2 b2 u2 where pl: "parse_loop info proc alloc b1 u = (y2, b2, u2)"
    by (cases "parse_loop info proc alloc b1 u")
  have "0 < length x" using assms(4) by simp
  then have cap: "0 < capacity b1"
    using f assms(5) buf_inv_sizes [OF assms(1)] by linarith
  from f cap have "buf_inv b1" "0 < capacity b1" by simp_all
  from parse_loop_refines [OF this assms(2) pl] f
  have fr: "frame_run info proc u (pending (u_rbuf h) @ x) = (y2, pending b2, u2)" and b2: "buf_inv b2" by simp_all
  show ?thesis
  proof (cases y2)
    case Done
    with assms(4,6) r p pl have "y = Done" "h' = h\<lparr>u_rbuf := buffer_adjust b2\<rparr>" "u' = u2" "s' = s\<lparr>segments := xs\<rparr>"
      by (simp_all add: udp_on_read_def)
    with fr Done buffer_adjust_ok [OF b2] show ?thesis by simp
  next
    case (Event e)
    with assms(4,6) r p pl have "y = Event e" "h' = h\<lparr>u_rbuf := b2\<rparr>" "u' = u2" "s' = s\<lparr>segments := xs\<rparr>"
      by (simp_all add: udp_on_read_def)
    with fr Event b2 show ?thesis by simp
  qed
qed

section \<open>The sending half\<close>

lemma udp_on_write_ok:
  assumes inv: "buf_inv (u_sbuf h)" and run: "udp_on_write res ok fd h r = (out, h', r')"
  shows "buf_inv (u_sbuf h') \<and> concat out @ pending (u_sbuf h') = pending (u_sbuf h) \<and> length out \<le> 1
    \<and> [] \<notin> set out"
proof (cases "data_size (u_sbuf h) > 0 \<and> (\<exists>n. res = Sent n \<and> n > 0)")
  case True
  then obtain n where n: "res = Sent n" "n > 0" by blast
  let ?k = "min n (nat (data_size (u_sbuf h)))"
  have k: "1 \<le> int ?k" "int ?k \<le> int (length (pending (u_sbuf h)))"
    using True n length_pending [OF inv] by auto
  from pop_data_ret [OF inv k] obtain sb where sb: "pop_data (int ?k) (u_sbuf h) = (0, sb)" by blast
  have "out = [take ?k (pending (u_sbuf h))]" "u_sbuf h' = buffer_adjust sb"
    using run True n sb by (auto simp: udp_on_write_def Let_def split: if_splits)
  moreover have "take ?k (pending (u_sbuf h)) \<noteq> []" using k by auto
  ultimately show ?thesis using pop_data_ok [OF inv sb] buffer_adjust_ok [of sb] by simp
next
  case False
  then have "out = [] \<and> h' = h"
    using run by (cases res) (auto simp: udp_on_write_def split: if_splits)
  with inv show ?thesis by simp
qed

lemma udp_queue_ok:
  assumes "buf_inv sb" "int (length ys) \<le> space_size sb" "udp_queue res ok delay ys sb h r = (out, h', r')"
  shows "buf_inv (u_sbuf h') \<and> concat out @ pending (u_sbuf h') = pending sb @ ys \<and> length out \<le> 1
    \<and> [] \<notin> set out"
proof -
  let ?sb = "snd (push_data (int (length ys)) (store_at_space ys sb))"
  have q: "buf_inv ?sb \<and> pending ?sb = pending sb @ ys"
  proof (cases "ys = []")
    case True
    then show ?thesis using assms(1) by (simp add: push_data_def store_at_space_def blit_def)
  next
    case False
    obtain ret b where p: "push_data (int (length ys)) (store_at_space ys sb) = (ret, b)" by fastforce
    with buffer_fill [OF assms(1) False assms(2) p] show ?thesis by simp
  qed
  show ?thesis
  proof (cases delay)
    case True
    with assms(3) q show ?thesis by (auto simp: udp_queue_def Let_def)
  next
    case False
    have inv: "buf_inv (u_sbuf (h\<lparr>u_sbuf := ?sb\<rparr>))" using q by simp
    from False assms(3) have "udp_on_write res ok (u_fd h) (h\<lparr>u_sbuf := ?sb\<rparr>)
        (snd (mod_handler ok (u_fd h) (Some (u_self h)) (EVENT_READ OR EVENT_WRITE) r)) = (out, h', r')"
      by (simp add: udp_queue_def Let_def)
    from udp_on_write_ok [OF inv this] q show ?thesis by simp
  qed
qed

section \<open>Properties\<close>

text \<open>What \<open>udp_data_handler::send\<close> puts on the wire. The bytes are those of a faithful pipe: with result 0
  the datagrams followed by the queue are the old queue followed by the data, with -1 no byte was sent
  and the queue is unchanged. As datagrams they are not: at most one carries bytes, and when the queue
  was empty and no delay was asked for, an empty datagram goes out before it.\<close>

lemma udp_send_datagrams:
  assumes "buf_inv (u_sbuf h)" "alloc_sound alloc"
    and "udp_send alloc res1 res2 ok data delay h r = (ret, out, h', r')"
  shows "buf_inv (u_sbuf h')
    \<and> (if ret = 0 then concat out @ pending (u_sbuf h') = pending (u_sbuf h) @ data
       else concat out = [] \<and> pending (u_sbuf h') = pending (u_sbuf h))
    \<and> length (filter (\<lambda>d. d \<noteq> []) out) \<le> 1
    \<and> (pending (u_sbuf h) = [] \<and> \<not> delay \<and> (\<exists>k. res1 = Sent k) \<longrightarrow> (\<exists>rest. out = [] # rest))"
proof -
  define direct where "direct = (data_size (u_sbuf h) = 0 \<and> \<not> delay)"
  define first where "first = (if direct then (case res1 of
      Sent k \<Rightarrow> Some [[]]
    | SendErr e \<Rightarrow> if e \<noteq> EAGAIN \<and> e \<noteq> EINTR then None else Some []) else Some ([] :: byte list list))"
  note eq = assms(3) [unfolded udp_send_def Let_def, folded direct_def, folded first_def]
  have dir: "direct \<longleftrightarrow> pending (u_sbuf h) = [] \<and> \<not> delay"
    using length_pending [OF assms(1)] by (auto simp: direct_def)
  have first: "concat out1 = [] \<and> filter (\<lambda>d. d \<noteq> []) out1 = []
      \<and> (direct \<and> (\<exists>k. res1 = Sent k) \<longrightarrow> out1 = [[]])" if "first = Some out1" for out1
    using that by (auto simp: first_def split: if_splits send_result.splits)
  show ?thesis
  proof (cases first)
    case None
    then have "direct" "\<nexists>k. res1 = Sent k" by (auto simp: first_def split: if_splits)
    with None eq assms(1) dir show ?thesis by auto
  next
    case (Some out1)
    note o = first [OF Some]
    show ?thesis
    proof (cases "direct \<and> data = []")
      case True
      with Some eq o dir assms(1) show ?thesis by auto
    next
      case False
      obtain rr sb where rs: "ensure_space alloc (int (length data)) (u_sbuf h) = (rr, sb)" by fastforce
      note room = ensure_space_ok [OF assms(1,2) rs]
      show ?thesis
      proof (cases "rr = 0")
        case False
        with Some eq rs \<open>\<not> (direct \<and> data = [])\<close> o dir assms(1) show ?thesis by auto
      next
        case True
        obtain out2 h2 r2 where q: "udp_queue res2 ok delay data sb h r = (out2, h2, r2)"
          by (metis prod_cases3)
        from True room have "buf_inv sb" "int (length data) \<le> space_size sb" "pending sb = pending (u_sbuf h)" by simp_all
        with udp_queue_ok [OF this(1,2) q] have q': "buf_inv (u_sbuf h2)"
          "concat out2 @ pending (u_sbuf h2) = pending (u_sbuf h) @ data" "length out2 \<le> 1" by simp_all
        have "ret = 0" "out = out1 @ out2" "h' = h2"
          using Some eq rs True q False by auto
        moreover have "length (filter (\<lambda>d. d \<noteq> []) out2) \<le> 1"
          using q'(3) length_filter_le [of "\<lambda>d. d \<noteq> []" out2] by linarith
        ultimately show ?thesis using o q' dir by simp
      qed
    qed
  qed
qed

definition sample_udp :: udp_handler where
  "sample_udp = (udp_new 1)\<lparr>u_fd := 3, u_reactor := True,
     u_sbuf := \<lparr>m_begin = 96, m_end = 104, m_data = 96, m_space = 96, block = replicate 8 0\<rparr>\<rparr>"

lemma udp_send_datagrams_witness:
  "\<exists>h' r' rest. udp_send sample_alloc (Sent 0) (Sent 9) True [1, 2, 3] False sample_udp sample_reactor
     = (0, [] # rest, h', r') \<and> concat rest @ pending (u_sbuf h') = [1, 2, 3]"
proof -
  have inv: "buf_inv (u_sbuf sample_udp)" "pending (u_sbuf sample_udp) = []"
    by (simp_all add: sample_udp_def buf_inv_def pending_def region_def)
  obtain ret out h' r' where run:
    "udp_send sample_alloc (Sent 0) (Sent 9) True [1, 2, 3] False sample_udp sample_reactor = (ret, out, h', r')"
    by (metis prod_cases4)
  have sp: "ensure_space sample_alloc 3 (u_sbuf sample_udp) = (0, u_sbuf sample_udp)"
    by (simp add: ensure_space_def sample_udp_def space_size_def)
  have "data_size (u_sbuf sample_udp) = 0" by (simp add: sample_udp_def data_size_def)
  with run sp have "ret = 0" by (auto simp: udp_send_def Let_def split: prod.splits)
  with udp_send_datagrams [OF inv(1) alloc_total_sound [OF sample_alloc_total] run] run inv(2)
  show ?thesis by auto
qed

section \<open>Facts behind the findings\<close>

text \<open>A failed \<open>init\<close> leaves the closed descriptor in the handler; the destructor's \<open>fini\<close> then crashes.\<close>

lemma failed_init_crashes:
  assumes "udp_init_host ra sa ok port sock (udp_new me) r = (ret, h, r1, closed)" "0 \<le> sock" "ret \<noteq> 0"
  shows "closed = [sock] \<and> u_fd h = sock \<and> udp_fini h r2 = None"
  using assms
  by (auto simp: udp_init_host_def udp_init_def udp_new_def udp_fini_def Let_def split: prod.splits if_splits)

text \<open>
  An incomplete datagram is not dropped: the next one, which may come from another client, is read as
  its continuation.
\<close>

lemma datagrams_are_joined:
  assumes "buf_inv (u_rbuf h)" "alloc_total alloc" "segments s = x # xs" "x \<noteq> []"
    and "int (length x) \<le> space_size (u_rbuf h)" "pending (u_rbuf h) = old"
    and "udp_on_read info proc alloc stale h u s = (y, h', u', s')"
  shows "frame_run info proc u (old @ x) = (y, pending (u_rbuf h'), u')"
  using udp_read_frames [OF assms(1-5,7)] assms(6) by simp

text \<open>An empty datagram, such as \<open>send\<close> puts out, is an error for the receiver if \<open>errno\<close> holds any old one.\<close>

lemma empty_datagram_is_error:
  "segments s = [] # xs \<Longrightarrow> udp_on_read info proc alloc (EOTHER 9) h u s
     = (Event ERROR_TYPE_SYSTEM, h, u, s\<lparr>segments := xs\<rparr>)"
  by (simp add: udp_on_read_def recv_datagram_def)

text \<open>An error of \<open>recvfrom\<close> never reaches \<open>handle_error\<close> of the server.\<close>

lemma server_ignores_errors:
  assumes "segments s = []" "sock_end s = SockErr e" "buf_inv (s_rbuf h)" "pending (s_rbuf h) = []"
  shows "server_on_read info proc alloc stale h u s = (Done, h\<lparr>s_rbuf := buffer_adjust (s_rbuf h)\<rparr>, u, s)"
proof -
  have "to_int32 18446744073709551615 = -1" by (simp add: to_int32_def)
  moreover have "data_size (s_rbuf h) = 0" using length_pending [OF assms(3)] assms(4) by simp
  ultimately show ?thesis
    using assms(1,2) by (simp add: server_on_read_def recv_datagram_def push_data_def parse_loop.simps)
qed

text \<open>Without memory the server stays registered under a descriptor that nobody closes.\<close>

lemma server_init_leaks:
  assumes "reactor_inv r" "interest r sock = None" "0 \<le> sock" "sock < m_maxfd r" "0 \<le> m_epfd r"
  shows "\<exists>h r1. server_init None None True sock (server_new me) r = (-2, h, r1, []) \<and> s_fd h = -1
    \<and> interest r1 sock \<noteq> None"
  using assms
  by (simp add: server_init_def server_new_def add_handler_def buffer_init_def buffer_new_def Let_def)

end
