(* ===== verification/Network.thy ===== *)
theory Network
  imports Packet
begin

text \<open>
  \<open>framework/network_util.cpp\<close>: addresses, \<open>send_wrapper\<close> and the functions that create sockets. The
  kernel is a table of open sockets; what its calls answer is a record \<open>net_answers\<close>. Shown: a
  creation that fails leaves the table as it was and answers a negative number; one that succeeds adds
  exactly one socket with the options asked for. \<open>inet_addr\<close> is a parameter. The address arguments of the
  creating functions are never null: every caller passes the address of a local variable.
\<close>

section \<open>Addresses\<close>

definition AF_INET :: int where "AF_INET = 2"
definition AF_LOCAL :: int where "AF_LOCAL = 1"

record sa_in =
  sin_family :: int
  sin_port :: u16
  s_addr :: u32

text \<open>
  \<open>init_sa_in\<close>: with a null pointer or a port below 1 the address keeps what it had, which for the
  callers is whatever was on their stack.
\<close>

definition init_sa_in :: "(byte list \<Rightarrow> u32) \<Rightarrow> byte list option \<Rightarrow> int \<Rightarrow> sa_in \<Rightarrow> sa_in" where
  "init_sa_in inet_addr ip port a =
     (case ip of None \<Rightarrow> a
      | Some s \<Rightarrow>
          if port < 1 then a
          else \<lparr>sin_family = AF_INET, sin_port = bswap_16 (word_of_int port), s_addr = inet_addr (c_str s)\<rparr>)"

definition compare_sa_in :: "sa_in \<Rightarrow> sa_in \<Rightarrow> int" where
  "compare_sa_in a b = (if sin_port a = sin_port b \<and> s_addr a = s_addr b then 0 else -1)"

text \<open>\<open>init_sa_un\<close>: the path is cut at 107 bytes and padded with zeros to the 108 of \<open>sun_path\<close>.\<close>

definition SUN_PATH :: nat where "SUN_PATH = 108"

record sa_un =
  sun_family :: int
  sun_path :: "byte list"

definition init_sa_un :: "byte list option \<Rightarrow> sa_un \<Rightarrow> sa_un" where
  "init_sa_un file a =
     (case file of None \<Rightarrow> a
      | Some s \<Rightarrow> let p = take (SUN_PATH - 1) (c_str s) in
          \<lparr>sun_family = AF_LOCAL, sun_path = p @ replicate (SUN_PATH - length p) 0\<rparr>)"

lemma sun_path_terminated:
  "length (sun_path (init_sa_un (Some s) a)) = SUN_PATH
   \<and> c_str (sun_path (init_sa_un (Some s) a)) = take (SUN_PATH - 1) (c_str s)"
proof -
  let ?p = "take (SUN_PATH - 1) (c_str s)"
  have "str_ok ?p" using in_set_takeD [of 0 "SUN_PATH - 1" "c_str s"]
    by (auto simp: str_ok_def c_str_def dest: set_takeWhileD)
  moreover have "replicate (SUN_PATH - length ?p) 0 = (0 :: byte) # replicate (SUN_PATH - 1 - length ?p) 0"
    by (simp add: SUN_PATH_def flip: replicate_Suc)
  ultimately have "c_str (?p @ replicate (SUN_PATH - length ?p) 0) = ?p"
    by (simp add: c_str_terminated)
  then show ?thesis by (simp add: init_sa_un_def Let_def SUN_PATH_def)
qed

section \<open>send_wrapper\<close>

text \<open>
  \<open>send_wrapper\<close>: \<open>answers\<close> gives what the n-th call of \<open>send\<close> does; a call takes at most the bytes it is
  given. The result is the return value and the bytes that left.
\<close>

function send_loop :: "(nat \<Rightarrow> send_result) \<Rightarrow> nat \<Rightarrow> nat \<Rightarrow> byte list \<Rightarrow> int \<times> byte list" where
  "send_loop answers i n data =
     (case answers i of
        SendErr e \<Rightarrow> (-1, [])
      | Sent k \<Rightarrow>
          let len_sent = min k (length data) in
          if len_sent = 0 then (0, [])
          else if len_sent < length data then
            (case send_loop answers (Suc i) n (drop len_sent data) of
               (ret, out) \<Rightarrow> (ret, take len_sent data @ out))
          else (int n, data))"
  by pat_completeness auto
termination
  by (relation "measure (\<lambda>(answers, i, n, data). length data)") auto

declare send_loop.simps [simp del]

definition send_wrapper :: "(nat \<Rightarrow> send_result) \<Rightarrow> byte list \<Rightarrow> int \<times> byte list" where
  "send_wrapper answers data = send_loop answers 0 (length data) data"

lemma send_loop_more:
  assumes "answers i = Sent k" "0 < min k (length data)" "min k (length data) < length data"
  shows "send_loop answers i n data =
    (case send_loop answers (Suc i) n (drop (min k (length data)) data) of
       (ret, out) \<Rightarrow> (ret, take (min k (length data)) data @ out))"
  using assms by (subst send_loop.simps) (auto simp: Let_def)

lemma send_loop_stop:
  assumes "answers i = Sent k" "\<not> (0 < min k (length data) \<and> min k (length data) < length data)"
  shows "send_loop answers i n data = (if min k (length data) = 0 then (0, []) else (int n, data))"
  using assms by (subst send_loop.simps) (auto simp: Let_def)

lemma send_loop_err: "answers i = SendErr e \<Longrightarrow> send_loop answers i n data = (-1, [])"
  by (subst send_loop.simps) simp

lemma send_loop_result:
  "send_loop answers i n data = (ret, out) \<Longrightarrow>
   (ret = int n \<and> out = data \<and> data \<noteq> []) \<or> (ret = 0 \<or> ret = -1) \<and> (\<exists>rest. data = out @ rest \<and> (data \<noteq> [] \<longrightarrow> rest \<noteq> []))"
proof (induction answers i n data arbitrary: ret out rule: send_loop.induct)
  case (1 answers i n data)
  show ?case
  proof (cases "answers i")
    case (SendErr e)
    then show ?thesis using 1(2) by (simp add: send_loop_err)
  next
    case (Sent k)
    define m where "m = min k (length data)"
    show ?thesis
    proof (cases "0 < m \<and> m < length data")
      case True
      obtain ret1 out1 where r: "send_loop answers (Suc i) n (drop m data) = (ret1, out1)" by fastforce
      from 1(1) [OF Sent m_def, of ret1 out1] True r
      have ih: "ret1 = int n \<and> out1 = drop m data \<or>
        (ret1 = 0 \<or> ret1 = -1) \<and> (\<exists>rest. drop m data = out1 @ rest \<and> rest \<noteq> [])" by auto
      have o: "ret = ret1" "out = take m data @ out1"
        using 1(2) True r send_loop_more [where answers = answers and i = i and k = k and data = data and n = n] Sent by (simp_all add: m_def [symmetric])
      from ih show ?thesis
      proof
        assume "ret1 = int n \<and> out1 = drop m data"
        then show ?thesis using o True by auto
      next
        assume "(ret1 = 0 \<or> ret1 = -1) \<and> (\<exists>rest. drop m data = out1 @ rest \<and> rest \<noteq> [])"
        then obtain rest where "ret1 = 0 \<or> ret1 = -1" "drop m data = out1 @ rest" "rest \<noteq> []" by blast
        moreover have "data = take m data @ drop m data" by simp
        ultimately show ?thesis using o by (metis append.assoc)
      qed
    next
      case False
      then show ?thesis using 1(2) send_loop_stop [where answers = answers and i = i and k = k and data = data and n = n] Sent
        by (auto simp: m_def split: if_splits)
    qed
  qed
qed

lemma send_wrapper_result:
  assumes "send_wrapper answers data = (ret, out)" "data \<noteq> []"
  shows "if out = data then ret = int (length data)
    else (ret = 0 \<or> ret = -1) \<and> (\<exists>rest. data = out @ rest \<and> rest \<noteq> [])"
  using send_loop_result [OF assms(1) [unfolded send_wrapper_def]] assms(2) by auto

text \<open>A partial send followed by an error is reported as the error alone: how much has left is lost.\<close>

lemma send_wrapper_hides_partial_send:
  "send_wrapper (\<lambda>i. if i = 0 then Sent 2 else SendErr EAGAIN) [1, 2, 3] = (-1, [1, 2])"
  by (simp add: send_wrapper_def send_loop_more [where k = 2] send_loop_err)

section \<open>The sockets of the process\<close>

datatype sock_kind = TcpSock | UdpSock | LocalSock

record sock =
  kind :: sock_kind
  nonblocking :: bool
  reuse :: bool
  bound :: bool
  listening :: bool
  connecting :: bool

definition sock_new :: "sock_kind \<Rightarrow> sock" where
  "sock_new k = \<lparr>kind = k, nonblocking = False, reuse = False, bound = False, listening = False, connecting = False\<rparr>"

type_synonym sockets = "int \<Rightarrow> sock option"

text \<open>What the descriptors that the code closes leave of the table.\<close>

definition close_all :: "int list \<Rightarrow> sockets \<Rightarrow> sockets" where
  "close_all cl t = fold (\<lambda>fd t. t(fd := None)) cl t"

text \<open>What the kernel answers: 0 or the \<open>errno\<close> of a failed call, \<open>a_socket\<close> the new descriptor or -1.\<close>

record net_answers =
  a_socket :: int
  a_fcntl :: bool
  a_reuse :: bool
  a_bind :: int
  a_listen :: int
  a_connect :: int
  a_select :: int
  a_so_error :: int
  a_close :: int

definition EINPROGRESS :: int where "EINPROGRESS = 115"
definition ETIMEDOUT :: int where "ETIMEDOUT = 110"
definition FD_SETSIZE :: int where "FD_SETSIZE = 1024"

definition set_nonblock :: "net_answers \<Rightarrow> int \<Rightarrow> sockets \<Rightarrow> sockets" where
  "set_nonblock a fd t = (if a_fcntl a then t(fd := map_option (nonblocking_update (\<lambda>_. True)) (t fd)) else t)"

definition set_addr_reuse :: "net_answers \<Rightarrow> int \<Rightarrow> sockets \<Rightarrow> sockets" where
  "set_addr_reuse a fd t = (if a_reuse a then t(fd := map_option (reuse_update (\<lambda>_. True)) (t fd)) else t)"

definition create_tcp_service :: "net_answers \<Rightarrow> sockets \<Rightarrow> int \<times> sockets" where
  "create_tcp_service a t =
     (let fd = a_socket a in
      if fd < 0 then (-1, t)
      else
        let t1 = set_addr_reuse a fd (set_nonblock a fd (t(fd \<mapsto> sock_new TcpSock))) in
        if a_bind a \<noteq> 0 then (-2, t1(fd := None))
        else
          let t2 = t1(fd := map_option (bound_update (\<lambda>_. True)) (t1 fd)) in
          if a_listen a \<noteq> 0 then (-2, t2(fd := None))
          else (fd, t2(fd := map_option (listening_update (\<lambda>_. True)) (t2 fd))))"

definition create_udp_service :: "net_answers \<Rightarrow> sockets \<Rightarrow> int \<times> sockets" where
  "create_udp_service a t =
     (let fd = a_socket a in
      if fd < 0 then (-1, t)
      else
        let t1 = set_addr_reuse a fd (set_nonblock a fd (t(fd \<mapsto> sock_new UdpSock))) in
        if a_bind a \<noteq> 0 then (-2, t1(fd := None))
        else (fd, t1(fd := map_option (bound_update (\<lambda>_. True)) (t1 fd))))"

text \<open>
  \<open>check_socket_connect\<close> gives the return value and \<open>errno\<close>. \<open>FD_SET\<close> writes one bit of a set of
  \<open>FD_SETSIZE\<close> bits.
\<close>

definition check_socket_connect :: "net_answers \<Rightarrow> int \<Rightarrow> (int \<times> int) checked" where
  "check_socket_connect a fd =
     (if FD_SETSIZE \<le> fd then OutOfBounds
      else if a_select a < 1 then Fine (-1, ETIMEDOUT)
      else if a_so_error a \<noteq> 0 then Fine (-1, a_so_error a)
      else Fine (0, 0))"

text \<open>\<open>errno\<close> after a call of \<open>close\<close>.\<close>

definition errno_after_close :: "net_answers \<Rightarrow> int \<Rightarrow> int" where
  "errno_after_close a err = (if a_close a \<noteq> 0 then a_close a else err)"

text \<open>\<open>create_tcp_client\<close>, \<open>create_udp_client\<close> and \<open>create_unix_client\<close> differ in the kind of socket only.\<close>

definition create_client :: "sock_kind \<Rightarrow> net_answers \<Rightarrow> int \<Rightarrow> sockets \<Rightarrow> (int \<times> sockets) checked" where
  "create_client k a second t =
     (let fd = a_socket a in
      if fd < 0 then Fine (-1, t)
      else
        let t1 = set_nonblock a fd (t(fd \<mapsto> sock_new k)) in
        if a_connect a \<noteq> 0 \<and> a_connect a \<noteq> EINPROGRESS
        then Fine (- errno_after_close a (a_connect a), t1(fd := None))
        else
          let t2 = t1(fd := map_option (connecting_update (\<lambda>_. True)) (t1 fd)) in
          if second = 0 then Fine (fd, t2)
          else case check_socket_connect a fd of
            OutOfBounds \<Rightarrow> OutOfBounds
          | Fine (ret, err) \<Rightarrow>
              if ret \<noteq> 0 then Fine (- errno_after_close a err, t2(fd := None))
              else Fine (fd, t2))"

definition create_tcp_client :: "net_answers \<Rightarrow> int \<Rightarrow> sockets \<Rightarrow> (int \<times> sockets) checked" where
  "create_tcp_client a second t = create_client TcpSock a second t"

definition create_udp_client :: "net_answers \<Rightarrow> int \<Rightarrow> sockets \<Rightarrow> (int \<times> sockets) checked" where
  "create_udp_client a second t = create_client UdpSock a second t"

definition create_unix_client :: "net_answers \<Rightarrow> int \<Rightarrow> sockets \<Rightarrow> (int \<times> sockets) checked" where
  "create_unix_client a second t = create_client LocalSock a second t"

text \<open>The kernel's promises: errors are positive numbers, and a new descriptor was not open before.\<close>

definition net_ok :: "net_answers \<Rightarrow> sockets \<Rightarrow> bool" where
  "net_ok a t \<longleftrightarrow> t (a_socket a) = None \<and> 0 \<le> a_bind a \<and> 0 \<le> a_listen a \<and> 0 \<le> a_connect a
     \<and> 0 \<le> a_so_error a \<and> 0 \<le> a_close a"

text \<open>A failed creation is negative and leaves the table alone; a successful one adds the socket \<open>s\<close>.\<close>

definition creates :: "sock \<Rightarrow> net_answers \<Rightarrow> sockets \<Rightarrow> int \<Rightarrow> sockets \<Rightarrow> bool" where
  "creates s a t ret t' \<longleftrightarrow> (if ret < 0 then t' = t else ret = a_socket a \<and> t' = t(ret \<mapsto> s))"

lemmas socket_calls = creates_def set_nonblock_def set_addr_reuse_def sock_new_def Let_def

lemma create_tcp_service_ok:
  assumes "net_ok a t" "create_tcp_service a t = (ret, t')"
  shows "creates \<lparr>kind = TcpSock, nonblocking = a_fcntl a, reuse = a_reuse a, bound = True,
           listening = True, connecting = False\<rparr> a t ret t'"
  using assms by (auto simp: create_tcp_service_def net_ok_def socket_calls fun_upd_idem split: if_splits)

lemma create_udp_service_ok:
  assumes "net_ok a t" "create_udp_service a t = (ret, t')"
  shows "creates \<lparr>kind = UdpSock, nonblocking = a_fcntl a, reuse = a_reuse a, bound = True,
           listening = False, connecting = False\<rparr> a t ret t'"
  using assms by (auto simp: create_udp_service_def net_ok_def socket_calls fun_upd_idem split: if_splits)

lemma check_socket_connect_error:
  "net_ok a t \<Longrightarrow> check_socket_connect a fd = Fine (ret, err) \<Longrightarrow> ret \<noteq> 0 \<Longrightarrow> 0 < err"
  by (auto simp: check_socket_connect_def net_ok_def ETIMEDOUT_def split: if_splits)

lemma create_client_ok:
  assumes ok: "net_ok a t" and run: "create_client k a second t = Fine (ret, t')"
  shows "creates \<lparr>kind = k, nonblocking = a_fcntl a, reuse = False, bound = False,
           listening = False, connecting = True\<rparr> a t ret t'"
proof -
  have pos: "0 < e \<Longrightarrow> - errno_after_close a e < 0" for e
    using ok by (auto simp: errno_after_close_def net_ok_def)
  show ?thesis
  proof (cases "0 \<le> a_socket a \<and> (a_connect a = 0 \<or> a_connect a = EINPROGRESS) \<and> second \<noteq> 0")
    case True
    then obtain ret1 err where c: "check_socket_connect a (a_socket a) = Fine (ret1, err)"
      using run by (auto simp: create_client_def Let_def split: checked.splits if_splits)
    show ?thesis
      using run True c pos [of err] check_socket_connect_error [OF ok c] ok
      by (auto simp: create_client_def net_ok_def socket_calls fun_upd_idem split: if_splits)
  next
    case False
    then show ?thesis using run ok pos [of "a_connect a"]
      by (auto simp: create_client_def net_ok_def socket_calls fun_upd_idem split: if_splits)
  qed
qed

text \<open>Waiting for the connection of a descriptor from 1024 on writes past the \<open>fd_set\<close>.\<close>

lemma many_descriptors_overflow:
  "FD_SETSIZE \<le> a_socket a \<Longrightarrow> a_connect a = 0 \<Longrightarrow> second \<noteq> 0 \<Longrightarrow>
   create_tcp_client a second t = OutOfBounds"
  by (simp add: create_tcp_client_def create_client_def check_socket_connect_def FD_SETSIZE_def Let_def)

text \<open>When \<open>fcntl\<close> fails the socket is used all the same, in blocking mode.\<close>

lemma blocking_socket_used:
  assumes "net_ok a t" "0 \<le> a_socket a" "\<not> a_fcntl a" "a_bind a = 0" "a_listen a = 0"
    and "create_tcp_service a t = (ret, t')"
  shows "ret = a_socket a \<and> (\<exists>s. t' ret = Some s \<and> listening s \<and> \<not> nonblocking s)"
  using assms by (auto simp: create_tcp_service_def socket_calls net_ok_def)

text \<open>A host without a valid port leaves the address as it was.\<close>

lemma bad_port_keeps_garbage: "port < 1 \<Longrightarrow> init_sa_in inet_addr ip port a = a"
  by (simp add: init_sa_in_def split: option.splits)

end
