(* ===== verification/RingMem.thy ===== *)
theory RingMem
  imports Prelude
begin

text \<open>
  \<open>public/ring_mem_buffer.h\<close> and \<open>.cpp\<close>: a byte ring between a producer thread (\<open>push_data\<close>) and a
  consumer thread (\<open>consume_all_data\<close>). The two threads are interleaved at their accesses to shared
  memory: the copy into the ring, the store of \<open>w_pos_\<close>, the loads of the consumer, each call of the
  consumer function and the store of \<open>r_pos_\<close>. Shown: as long as the producer never has \<open>size_\<close> or more bytes
  outstanding, in every interleaving the consumer function gets pieces of the bytes pushed: each byte once
  and in order when it returns 0, none twice when it does not throw, none lost when it refuses nothing. The
  code does not enforce the bound: see the last section.
\<close>

section \<open>State and operations\<close>

text \<open>Arithmetic of \<open>unsigned int\<close>.\<close>

definition u32_add :: "nat \<Rightarrow> nat \<Rightarrow> nat" where
  "u32_add a b = (a + b) mod 2 ^ 32"

definition u32_sub :: "nat \<Rightarrow> nat \<Rightarrow> nat" where
  "u32_sub a b = (a + 2 ^ 32 - b) mod 2 ^ 32"

lemma u32_sub_le: "b \<le> a \<Longrightarrow> a < 2 ^ 32 \<Longrightarrow> u32_sub a b = a - b"
proof -
  assume a: "b \<le> a" "a < 2 ^ 32"
  then have "a + 2 ^ 32 - b = 2 ^ 32 + (a - b)" "a - b < 2 ^ 32" by simp_all
  then show ?thesis unfolding u32_sub_def by (metis mod_add_self1 mod_less)
qed

record ring_mem =
  ring_size :: nat
  r_pos :: nat
  w_pos :: nat
  buff :: "byte list"

definition init_memory :: "nat \<Rightarrow> ring_mem" where
  "init_memory n = \<lparr>ring_size = n, r_pos = 0, w_pos = 0, buff = replicate n 0\<rparr>"

text \<open>
  \<open>push_data\<close> up to the store of \<open>w_pos_\<close>: the return value, and the memory and the position to store.
\<close>

definition push_copy :: "byte list \<Rightarrow> ring_mem \<Rightarrow> (int \<times> byte list \<times> nat) checked" where
  "push_copy data s =
     (let n = length data; t = w_pos s in
      if u32_add t n \<le> ring_size s
      then if t + n \<le> ring_size s then Fine (0, blit (buff s) t data, u32_add t n) else OutOfBounds
      else
        let tail = u32_sub (ring_size s) t; over = u32_sub n tail in
        if r_pos s \<le> over then Fine (-1, buff s, t)
        else Fine (0, blit (blit (buff s) t (take tail data)) 0 (drop tail data), over))"

definition push_data :: "byte list \<Rightarrow> ring_mem \<Rightarrow> (int \<times> ring_mem) checked" where
  "push_data data s =
     (case push_copy data s of
        OutOfBounds \<Rightarrow> OutOfBounds
      | Fine (ret, b, t) \<Rightarrow> Fine (ret, if ret = 0 then s\<lparr>buff := b, w_pos := t\<rparr> else s))"

text \<open>
  \<open>consume_all_data\<close> when nobody else runs; \<open>func\<close> gives the result of a call of the consumer function,
  \<open>None\<close> when it throws (an empty \<open>func_\<close> does), and the second component lists what it was called with.
  An exception is caught: the position is not stored and the result is what \<open>ret\<close> was, 0.
\<close>

definition consume_all_data ::
    "(byte list \<Rightarrow> int option) \<Rightarrow> ring_mem \<Rightarrow> int \<times> byte list list \<times> ring_mem" where
  "consume_all_data func s =
     (let r = r_pos s; w = w_pos s; s' = s\<lparr>r_pos := w\<rparr> in
      if r < w then
        (let d = region (buff s) r (w - r) in
         case func d of None \<Rightarrow> (0, [d], s) | Some ret \<Rightarrow> (ret, [d], s'))
      else if w < r then
        (let d = region (buff s) r (ring_size s - r) in
         case func d of
           None \<Rightarrow> (0, [d], s)
         | Some ret \<Rightarrow>
             if ret = 0 \<and> w \<noteq> 0
             then (let d2 = region (buff s) 0 w in
                   case func d2 of None \<Rightarrow> (0, [d, d2], s) | Some ret2 \<Rightarrow> (ret2, [d, d2], s'))
             else (ret, [d], s'))
      else (0, [], s'))"

section \<open>The two threads\<close>

text \<open>
  What the consumer is about to do: to start; to call the function for the first time, after loading both
  positions; to call it for the second time; to store \<open>r_pos_\<close>. The producer has copied bytes and is
  about to store the position (\<open>Some\<close>), or is between two calls. The rest is the history: \<open>pushed\<close>, all bytes
  pushed; \<open>calls\<close>, every call of the consumer function, with the number in the stream of the first byte it
  got; \<open>reached\<close>, how far in the stream the consumer is; \<open>released\<close>, how many bytes its last store of \<open>r_pos_\<close>
  gave back.
\<close>

datatype consumer = Starting | Calling nat nat | CallingAgain nat | Storing nat

record ring_sys =
  ring :: ring_mem
  producer :: "(nat \<times> byte list) option"
  consumer :: consumer
  pushed :: "byte list"
  calls :: "(nat \<times> byte list) list"
  reached :: nat
  released :: nat

definition ring_sys_new :: "nat \<Rightarrow> ring_sys" where
  "ring_sys_new n = \<lparr>ring = init_memory n, producer = None, consumer = Starting, pushed = [], calls = [],
     reached = 0, released = 0\<rparr>"

text \<open>All bytes that the consumer function got.\<close>

definition delivered :: "ring_sys \<Rightarrow> byte list" where
  "delivered s = concat (map snd (calls s))"

text \<open>The number of bytes from one position to another.\<close>

definition outstanding :: "ring_mem \<Rightarrow> nat" where
  "outstanding s = (if r_pos s \<le> w_pos s then w_pos s - r_pos s else ring_size s - r_pos s + w_pos s)"

text \<open>
  A call of the consumer function with the bytes \<open>d\<close> and the result \<open>ret\<close>: when it throws, the consumer is
  back at its start with nothing released; otherwise it goes on at \<open>c\<close>, passing over \<open>skip\<close> bytes that it
  will not hand out.
\<close>

definition handed :: "byte list \<Rightarrow> nat \<Rightarrow> int option \<Rightarrow> consumer \<Rightarrow> ring_sys \<Rightarrow> ring_sys" where
  "handed d skip ret c s = s\<lparr>calls := calls s @ [(reached s, d)],
     consumer := (case ret of None \<Rightarrow> Starting | Some _ \<Rightarrow> c),
     reached := (case ret of None \<Rightarrow> released s | Some _ \<Rightarrow> reached s + length d + skip)\<rparr>"

text \<open>The steps; \<open>func\<close> is the function of the consumer. A first piece that it refuses takes the second with it.\<close>

inductive ring_step :: "(byte list \<Rightarrow> int option) \<Rightarrow> ring_sys \<Rightarrow> ring_sys \<Rightarrow> bool"
  for func :: "byte list \<Rightarrow> int option" where
  copy: "producer s = None \<Longrightarrow> outstanding (ring s) + length data < ring_size (ring s) \<Longrightarrow>
    push_copy data (ring s) = Fine (0, b, t) \<Longrightarrow>
    ring_step func s (s\<lparr>ring := (ring s)\<lparr>buff := b\<rparr>, producer := Some (t, data)\<rparr>)"
| store_w: "producer s = Some (t, data) \<Longrightarrow>
    ring_step func s (s\<lparr>ring := (ring s)\<lparr>w_pos := t\<rparr>, producer := None, pushed := pushed s @ data\<rparr>)"
| load: "consumer s = Starting \<Longrightarrow>
    ring_step func s (s\<lparr>consumer := Calling (r_pos (ring s)) (w_pos (ring s))\<rparr>)"
| call: "consumer s = Calling r w \<Longrightarrow> r < w \<Longrightarrow> d = region (buff (ring s)) r (w - r) \<Longrightarrow>
    ring_step func s (handed d 0 (func d) (Storing w) s)"
| call_tail: "consumer s = Calling r w \<Longrightarrow> w < r \<Longrightarrow>
    d = region (buff (ring s)) r (ring_size (ring s) - r) \<Longrightarrow>
    ring_step func s (if func d = Some 0 \<and> w \<noteq> 0 then handed d 0 (func d) (CallingAgain w) s
                      else handed d w (func d) (Storing w) s)"
| call_none: "consumer s = Calling r w \<Longrightarrow> r = w \<Longrightarrow> ring_step func s (s\<lparr>consumer := Storing w\<rparr>)"
| call_again: "consumer s = CallingAgain w \<Longrightarrow> d = region (buff (ring s)) 0 w \<Longrightarrow>
    ring_step func s (handed d 0 (func d) (Storing w) s)"
| store_r: "consumer s = Storing w \<Longrightarrow>
    ring_step func s (s\<lparr>ring := (ring s)\<lparr>r_pos := w\<rparr>, consumer := Starting, released := reached s\<rparr>)"

definition ring_steps :: "(byte list \<Rightarrow> int option) \<Rightarrow> ring_sys \<Rightarrow> ring_sys \<Rightarrow> bool" where
  "ring_steps func = (ring_step func)\<^sup>*\<^sup>*"

section \<open>Positions as counts\<close>

text \<open>
  The position of the ring after \<open>n\<close> bytes in all: never 0 again once something was pushed, but \<open>size_\<close> at
  the end.
\<close>

definition posn :: "nat \<Rightarrow> nat \<Rightarrow> nat" where
  "posn sz n = (if n = 0 then 0 else (n - 1) mod sz + 1)"

lemma posn_split:
  assumes "0 < sz"
  obtains q where "n = q * sz + posn sz n" "posn sz n \<le> sz" "posn sz n = 0 \<longleftrightarrow> n = 0"
proof (cases "n = 0")
  case False
  have "n = (n - 1) div sz * sz + posn sz n" using False by (simp add: posn_def)
  then show ?thesis using that [of "(n - 1) div sz"] False assms by (simp add: posn_def Suc_leI)
qed (use that [of 0] in \<open>simp add: posn_def\<close>)

lemma posn_unique:
  assumes "n = q * sz + p" "p \<le> sz" "0 < p"
  shows "posn sz n = p"
proof -
  have "n - 1 = q * sz + (p - 1)" "p - 1 < sz" using assms by auto
  then have "(n - 1) mod sz = p - 1" by simp
  then show ?thesis using assms by (simp add: posn_def)
qed

lemma posn_0_iff: "posn sz n = 0 \<longleftrightarrow> n = 0"
  by (simp add: posn_def)

lemma posn_le: "0 < sz \<Longrightarrow> posn sz n \<le> sz"
  by (rule posn_split [of sz n]) simp_all

lemma posn_0 [simp]: "posn sz 0 = 0"
  by (simp add: posn_def)

lemma posn_add:
  assumes "0 < sz" "posn sz n + k \<le> sz" "0 < k"
  shows "posn sz (n + k) = posn sz n + k"
proof -
  obtain q where "n = q * sz + posn sz n" by (rule posn_split [OF assms(1)])
  then show ?thesis using assms by (intro posn_unique [of _ q]) auto
qed

lemma posn_wrap:
  assumes "0 < sz" "sz < posn sz n + k" "posn sz n + k \<le> 2 * sz"
  shows "posn sz (n + k) = posn sz n + k - sz"
proof -
  obtain q where "n = q * sz + posn sz n" by (rule posn_split [OF assms(1)])
  then show ?thesis using assms by (intro posn_unique [of _ "q + 1"]) auto
qed

lemma posn_dist:
  assumes "0 < sz" "m \<le> n" "n - m < sz"
  shows "n - m = (if posn sz m \<le> posn sz n then posn sz n - posn sz m
                  else sz - posn sz m + posn sz n)"
proof -
  obtain a where a: "m = a * sz + posn sz m" "posn sz m \<le> sz" "posn sz m = 0 \<longleftrightarrow> m = 0"
    by (rule posn_split [OF assms(1)])
  obtain b where b: "n = b * sz + posn sz n" "posn sz n \<le> sz" "posn sz n = 0 \<longleftrightarrow> n = 0"
    by (rule posn_split [OF assms(1)])
  consider "b < a" | "b = a" | "b = a + 1" | "a + 2 \<le> b" by linarith
  then show ?thesis
  proof cases
    case 1
    then have "b * sz + sz \<le> a * sz" by (metis Suc_leI mult_Suc mult_le_mono1 add.commute)
    then show ?thesis using a b assms 1 by auto
  next
    case 4
    then have "a * sz + 2 * sz \<le> b * sz" by (metis add_mult_distrib mult_le_mono1)
    then show ?thesis using a b assms by linarith
  qed (use a b assms in \<open>auto simp: algebra_simps\<close>)
qed


section \<open>The invariant\<close>

text \<open>\<open>agrees b sz lo all\<close>: the ring holds the bytes of \<open>all\<close> from number \<open>lo\<close> on.\<close>

definition agrees :: "byte list \<Rightarrow> nat \<Rightarrow> nat \<Rightarrow> byte list \<Rightarrow> bool" where
  "agrees b sz lo all \<longleftrightarrow> length b = sz \<and> (\<forall>i. lo \<le> i \<and> i < length all \<longrightarrow> b ! (i mod sz) = all ! i)"

lemma posn_mod: "0 < sz \<Longrightarrow> 0 < k \<Longrightarrow> posn sz n + k \<le> sz \<Longrightarrow> j < k \<Longrightarrow> (n + j) mod sz = posn sz n + j"
proof -
  assume a: "0 < sz" "0 < k" "posn sz n + k \<le> sz" "j < k"
  obtain q where "n = q * sz + posn sz n" by (rule posn_split [OF a(1)])
  then have "n + j = q * sz + (posn sz n + j)" by simp
  moreover have "posn sz n + j < sz" using a by simp
  ultimately show "(n + j) mod sz = posn sz n + j" by (metis mod_mult_self3 mod_less)
qed

lemma posn_mod_0: "0 < sz \<Longrightarrow> 0 < k \<Longrightarrow> posn sz n + k \<le> sz \<Longrightarrow> posn sz n = n mod sz"
  using posn_mod [of sz k n 0] by simp

text \<open>Reading a piece of the ring that does not wrap.\<close>

lemma agrees_read:
  assumes "agrees b sz lo all" "0 < sz" "lo \<le> n" "0 < k \<Longrightarrow> p = n mod sz" "p + k \<le> sz" "n + k \<le> length all"
  shows "region b p k = take k (drop n all)"
proof (rule nth_equalityI)
  show "length (region b p k) = length (take k (drop n all))"
    using assms by (simp add: region_def agrees_def)
  fix j assume j: "j < length (region b p k)"
  then have jk: "j < k" using assms by (simp add: region_def agrees_def)
  then have "(n + j) mod sz = p + j" using assms(4,5)
    by (metis add_less_cancel_left less_le_trans mod_add_left_eq mod_less gr_zeroI not_less0)
  moreover have "b ! ((n + j) mod sz) = all ! (n + j)" using assms jk by (simp add: agrees_def)
  ultimately show "region b p k ! j = take k (drop n all) ! j"
    using assms jk by (simp add: region_def agrees_def)
qed

text \<open>Writing a piece that does not wrap, behind everything and not over what is still to be read.\<close>

lemma agrees_write:
  assumes "agrees b sz lo all" "0 < sz" "lo \<le> length all" "length all + length xs \<le> lo + sz"
    and "p = (if xs = [] then p else length all mod sz)" "p + length xs \<le> sz"
  shows "agrees (blit b p xs) sz lo (all @ xs)"
proof -
  have len: "length b = sz" using assms(1) by (simp add: agrees_def)
  have "blit b p xs ! (i mod sz) = (all @ xs) ! i" if i: "lo \<le> i" "i < length all + length xs" for i
  proof (cases "i < length all")
    case True
    have "i mod sz < p \<or> p + length xs \<le> i mod sz"
    proof (rule ccontr)
      assume "\<not> (i mod sz < p \<or> p + length xs \<le> i mod sz)"
      then obtain j where j: "i mod sz = p + j" "j < length xs"
        by (metis add_diff_inverse_nat add_less_cancel_left not_le)
      then have "i mod sz = (length all + j) mod sz" using assms(5,6)
        by (metis add_lessD1 add_less_cancel_left length_greater_0_conv less_le_trans list.size(3)
            mod_add_left_eq mod_less not_less0)
      moreover have "length all + j - i < sz" "0 < length all + j - i" using i True j assms(4) by auto
      ultimately show False
        by (metis mod_eq_dvd_iff_nat dvd_imp_le less_imp_le not_le zero_less_diff)
    qed
    moreover have "i mod sz < sz" using assms(2) by simp
    moreover have "b ! (i mod sz) = all ! i" using assms(1) i True by (simp add: agrees_def)
    ultimately show ?thesis using True len assms(6)
      by (auto simp: blit_def nth_append)
  next
    case False
    define j where "j = i - length all"
    have j: "i = length all + j" "j < length xs" using False i by (simp_all add: j_def)
    then have ne: "xs \<noteq> []" by auto
    then have "i mod sz = p + j" using j assms(2,5,6)
      by (metis (no_types, lifting) add_less_cancel_left less_le_trans mod_add_left_eq mod_less)
    then show ?thesis using j len assms(6) by (simp add: blit_def nth_append)
  qed
  then show ?thesis using len assms(6) by (simp add: agrees_def length_blit)
qed


text \<open>Everything that is in the ring or was: pushed, or copied with the position not yet stored.\<close>

definition copied :: "ring_sys \<Rightarrow> byte list" where
  "copied s = pushed s @ (case producer s of None \<Rightarrow> [] | Some (t, data) \<Rightarrow> data)"

definition consumer_ok :: "nat \<Rightarrow> ring_sys \<Rightarrow> bool" where
  "consumer_ok sz s =
     (let n = released s; v = reached s; w = length (pushed s) in
      case consumer s of
        Starting \<Rightarrow> v = n
      | Calling rp wp \<Rightarrow> v = n \<and> rp = posn sz n \<and> (\<exists>w0. n \<le> w0 \<and> w0 \<le> w \<and> wp = posn sz w0)
      | CallingAgain wp \<Rightarrow> v mod sz = 0 \<and> wp \<le> sz \<and> wp = posn sz (v + wp) \<and> v + wp \<le> w
      | Storing wp \<Rightarrow> wp = posn sz v)"

definition ring_ok :: "nat \<Rightarrow> ring_sys \<Rightarrow> bool" where
  "ring_ok sz s \<longleftrightarrow> ring_size (ring s) = sz \<and> 0 < sz \<and> sz \<le> 2 ^ 31
     \<and> agrees (buff (ring s)) sz (released s) (copied s) \<and> length (copied s) < released s + sz
     \<and> released s \<le> reached s \<and> reached s \<le> length (pushed s)
     \<and> r_pos (ring s) = posn sz (released s) \<and> w_pos (ring s) = posn sz (length (pushed s))
     \<and> (case producer s of None \<Rightarrow> True | Some (t, data) \<Rightarrow> t = posn sz (length (pushed s) + length data))
     \<and> consumer_ok sz s"

text \<open>
  What the calls of the function were: each got a piece of the stream; if it never throws, no byte
  twice; if it refuses nothing, every byte so far; if it always returns 0, all of them in one sequence.
\<close>

definition piece :: "byte list \<Rightarrow> nat \<times> byte list \<Rightarrow> bool" where
  "piece all c \<longleftrightarrow> fst c + length (snd c) \<le> length all \<and> snd c = take (length (snd c)) (drop (fst c) all)"

definition calls_ok :: "(byte list \<Rightarrow> int option) \<Rightarrow> ring_sys \<Rightarrow> bool" where
  "calls_ok func s \<longleftrightarrow> (\<forall>c\<in>set (calls s). piece (pushed s) c)
     \<and> ((\<forall>d. func d \<noteq> None) \<longrightarrow> sorted_wrt (\<lambda>a b. fst a + length (snd a) \<le> fst b) (calls s)
          \<and> (\<forall>c\<in>set (calls s). fst c + length (snd c) \<le> reached s))
     \<and> ((\<forall>d. func d = None \<or> func d = Some 0) \<longrightarrow>
          (\<forall>j<reached s. \<exists>c\<in>set (calls s). fst c \<le> j \<and> j < fst c + length (snd c)))
     \<and> ((\<forall>d. func d = Some 0) \<longrightarrow> delivered s = take (reached s) (pushed s))"

lemma piece_append: "piece all c \<Longrightarrow> piece (all @ later) c"
  unfolding piece_def by (cases c) auto

lemma ring_ok_new: "0 < sz \<Longrightarrow> sz \<le> 2 ^ 31 \<Longrightarrow> ring_ok sz (ring_sys_new sz)"
  by (simp add: ring_ok_def ring_sys_new_def init_memory_def copied_def agrees_def consumer_ok_def)

lemma calls_ok_new: "calls_ok func (ring_sys_new sz)"
  by (simp add: calls_ok_def ring_sys_new_def delivered_def)

lemma outstanding_count:
  assumes "0 < ring_size r" "r_pos r = posn (ring_size r) m" "w_pos r = posn (ring_size r) n" "m \<le> n"
    "n - m < ring_size r"
  shows "outstanding r = n - m"
  using posn_dist [OF assms(1,4,5)] assms(2,3) by (simp add: outstanding_def)

text \<open>A push within the bound succeeds and writes behind everything else.\<close>

lemma push_copy_ok:
  assumes sz: "ring_size r = sz" "0 < sz" "sz \<le> 2 ^ 31"
    and ag: "agrees (buff r) sz m all" and w: "w_pos r = posn sz (length all)" "r_pos r = posn sz m"
    and le: "m \<le> length all" "length all + length data < m + sz"
  shows "\<exists>b. push_copy data r = Fine (0, b, posn sz (length all + length data)) \<and> agrees b sz m (all @ data)"
proof -
  let ?W = "posn sz (length all)" and ?n = "length data"
  obtain q where q: "length all = q * sz + ?W" "?W \<le> sz" by (rule posn_split [OF sz(2)])
  have n: "?n < sz" using le by simp
  have add: "u32_add ?W ?n = ?W + ?n" using q(2) n sz(3) by (simp add: u32_add_def)
  show ?thesis
  proof (cases "?W + ?n \<le> sz")
    case True
    have "posn sz (length all + ?n) = ?W + ?n" using posn_add [OF sz(2) True] by (cases "data = []") simp_all
    moreover have "agrees (blit (buff r) ?W data) sz m (all @ data)"
      using le True posn_mod_0 [OF sz(2) _ True] by (intro agrees_write [OF ag sz(2)]) auto
    ultimately show ?thesis using True add sz w by (auto simp: push_copy_def Let_def)
  next
    case False
    let ?tail = "sz - ?W"
    have tail: "u32_sub sz ?W = ?tail" using q(2) sz by (intro u32_sub_le) simp_all
    have over: "u32_sub ?n ?tail = ?n - ?tail" "?n - ?tail = ?W + ?n - sz"
      using False n sz(3) q(2) by (simp_all add: u32_sub_le)
    have "length all - m = (if posn sz m \<le> ?W then ?W - posn sz m else sz - posn sz m + ?W)"
      using le by (intro posn_dist [OF sz(2)]) auto
    moreover have "posn sz m \<le> sz" by (rule posn_le [OF sz(2)])
    ultimately have free: "\<not> posn sz m \<le> ?n - ?tail" using False le over(2) by (auto split: if_splits)
    have pos: "posn sz (length all + ?n) = ?n - ?tail"
      using posn_wrap [OF sz(2), of "length all" ?n] False n q(2) over(2) by simp
    have l: "length (take ?tail data) = ?tail" using False by simp
    have a1: "agrees (blit (buff r) ?W (take ?tail data)) sz m (all @ take ?tail data)"
      using le q(2) l posn_mod_0 [OF sz(2), of ?tail "length all"] False
      by (intro agrees_write [OF ag sz(2)]) auto
    have "length (all @ take ?tail data) = length all + ?tail" using l by simp
    also have "\<dots> = q * sz + sz" using q by linarith
    finally have "length (all @ take ?tail data) mod sz = 0" by simp
    then have "agrees (blit (blit (buff r) ?W (take ?tail data)) 0 (drop ?tail data)) sz m
        ((all @ take ?tail data) @ drop ?tail data)"
      using le n l by (intro agrees_write [OF a1 sz(2)]) auto
    then show ?thesis using False add tail over(1) free pos sz(1) w by (auto simp: push_copy_def Let_def)
  qed
qed


text \<open>Every step keeps the invariant; the store of the consumer releases what was delivered.\<close>

lemma read_pushed:
  assumes "ring_ok sz s" "released s \<le> v" "v + k \<le> length (pushed s)" "0 < k \<Longrightarrow> p = v mod sz" "p + k \<le> sz"
  shows "region (buff (ring s)) p k = take k (drop v (pushed s))"
proof -
  have "region (buff (ring s)) p k = take k (drop v (copied s))"
    using assms by (intro agrees_read [of _ sz "released s"]) (auto simp: ring_ok_def copied_def)
  then show ?thesis using assms(3) by (simp add: copied_def)
qed

lemma read_straight:
  assumes "ring_ok sz s" "n = released s" "n \<le> w0" "w0 \<le> length (pushed s)" "posn sz n < posn sz w0"
  shows "posn sz w0 - posn sz n = w0 - n"
    and "region (buff (ring s)) (posn sz n) (w0 - n) = take (w0 - n) (drop n (pushed s))"
proof -
  have sz: "0 < sz" "w0 - n < sz" "posn sz w0 \<le> sz"
    using assms(1,2,4) posn_le [of sz w0] by (auto simp: ring_ok_def copied_def)
  show k: "posn sz w0 - posn sz n = w0 - n" using posn_dist [OF sz(1) assms(3) sz(2)] assms(5) by simp
  show "region (buff (ring s)) (posn sz n) (w0 - n) = take (w0 - n) (drop n (pushed s))"
    using assms sz k posn_mod_0 [of sz "w0 - n" n] by (intro read_pushed [OF assms(1)]) auto
qed

lemma read_wrapped:
  assumes "ring_ok sz s" "n = released s" "n \<le> w0" "w0 \<le> length (pushed s)" "posn sz w0 < posn sz n"
  shows "w0 = n + (sz - posn sz n) + posn sz w0" "posn sz w0 \<noteq> 0" "(n + (sz - posn sz n)) mod sz = 0"
    and "region (buff (ring s)) (posn sz n) (sz - posn sz n) = take (sz - posn sz n) (drop n (pushed s))"
proof -
  have sz: "0 < sz" "w0 - n < sz" using assms(1,2,4) by (auto simp: ring_ok_def copied_def)
  obtain q where q: "n = q * sz + posn sz n" "posn sz n \<le> sz" by (rule posn_split [OF sz(1), of n])
  show k: "w0 = n + (sz - posn sz n) + posn sz w0"
    using posn_dist [OF sz(1) assms(3) sz(2)] assms by simp
  show "posn sz w0 \<noteq> 0" using assms by (cases "w0 = 0") (auto simp: posn_0_iff)
  have "n + (sz - posn sz n) = q * sz + sz" using q by linarith
  then show "(n + (sz - posn sz n)) mod sz = 0" by simp
  show "region (buff (ring s)) (posn sz n) (sz - posn sz n) = take (sz - posn sz n) (drop n (pushed s))"
    using assms k q(2) posn_mod_0 [OF sz(1), of "sz - posn sz n" n] by (intro read_pushed [OF assms(1)]) auto
qed

text \<open>A call with the bytes that come next in the stream, whatever it answers.\<close>

lemma handed_ring_ok:
  assumes ok: "ring_ok sz s" and k: "reached s + length d + skip \<le> length (pushed s)"
    and c: "consumer_ok sz (s\<lparr>consumer := c, reached := reached s + length d + skip\<rparr>)"
  shows "ring_ok sz (handed d skip ret c s)"
  using assms
  by (cases ret; simp add: ring_ok_def handed_def copied_def consumer_ok_def Let_def split: option.splits prod.splits)

lemma handed_calls_ok:
  assumes ok: "calls_ok func s" "released s \<le> reached s" "reached s \<le> length (pushed s)"
    and d: "d = take k (drop (reached s) (pushed s))" and k: "reached s + k \<le> length (pushed s)"
    and skip: "skip = 0 \<or> func d = None \<or> (\<exists>r. func d = Some r \<and> r \<noteq> 0)"
  shows "calls_ok func (handed d skip (func d) c s)"
proof -
  have l: "length d = k" using d k by simp
  have new: "piece (pushed s) (reached s, d)" using d k l by (simp add: piece_def)
  have skip0: "skip = 0" if "\<forall>d. func d = None \<or> func d = Some 0" "func d = Some r" for r
    using skip that(1) [rule_format, of d] that(2) by auto
  have pieces: "\<forall>c\<in>set (calls s @ [(reached s, d)]). piece (pushed s) c"
    using ok(1) new by (simp add: calls_ok_def)
  have order: "sorted_wrt (\<lambda>a b. fst a + length (snd a) \<le> fst b) (calls s @ [(reached s, d)])
      \<and> (\<forall>c\<in>set (calls s @ [(reached s, d)]). fst c + length (snd c) \<le> reached s + length d + skip)"
    if "\<forall>d. func d \<noteq> None"
    using ok(1) that by (auto simp: calls_ok_def sorted_wrt_append intro: trans_le_add1)
  have cover: "\<forall>j<reached s + length d. \<exists>c\<in>set (calls s @ [(reached s, d)]). fst c \<le> j \<and> j < fst c + length (snd c)"
    if "\<forall>d. func d = None \<or> func d = Some 0"
  proof (intro allI impI)
    fix j assume j: "j < reached s + length d"
    show "\<exists>c\<in>set (calls s @ [(reached s, d)]). fst c \<le> j \<and> j < fst c + length (snd c)"
    proof (cases "j < reached s")
      case True
      then have "\<exists>c\<in>set (calls s). fst c \<le> j \<and> j < fst c + length (snd c)"
        using ok(1) that unfolding calls_ok_def by blast
      then show ?thesis by auto
    qed (use j in simp)
  qed
  have all: "delivered s @ d = take (reached s + k) (pushed s)" if "\<forall>d. func d = Some 0"
    using ok(1) that d by (simp add: calls_ok_def take_add)
  show ?thesis
  proof (cases "func d")
    case None
    have "\<not> (\<forall>d. func d \<noteq> None)" using None by blast
    moreover have "\<not> (\<forall>d. func d = Some 0)" using None by (metis option.distinct(1))
    moreover have "\<exists>c\<in>set (calls s @ [(reached s, d)]). fst c \<le> j \<and> j < fst c + length (snd c)"
      if "\<forall>d. func d = None \<or> func d = Some 0" "j < released s" for j
    proof -
      have "\<exists>c\<in>set (calls s). fst c \<le> j \<and> j < fst c + length (snd c)"
        using ok(1,2) that unfolding calls_ok_def by (meson less_le_trans)
      then show ?thesis by auto
    qed
    ultimately show ?thesis using None pieces unfolding calls_ok_def by (simp add: handed_def del: not_None_eq) blast
  next
    case (Some r)
    then show ?thesis using pieces order cover all skip0 [OF _ Some] l
      unfolding calls_ok_def by (simp add: handed_def delivered_def)
  qed
qed

text \<open>The bytes of the three calls, from the state in which they are made.\<close>

lemma call_bytes:
  assumes ok: "ring_ok sz s" and c: "consumer s = Calling r w" "r < w" and d: "d = region (buff (ring s)) r (w - r)"
  shows "d = take (w - r) (drop (reached s) (pushed s))" "reached s + (w - r) \<le> length (pushed s)"
    "w = posn sz (reached s + (w - r))"
proof -
  obtain w0 where w0: "released s \<le> w0" "w0 \<le> length (pushed s)" "w = posn sz w0" "r = posn sz (released s)"
      "reached s = released s"
    using ok c by (auto simp: ring_ok_def consumer_ok_def Let_def)
  note rd = read_straight [OF ok refl w0(1,2), folded w0(3,4), OF c(2)]
  then show "d = take (w - r) (drop (reached s) (pushed s))" "reached s + (w - r) \<le> length (pushed s)"
    "w = posn sz (reached s + (w - r))"
    using w0 d by auto
qed

lemma call_tail_bytes:
  assumes ok: "ring_ok sz s" and c: "consumer s = Calling r w" "w < r"
    and d: "d = region (buff (ring s)) r (ring_size (ring s) - r)"
  shows "d = take (sz - r) (drop (reached s) (pushed s))" "reached s + (sz - r) + w \<le> length (pushed s)"
    "w = posn sz (reached s + (sz - r) + w)" "(reached s + (sz - r)) mod sz = 0" "w \<le> sz"
proof -
  have sz: "0 < sz" "ring_size (ring s) = sz" using ok by (auto simp: ring_ok_def)
  obtain w0 where w0: "released s \<le> w0" "w0 \<le> length (pushed s)" "w = posn sz w0" "r = posn sz (released s)"
      "reached s = released s"
    using ok c by (auto simp: ring_ok_def consumer_ok_def Let_def)
  note rd = read_wrapped [OF ok refl w0(1,2), folded w0(3,4), OF c(2)]
  then show "d = take (sz - r) (drop (reached s) (pushed s))" "reached s + (sz - r) + w \<le> length (pushed s)"
    "w = posn sz (reached s + (sz - r) + w)" "(reached s + (sz - r)) mod sz = 0" "w \<le> sz"
    using w0 d sz posn_le [OF sz(1), of w0] by (simp_all flip: rd(1))
qed

lemma call_again_bytes:
  assumes ok: "ring_ok sz s" and c: "consumer s = CallingAgain w" and d: "d = region (buff (ring s)) 0 w"
  shows "d = take w (drop (reached s) (pushed s))" "reached s + w \<le> length (pushed s)" "w = posn sz (reached s + w)"
proof -
  have w: "reached s mod sz = 0" "w \<le> sz" "released s \<le> reached s"
    using ok c by (auto simp: ring_ok_def consumer_ok_def Let_def)
  show u: "reached s + w \<le> length (pushed s)" "w = posn sz (reached s + w)"
    using ok c by (auto simp: ring_ok_def consumer_ok_def Let_def)
  show "d = take w (drop (reached s) (pushed s))" unfolding d
    using w u by (intro read_pushed [OF ok]) auto
qed

lemma ring_ok_step:
  assumes "ring_step func s s'" "ring_ok sz s"
  shows "ring_ok sz s'"
  using assms
proof (cases rule: ring_step.cases)
  case (copy data b t)
  note ok = assms(2) [unfolded ring_ok_def]
  have c: "copied s = pushed s" using copy(2) by (simp add: copied_def)
  have le: "released s \<le> length (pushed s)" using ok by simp
  have "outstanding (ring s) = length (pushed s) - released s"
    using ok c le by (intro outstanding_count) auto
  then have room: "length (pushed s) + length data < released s + sz" using copy(3) ok le by simp
  with push_copy_ok [of "ring s" sz "released s" "pushed s" data] ok c le copy(4)
  have "agrees b sz (released s) (pushed s @ data)" "t = posn sz (length (pushed s) + length data)" by auto
  then show ?thesis using ok c room copy(1,2)
    by (simp add: ring_ok_def copied_def consumer_ok_def Let_def)
next
  case (store_w t data)
  then show ?thesis using assms(2)
    by (fastforce simp: ring_ok_def copied_def consumer_ok_def Let_def split: consumer.splits)
next
  case load
  then show ?thesis using assms(2)
    by (auto simp: ring_ok_def copied_def consumer_ok_def Let_def split: option.splits)
next
  case (call r w d)
  note b = call_bytes [OF assms(2) call(2-4)]
  have "length d = w - r" using arg_cong [OF b(1), of length] b(2) by simp
  then show ?thesis unfolding call(1)
    using b(2,3) by (intro handed_ring_ok [OF assms(2)]) (simp_all add: consumer_ok_def Let_def)
next
  case (call_tail r w d)
  note b = call_tail_bytes [OF assms(2) call_tail(2-4)]
  have "length d = sz - r" using arg_cong [OF b(1), of length] b(2) by simp
  then show ?thesis unfolding call_tail(1)
    using b(2-5) by (auto intro!: handed_ring_ok [OF assms(2)] simp: consumer_ok_def Let_def)
next
  case (call_none r w)
  then show ?thesis using assms(2)
    by (auto simp: ring_ok_def copied_def consumer_ok_def Let_def split: option.splits)
next
  case (call_again w d)
  note b = call_again_bytes [OF assms(2) call_again(2,3)]
  have "length d = w" using arg_cong [OF b(1), of length] b(2) by simp
  then show ?thesis unfolding call_again(1)
    using b(2,3) by (intro handed_ring_ok [OF assms(2)]) (simp_all add: consumer_ok_def Let_def)
next
  case (store_r w)
  then show ?thesis using assms(2)
    by (auto simp: ring_ok_def copied_def consumer_ok_def agrees_def Let_def split: option.splits)
qed

lemma calls_ok_step:
  assumes "ring_step func s s'" "ring_ok sz s" "calls_ok func s"
  shows "calls_ok func s'"
  using assms(1)
proof (cases rule: ring_step.cases)
  case (store_w t data)
  have "reached s \<le> length (pushed s)" using assms(2) by (simp add: ring_ok_def)
  then show ?thesis using store_w assms(3) piece_append by (auto simp: calls_ok_def delivered_def)
next
  case (call r w d)
  note b = call_bytes [OF assms(2) call(2-4)]
  show ?thesis unfolding call(1)
    using assms(2) b by (intro handed_calls_ok [OF assms(3), where k = "w - r"]) (auto simp: ring_ok_def)
next
  case (call_tail r w d)
  note b = call_tail_bytes [OF assms(2) call_tail(2-4)]
  have le: "released s \<le> reached s" "reached s \<le> length (pushed s)" using assms(2) by (auto simp: ring_ok_def)
  have "calls_ok func (handed d 0 (func d) (CallingAgain w) s)"
    using b by (intro handed_calls_ok [OF assms(3) le, where k = "sz - r"]) auto
  moreover have "calls_ok func (handed d w (func d) (Storing w) s)" if "\<not> (func d = Some 0 \<and> w \<noteq> 0)"
    using b that by (intro handed_calls_ok [OF assms(3) le, where k = "sz - r"]) (auto, cases "func d", auto)
  ultimately show ?thesis unfolding call_tail(1) by (simp only: if_split) blast
next
  case (call_again w d)
  note b = call_again_bytes [OF assms(2) call_again(2,3)]
  show ?thesis unfolding call_again(1)
    using assms(2) b by (intro handed_calls_ok [OF assms(3), where k = w]) (auto simp: ring_ok_def)
qed (use assms(3) in \<open>auto simp: calls_ok_def delivered_def\<close>)

lemma ring_ok_steps:
  assumes "ring_steps func s s'" "ring_ok sz s" "calls_ok func s"
  shows "ring_ok sz s' \<and> calls_ok func s'"
  using assms unfolding ring_steps_def
  by (induction rule: rtranclp_induct) (use ring_ok_step calls_ok_step in blast)+

text \<open>What one undisturbed call of \<open>consume_all_data\<close> hands out is what was pushed and not yet released.\<close>

lemma consume_rest:
  assumes ok: "ring_ok sz s" and c: "consumer s = Starting" and f: "\<forall>d. func d = Some 0"
  shows "concat (fst (snd (consume_all_data func (ring s)))) = drop (reached s) (pushed s)"
proof -
  let ?w = "length (pushed s)" and ?n = "released s"
  have v: "reached s = ?n" "?n \<le> ?w" and sz: "0 < sz" "?w - ?n < sz" "ring_size (ring s) = sz"
    and p: "r_pos (ring s) = posn sz ?n" "w_pos (ring s) = posn sz ?w"
    using ok c by (auto simp: ring_ok_def consumer_ok_def copied_def Let_def)
  consider "posn sz ?n < posn sz ?w" | "posn sz ?w < posn sz ?n" | "posn sz ?n = posn sz ?w" by linarith
  then show ?thesis
  proof cases
    case 1
    with read_straight [OF ok refl v(2) order.refl 1] v f show ?thesis
      by (simp add: consume_all_data_def p Let_def)
  next
    case 2
    note rd = read_wrapped [OF ok refl v(2) order.refl 2]
    have "posn sz ?w \<le> sz" by (rule posn_le [OF sz(1)])
    then have "region (buff (ring s)) 0 (posn sz ?w) = take (posn sz ?w) (drop (?n + (sz - posn sz ?n)) (pushed s))"
      using rd by (intro read_pushed [OF ok]) auto
    also have "\<dots> = drop (?n + (sz - posn sz ?n)) (pushed s)" using rd(1) by simp
    finally show ?thesis using 2 rd(2,4) sz(3) v f
      by (simp add: consume_all_data_def p Let_def) (metis add.commute append_take_drop_id drop_drop)
  next
    case 3
    then have "?w - ?n = 0" using posn_dist [OF sz(1) v(2) sz(2)] by simp
    then show ?thesis using 3 v by (simp add: consume_all_data_def p)
  qed
qed

text \<open>A push within the bound is accepted.\<close>

lemma push_accepted:
  assumes ok: "ring_ok n s" and a: "producer s = None" "outstanding (ring s) + length data < n"
  shows "\<exists>r. push_data data (ring s) = Fine (0, r)"
proof -
  let ?m = "released s"
  have f: "ring_size (ring s) = n" "0 < n" "n \<le> 2 ^ 31" "agrees (buff (ring s)) n ?m (pushed s)"
    "w_pos (ring s) = posn n (length (pushed s))" "r_pos (ring s) = posn n ?m"
    "?m \<le> length (pushed s)" "length (pushed s) < ?m + n"
    using ok a(1) by (auto simp: ring_ok_def copied_def)
  then have "outstanding (ring s) = length (pushed s) - ?m" by (intro outstanding_count) auto
  with a(2) f(7) have "length (pushed s) + length data < ?m + n" by simp
  from push_copy_ok [OF f(1-7) this] show ?thesis by (auto simp: push_data_def)
qed

section \<open>Properties\<close>

text \<open>C20: The ring as a queue between two threads, with less than \<open>size_\<close> bytes outstanding and
  whatever the consumer function returns or throws: however their steps interleave, every call of the
  function gets a piece of what was pushed; if it never throws, the pieces are in order and no
  byte is in two of them; if it returns 0 or throws, no byte that the consumer gave back is left
  out; if it always returns 0, what it has got is exactly a prefix of what was pushed, and when the
  consumer is between two calls, one call hands out exactly the rest. When the producer is between two
  calls, a push that keeps less than \<open>size_\<close> bytes outstanding is accepted.\<close>

theorem ring_threads_fifo:
  assumes "0 < n" "n \<le> 2 ^ 31" "ring_steps func (ring_sys_new n) s"
  shows "(\<forall>(i, d)\<in>set (calls s). \<exists>before after. pushed s = before @ d @ after \<and> length before = i)
    \<and> ((\<forall>d. func d \<noteq> None) \<longrightarrow> sorted_wrt (\<lambda>(i, d) (j, e). i + length d \<le> j) (calls s))
    \<and> ((\<forall>d. func d = None \<or> func d = Some 0) \<longrightarrow>
        (\<forall>j<released s. \<exists>(i, d)\<in>set (calls s). i \<le> j \<and> j < i + length d))
    \<and> ((\<forall>d. func d = Some 0) \<longrightarrow> (\<exists>rest. pushed s = delivered s @ rest
        \<and> (consumer s = Starting \<longrightarrow> concat (fst (snd (consume_all_data func (ring s)))) = rest)))
    \<and> (producer s = None \<and> outstanding (ring s) + length data < n \<longrightarrow>
        (\<exists>r. push_data data (ring s) = Fine (0, r)))"
proof -
  have ok: "ring_ok n s" "calls_ok func s"
    using ring_ok_steps [OF assms(3) ring_ok_new calls_ok_new] assms(1,2) by blast+
  have p: "\<exists>before after. pushed s = before @ d @ after \<and> length before = i" if "(i, d) \<in> set (calls s)" for i d
  proof -
    have "piece (pushed s) (i, d)" using ok(2) that by (auto simp: calls_ok_def)
    then have d: "d = take (length d) (drop i (pushed s))" "i + length d \<le> length (pushed s)"
      by (simp_all add: piece_def)
    have "pushed s = take i (pushed s) @ d @ drop (length d) (drop i (pushed s))"
      by (subst d(1)) (simp only: append_take_drop_id)
    moreover have "length (take i (pushed s)) = i" using d(2) by simp
    ultimately show ?thesis by blast
  qed
  have q: "sorted_wrt (\<lambda>(i, d) (j, e). i + length d \<le> j) (calls s)" if "\<forall>d. func d \<noteq> None"
    using ok(2) that by (simp add: calls_ok_def case_prod_unfold)
  have l: "\<exists>(i, d)\<in>set (calls s). i \<le> j \<and> j < i + length d"
    if "\<forall>d. func d = None \<or> func d = Some 0" "j < released s" for j
    using ok that by (simp add: calls_ok_def ring_ok_def case_prod_unfold)
  have e: "pushed s = delivered s @ drop (reached s) (pushed s)" if "\<forall>d. func d = Some 0"
    using ok(2) that unfolding calls_ok_def by (metis append_take_drop_id)
  have a: "\<exists>r. push_data data (ring s) = Fine (0, r)"
    if a: "producer s = None" "outstanding (ring s) + length data < n"
    using push_accepted [OF ok(1) a] .
  have e': "\<exists>rest. pushed s = delivered s @ rest
      \<and> (consumer s = Starting \<longrightarrow> concat (fst (snd (consume_all_data func (ring s)))) = rest)"
    if "\<forall>d. func d = Some 0"
    using e [OF that] consume_rest [OF ok(1) _ that] by blast
  have p': "\<forall>(i, d)\<in>set (calls s). \<exists>before after. pushed s = before @ d @ after \<and> length before = i"
    using p by (auto simp del: append_eq_append_conv)
  show ?thesis
  proof (intro conjI impI allI)
    show "\<forall>(i, d)\<in>set (calls s). \<exists>before after. pushed s = before @ d @ after \<and> length before = i" by (rule p')
    show "sorted_wrt (\<lambda>(i, d) (j, e). i + length d \<le> j) (calls s)" if "\<forall>d. func d \<noteq> None"
      by (rule q [OF that])
    show "\<exists>(i, d)\<in>set (calls s). i \<le> j \<and> j < i + length d"
      if "\<forall>d. func d = None \<or> func d = Some 0" "j < released s" for j
      by (rule l [OF that])
    show "\<exists>rest. pushed s = delivered s @ rest
        \<and> (consumer s = Starting \<longrightarrow> concat (fst (snd (consume_all_data func (ring s)))) = rest)"
      if "\<forall>d. func d = Some 0"
      by (rule e' [OF that])
    show "\<exists>r. push_data data (ring s) = Fine (0, r)"
      if "producer s = None \<and> outstanding (ring s) + length data < n"
      by (rule a [OF conjunct1 [OF that] conjunct2 [OF that]])
  qed
qed

definition sample_ring_sys :: ring_sys where
  "sample_ring_sys = \<lparr>ring = \<lparr>ring_size = 4, r_pos = 0, w_pos = 2, buff = [1, 2, 0, 0]\<rparr>, producer = None,
     consumer = Starting, pushed = [1, 2], calls = [], reached = 0, released = 0\<rparr>"

lemma replicate_two: "replicate 2 x = [x, x]"
  by (simp add: numeral_2_eq_2)

lemma sample_ring_steps: "ring_steps func (ring_sys_new 4) sample_ring_sys"
proof -
  let ?s = "(ring_sys_new 4)\<lparr>ring := (ring (ring_sys_new 4))\<lparr>buff := [1, 2, 0, 0]\<rparr>, producer := Some (2, [1, 2])\<rparr>"
  have "ring_step func (ring_sys_new 4) ?s"
    by (rule ring_step.copy)
      (simp_all add: ring_sys_new_def init_memory_def outstanding_def push_copy_def u32_add_def blit_def
        replicate_two)
  moreover have "ring_step func ?s (?s\<lparr>ring := (ring ?s)\<lparr>w_pos := 2\<rparr>, producer := None, pushed := pushed ?s @ [1, 2]\<rparr>)"
    by (rule ring_step.store_w) simp
  moreover have "?s\<lparr>ring := (ring ?s)\<lparr>w_pos := 2\<rparr>, producer := None, pushed := pushed ?s @ [1, 2]\<rparr> = sample_ring_sys"
    by (simp add: sample_ring_sys_def ring_sys_new_def init_memory_def)
  ultimately show ?thesis unfolding ring_steps_def
    using rtranclp.rtrancl_into_rtrancl [OF r_into_rtranclp] by fastforce
qed

theorem ring_threads_fifo_witness:
  "concat (fst (snd (consume_all_data (\<lambda>_. Some 0) (ring sample_ring_sys)))) = [1, 2]
   \<and> (\<exists>r. push_data [3] (ring sample_ring_sys) = Fine (0, r))"
proof -
  have b: "0 < (4 :: nat)" "(4 :: nat) \<le> 2 ^ 31" by simp_all
  have f: "consumer sample_ring_sys = Starting" "producer sample_ring_sys = None" "delivered sample_ring_sys = []"
    "pushed sample_ring_sys = [1, 2]" "outstanding (ring sample_ring_sys) + length [3 :: byte] < 4"
    by (simp_all add: sample_ring_sys_def outstanding_def delivered_def)
  from ring_threads_fifo [OF b sample_ring_steps [of "\<lambda>_. Some 0"], of "[3]"] f show ?thesis by simp
qed

section \<open>What the code does not check\<close>

text \<open>
  When the ring has wrapped, the first branch of \<open>push_data\<close> does not look at \<open>r_pos_\<close>: it writes over bytes
  that are not consumed, and \<open>w_pos_\<close> may pass \<open>r_pos_\<close>, so that the consumer misses a whole round. Here 4 bytes
  are waiting and 5 are pushed: the consumer gets 1 of the 9.
\<close>

definition wrapped_ring :: ring_mem where
  "wrapped_ring = \<lparr>ring_size = 8, r_pos = 6, w_pos = 2, buff = [11, 12, 0, 0, 0, 0, 9, 10]\<rparr>"

lemma push_overwrites_unread:
  "push_data [21, 22, 23, 24, 25] wrapped_ring
     = Fine (0, wrapped_ring\<lparr>w_pos := 7, buff := [11, 12, 21, 22, 23, 24, 25, 10]\<rparr>)"
  "fst (snd (consume_all_data (\<lambda>_. Some 0) wrapped_ring)) = [[9, 10], [11, 12]]"
  "fst (snd (consume_all_data (\<lambda>_. Some 0) (wrapped_ring\<lparr>w_pos := 7, buff := [11, 12, 21, 22, 23, 24, 25, 10]\<rparr>)))
     = [[25]]"
  by (simp_all add: wrapped_ring_def push_data_def push_copy_def u32_add_def blit_def consume_all_data_def
      region_def)

text \<open>A size near \<open>2^32\<close> wraps in the comparison and is copied past the end of the ring.\<close>

lemma huge_push_out_of_bounds:
  assumes "w_pos s + length data = 2 ^ 32" "ring_size s < 2 ^ 32"
  shows "push_data data s = OutOfBounds"
  using assms by (simp add: push_data_def push_copy_def u32_add_def)

text \<open>When the consumer function refuses the first piece, the second is dropped without being handed out.\<close>

lemma refused_piece_drops_rest:
  "consume_all_data (\<lambda>_. Some (-1)) wrapped_ring = (-1, [[9, 10]], wrapped_ring\<lparr>r_pos := 2\<rparr>)"
  by (simp add: wrapped_ring_def consume_all_data_def region_def)

text \<open>When it throws, the position stays and the same bytes are handed out again.\<close>

lemma thrown_piece_comes_again:
  "consume_all_data (\<lambda>_. None) wrapped_ring = (0, [[9, 10]], wrapped_ring)"
  by (simp add: wrapped_ring_def consume_all_data_def region_def)

end
