(* ===== verification/CombineString.thy ===== *)
theory CombineString
  imports StrUtil
begin

text \<open>
  \<open>public/combine_string_parser.h\<close> and \<open>.cpp\<close>: lists of lists of numbers written as
  \<open>1:2|3:1|2:1\<close>. Shown: parsing undoes serialising for lists of at least two items, and a parsed list
  can always be serialised.
\<close>

section \<open>State and operations\<close>

type_synonym item_detail = "int list"

record combine =
  orig_str :: "byte list"
  item_list :: "item_detail list"
  item_map :: "(int \<times> int) list"

definition combine_new :: combine where
  "combine_new = \<lparr>orig_str = [], item_list = [], item_map = []\<rparr>"

definition COLON :: byte where "COLON = 58"
definition BAR :: byte where "BAR = 124"

text \<open>\<open>split_by\<close> appends to the vector it is given; its loop is that of \<open>str_split_by\<close>.\<close>

definition split_by :: "byte list \<Rightarrow> byte \<Rightarrow> byte list list \<Rightarrow> byte list list" where
  "split_by orig sep raw = (if orig = [] then raw else raw @ split_loop sep orig)"

text \<open>The first loop of \<open>parse_string\<close>: pieces that split into nothing are skipped.\<close>

primrec parse_items :: "byte list list \<Rightarrow> item_detail list" where
  "parse_items [] = []"
| "parse_items (s # ss) =
     (let sec = split_by s COLON [] in
      if sec \<noteq> [] then map (\<lambda>p. atoi (c_str p)) sec # parse_items ss else parse_items ss)"

text \<open>\<open>map::insert\<close> keeps an entry that is there.\<close>

definition map_insert :: "int \<times> int \<Rightarrow> (int \<times> int) list \<Rightarrow> (int \<times> int) list" where
  "map_insert kv m = (if map_of m (fst kv) = None then m @ [kv] else m)"

primrec fill_map :: "item_detail list \<Rightarrow> (int \<times> int) list \<Rightarrow> (int \<times> int) list" where
  "fill_map [] m = m"
| "fill_map (d # ds) m = fill_map ds (if length d = 2 then map_insert (d ! 0, d ! 1) m else m)"

definition parse_string :: "byte list \<Rightarrow> bool \<Rightarrow> combine \<Rightarrow> combine" where
  "parse_string s is_key_value c =
     (if s = [] then c
      else let items = parse_items (split_by s BAR []) in
        \<lparr>orig_str = s, item_list = items, item_map = (if is_key_value then fill_map items [] else [])\<rparr>)"

text \<open>
  The inner loop of \<open>serialize_item_list_to_string\<close>; for an empty item \<open>size() - 1\<close> is the largest
  \<open>size_t\<close> and the loop reads past the vector.
\<close>

definition item_text :: "item_detail \<Rightarrow> byte list checked" where
  "item_text d =
     (if d = [] then OutOfBounds
      else Fine (concat (map (\<lambda>x. show_int x @ [COLON]) (butlast d)) @ show_int (last d)))"

fun items_text :: "item_detail list \<Rightarrow> byte list checked" where
  "items_text [] = Fine []"
| "items_text [d] = item_text d"
| "items_text (d # ds) =
     (case item_text d of
        OutOfBounds \<Rightarrow> OutOfBounds
      | Fine a \<Rightarrow> (case items_text ds of OutOfBounds \<Rightarrow> OutOfBounds | Fine b \<Rightarrow> Fine (a @ BAR # b)))"

definition serialize_item_list_to_string :: "combine \<Rightarrow> byte list checked" where
  "serialize_item_list_to_string c =
     (if 1 < length (item_list c) then items_text (item_list c) else Fine [])"

section \<open>Numbers\<close>

lemma show_int_chars: "c \<in> set (show_int i) \<Longrightarrow> is_digit c \<or> c = 45"
  using dec_digits_are_digits by (auto simp: show_int_def split: if_splits)

lemma show_int_ne [simp]: "show_int i \<noteq> []"
  by (simp add: show_int_def)

lemma show_int_free: "COLON \<notin> set (show_int i)" "BAR \<notin> set (show_int i)" "str_ok (show_int i)"
  using show_int_chars [of 58 i] show_int_chars [of 124 i] show_int_chars [of 0 i]
  by (auto simp: COLON_def BAR_def str_ok_def is_digit_def)

lemma digit_no_space: "is_digit c \<Longrightarrow> \<not> is_space c \<and> c \<noteq> 45 \<and> c \<noteq> 43"
  by (auto simp: is_digit_def is_space_def word_le_nat_alt)

lemma dropWhile_hd: "xs = [] \<or> \<not> P (hd xs) \<Longrightarrow> dropWhile P xs = xs"
  by (cases xs) auto

lemma strtol_digits:
  assumes "n < 2 ^ 63"
  shows "strtol (dec_digits n) = int n" "strtol (45 # dec_digits n) = - int n"
proof -
  have d: "\<forall>c \<in> set (dec_digits n). is_digit c" using dec_digits_are_digits by blast
  then have h: "is_digit (hd (dec_digits n))" by simp
  have t: "takeWhile is_digit (dec_digits n) = dec_digits n" using d by (simp add: takeWhile_eq_all_conv)
  have "dropWhile is_space (dec_digits n) = dec_digits n"
    using digit_no_space [OF h] by (intro dropWhile_hd) simp
  then show "strtol (dec_digits n) = int n"
    using assms digit_no_space [OF h] by (simp add: strtol_def t digits_value_dec Let_def)
  have "dropWhile is_space (45 # dec_digits n) = 45 # dec_digits n" by (simp add: is_space_def)
  then show "strtol (45 # dec_digits n) = - int n"
    using assms by (simp add: strtol_def t digits_value_dec Let_def)
qed

lemma atoi_show_int:
  assumes "- (2 ^ 31) \<le> i" "i < 2 ^ 31"
  shows "atoi (show_int i) = i"
proof (cases "i < 0")
  case True
  have "nat (- i) < 2 ^ 63" using assms by simp
  from strtol_digits(2) [OF this] show ?thesis
    using True assms by (simp add: atoi_def show_int_def to_int32_id)
next
  case False
  have "nat i < 2 ^ 63" using assms by simp
  from strtol_digits(1) [OF this] show ?thesis
    using False assms by (simp add: atoi_def show_int_def to_int32_id)
qed

section \<open>Items\<close>

lemma item_text_join: "d \<noteq> [] \<Longrightarrow> item_text d = Fine (join_loop COLON (map show_int d))"
proof (induction d)
  case (Cons x d)
  then show ?case by (cases "d = []") (auto simp: item_text_def join_loop_Cons)
qed simp

lemma items_text_join:
  "[] \<notin> set ds \<Longrightarrow> items_text ds = Fine (join_loop BAR (map (\<lambda>d. join_loop COLON (map show_int d)) ds))"
  by (induction ds rule: items_text.induct) (auto simp: item_text_join)

lemma set_join_loop: "c \<in> set (join_loop d ss) \<Longrightarrow> c = d \<or> (\<exists>s \<in> set ss. c \<in> set s)"
  by (induction d ss rule: join_loop.induct) auto

lemma join_loop_ne: "ss \<noteq> [] \<Longrightarrow> hd ss \<noteq> [] \<Longrightarrow> join_loop d ss \<noteq> []"
  by (cases ss; cases "tl ss") auto

lemma parse_items_texts:
  assumes "\<forall>d \<in> set ds. d \<noteq> [] \<and> (\<forall>i \<in> set d. - (2 ^ 31) \<le> i \<and> i < 2 ^ 31)"
  shows "parse_items (map (\<lambda>d. join_loop COLON (map show_int d)) ds) = ds"
  using assms
proof (induction ds)
  case (Cons d ds)
  then have d: "d \<noteq> []" "\<And>i. i \<in> set d \<Longrightarrow> atoi (c_str (show_int i)) = i"
    using atoi_show_int show_int_free(3) by (auto simp: c_str_id)
  have "join_loop COLON (map show_int d) \<noteq> []" using d(1) by (intro join_loop_ne) (simp_all add: hd_map)
  moreover have "split_loop COLON (join_loop COLON (map show_int d)) = map show_int d"
    using d(1) show_int_free(1) by (intro split_join_loop) auto
  ultimately show ?case using Cons d by (simp add: split_by_def map_idI)
qed simp

text \<open>No parsed item is empty.\<close>

lemma parse_items_ne: "[] \<notin> set (parse_items ss)"
  by (induction ss) (auto simp: Let_def)

section \<open>Properties\<close>

text \<open>A list of at least two items, none of them empty, of 32-bit numbers comes back from its own text, and
  the text of a parsed list of at least two items is always produced.\<close>

theorem combine_round_trip:
  assumes "2 \<le> length (item_list c)"
    and "\<forall>d \<in> set (item_list c). d \<noteq> [] \<and> (\<forall>i \<in> set d. - (2 ^ 31) \<le> i \<and> i < 2 ^ 31)"
  shows "\<exists>s. serialize_item_list_to_string c = Fine s \<and> item_list (parse_string s kv c') = item_list c"
proof -
  let ?ts = "map (\<lambda>d. join_loop COLON (map show_int d)) (item_list c)"
  have ne: "[] \<notin> set (item_list c)" "item_list c \<noteq> []" using assms by auto
  have ser: "serialize_item_list_to_string c = Fine (join_loop BAR ?ts)"
    using assms(1) items_text_join [OF ne(1)] by (simp add: serialize_item_list_to_string_def)
  have free: "BAR \<notin> set (join_loop COLON (map show_int d))" for d
    using set_join_loop [of BAR COLON "map show_int d"] show_int_free(2) by (auto simp: BAR_def COLON_def)
  have "hd (item_list c) \<noteq> []" using ne assms(2) by simp
  then have "hd ?ts \<noteq> []" using ne(2) join_loop_ne [of "map show_int (hd (item_list c))" COLON] by (simp add: hd_map)
  then have "join_loop BAR ?ts \<noteq> []" using ne(2) by (intro join_loop_ne) auto
  moreover have "split_loop BAR (join_loop BAR ?ts) = ?ts"
    using free ne(2) by (intro split_join_loop) auto
  ultimately have "item_list (parse_string (join_loop BAR ?ts) kv c') = item_list c"
    using parse_items_texts [OF assms(2)] by (simp add: parse_string_def split_by_def Let_def)
  with ser show ?thesis by blast
qed

lemma parsed_is_serialised:
  "c = parse_string s kv combine_new \<Longrightarrow> serialize_item_list_to_string c \<noteq> OutOfBounds"
  using items_text_join [OF parse_items_ne]
  by (auto simp: parse_string_def combine_new_def serialize_item_list_to_string_def Let_def)

section \<open>Facts behind the findings\<close>

text \<open>A list with one item has the empty text, and the empty text does not clear the parser.\<close>

lemma one_item_is_lost:
  "serialize_item_list_to_string (combine_new\<lparr>item_list := [[1, 2]]\<rparr>) = Fine []"
  "parse_string [] kv c = c"
  by (simp_all add: serialize_item_list_to_string_def combine_new_def parse_string_def)

lemma empty_item_out_of_bounds:
  "serialize_item_list_to_string (combine_new\<lparr>item_list := [[], [1]]\<rparr>) = OutOfBounds"
  by (simp add: serialize_item_list_to_string_def combine_new_def item_text_def)

end
