(* ===== verification/IdCounter.thy ===== *)
theory IdCounter
  imports CombineString
begin

text \<open>
  \<open>public/id_counter.h\<close> and \<open>.cpp\<close>: a database row with dirty flags and the SQL statements for it,
  written into a buffer of the caller with \<open>snprintf\<close> and \<open>memcpy\<close>. Shown: in a buffer that is large
  enough every statement is written completely, terminated, and its length returned; an update
  names exactly the fields that changed; and a row comes back from its own values.
\<close>

section \<open>The row\<close>

record id_row =
  tid :: int
  sid :: int
  counter :: int
  step :: int
  remark :: "byte list"
  dirty :: "bool list"

definition FIELD_COUNT :: nat where "FIELD_COUNT = 5"

definition id_counter_new :: id_row where
  "id_counter_new = \<lparr>tid = 0, sid = 0, counter = 0, step = 0, remark = [], dirty = replicate FIELD_COUNT True\<rparr>"

definition clear_dirty :: "id_row \<Rightarrow> id_row" where
  "clear_dirty c = c\<lparr>dirty := replicate FIELD_COUNT False\<rparr>"

definition is_dirty :: "id_row \<Rightarrow> bool" where
  "is_dirty c = list_ex (\<lambda>d. d) (dirty c)"

text \<open>Both \<open>load\<close>s; the strings of the row, up to their first 0.\<close>

definition id_load :: "byte list list \<Rightarrow> id_row" where
  "id_load data = \<lparr>tid = atoi (c_str (data ! 0)), sid = atoi (c_str (data ! 1)), counter = atoi (c_str (data ! 2)),
     step = atoi (c_str (data ! 3)), remark = c_str (data ! 4), dirty = replicate FIELD_COUNT False\<rparr>"

definition set_tid :: "int \<Rightarrow> id_row \<Rightarrow> id_row" where
  "set_tid v c = (if tid c \<noteq> v then c\<lparr>dirty := (dirty c)[0 := True], tid := v\<rparr> else c)"

definition set_sid :: "int \<Rightarrow> id_row \<Rightarrow> id_row" where
  "set_sid v c = (if sid c \<noteq> v then c\<lparr>dirty := (dirty c)[1 := True], sid := v\<rparr> else c)"

definition set_counter :: "int \<Rightarrow> id_row \<Rightarrow> id_row" where
  "set_counter v c = (if counter c \<noteq> v then c\<lparr>dirty := (dirty c)[2 := True], counter := v\<rparr> else c)"

definition set_step :: "int \<Rightarrow> id_row \<Rightarrow> id_row" where
  "set_step v c = (if step c \<noteq> v then c\<lparr>dirty := (dirty c)[3 := True], step := v\<rparr> else c)"

definition set_remark :: "byte list \<Rightarrow> id_row \<Rightarrow> id_row" where
  "set_remark v c = (if remark c \<noteq> v then c\<lparr>dirty := (dirty c)[4 := True], remark := v\<rparr> else c)"

section \<open>Writing into the buffer\<close>

text \<open>
  The buffer, the offset of \<open>buf\<close> in it and the \<open>size\<close> that is left. \<open>snprintf\<close> cuts what does not fit but
  returns the whole length, so that \<open>size\<close> can become negative, which the next \<open>snprintf\<close> takes for
  a huge size; \<open>memcpy\<close> does not look at \<open>size\<close>.
\<close>

record writer =
  mem :: "byte list"
  off :: nat
  left :: int

definition put_printf :: "byte list \<Rightarrow> writer \<Rightarrow> writer checked" where
  "put_printf text w =
     (let n = length text; w' = w\<lparr>off := off w + n, left := left w - int n\<rparr> in
      if left w < 0 then OutOfBounds
      else if left w = 0 then Fine w'
      else Fine (w'\<lparr>mem := blit (mem w) (off w) (take (nat (left w) - 1) text @ [0])\<rparr>))"

definition put_memcpy :: "byte list \<Rightarrow> writer \<Rightarrow> writer checked" where
  "put_memcpy text w =
     (let n = length text in
      if left w < int n then OutOfBounds
      else Fine (w\<lparr>mem := blit (mem w) (off w) text, off := off w + n, left := left w - int n\<rparr>))"

datatype piece = Printf "byte list" | Memcpy "byte list"

primrec piece_text :: "piece \<Rightarrow> byte list" where
  "piece_text (Printf t) = t"
| "piece_text (Memcpy t) = t"

primrec put_piece :: "piece \<Rightarrow> writer \<Rightarrow> writer checked" where
  "put_piece (Printf t) w = put_printf t w"
| "put_piece (Memcpy t) w = put_memcpy t w"

primrec put_all :: "piece list \<Rightarrow> writer \<Rightarrow> writer checked" where
  "put_all [] w = Fine w"
| "put_all (p # ps) w = (case put_piece p w of OutOfBounds \<Rightarrow> OutOfBounds | Fine w' \<Rightarrow> put_all ps w')"

section \<open>The statements\<close>

definition QUOTE :: byte where "QUOTE = 39"

definition field_text :: "string \<Rightarrow> byte list \<Rightarrow> byte list" where
  "field_text name value = ascii name @ 61 # QUOTE # value @ [QUOTE]"

definition sql_tid :: "id_row \<Rightarrow> byte list" where
  "sql_tid c = field_text ''tid'' (show_int (tid c))"

definition sql_sid :: "id_row \<Rightarrow> byte list" where
  "sql_sid c = field_text ''sid'' (show_int (sid c))"

definition sql_counter :: "id_row \<Rightarrow> byte list" where
  "sql_counter c = field_text ''counter'' (show_int (counter c))"

definition sql_step :: "id_row \<Rightarrow> byte list" where
  "sql_step c = field_text ''step'' (show_int (step c))"

definition sql_remark :: "id_row \<Rightarrow> byte list" where
  "sql_remark c = field_text ''remark'' (c_str (remark c))"

definition sql_key :: "id_row \<Rightarrow> piece list" where
  "sql_key c = [Printf (sql_tid c), Memcpy (ascii '' and ''), Printf (sql_sid c)]"

text \<open>
  \<open>sql_data\<close>: the fields whose flag is set, or all of them, with a comma before each but the first.
  \<open>first\<close> is \<open>first_flag\<close>.
\<close>

primrec put_fields :: "bool \<Rightarrow> (bool \<times> byte list) list \<Rightarrow> piece list" where
  "put_fields first [] = []"
| "put_fields first (f # fs) =
     (if fst f
      then (if first then [] else [Memcpy (ascii '','')]) @ Printf (snd f) # put_fields False fs
      else put_fields first fs)"

definition row_fields :: "id_row \<Rightarrow> byte list list" where
  "row_fields c = [sql_tid c, sql_sid c, sql_counter c, sql_step c, sql_remark c]"

definition sql_data :: "id_row \<Rightarrow> bool \<Rightarrow> piece list" where
  "sql_data c check_dirty = put_fields True (zip (map (\<lambda>d. \<not> check_dirty \<or> d) (dirty c)) (row_fields c))"

definition sql_query :: "id_row \<Rightarrow> piece list" where
  "sql_query c = Printf (ascii ''select * from id_counter where '') # sql_key c"

definition sql_insert :: "id_row \<Rightarrow> piece list" where
  "sql_insert c = Printf (ascii ''insert into id_counter set '') # sql_data c False"

definition sql_replace :: "id_row \<Rightarrow> piece list" where
  "sql_replace c = Printf (ascii ''replace into id_counter set '') # sql_data c False"

definition sql_update :: "id_row \<Rightarrow> piece list" where
  "sql_update c =
     Printf (ascii ''update id_counter set '') # sql_data c True @ Memcpy (ascii '' where '') # sql_key c"

definition sql_delete :: "id_row \<Rightarrow> piece list" where
  "sql_delete c = Printf (ascii ''delete from id_counter where '') # sql_key c"

text \<open>A call with a buffer: the returned length and the buffer.\<close>

definition run_sql :: "piece list \<Rightarrow> byte list \<Rightarrow> (int \<times> byte list) checked" where
  "run_sql ps buf =
     (case put_all ps \<lparr>mem = buf, off = 0, left = int (length buf)\<rparr> of
        OutOfBounds \<Rightarrow> OutOfBounds
      | Fine w \<Rightarrow> Fine (int (length buf) - left w, mem w))"

section \<open>The statements are written completely\<close>

definition statement :: "piece list \<Rightarrow> byte list" where
  "statement ps = concat (map piece_text ps)"

definition ends_printed :: "piece list \<Rightarrow> bool" where
  "ends_printed ps \<longleftrightarrow> ps \<noteq> [] \<and> (\<exists>t. last ps = Printf t)"

text \<open>
  \<open>written w t\<close>: the buffer starts with \<open>t\<close>, and a 0 follows when the last piece was printed.
\<close>

definition written :: "writer \<Rightarrow> byte list \<Rightarrow> bool" where
  "written w t \<longleftrightarrow> off w = length t \<and> left w = int (length (mem w)) - int (length t) \<and> 0 \<le> left w
     \<and> take (length t) (mem w) = t"

lemma put_piece_written:
  assumes "written w t" "int (length (piece_text p)) < left w"
  shows "\<exists>w'. put_piece p w = Fine w' \<and> written w' (t @ piece_text p) \<and> length (mem w') = length (mem w)
    \<and> (\<forall>s. p = Printf s \<longrightarrow> mem w' ! length (t @ s) = 0)"
proof -
  have l: "length t + length (piece_text p) < length (mem w)" using assms by (simp add: written_def)
  then show ?thesis using assms
    by (cases p) (auto simp: written_def put_printf_def put_memcpy_def Let_def blit_def nth_append min_def)
qed

lemma put_all_written:
  assumes "written w t" "int (length (statement ps)) < left w"
  shows "\<exists>w'. put_all ps w = Fine w' \<and> written w' (t @ statement ps) \<and> length (mem w') = length (mem w)
    \<and> (ends_printed ps \<longrightarrow> mem w' ! length (t @ statement ps) = 0)"
  using assms
proof (induction ps arbitrary: w t)
  case (Cons p ps)
  have "int (length (piece_text p)) < left w" using Cons.prems(2) by (simp add: statement_def)
  from put_piece_written [OF Cons.prems(1) this] obtain w1 where
    w1: "put_piece p w = Fine w1" "written w1 (t @ piece_text p)" "length (mem w1) = length (mem w)"
      "\<And>s. p = Printf s \<Longrightarrow> mem w1 ! length (t @ s) = 0" by blast
  have "int (length (statement ps)) < left w1"
    using Cons.prems w1(2,3) by (simp add: statement_def written_def)
  from Cons.IH [OF w1(2) this] w1 show ?case
    by (cases "ps = []") (auto simp: statement_def ends_printed_def)
qed (simp add: statement_def ends_printed_def)

lemma run_sql_written:
  assumes "length (statement ps) < length buf" "ends_printed ps" "str_ok (statement ps)"
  shows "\<exists>buf'. run_sql ps buf = Fine (int (length (statement ps)), buf') \<and> c_str buf' = statement ps
    \<and> length buf' = length buf"
proof -
  let ?w = "\<lparr>mem = buf, off = 0, left = int (length buf)\<rparr>"
  have "written ?w []" by (simp add: written_def)
  from put_all_written [OF this, of ps] assms(1,2) obtain w where
    w: "put_all ps ?w = Fine w" "written w (statement ps)" "length (mem w) = length buf"
      "mem w ! length (statement ps) = 0" by auto
  have "mem w = statement ps @ 0 # drop (Suc (length (statement ps))) (mem w)"
    using w(2-4) assms(1) unfolding written_def by (metis id_take_nth_drop)
  then have "c_str (mem w) = statement ps" using c_str_terminated [OF assms(3)] by metis
  then show ?thesis using w by (simp add: run_sql_def written_def)
qed

section \<open>What the statements say\<close>

lemma put_fields_rest:
  "statement (put_fields False fs) = concat (map (\<lambda>f. 44 # snd f) (filter fst fs))"
  by (induction fs) (auto simp: statement_def ascii_def)

lemma join_loop_tail: "x @ concat (map (\<lambda>f. 44 # snd f) gs) = join_loop 44 (x # map snd gs)"
proof (induction gs arbitrary: x)
  case (Cons g gs)
  show ?case using Cons [of "snd g"] by (simp add: join_loop_Cons)
qed simp

lemma put_fields_text: "statement (put_fields True fs) = join_loop 44 (map snd (filter fst fs))"
proof (induction fs)
  case (Cons f fs)
  then show ?case using put_fields_rest [of fs] join_loop_tail [of "snd f"] by (auto simp: statement_def)
qed (simp add: statement_def)

text \<open>The fields whose flag is set, as the database sees them.\<close>

definition changed_fields :: "id_row \<Rightarrow> byte list list" where
  "changed_fields c = map snd (filter fst (zip (dirty c) (row_fields c)))"

lemma sql_data_text:
  "statement (sql_data c True) = join_loop 44 (changed_fields c)"
  "length (dirty c) = FIELD_COUNT \<Longrightarrow> statement (sql_data c False) = join_loop 44 (row_fields c)"
proof -
  show "statement (sql_data c True) = join_loop 44 (changed_fields c)"
    by (simp add: sql_data_def put_fields_text changed_fields_def cong: map_cong)
  assume "length (dirty c) = FIELD_COUNT"
  then have "map (\<lambda>d. \<not> False \<or> d) (dirty c) = replicate FIELD_COUNT True"
    by (simp add: map_replicate_const)
  then show "statement (sql_data c False) = join_loop 44 (row_fields c)"
    by (simp add: sql_data_def put_fields_text row_fields_def FIELD_COUNT_def numeral_eq_Suc
        statement_def ascii_def)
qed

lemma statement_append: "statement (ps @ qs) = statement ps @ statement qs"
  by (simp add: statement_def)

lemma statement_Cons: "statement (p # ps) = piece_text p @ statement ps"
  by (simp add: statement_def)

lemma sql_key_text: "statement (sql_key c) = sql_tid c @ ascii '' and '' @ sql_sid c"
  by (simp add: sql_key_def statement_def)

lemma put_fields_printed: "\<exists>f \<in> set fs. fst f \<Longrightarrow> ends_printed (put_fields first fs)"
proof (induction fs arbitrary: first)
  case (Cons f fs)
  show ?case
  proof (cases "\<exists>g \<in> set fs. fst g")
    case True
    with Cons show ?thesis by (auto simp: ends_printed_def)
  next
    case False
    then have "put_fields b fs = []" for b by (induction fs) auto
    with Cons False show ?thesis by (auto simp: ends_printed_def)
  qed
qed simp

lemma printed_append: "ends_printed qs \<Longrightarrow> ends_printed (ps @ qs)"
  by (auto simp: ends_printed_def)

lemma sql_key_printed: "ends_printed (sql_key c)"
  by (simp add: ends_printed_def sql_key_def)

lemma field_text_ok: "str_ok v \<Longrightarrow> 0 \<notin> set (ascii name) \<Longrightarrow> str_ok (field_text name v)"
  by (auto simp: field_text_def str_ok_def QUOTE_def)

lemma c_str_ok: "str_ok (c_str s)"
  by (auto simp: str_ok_def c_str_def dest: set_takeWhileD)

lemma row_fields_ok: "\<forall>t \<in> set (row_fields c). str_ok t"
  by (auto simp: row_fields_def sql_tid_def sql_sid_def sql_counter_def sql_step_def sql_remark_def ascii_def
      intro!: field_text_ok show_int_free c_str_ok)

lemma join_loop_ok: "\<forall>s \<in> set ss. str_ok s \<Longrightarrow> str_ok (join_loop 44 ss)"
  using set_join_loop [of 0 44 ss] by (auto simp: str_ok_def)

lemma changed_fields_ok: "\<forall>t \<in> set (changed_fields c). str_ok t"
  using row_fields_ok [of c] by (auto simp: changed_fields_def dest: set_zip_rightD)

lemma str_ok_append: "str_ok (a @ b) \<longleftrightarrow> str_ok a \<and> str_ok b"
  by (auto simp: str_ok_def)

lemma str_ok_key: "str_ok (statement (sql_key c))"
  using row_fields_ok [of c] by (auto simp: sql_key_text str_ok_append row_fields_def) (auto simp: str_ok_def ascii_def)

text \<open>An update of a row in a large enough buffer: the statement sets exactly the fields whose flag is set.\<close>

theorem update_statement:
  assumes "text = ascii ''update id_counter set '' @ join_loop 44 (changed_fields c) @ ascii '' where ''
             @ sql_tid c @ ascii '' and '' @ sql_sid c"
    and "length text < length buf"
  shows "\<exists>buf'. run_sql (sql_update c) buf = Fine (int (length text), buf') \<and> c_str buf' = text"
proof -
  have t: "statement (sql_update c) = text"
    by (simp add: sql_update_def statement_append statement_Cons sql_data_text sql_key_text assms(1))
  have ok: "str_ok (ascii ''update id_counter set '')" "str_ok (ascii '' where '')"
    by (auto simp: str_ok_def ascii_def)
  have "str_ok text"
    using ok join_loop_ok [OF changed_fields_ok [of c]] str_ok_key [of c]
    by (simp add: assms(1) str_ok_append sql_key_text)
  moreover have "ends_printed (sql_update c)"
    using printed_append [OF sql_key_printed [of c], of "Printf (ascii ''update id_counter set '') # sql_data c True
        @ [Memcpy (ascii '' where '')]"] by (simp add: sql_update_def)
  ultimately show ?thesis using run_sql_written [of "sql_update c" buf] assms(2) t by auto
qed

text \<open>The setters set the flag exactly when the value changes, and touch nothing else.\<close>

lemma setters_mark:
  assumes "length (dirty c) = FIELD_COUNT"
  shows "dirty (set_tid v c) = (dirty c)[0 := dirty c ! 0 \<or> tid c \<noteq> v] \<and> tid (set_tid v c) = v"
    "dirty (set_sid v c) = (dirty c)[1 := dirty c ! 1 \<or> sid c \<noteq> v] \<and> sid (set_sid v c) = v"
    "dirty (set_counter v c) = (dirty c)[2 := dirty c ! 2 \<or> counter c \<noteq> v] \<and> counter (set_counter v c) = v"
    "dirty (set_step v c) = (dirty c)[3 := dirty c ! 3 \<or> step c \<noteq> v] \<and> step (set_step v c) = v"
    "dirty (set_remark r c) = (dirty c)[4 := dirty c ! 4 \<or> remark c \<noteq> r] \<and> remark (set_remark r c) = r"
  using assms
  by (auto simp: set_tid_def set_sid_def set_counter_def set_step_def set_remark_def FIELD_COUNT_def)

text \<open>A row that is read back from its own values is the same row, with no flag set.\<close>

definition row_values :: "id_row \<Rightarrow> byte list list" where
  "row_values c = [show_int (tid c), show_int (sid c), show_int (counter c), show_int (step c), remark c]"

lemma load_row_values:
  assumes "\<forall>i \<in> {tid c, sid c, counter c, step c}. - (2 ^ 31) \<le> i \<and> i < 2 ^ 31" "str_ok (remark c)"
  shows "id_load (row_values c) = clear_dirty c \<and> \<not> is_dirty (id_load (row_values c))"
proof -
  have "atoi (c_str (show_int i)) = i" if "i \<in> {tid c, sid c, counter c, step c}" for i
    using assms(1) that by (subst c_str_id [OF show_int_free(3)]) (rule atoi_show_int, auto)
  then show ?thesis using assms(2)
    by (simp add: id_load_def row_values_def clear_dirty_def c_str_id is_dirty_def FIELD_COUNT_def numeral_eq_Suc)
qed

section \<open>Facts behind the findings\<close>

text \<open>Without a changed field the update names no field at all, which is not SQL.\<close>

lemma clean_update_is_not_sql:
  assumes "length (dirty c) = FIELD_COUNT" "\<not> is_dirty c"
  shows "statement (sql_update c) = ascii ''update id_counter set  where '' @ statement (sql_key c)"
proof -
  have "\<forall>d \<in> set (dirty c). \<not> d" using assms(2) by (simp add: is_dirty_def list_ex_iff)
  then have "changed_fields c = []"
    by (auto simp: changed_fields_def filter_empty_conv dest: set_zip_leftD)
  then show ?thesis
    by (simp add: sql_update_def statement_append statement_Cons sql_data_text ascii_def)
qed

text \<open>A remark with a quote ends its string literal: what follows is read as SQL.\<close>

lemma remark_is_not_escaped:
  "remark c = QUOTE # rest \<Longrightarrow> str_ok rest \<Longrightarrow>
   sql_remark c = ascii ''remark='' @ QUOTE # QUOTE # rest @ [QUOTE]"
  by (auto simp: sql_remark_def field_text_def ascii_def QUOTE_def c_str_def str_ok_def)

text \<open>In a small buffer the \<open>memcpy\<close> after a cut \<open>snprintf\<close> writes past the end.\<close>

lemma small_buffer_overrun:
  "length buf \<le> length (ascii ''select * from id_counter where '') \<Longrightarrow> buf \<noteq> [] \<Longrightarrow>
   run_sql (sql_query c) buf = OutOfBounds"
  by (simp add: run_sql_def sql_query_def sql_key_def put_printf_def put_memcpy_def sql_tid_def field_text_def ascii_def
      Let_def split: checked.splits)

end
