(* ===== verification/Xml.thy ===== *)
theory Xml
  imports Prelude
begin

text \<open>
  The configuration files as trees of nodes, and the access functions of \<open>third_party/pugixml.cpp\<close> that the
  programs use. The parser itself is not modelled.
\<close>

section \<open>Configuration files\<close>

datatype xml = Xml (xml_name: "byte list") (xml_attrs: "(byte list \<times> byte list) list") (xml_kids: "xml list")

text \<open>A null node is \<open>None\<close>, as is a null attribute.\<close>

definition xml_child :: "string \<Rightarrow> xml option \<Rightarrow> xml option" where
  "xml_child name n = (case n of None \<Rightarrow> None | Some x \<Rightarrow> find (\<lambda>k. xml_name k = ascii name) (xml_kids x))"

definition xml_attribute :: "string \<Rightarrow> xml option \<Rightarrow> byte list option" where
  "xml_attribute name n = (case n of None \<Rightarrow> None | Some x \<Rightarrow> map_of (xml_attrs x) (ascii name))"

definition xml_value :: "byte list option \<Rightarrow> byte list" where
  "xml_value a = (case a of None \<Rightarrow> [] | Some v \<Rightarrow> v)"

definition xml_as_int :: "byte list option \<Rightarrow> int" where
  "xml_as_int a = (case a of None \<Rightarrow> 0 | Some v \<Rightarrow> atoi v)"

definition xml_as_bool :: "byte list option \<Rightarrow> bool" where
  "xml_as_bool a = (case a of None \<Rightarrow> False | Some v \<Rightarrow> v \<noteq> [] \<and> hd v \<in> set (ascii ''1tTyY''))"

text \<open>\<open>first_child\<close> and then \<open>next_sibling\<close> to the end.\<close>

definition xml_children :: "xml option \<Rightarrow> xml list" where
  "xml_children n = (case n of None \<Rightarrow> [] | Some x \<Rightarrow> xml_kids x)"

text \<open>The first child of a name and all the nodes behind it, whatever their names.\<close>

definition xml_child_and_rest :: "string \<Rightarrow> xml option \<Rightarrow> xml list" where
  "xml_child_and_rest name n = dropWhile (\<lambda>k. xml_name k \<noteq> ascii name) (xml_children n)"

text \<open>The functions agree on what a child is.\<close>

lemma xml_child_and_rest_hd:
  "xml_child name n = (case xml_child_and_rest name n of [] \<Rightarrow> None | k # ks \<Rightarrow> Some k)"
proof (cases n)
  case (Some x)
  have "find P ks = (case dropWhile (\<lambda>k. \<not> P k) ks of [] \<Rightarrow> None | k # ks \<Rightarrow> Some k)" for P and ks :: "xml list"
    by (induction ks) auto
  from this [of "\<lambda>k. xml_name k = ascii name"] Some show ?thesis
    by (simp add: xml_child_def xml_child_and_rest_def xml_children_def)
qed (simp add: xml_child_def xml_child_and_rest_def xml_children_def)

end
