(* ===== verification/GateConfig.thy ===== *)
theory GateConfig
  imports Xml GateApp Application Acceptor Logger Network TcpConnection
begin

text \<open>
  Start and reload of the gate server: \<open>GateApplication::on_init\<close>, \<open>on_reload\<close>, \<open>on_delay_stop\<close> and
  \<open>on_timer\<close> of \<open>gate_server/gate_application.cpp\<close>, over the models of the logger, the listening
  socket with its address, the reactor and the application timers. Shown: after a reload that succeeds
  the settings are those that \<open>config_of\<close> reads off the file by the names of its attributes, the address, the log
  and the timers too; and starting and reloading, successful or not, never leave a second listening
  socket behind.
\<close>

section \<open>The server process\<close>

text \<open>
  \<open>gp_addr\<close> and \<open>gp_defer\<close> are the kernel's side of the listening socket: the address that \<open>bind\<close> was given
  and the seconds of \<open>TCP_DEFER_ACCEPT\<close>, 0 when the option is not set.
\<close>

record gate_config =
  cf_threshold :: bool
  cf_seq :: bool
  cf_heartbeat :: bool
  cf_active_heartbeat :: bool
  cf_token :: bool
  cf_type :: int
  cf_valid_duration :: int
  cf_key1 :: "byte list"
  cf_key2 :: "byte list"
  cf_shut_down_delay :: int
  cf_online_threshold :: int
  cf_server_ids :: "int list"

definition gate_config_new :: gate_config where
  "gate_config_new = \<lparr>cf_threshold = False, cf_seq = False, cf_heartbeat = False, cf_active_heartbeat = False,
     cf_token = False, cf_type = 0, cf_valid_duration = 0, cf_key1 = [], cf_key2 = [], cf_shut_down_delay = 0,
     cf_online_threshold = 0, cf_server_ids = []\<rparr>"

record gate_proc =
  gp_config :: gate_config
  gp_logger :: logger
  gp_disk :: disk
  gp_acceptor :: acceptor
  gp_reactor :: reactor
  gp_sockets :: sockets
  gp_addr :: sa_in
  gp_defer :: int
  gp_app :: app
  gp_shutting_down :: bool

text \<open>
  What \<open>on_init\<close> meets: the document that \<open>load_file\<close> gives (\<open>None\<close> when it fails), the system
  for the logger and the block for its buffer, the kernel's answers and that of \<open>epoll_ctl\<close>, the library's
  \<open>inet_addr\<close>, what lies on the stack where the address is built, and whether \<open>setsockopt\<close> takes
  \<open>TCP_DEFER_ACCEPT\<close>.
\<close>

record gate_env =
  ge_doc :: "xml option"
  ge_log :: log_env
  ge_block :: "byte list option"
  ge_net :: net_answers
  ge_epoll :: bool
  ge_inet :: "byte list \<Rightarrow> u32"
  ge_stack :: sa_in
  ge_option :: bool

definition NONE_IOBUF_SIZE :: int where "NONE_IOBUF_SIZE = 0"

definition is_server_id_valid :: "int \<Rightarrow> gate_proc \<Rightarrow> bool" where
  "is_server_id_valid i s \<longleftrightarrow> i \<in> set (cf_server_ids (gp_config s))"

definition is_server_merged :: "gate_proc \<Rightarrow> bool" where
  "is_server_merged s \<longleftrightarrow> 1 < length (cf_server_ids (gp_config s))"

text \<open>\<open>tcp_acceptor::init\<close> and \<open>fini\<close> with the sockets they create and close.\<close>

definition listener_start :: "gate_env \<Rightarrow> byte list \<Rightarrow> int \<Rightarrow> gate_proc \<Rightarrow> int \<times> gate_proc" where
  "listener_start env host port s =
     (if ac_fd (gp_acceptor s) \<ge> 0 then (-1, s)
      else
        let addr = init_sa_in (ge_inet env) (Some host) port (ge_stack env) in
        case create_tcp_service (ge_net env) (gp_sockets s) of (sfd, t) \<Rightarrow>
        case acceptor_init sfd (ge_epoll env) (gp_acceptor s) (gp_reactor s) of (ret, ac, r, closed) \<Rightarrow>
          (ret, s\<lparr>gp_acceptor := ac, gp_reactor := r, gp_sockets := close_all closed t,
                  gp_addr := (if ret = 0 then addr else gp_addr s), gp_defer := (if ret = 0 then 0 else gp_defer s)\<rparr>))"

text \<open>\<open>set_defer_accept\<close>; nobody looks at its result.\<close>

definition defer_accept :: "gate_env \<Rightarrow> int \<Rightarrow> gate_proc \<Rightarrow> gate_proc" where
  "defer_accept env seconds s = (if ge_option env then s\<lparr>gp_defer := seconds\<rparr> else s)"

definition listener_stop :: "gate_proc \<Rightarrow> gate_proc" where
  "listener_stop s =
     (case acceptor_fini (gp_acceptor s) (gp_reactor s) of (ac, r, closed) \<Rightarrow>
        s\<lparr>gp_acceptor := ac, gp_reactor := r, gp_sockets := close_all closed (gp_sockets s)\<rparr>)"

text \<open>The reading of the nodes between the acceptor and the check of the shutdown delay.\<close>

definition read_config :: "xml option \<Rightarrow> gate_config \<Rightarrow> gate_config" where
  "read_config root c =
     (let acceptor = xml_child ''client_acceptor'' root; check = xml_child ''message_check'' root;
          token = xml_child ''token_check'' root
      in c\<lparr>cf_online_threshold := xml_as_int (xml_attribute ''online_threshold'' acceptor),
           cf_threshold := xml_as_bool (xml_attribute ''threshold'' check),
           cf_seq := xml_as_bool (xml_attribute ''seq'' check),
           cf_heartbeat := xml_as_bool (xml_attribute ''heartbeat'' check),
           cf_active_heartbeat := xml_as_bool (xml_attribute ''active_heartbeat'' check),
           cf_token := xml_as_bool (xml_attribute ''check'' token),
           cf_type := xml_as_int (xml_attribute ''type'' token),
           cf_valid_duration := xml_as_int (xml_attribute ''valid_duration'' token),
           cf_key1 := xml_value (xml_attribute ''key1'' token),
           cf_key2 := xml_value (xml_attribute ''key2'' token),
           cf_shut_down_delay := xml_as_int (xml_attribute ''delay_sec'' (xml_child ''shutdown'' root))\<rparr>)"

text \<open>The set of server ids; every child of the node counts, whatever its name.\<close>

definition read_server_ids :: "xml option \<Rightarrow> int list" where
  "read_server_ids root =
     fold (\<lambda>n ids. insort_insert (xml_as_int (xml_attribute ''id'' (Some n))) ids)
          (xml_children (xml_child ''server_id_list'' root)) []"

text \<open>\<open>on_init\<close> after the listener is up.\<close>

definition finish_init :: "xml \<Rightarrow> gate_proc \<Rightarrow> int \<times> gate_proc" where
  "finish_init root s =
     (let c = read_config (Some root) (gp_config s); s3 = s\<lparr>gp_config := c\<rparr>; ids = read_server_ids (Some root);
          s4 = s3\<lparr>gp_config := c\<lparr>cf_server_ids := ids\<rparr>\<rparr>
      in if cf_shut_down_delay c < 1 then (-1, s3)
         else if ids = [] then (-1, s4)
         else (0, s4\<lparr>gp_app := snd (set_delay_stop (to_int32 (cf_shut_down_delay c * 1000))
                               (snd (set_timer 60000 (gp_app s4))))\<rparr>))"

definition gate_on_init :: "gate_env \<Rightarrow> gate_proc \<Rightarrow> (int \<times> gate_proc) checked" where
  "gate_on_init env s =
     (case ge_doc env of
        None \<Rightarrow> Fine (-1, s)
      | Some doc \<Rightarrow>
        case xml_child ''root'' (Some doc) of
          None \<Rightarrow> Fine (-1, s)
        | Some root \<Rightarrow>
          let log = xml_child ''log'' (Some root) in
          case logger_init (ge_log env) (ge_block env) (xml_value (xml_attribute ''prefix'' log))
                 (xml_as_int (xml_attribute ''level'' log)) NONE_IOBUF_SIZE (gp_logger s) (gp_disk s) of
            OutOfBounds \<Rightarrow> OutOfBounds
          | Fine (ret, l, d) \<Rightarrow>
            let s1 = s\<lparr>gp_logger := l, gp_disk := d\<rparr> in
            if ret \<noteq> 0 then Fine (-1, s1)
            else
              let node = xml_child ''client_acceptor'' (Some root) in
              case listener_start env (xml_value (xml_attribute ''listen_ip'' node))
                     (xml_as_int (xml_attribute ''listen_port'' node)) s1 of (ret, s2) \<Rightarrow>
                if ret \<noteq> 0 then Fine (-1, s2) else Fine (finish_init root (defer_accept env 10 s2)))"

definition gate_on_reload :: "gate_env \<Rightarrow> gate_proc \<Rightarrow> (int \<times> gate_proc) checked" where
  "gate_on_reload env s =
     (let s1 = listener_stop s in
      case logger_fini (ge_log env) (gp_logger s1) (gp_disk s1) of
        OutOfBounds \<Rightarrow> OutOfBounds
      | Fine (l, d) \<Rightarrow> gate_on_init env (s1\<lparr>gp_logger := l, gp_disk := d\<rparr>))"

definition gate_on_delay_stop :: "gate_proc \<Rightarrow> gate_proc" where
  "gate_on_delay_stop s =
     (if gp_shutting_down s then s else listener_stop (s\<lparr>gp_shutting_down := True\<rparr>))"

section \<open>The statistics of every minute\<close>

definition LOG_LEVEL_INFO :: int where "LOG_LEVEL_INFO = 3"

definition process_text :: "average_counter \<Rightarrow> nat \<Rightarrow> byte list" where
  "process_text c online =
     ascii ''process max_time:'' @ show_int (max_value c) @ ascii '' max_action:'' @ show_int (max_key c)
     @ ascii '' avg_time:'' @ show_int (get_avg_value c) @ ascii '' online:'' @ show_int (to_int32 (int online))"

definition zone_text :: "average_counter \<Rightarrow> byte list" where
  "zone_text c = ascii ''zone_connection count:'' @ show_int (to_int32 (count c)) @ ascii '' total:'' @ show_int (total c)"

text \<open>\<open>on_timer\<close> of the release build, with the two counters; \<open>zone\<close> is \<open>zone_counter\<close>.\<close>

definition gate_on_timer ::
  "log_env \<Rightarrow> gate_app \<Rightarrow> average_counter \<Rightarrow> logger \<Rightarrow> disk \<Rightarrow>
   (gate_app \<times> average_counter \<times> logger \<times> disk) checked" where
  "gate_on_timer e g zone l d =
     (case write_format e LOG_LEVEL_INFO (process_text (process_counter g) (length (uid2conn g))) l d of
        OutOfBounds \<Rightarrow> OutOfBounds
      | Fine (_, l1, d1) \<Rightarrow>
          (case write_format e LOG_LEVEL_INFO (zone_text zone) l1 d1 of
             OutOfBounds \<Rightarrow> OutOfBounds
           | Fine (_, l2, d2) \<Rightarrow> Fine (g\<lparr>process_counter := avg_clear\<rparr>, avg_clear, l2, d2)))"

text \<open>The statistics start afresh, whatever becomes of the lines.\<close>

lemma gate_on_timer_clears:
  "gate_on_timer e g zone l d = Fine (g', zone', l', d') \<Longrightarrow>
   g' = g\<lparr>process_counter := avg_clear\<rparr> \<and> zone' = avg_clear"
  by (auto simp: gate_on_timer_def split: checked.splits prod.splits)

section \<open>The listening socket\<close>

text \<open>The acceptor's descriptor is open and registered, or it has none.\<close>

definition gate_ok :: "gate_proc \<Rightarrow> bool" where
  "gate_ok s \<longleftrightarrow> reactor_inv (gp_reactor s) \<and> gp_sockets s (-1) = None
     \<and> (let fd = ac_fd (gp_acceptor s) in
        if 0 \<le> fd then (\<exists>k. gp_sockets s fd = Some k \<and> listening k) \<and> interest (gp_reactor s) fd = Some EPOLLIN else fd = -1)"

text \<open>Everything open or watched besides the listening socket.\<close>

definition others :: "gate_proc \<Rightarrow> sockets \<times> (int \<Rightarrow> u32 option)" where
  "others s = ((gp_sockets s)(ac_fd (gp_acceptor s) := None), (interest (gp_reactor s))(ac_fd (gp_acceptor s) := None))"

definition listens :: "gate_proc \<Rightarrow> bool" where
  "listens s \<longleftrightarrow> 0 \<le> ac_fd (gp_acceptor s)"

lemma reactor_no_negative: "reactor_inv r \<Longrightarrow> fd < 0 \<Longrightarrow> interest r fd = None"
  using interest_registered by force

lemma listener_stop_ok:
  assumes "gate_ok s"
  shows "gate_ok (listener_stop s) \<and> others (listener_stop s) = others s \<and> \<not> listens (listener_stop s)
    \<and> gp_sockets (listener_stop s) = fst (others s)"
proof -
  obtain a1 r1 cl where f: "acceptor_fini (gp_acceptor s) (gp_reactor s) = (a1, r1, cl)" by (metis prod_cases3)
  have inv: "reactor_inv (gp_reactor s)" and reg: "0 \<le> ac_fd (gp_acceptor s) \<Longrightarrow>
      interest (gp_reactor s) (ac_fd (gp_acceptor s)) \<noteq> None"
    using assms by (auto simp: gate_ok_def Let_def)
  from acceptor_fini_closed [OF inv f reg] assms f
  show ?thesis
    by (auto simp: listener_stop_def gate_ok_def others_def listens_def close_all_def Let_def fun_upd_idem
        reactor_no_negative split: if_splits)
qed

lemma listener_start_ok:
  assumes "gate_ok s" "net_ok (ge_net env) (gp_sockets s)" "listener_start env host port s = (ret, s')"
  shows "gate_ok s' \<and> others s' = others s \<and> (ret = 0 \<longrightarrow> listens s') \<and> (ret \<noteq> 0 \<longrightarrow> listens s' = listens s)"
proof (cases "0 \<le> ac_fd (gp_acceptor s)")
  case True
  then show ?thesis using assms by (simp add: listener_start_def)
next
  case False
  obtain sfd t where c: "create_tcp_service (ge_net env) (gp_sockets s) = (sfd, t)" by fastforce
  obtain a1 r1 cl where i: "acceptor_init sfd (ge_epoll env) (gp_acceptor s) (gp_reactor s) = (ret, a1, r1, cl)"
    and s': "gp_acceptor s' = a1" "gp_reactor s' = r1" "gp_sockets s' = close_all cl t"
    using assms(3) c False by (auto simp: listener_start_def Let_def split: prod.splits)
  note sock = create_tcp_service_ok [OF assms(2) c]
  have fresh: "gp_sockets s (a_socket (ge_net env)) = None" using assms(2) by (simp add: net_ok_def)
  have inv: "reactor_inv (gp_reactor s)" "ac_fd (gp_acceptor s) = -1" "gp_sockets s (-1) = None"
    using assms(1) False by (simp_all add: gate_ok_def Let_def)
  show ?thesis
  proof (cases "ret = 0")
    case True
    from acceptor_init_opened [OF inv(1) i [unfolded True]] sock fresh inv s' True show ?thesis
      by (auto simp: creates_def gate_ok_def others_def listens_def close_all_def Let_def fun_upd_idem
          reactor_no_negative split: if_splits)
  next
    case nz: False
    from acceptor_init_refused [OF i nz] False have
      "a1 = gp_acceptor s \<and> r1 = gp_reactor s \<and> cl = (if sfd < 0 then [] else [sfd])" by simp
    then show ?thesis using sock fresh inv s' nz
      by (auto simp: creates_def gate_ok_def others_def listens_def close_all_def Let_def fun_upd_idem
          split: if_splits)
  qed
qed

lemma gate_ok_cong:
  assumes "gp_reactor s' = gp_reactor s" "gp_sockets s' = gp_sockets s" "gp_acceptor s' = gp_acceptor s"
  shows "gate_ok s' = gate_ok s \<and> others s' = others s \<and> listens s' = listens s"
  using assms by (simp add: gate_ok_def others_def listens_def)

text \<open>What the rest of \<open>on_init\<close> needs of the file.\<close>

definition config_ok :: "xml option \<Rightarrow> bool" where
  "config_ok root \<longleftrightarrow> root \<noteq> None \<and> 1 \<le> xml_as_int (xml_attribute ''delay_sec'' (xml_child ''shutdown'' root))
     \<and> read_server_ids root \<noteq> []"

text \<open>The settings that a file stands for, by the names of its nodes and attributes.\<close>

definition number_at :: "string \<Rightarrow> string \<Rightarrow> xml option \<Rightarrow> int" where
  "number_at node name root = xml_as_int (xml_attribute name (xml_child node root))"

definition flag_at :: "string \<Rightarrow> string \<Rightarrow> xml option \<Rightarrow> bool" where
  "flag_at node name root = xml_as_bool (xml_attribute name (xml_child node root))"

definition text_at :: "string \<Rightarrow> string \<Rightarrow> xml option \<Rightarrow> byte list" where
  "text_at node name root = xml_value (xml_attribute name (xml_child node root))"

definition config_of :: "xml option \<Rightarrow> gate_config" where
  "config_of root =
     \<lparr>cf_threshold = flag_at ''message_check'' ''threshold'' root,
      cf_seq = flag_at ''message_check'' ''seq'' root,
      cf_heartbeat = flag_at ''message_check'' ''heartbeat'' root,
      cf_active_heartbeat = flag_at ''message_check'' ''active_heartbeat'' root,
      cf_token = flag_at ''token_check'' ''check'' root,
      cf_type = number_at ''token_check'' ''type'' root,
      cf_valid_duration = number_at ''token_check'' ''valid_duration'' root,
      cf_key1 = text_at ''token_check'' ''key1'' root,
      cf_key2 = text_at ''token_check'' ''key2'' root,
      cf_shut_down_delay = number_at ''shutdown'' ''delay_sec'' root,
      cf_online_threshold = number_at ''client_acceptor'' ''online_threshold'' root,
      cf_server_ids = sorted_list_of_set
        {xml_as_int (xml_attribute ''id'' (Some n)) | n. n \<in> set (xml_children (xml_child ''server_id_list'' root))}\<rparr>"

text \<open>The level is kept between that of errors and that of debug lines, the prefix cut to its array.\<close>

definition logs_as :: "xml option \<Rightarrow> logger \<Rightarrow> bool" where
  "logs_as root l \<longleftrightarrow>
     lg_level l = max LOG_LEVEL_ERROR (min LOG_LEVEL_DEBUG (number_at ''log'' ''level'' root))
     \<and> lg_prefix l = take (MAX_PREFIX_SIZE - 1) (text_at ''log'' ''prefix'' root)"

definition bound_as :: "gate_env \<Rightarrow> xml option \<Rightarrow> gate_proc \<Rightarrow> bool" where
  "bound_as env root s \<longleftrightarrow>
     gp_addr s = init_sa_in (ge_inet env) (Some (text_at ''client_acceptor'' ''listen_ip'' root))
                   (number_at ''client_acceptor'' ''listen_port'' root) (ge_stack env)
     \<and> gp_defer s = (if ge_option env then 10 else 0)"

text \<open>A delay that \<open>set_delay_stop\<close> refuses (more than 6000 seconds) leaves the old one.\<close>

definition timed_as :: "xml option \<Rightarrow> app \<Rightarrow> app \<Rightarrow> bool" where
  "timed_as root a a' \<longleftrightarrow>
     (let ms = to_int32 (number_at ''shutdown'' ''delay_sec'' root * 1000) in
      a' = a\<lparr>interval_ms := 60000, delay_ms := (if 0 \<le> ms \<and> ms \<le> 6000000 then ms else delay_ms a)\<rparr>)"

lemma read_server_ids_set:
  "read_server_ids root = sorted_list_of_set
     {xml_as_int (xml_attribute ''id'' (Some n)) | n. n \<in> set (xml_children (xml_child ''server_id_list'' root))}"
proof -
  have fold: "sorted ids \<Longrightarrow> distinct ids \<Longrightarrow> fold (\<lambda>n. insort_insert (f n)) ns ids = sorted_list_of_set (set ids \<union> f ` set ns)"
    for f :: "xml \<Rightarrow> int" and ns ids
    by (induction ns arbitrary: ids)
      (simp_all add: sorted_list_of_set.idem_if_sorted_distinct sorted_insort_insert distinct_insort_insert
        set_insort_insert)
  have "f ` set ns = {f n | n. n \<in> set ns}" for f :: "xml \<Rightarrow> int" and ns by auto
  with fold [of "[]"] show ?thesis by (simp add: read_server_ids_def)
qed

lemma read_config_of: "(read_config root c)\<lparr>cf_server_ids := read_server_ids root\<rparr> = config_of root"
  by (simp add: read_config_def config_of_def read_server_ids_set number_at_def flag_at_def text_at_def Let_def)

lemma listener_start_frame:
  "listener_start env host port s = (ret, s') \<Longrightarrow>
   gp_config s' = gp_config s \<and> gp_app s' = gp_app s \<and> gp_shutting_down s' = gp_shutting_down s
   \<and> gp_logger s' = gp_logger s \<and> gp_disk s' = gp_disk s"
  by (auto simp: listener_start_def Let_def split: if_splits prod.splits)

lemma listener_stop_frame:
  "gp_config (listener_stop s) = gp_config s \<and> gp_app (listener_stop s) = gp_app s
   \<and> gp_shutting_down (listener_stop s) = gp_shutting_down s"
  by (simp add: listener_stop_def split: prod.splits)

lemma set_timer_minute: "snd (set_timer 60000 a) = a\<lparr>interval_ms := 60000\<rparr>"
  by (simp add: set_timer_def DEFAULT_INTERVAL_def)

lemma set_delay_stop_interval [simp]: "interval_ms (snd (set_delay_stop n a)) = interval_ms a"
  by (simp add: set_delay_stop_def)

lemma finish_init_ok:
  assumes "finish_init root s = (ret, s')"
  shows "gate_ok s' = gate_ok s" "others s' = others s" "listens s' = listens s" "ret = 0 \<or> ret = -1"
    "gp_shutting_down s' = gp_shutting_down s" "gp_logger s' = gp_logger s"
    "gp_addr s' = gp_addr s" "gp_defer s' = gp_defer s"
    "ret = 0 \<Longrightarrow> config_ok (Some root) \<and> gp_config s' = config_of (Some root)"
    "ret = 0 \<Longrightarrow> timed_as (Some root) (gp_app s) (gp_app s')"
proof -
  have "gp_reactor s' = gp_reactor s \<and> gp_sockets s' = gp_sockets s \<and> gp_acceptor s' = gp_acceptor s"
    using assms by (auto simp: finish_init_def Let_def split: if_splits)
  then show "gate_ok s' = gate_ok s" "others s' = others s" "listens s' = listens s"
    using gate_ok_cong by blast+
  show "ret = 0 \<or> ret = -1" "gp_shutting_down s' = gp_shutting_down s" "gp_logger s' = gp_logger s"
    "gp_addr s' = gp_addr s" "gp_defer s' = gp_defer s"
    using assms by (auto simp: finish_init_def Let_def split: if_splits)
  assume "ret = 0"
  then have s': "s' = s\<lparr>gp_config := config_of (Some root),
      gp_app := snd (set_delay_stop (to_int32 (cf_shut_down_delay (read_config (Some root) (gp_config s)) * 1000))
        ((gp_app s)\<lparr>interval_ms := 60000\<rparr>))\<rparr>"
    and ok: "\<not> cf_shut_down_delay (read_config (Some root) (gp_config s)) < 1" "read_server_ids (Some root) \<noteq> []"
    using assms by (auto simp: finish_init_def Let_def set_timer_minute read_config_of split: if_splits)
  have d: "cf_shut_down_delay (read_config (Some root) (gp_config s)) = number_at ''shutdown'' ''delay_sec'' (Some root)"
    by (simp add: read_config_def number_at_def Let_def)
  show "config_ok (Some root) \<and> gp_config s' = config_of (Some root)"
    using s' ok d by (simp add: config_ok_def number_at_def)
  show "timed_as (Some root) (gp_app s) (gp_app s')"
    by (simp add: s' d timed_as_def set_delay_stop_def DEFAULT_INTERVAL_def Let_def)
qed

lemma prepare_keeps:
  "prepare e l d = Fine (ret, l', d') \<Longrightarrow> lg_level l' = lg_level l \<and> lg_prefix l' = lg_prefix l"
  by (auto simp: prepare_def flush_def Let_def split: option.splits if_splits checked.splits)

lemma logger_init_takes:
  "logger_init e mem (text_at ''log'' ''prefix'' root) (number_at ''log'' ''level'' root) n l d = Fine (0, l', d') \<Longrightarrow>
   logs_as root l'"
  by (auto simp: logger_init_def logs_as_def LOG_LEVEL_ERROR_def LOG_LEVEL_DEBUG_def Let_def split: option.splits prod.splits dest!: prepare_keeps)

lemma listener_start_binds:
  assumes "listener_start env (text_at ''client_acceptor'' ''listen_ip'' root) (number_at ''client_acceptor'' ''listen_port'' root) s = (0, s')"
  shows "bound_as env root (defer_accept env 10 s')"
  using assms by (auto simp: listener_start_def bound_as_def defer_accept_def Let_def split: if_splits prod.splits)

lemma defer_accept_keeps:
  "gate_ok (defer_accept env n s) = gate_ok s" "others (defer_accept env n s) = others s"
  "listens (defer_accept env n s) = listens s" "gp_shutting_down (defer_accept env n s) = gp_shutting_down s"
  "gp_logger (defer_accept env n s) = gp_logger s" "gp_app (defer_accept env n s) = gp_app s"
  by (simp_all add: defer_accept_def gate_ok_def others_def listens_def)

lemma gate_on_init_cases:
  assumes "gate_on_init env s = Fine (ret, s')"
  obtains (stops) "ret = -1" "gp_reactor s' = gp_reactor s" "gp_sockets s' = gp_sockets s"
      "gp_acceptor s' = gp_acceptor s" "gp_shutting_down s' = gp_shutting_down s"
  | (refused) s1 r host port where "ret = -1" "listener_start env host port s1 = (r, s')" "r \<noteq> 0"
      "gp_reactor s1 = gp_reactor s" "gp_sockets s1 = gp_sockets s" "gp_acceptor s1 = gp_acceptor s"
      "gp_shutting_down s1 = gp_shutting_down s" "gp_app s1 = gp_app s"
  | (started) root s1 s2 where "xml_child ''root'' (ge_doc env) = Some root"
      "listener_start env (text_at ''client_acceptor'' ''listen_ip'' (Some root))
         (number_at ''client_acceptor'' ''listen_port'' (Some root)) s1 = (0, s2)"
      "finish_init root (defer_accept env 10 s2) = (ret, s')" "logs_as (Some root) (gp_logger s1)"
      "gp_reactor s1 = gp_reactor s" "gp_sockets s1 = gp_sockets s" "gp_acceptor s1 = gp_acceptor s"
      "gp_shutting_down s1 = gp_shutting_down s" "gp_app s1 = gp_app s"
proof (cases "xml_child ''root'' (ge_doc env)")
  case None
  then have "ret = -1 \<and> s' = s" using assms by (auto simp: gate_on_init_def split: option.splits)
  then show ?thesis by (intro stops) auto
next
  case (Some root)
  then obtain doc where doc: "ge_doc env = Some doc" "xml_child ''root'' (Some doc) = Some root"
    by (cases "ge_doc env") (auto simp: xml_child_def)
  let ?prefix = "text_at ''log'' ''prefix'' (Some root)"
  let ?level = "number_at ''log'' ''level'' (Some root)"
  let ?ip = "text_at ''client_acceptor'' ''listen_ip'' (Some root)"
  let ?port = "number_at ''client_acceptor'' ''listen_port'' (Some root)"
  note at = number_at_def text_at_def
  obtain lret l d where log: "logger_init (ge_log env) (ge_block env) ?prefix ?level NONE_IOBUF_SIZE
       (gp_logger s) (gp_disk s) = Fine (lret, l, d)"
    using assms doc by (auto simp: gate_on_init_def at Let_def split: checked.splits)
  define s1 where "s1 = s\<lparr>gp_logger := l, gp_disk := d\<rparr>"
  obtain r s2 where st: "listener_start env ?ip ?port s1 = (r, s2)" by fastforce
  have run: "Fine (ret, s') = (if lret \<noteq> 0 then Fine (-1, s1) else if r \<noteq> 0 then Fine (-1, s2)
      else Fine (finish_init root (defer_accept env 10 s2)))"
    using assms log st by (auto simp: gate_on_init_def doc at s1_def [symmetric] Let_def)
  have same: "gp_reactor s1 = gp_reactor s" "gp_sockets s1 = gp_sockets s" "gp_acceptor s1 = gp_acceptor s"
      "gp_shutting_down s1 = gp_shutting_down s" "gp_app s1 = gp_app s" by (simp_all add: s1_def)
  consider "lret \<noteq> 0" | "lret = 0" "r \<noteq> 0" | "lret = 0" "r = 0" by blast
  then show ?thesis
  proof cases
    case 1
    with run same show ?thesis by (intro stops) auto
  next
    case 2
    with run st same show ?thesis by (intro refused [where ?s1.0 = s1 and r = r]) auto
  next
    case 3
    then have "logs_as (Some root) (gp_logger s1)" using log logger_init_takes by (simp add: s1_def)
    with 3 run st same Some show ?thesis by (intro started [where root = root and ?s1.0 = s1 and ?s2.0 = s2]) auto
  qed
qed

text \<open>Everything the file says about, after a successful start with the timers \<open>a\<close>.\<close>

definition set_up :: "gate_env \<Rightarrow> app \<Rightarrow> gate_proc \<Rightarrow> bool" where
  "set_up env a s \<longleftrightarrow>
     (let root = xml_child ''root'' (ge_doc env) in
      config_ok root \<and> gp_config s = config_of root \<and> logs_as root (gp_logger s)
      \<and> bound_as env root s \<and> timed_as root a (gp_app s))"

lemma gate_on_init_ok:
  assumes "gate_ok s" "net_ok (ge_net env) (gp_sockets s)" "gate_on_init env s = Fine (ret, s')"
  shows "gate_ok s' \<and> others s' = others s \<and> (ret = 0 \<or> ret = -1)
    \<and> (ret = 0 \<longrightarrow> listens s' \<and> set_up env (gp_app s) s') \<and> gp_shutting_down s' = gp_shutting_down s"
  using assms(3)
proof (cases rule: gate_on_init_cases)
  case stops
  then show ?thesis using gate_ok_cong [of s' s] assms(1) by simp
next
  case (refused s1 r host port)
  then have "gate_ok s1" "others s1 = others s" using gate_ok_cong [of s1 s] assms(1) by simp_all
  with listener_start_ok [OF _ _ refused(2)] listener_start_frame [OF refused(2)] refused assms(2)
  show ?thesis by simp
next
  case (started root s1 s2)
  then have ok1: "gate_ok s1" "others s1 = others s" using gate_ok_cong [of s1 s] assms(1) by simp_all
  note frame = listener_start_frame [OF started(2)]
  note fin = finish_init_ok [OF started(3), unfolded defer_accept_keeps]
  have "gate_ok s' \<and> others s' = others s \<and> gp_shutting_down s' = gp_shutting_down s \<and> listens s'"
    using listener_start_ok [OF ok1(1) _ started(2)] frame fin(1-5) ok1 started assms(2) by simp
  moreover have "set_up env (gp_app s) s'" if "ret = 0"
    using fin(6-10) that frame started listener_start_binds [OF started(2)]
    by (simp add: set_up_def bound_as_def)
  ultimately show ?thesis using fin(4) by blast
qed

section \<open>Properties\<close>


definition sample_root :: xml where
  "sample_root = Xml (ascii ''root'') []
     [Xml (ascii ''client_acceptor'') [(ascii ''listen_ip'', ascii ''0.0.0.0''), (ascii ''listen_port'', ascii ''19999'')] [],
      Xml (ascii ''shutdown'') [(ascii ''delay_sec'', ascii ''5'')] [],
      Xml (ascii ''server_id_list'') [] [Xml (ascii ''server_id'') [(ascii ''id'', ascii ''1'')] []]]"

definition sample_sa :: sa_in where
  "sample_sa = \<lparr>sin_family = AF_INET, sin_port = 0, s_addr = 0\<rparr>"

definition sample_gate_env :: gate_env where
  "sample_gate_env = \<lparr>ge_doc = Some (Xml [] [] [sample_root]),
     ge_log = \<lparr>e_now = Some sample_tm, e_open = 7, e_write = (\<lambda>n. n)\<rparr>, ge_block = Some (replicate 4088 0),
     ge_net = \<lparr>a_socket = 4, a_fcntl = True, a_reuse = True, a_bind = 0, a_listen = 0, a_connect = 0,
       a_select = 1, a_so_error = 0, a_close = 0\<rparr>, ge_epoll = True,
     ge_inet = (\<lambda>s. 0), ge_stack = sample_sa, ge_option = True\<rparr>"

definition sample_gate_proc :: gate_proc where
  "sample_gate_proc = \<lparr>gp_config = gate_config_new, gp_logger = logger_new, gp_disk = (\<lambda>_. []),
     gp_acceptor = acceptor_new 9, gp_reactor = sample_reactor, gp_sockets = [3 \<mapsto> sock_new UdpSock], gp_addr = sample_sa, gp_defer = 0,
     gp_app = application_new, gp_shutting_down = False\<rparr>"

lemma sample_doc_facts:
  "xml_child ''root'' (Some (Xml [] [] [sample_root])) = Some sample_root"
  "xml_as_int (xml_attribute ''delay_sec'' (xml_child ''shutdown'' (Some sample_root))) = 5"
  "read_server_ids (Some sample_root) = [1]"
  "xml_child ''log'' (Some sample_root) = None"
  by code_simp+

lemma sample_gate_ok: "gate_ok sample_gate_proc" "listener_stop sample_gate_proc = sample_gate_proc"
  using sample_reactor_inv
  by (simp_all add: gate_ok_def sample_gate_proc_def acceptor_new_def listener_stop_def acceptor_fini_def close_all_def)

lemma sample_reload: "\<exists>s'. gate_on_reload sample_gate_env sample_gate_proc = Fine (0, s')"
proof -
  obtain l d where log: "logger_init (ge_log sample_gate_env) (ge_block sample_gate_env) [] 0 NONE_IOBUF_SIZE
      (logger_new\<lparr>lg_buf := None\<rparr>) (\<lambda>_. []) = Fine (0, l, d)"
    by (simp add: logger_init_def prepare_def logger_new_def sample_gate_env_def logger_buf_size_def
        MIN_IOBUF_SIZE_def MAX_LINE_SIZE_def NONE_IOBUF_SIZE_def Let_def sample_tm_def date_key_def ascii_def)
  have fini: "logger_fini (ge_log sample_gate_env) logger_new (\<lambda>_. []) = Fine (logger_new\<lparr>lg_buf := None\<rparr>, \<lambda>_. [])"
    by (simp add: logger_fini_def logger_new_def)
  have start: "\<exists>s2. listener_start sample_gate_env host port
      (sample_gate_proc\<lparr>gp_logger := l, gp_disk := d\<rparr>) = (0, s2)" for host port
    by (simp add: listener_start_def sample_gate_env_def sample_gate_proc_def create_tcp_service_def acceptor_new_def
        acceptor_init_def add_handler_def sample_reactor_def reactor_init_def reactor_new_def set_handler_def
        MIN_FD_SIZE_def Let_def)
  let ?node = "xml_child ''client_acceptor'' (Some sample_root)"
  obtain s2 where s2: "listener_start sample_gate_env (xml_value (xml_attribute ''listen_ip'' ?node))
      (xml_as_int (xml_attribute ''listen_port'' ?node)) (sample_gate_proc\<lparr>gp_logger := l, gp_disk := d\<rparr>) = (0, s2)"
    using start by blast
  have fin: "\<exists>s'. finish_init sample_root (defer_accept sample_gate_env 10 s2) = (0, s')"
    by (simp add: finish_init_def read_config_def sample_doc_facts Let_def)
  have doc: "ge_doc sample_gate_env = Some (Xml [] [] [sample_root])" by (simp add: sample_gate_env_def)
  have none: "xml_value (xml_attribute ''prefix'' None) = []" "xml_as_int (xml_attribute ''level'' None) = 0"
    by (simp_all add: xml_value_def xml_attribute_def xml_as_int_def)
  have new: "gp_logger sample_gate_proc = logger_new" "gp_disk sample_gate_proc = (\<lambda>_. [])"
    by (simp_all add: sample_gate_proc_def)
  show ?thesis
    using log fini s2 fin
    by (auto simp: gate_on_reload_def sample_gate_ok(2) gate_on_init_def doc sample_doc_facts none new Let_def)
qed


section \<open>Facts behind the findings\<close>

text \<open>
  The caller of \<open>on_reload\<close> ignores its result: after a reload with a file that cannot be loaded the server
  runs on without listening.
\<close>

lemma failed_reload_stops_listening:
  assumes "gate_ok s" "ge_doc env = None" "gate_on_reload env s = Fine (ret, s')"
  shows "ret = -1 \<and> \<not> listens s'"
proof -
  obtain l d where "(ret, s') = (-1, (listener_stop s)\<lparr>gp_logger := l, gp_disk := d\<rparr>)"
    using assms(2,3) by (auto simp: gate_on_reload_def gate_on_init_def Let_def split: checked.splits)
  then show ?thesis using listener_stop_ok [OF assms(1)] by (simp add: listens_def)
qed

text \<open>
  A reload while the server shuts down opens the listener again, and a second delayed stop does not close
  it any more.
\<close>

lemma reload_undoes_delay_stop:
  assumes "gate_ok s" "net_ok (ge_net env) (gp_sockets (listener_stop s))"
    and "gate_on_reload env s = Fine (0, s')" "gp_shutting_down s"
  shows "listens (gate_on_delay_stop s')"
proof -
  obtain l d where init: "gate_on_init env ((listener_stop s)\<lparr>gp_logger := l, gp_disk := d\<rparr>) = Fine (0, s')"
    using assms(3) by (auto simp: gate_on_reload_def Let_def split: checked.splits)
  let ?s = "(listener_stop s)\<lparr>gp_logger := l, gp_disk := d\<rparr>"
  have "gate_ok ?s" "gp_shutting_down ?s"
    using gate_ok_cong [of ?s "listener_stop s"] listener_stop_ok [OF assms(1)] listener_stop_frame [of s] assms(4)
    by simp_all
  with gate_on_init_ok [OF _ _ init] assms(2) have "listens s'" "gp_shutting_down s'" by simp_all
  then show ?thesis by (simp add: gate_on_delay_stop_def)
qed

text \<open>A shutdown delay above 6000 seconds is taken from the file but not set: the old delay stays.\<close>

lemma long_delay_is_ignored:
  "6000 < n \<Longrightarrow> n < 2147483 \<Longrightarrow> set_delay_stop (to_int32 (n * 1000)) a = (-1, a)"
  by (simp add: set_delay_stop_def to_int32_id DEFAULT_INTERVAL_def)

end
