(* ===== verification/BenchConfig.thy ===== *)
theory BenchConfig
  imports Xml Application Logger BenchClient
begin

text \<open>
  \<open>client_application::on_init\<close> of \<open>bench_client/client_application.cpp\<close>: what the load generator
  takes from its configuration file. Shown: a start that succeeds with a positive number of players sets
  up a state from which the timer connects every player.
\<close>

record npc_info =
  npc_map_id :: int
  npc_map_x :: int
  npc_map_y :: int
  npc_id :: int

definition npc_of :: "xml \<Rightarrow> npc_info" where
  "npc_of k = \<lparr>npc_map_id = xml_as_int (xml_attribute ''map_id'' (Some k)),
     npc_map_x = xml_as_int (xml_attribute ''map_x'' (Some k)),
     npc_map_y = xml_as_int (xml_attribute ''map_y'' (Some k)),
     npc_id = xml_as_int (xml_attribute ''npc_id'' (Some k))\<rparr>"

record bench_proc =
  bp_logger :: logger
  bp_disk :: disk
  bp_gate_ip :: "byte list"
  bp_gate_port :: int
  bp_sid :: int
  bp_npcs :: "npc_info list"
  bp_bench :: bench_app
  bp_app :: app

text \<open>
  The outcome of \<open>on_init\<close>: a result and the state, an access out of bounds in the logger, or the
  exception of \<open>new[]\<close> for a negative number of players. \<open>doc\<close> is the loaded document, \<open>raw i\<close> the memory
  of the i-th connection object, whose constructor sets only a few members.
\<close>

datatype bench_start = Started int bench_proc | StartOutOfBounds | BadArrayLength

definition bench_on_init ::
  "xml option \<Rightarrow> log_env \<Rightarrow> byte list option \<Rightarrow> (nat \<Rightarrow> bench_client) \<Rightarrow> bench_proc \<Rightarrow> bench_start" where
  "bench_on_init doc e mem raw s =
     (case doc of
        None \<Rightarrow> Started (-1) s
      | Some d \<Rightarrow>
        case xml_child ''root'' (Some d) of
          None \<Rightarrow> Started (-1) s
        | Some root \<Rightarrow>
          let log = xml_child ''log'' (Some root) in
          case logger_init e mem (xml_value (xml_attribute ''prefix'' log)) (xml_as_int (xml_attribute ''level'' log)) 0
                 (bp_logger s) (bp_disk s) of
            OutOfBounds \<Rightarrow> StartOutOfBounds
          | Fine (ret, l, dk) \<Rightarrow>
            let s1 = s\<lparr>bp_logger := l, bp_disk := dk\<rparr> in
            if ret \<noteq> 0 then Started (-1) s1
            else
              let node = xml_child ''gate_server'' (Some root);
                  n = xml_as_int (xml_attribute ''player_max_count'' node);
                  npcs = bp_npcs s1 @ map npc_of (xml_child_and_rest ''rand_teleport'' (Some root));
                  s2 = s1\<lparr>bp_gate_ip := xml_value (xml_attribute ''ip'' node),
                          bp_gate_port := xml_as_int (xml_attribute ''port'' node),
                          bp_sid := xml_as_int (xml_attribute ''sid'' node),
                          bp_bench := (bp_bench s1)\<lparr>max_count := n,
                            begin_uid := xml_as_int (xml_attribute ''player_begin_uid'' node), cur_count := 0\<rparr>,
                          bp_npcs := npcs\<rparr>
              in if npcs = [] then Started (-1) s2
                 else if n < 0 then BadArrayLength
                 else Started 0 (s2\<lparr>bp_bench := (bp_bench s2)\<lparr>conn_list := map (\<lambda>i.
                          (False, (raw i)\<lparr>b_uid := 0, b_status := STATUS_ACC_LOGIN, b_expires := None\<rparr>)) [0..<nat n]\<rparr>,
                        bp_app := snd (set_timer 1000 (bp_app s2))\<rparr>))"

text \<open>After a start with players every player is connected once each has had its tick.\<close>

lemma bench_start_connects_all:
  assumes "bench_on_init doc e mem raw s = Started 0 s'" "max_count (bp_bench s') \<noteq> 0"
    and "list_all fst xs" "int (length xs) = max_count (bp_bench s')" "length xs < 2 ^ 31"
  shows "\<exists>a'. bench_ticks xs (bp_bench s') = Some a' \<and> list_all fst (conn_list a')
    \<and> bp_npcs s' \<noteq> [] \<and> interval_ms (bp_app s') = 1000"
proof -
  have "BenchClient.app_ok (bp_bench s') \<and> bp_npcs s' \<noteq> [] \<and> interval_ms (bp_app s') = 1000"
    using assms
    by (auto simp: bench_on_init_def BenchClient.app_ok_def set_timer_def DEFAULT_INTERVAL_def Let_def
        split: option.splits checked.splits if_splits)
  with bench_connects_all [of "bp_bench s'" xs] assms(3,4) show ?thesis by auto
qed

text \<open>A configuration without players starts and crashes at the first tick.\<close>

lemma no_players_start_crashes:
  assumes "bench_on_init doc e mem raw s = Started 0 s'" "max_count (bp_bench s') = 0"
  shows "bench_on_timer ok ms (bp_bench s') = None"
  using assms
  by (intro no_players_crash)
    (auto simp: bench_on_init_def Let_def split: option.splits checked.splits if_splits)

end
