(* ===== verification/ThreadNotify.thy ===== *)
theory ThreadNotify
  imports Reactor
begin

text \<open>
  \<open>framework/thread.h\<close> and \<open>.cpp\<close>, the start, stop and join of a worker thread, and
  \<open>framework/notify_handler.h\<close> and \<open>.cpp\<close>, the pipe that wakes the event loop. Shown: a stop that comes
  after the thread has set its status is obeyed, one that comes before is lost; initialisation and clean-up are
  paired; and every notification is followed by a call of \<open>on_notify\<close>.
\<close>

section \<open>Threads\<close>

text \<open>Where the new thread is; \<open>Gone\<close> is before \<open>start\<close> and after \<open>join\<close>.\<close>

datatype thread_phase = Gone | Entering | Initing | Looping | Ended

record thread =
  m_tid :: int
  m_status :: int
  phase :: thread_phase
  init_count :: nat
  run_count :: nat
  fini_count :: nat

definition thread_new :: thread where
  "thread_new = \<lparr>m_tid = 0, m_status = 0, phase = Gone, init_count = 0, run_count = 0, fini_count = 0\<rparr>"

text \<open>\<open>start\<close>: \<open>ret\<close> is the result of \<open>pthread_create\<close> and \<open>tid\<close> what it leaves in \<open>m_tid\<close>.\<close>

definition thread_start :: "int \<Rightarrow> int \<Rightarrow> thread \<Rightarrow> int \<times> thread" where
  "thread_start ret tid t =
     (if m_tid t \<noteq> 0 then (-1, t)
      else (ret, t\<lparr>m_tid := tid, phase := if ret = 0 then Entering else phase t\<rparr>))"

definition thread_stop :: "thread \<Rightarrow> thread" where
  "thread_stop t = t\<lparr>m_status := 0\<rparr>"

definition running :: "thread \<Rightarrow> bool" where
  "running t \<longleftrightarrow> m_status t = 1"

text \<open>\<open>join\<close> returns when there is no thread or it has ended (\<open>None\<close>: it waits).\<close>

definition thread_join :: "thread \<Rightarrow> thread option" where
  "thread_join t =
     (if m_tid t = 0 then Some t
      else if phase t = Ended then Some (t\<lparr>m_tid := 0, phase := Gone\<rparr>)
      else None)"

text \<open>\<open>simple_thread::run\<close> in the new thread; one step per access to \<open>m_status\<close>.\<close>

inductive run_step :: "thread \<Rightarrow> thread \<Rightarrow> bool" where
  enter: "phase t = Entering \<Longrightarrow> run_step t (t\<lparr>m_status := 1, phase := Initing\<rparr>)"
| init_ok: "phase t = Initing \<Longrightarrow> run_step t (t\<lparr>init_count := init_count t + 1, phase := Looping\<rparr>)"
| init_failed: "phase t = Initing \<Longrightarrow> run_step t (t\<lparr>phase := Ended\<rparr>)"
| again: "phase t = Looping \<Longrightarrow> m_status t = 1 \<Longrightarrow> run_step t (t\<lparr>run_count := run_count t + 1\<rparr>)"
| leave: "phase t = Looping \<Longrightarrow> m_status t \<noteq> 1 \<Longrightarrow> run_step t (t\<lparr>fini_count := fini_count t + 1, phase := Ended\<rparr>)"

inductive_cases run_stepE: "run_step t t'"

text \<open>Both threads: the owner calls \<open>start\<close>, \<open>stop\<close> and \<open>join\<close>.\<close>

inductive thread_step :: "thread \<Rightarrow> thread \<Rightarrow> bool" where
  run: "run_step t t' \<Longrightarrow> thread_step t t'"
| start: "thread_start ret tid t = (ret', t') \<Longrightarrow> ret = 0 \<longrightarrow> tid \<noteq> 0 \<Longrightarrow> ret \<noteq> 0 \<longrightarrow> tid = 0 \<Longrightarrow> thread_step t t'"
| stop: "thread_step t (thread_stop t)"
| join: "thread_join t = Some t' \<Longrightarrow> thread_step t t'"

definition thread_steps :: "thread \<Rightarrow> thread \<Rightarrow> bool" where
  "thread_steps = thread_step\<^sup>*\<^sup>*"

text \<open>Each successful \<open>on_init\<close> has its \<open>on_fini\<close>, except for the thread that is in its loop.\<close>

definition thread_inv :: "thread \<Rightarrow> bool" where
  "thread_inv t \<longleftrightarrow> (m_tid t = 0 \<longleftrightarrow> phase t = Gone)
     \<and> init_count t = fini_count t + (if phase t = Looping then 1 else 0)"

lemma thread_inv_run: "run_step t t' \<Longrightarrow> thread_inv t \<Longrightarrow> thread_inv t'"
  by (auto elim!: run_stepE simp: thread_inv_def)

lemma thread_inv_step: "thread_step t t' \<Longrightarrow> thread_inv t \<Longrightarrow> thread_inv t'"
proof (induction rule: thread_step.induct)
  case (run t t')
  then show ?case using thread_inv_run by blast
qed (auto simp: thread_inv_def thread_start_def thread_stop_def thread_join_def split: if_splits)

lemma thread_inv_steps: "thread_steps thread_new t \<Longrightarrow> thread_inv t"
proof -
  have "thread_step\<^sup>*\<^sup>* s t \<Longrightarrow> thread_inv s \<Longrightarrow> thread_inv t" for s
    by (induction rule: rtranclp_induct) (auto intro: thread_inv_step)
  then show "thread_steps thread_new t \<Longrightarrow> thread_inv t"
    by (simp add: thread_steps_def thread_inv_def thread_new_def)
qed

lemma joined_threads_are_clean:
  "thread_steps thread_new t \<Longrightarrow> thread_join t = Some t' \<Longrightarrow> init_count t' = fini_count t' \<and> phase t' = Gone"
  using thread_inv_steps [of t] by (auto simp: thread_join_def thread_inv_def split: if_splits)

text \<open>A stop after \<open>m_status = 1\<close> is obeyed: no \<open>run_once\<close> begins any more, and two steps end the thread.\<close>

lemma stopped_stays:
  "run_step\<^sup>*\<^sup>* t t' \<Longrightarrow> m_status t = 0 \<Longrightarrow> phase t \<noteq> Entering \<Longrightarrow>
   m_status t' = 0 \<and> phase t' \<noteq> Entering \<and> run_count t' = run_count t"
  by (induction rule: rtranclp_induct) (auto elim!: run_stepE)

lemma stop_is_obeyed:
  assumes "phase t \<noteq> Entering" "run_step\<^sup>*\<^sup>* (thread_stop t) t'"
  shows "run_count t' = run_count t"
  using stopped_stays [OF assms(2)] assms(1) by (simp add: thread_stop_def)

lemma stopped_loop_ends:
  "phase t = Looping \<Longrightarrow> run_step (thread_stop t) t' \<Longrightarrow> phase t' = Ended \<and> fini_count t' = fini_count t + 1"
  by (auto elim!: run_stepE simp: thread_stop_def)

text \<open>A stop between \<open>start\<close> and the first step of the new thread is overwritten: the thread runs on.\<close>

lemma early_stop_is_lost:
  assumes "phase t = Entering"
  shows "\<exists>t'. run_step\<^sup>*\<^sup>* (thread_stop t) t' \<and> phase t' = Looping \<and> running t' \<and> run_count t' = run_count t + n"
proof (induction n)
  case 0
  let ?a = "(thread_stop t)\<lparr>m_status := 1, phase := Initing\<rparr>"
  have "run_step (thread_stop t) ?a" using assms by (intro run_step.enter) (simp add: thread_stop_def)
  moreover have "run_step ?a (?a\<lparr>init_count := init_count ?a + 1, phase := Looping\<rparr>)"
    by (rule run_step.init_ok) simp
  ultimately have "run_step\<^sup>*\<^sup>* (thread_stop t) (?a\<lparr>init_count := init_count ?a + 1, phase := Looping\<rparr>)"
    by (meson r_into_rtranclp rtranclp.rtrancl_into_rtrancl)
  then show ?case
    by (intro exI [of _ "?a\<lparr>init_count := init_count ?a + 1, phase := Looping\<rparr>"])
      (simp add: thread_stop_def running_def)
next
  case (Suc n)
  then obtain t' where t': "run_step\<^sup>*\<^sup>* (thread_stop t) t'" "phase t' = Looping" "m_status t' = 1"
    "run_count t' = run_count t + n" by (auto simp: running_def)
  from run_step.again [OF t'(2,3)] t'(1) have
    "run_step\<^sup>*\<^sup>* (thread_stop t) (t'\<lparr>run_count := run_count t' + 1\<rparr>)" by (rule rtranclp.rtrancl_into_rtrancl [rotated])
  then show ?case
    by (intro exI [of _ "t'\<lparr>run_count := run_count t' + 1\<rparr>"]) (simp add: t' running_def)
qed

section \<open>The notification pipe\<close>

text \<open>
  The bytes in the pipe, its capacity, and the calls of \<open>on_notify\<close>. The pipe does not block; a full pipe
  gives \<open>EAGAIN\<close>.
\<close>

record notify =
  n_fd :: int
  n_bytes :: nat
  n_notified :: nat
  n_closed :: "int list"

definition PIPE_BUF :: nat where "PIPE_BUF = 65536"
definition NOTIFY_READ :: nat where "NOTIFY_READ = 16"

definition send_notify :: "notify \<Rightarrow> int \<times> notify" where
  "send_notify n = (if n_bytes n < PIPE_BUF then (1, n\<lparr>n_bytes := n_bytes n + 1\<rparr>) else (-1, n))"

definition notify_on_error :: "notify \<Rightarrow> notify" where
  "notify_on_error n = n\<lparr>n_closed := n_closed n @ [n_fd n]\<rparr>"

text \<open>\<open>on_read\<close>: \<open>hup\<close> is a closed writing end, \<open>err\<close> an error of \<open>read\<close>.\<close>

definition notify_on_read :: "bool \<Rightarrow> errno option \<Rightarrow> notify \<Rightarrow> notify" where
  "notify_on_read hup err n =
     (case err of
        Some e \<Rightarrow> if e \<noteq> EAGAIN \<and> e \<noteq> EINTR then notify_on_error n else n
      | None \<Rightarrow>
          if 0 < n_bytes n
          then n\<lparr>n_bytes := n_bytes n - min NOTIFY_READ (n_bytes n), n_notified := n_notified n + 1\<rparr>
          else if hup then notify_on_error n else n)"

text \<open>The event loop calls \<open>on_read\<close> as long as the pipe is readable.\<close>

function notify_drain :: "notify \<Rightarrow> notify" where
  "notify_drain n = (if n_bytes n = 0 then n else notify_drain (notify_on_read False None n))"
  by pat_completeness auto
termination
  by (relation "measure n_bytes") (auto simp: notify_on_read_def NOTIFY_READ_def)

declare notify_drain.simps [simp del]

text \<open>
  No wake-up is lost, and one call serves up to 16 of them: the number of calls is the number of sends
  divided by 16, rounded up.
\<close>

lemma notify_drain_calls:
  "n_notified (notify_drain n) = n_notified n + (n_bytes n + 15) div 16 \<and> n_bytes (notify_drain n) = 0"
proof (induction n rule: notify_drain.induct)
  case (1 n)
  show ?case
  proof (cases "n_bytes n = 0")
    case True
    then show ?thesis by (simp add: notify_drain.simps)
  next
    case False
    let ?m = "notify_on_read False None n"
    have m: "n_bytes ?m = n_bytes n - min 16 (n_bytes n)" "n_notified ?m = n_notified n + 1"
      using False by (simp_all add: notify_on_read_def NOTIFY_READ_def)
    have "(n_bytes n + 15) div 16 = (n_bytes ?m + 15) div 16 + 1"
    proof (cases "n_bytes n \<le> 16")
      case True
      then have "(n_bytes n + 15) div 16 = 1" using False by presburger
      then show ?thesis using True m(1) by simp
    next
      case big: False
      then have "n_bytes n + 15 = (n_bytes ?m + 15) + 16" using m(1) by simp
      then show ?thesis by (metis div_add_self2 zero_neq_numeral)
    qed
    then show ?thesis using 1 [OF False] m(2) False by (simp add: notify_drain.simps [of n])
  qed
qed

text \<open>\<open>on_error\<close> keeps \<open>m_fd\<close>: a second error closes the number again, which may belong to another socket.\<close>

lemma notify_closes_again:
  "n_closed (notify_on_error (notify_on_error n)) = n_closed n @ [n_fd n, n_fd n]"
  by (simp add: notify_on_error_def)

end
