(* ===== verification/SsCodecs.thy ===== *)
theory SsCodecs
  imports Packet
begin

text \<open>
  The class template \<open>ss_codecs\<close> of \<open>public/game_packet.h\<close>, the older form of \<open>ss_packet\<close> with a pointer to
  its body, and \<open>null_body\<close>. It differs from \<open>ss_packet\<close> in three ways: the tick of the head is not written,
  sizes are compared as unsigned numbers, and \<open>encode_size\<close> has no bound.
\<close>

record 'b ss_codecs =
  sc_key :: u32
  sc_seq :: u32
  sc_body :: 'b

text \<open>
  The guard \<open>size < sizeof(ss_head)\<close> compares as \<open>size_t\<close>: a negative size passes it, and the stream is
  then set up with a negative length.
\<close>

definition sc_encode ::
  "('b \<Rightarrow> byte list option) \<Rightarrow> int \<Rightarrow> 'b ss_codecs \<Rightarrow> byte list \<Rightarrow> int \<Rightarrow> (int \<times> byte list) checked" where
  "sc_encode ser pt p mem n =
     (if n < 0 then OutOfBounds
      else if n < ss_head_size then Fine (-1, mem)
      else case serialize_body ser (sc_body p) ss_head_size mem n of
             None \<Rightarrow> Fine (-1, mem)
           | Some (mem1, pos) \<Rightarrow>
               let sz = ss_head_size + pos in
               if sz \<ge> 65535 then Fine (-1, mem1)
               else Fine (sz, poke32 8 (hton_int32 (sc_seq p)) (poke32 4 (hton_int32 (sc_key p))
                            (poke16 2 (hton_int16 (word_of_int pt)) (poke16 0 (hton_int16 (word_of_int sz)) mem1)))))"

definition sc_decode ::
  "(byte list \<Rightarrow> 'b option) \<Rightarrow> int \<Rightarrow> byte list \<Rightarrow> int \<Rightarrow> 'b ss_codecs \<Rightarrow> (int \<times> 'b ss_codecs) checked" where
  "sc_decode parse pt data n p =
     (if 0 \<le> n \<and> n < ss_head_size then Fine (-1, p)
      else if length data < 16 then OutOfBounds
      else if uint (ntoh_int16 (peek16 2 data)) \<noteq> pt then Fine (-1, p)
      else let p1 = p\<lparr>sc_key := ntoh_int32 (peek32 4 data), sc_seq := ntoh_int32 (peek32 8 data)\<rparr>;
               sz = uint (ntoh_int16 (peek16 0 data))
           in if sz < ss_head_size \<or> sz > int (length data) then OutOfBounds
              else case parse (region data (nat ss_head_size) (nat (sz - ss_head_size))) of
                     None \<Rightarrow> Fine (-1, p1)
                   | Some b \<Rightarrow> Fine (sz, p1\<lparr>sc_body := b\<rparr>))"

definition sc_encode_size :: "('b \<Rightarrow> int) \<Rightarrow> 'b ss_codecs \<Rightarrow> int" where
  "sc_encode_size byte_size p = ss_head_size + byte_size (sc_body p)"

definition sc_decode_size :: "byte list \<Rightarrow> int" where
  "sc_decode_size data = uint (ntoh_int16 (peek16 0 data))"

text \<open>\<open>null_body\<close>.\<close>

definition null_serialize :: "unit \<Rightarrow> byte list option" where
  "null_serialize b = Some []"

definition null_parse :: "byte list \<Rightarrow> unit option" where
  "null_parse xs = Some ()"

definition null_size :: "unit \<Rightarrow> int" where
  "null_size b = 0"

interpretation null: body_codec null_serialize null_parse null_size
  by unfold_locales (simp_all add: null_serialize_def null_parse_def null_size_def)

text \<open>
  \<open>encode\<close> does what \<open>ss_packet::encode\<close> does with the tick that the block holds already: four bytes of
  whatever was in the send buffer go to the peer.
\<close>

lemma poke_peek32: "off + 4 \<le> length mem \<Longrightarrow> poke32 off (peek32 off mem) mem = mem"
proof -
  assume a: "off + 4 \<le> length mem"
  have "le32 (of_le32 xs) = xs" if "length xs = 4" for xs
  proof -
    from that obtain a b c d where "xs = [a, b, c, d]" by (auto simp: length_Suc_conv numeral_eq_Suc)
    then show ?thesis
      by (auto simp: le32_def of_le32_def intro!: bit_word_eqI) (auto simp: bit_simps dest: bit_imp_le_length)
  qed
  then have "le32 (peek32 off mem) = region mem off 4" using a by (simp add: peek32_def length_region)
  then show ?thesis using a by (simp add: poke32_def blit_def region_def) (metis append_take_drop_id add.commute drop_drop)
qed

lemma hton_ntoh: "hton_int32 (ntoh_int32 y) = y"
  by (simp add: ntoh_int32_def hton_int32_def bswap_32_invol)

lemma sc_encode_is_ss_encode:
  assumes "0 \<le> n" "n \<le> int (length mem)"
  shows "sc_encode ser pt p mem n =
    Fine (ss_encode ser pt \<lparr>ss_key = sc_key p, ss_seq = sc_seq p, ss_tick = ntoh_int32 (peek32 12 mem),
                            ss_body = sc_body p\<rparr> mem n)"
proof (cases "serialize_body ser (sc_body p) ss_head_size mem n")
  case None
  then show ?thesis using assms by (simp add: sc_encode_def ss_encode_def)
next
  case (Some r)
  obtain mem1 pos where r: "r = (mem1, pos)" by fastforce
  from serialize_body_Some [OF Some [unfolded r]] obtain xs where xs: "mem1 = blit mem 16 xs"
      "pos = int (length xs)" "16 + pos \<le> n" by (auto simp: ss_head_size_def)
  define m where "m = poke32 8 (hton_int32 (sc_seq p)) (poke32 4 (hton_int32 (sc_key p))
      (poke16 2 (hton_int16 (word_of_int pt)) (poke16 0 (hton_int16 (word_of_int (16 + pos))) mem1)))"
  have room: "16 + length xs \<le> length mem" using xs assms by simp
  then have "peek32 12 m = peek32 12 mem" "length m = length mem"
    by (simp_all add: m_def xs(1) block_simps) (simp add: peek32_def region_blit_before)
  then have "poke32 12 (hton_int32 (ntoh_int32 (peek32 12 mem))) m = m"
    using poke_peek32 [of 12 m] room by (simp add: hton_ntoh)
  then show ?thesis using assms xs Some r
    by (auto simp: sc_encode_def ss_encode_def ss_head_size_def m_def Let_def)
qed

text \<open>What \<open>encode\<close> accepts, \<open>decode\<close> gives back.\<close>

lemma sc_decode_is_ss_decode:
  assumes "ss_head_size \<le> n" "16 \<le> length data" "ss_decode parse pt data n q = Fine (sz, p)"
    "sc_key q' = ss_key q" "sc_seq q' = ss_seq q" "sc_body q' = ss_body q"
  shows "sc_decode parse pt data n q' = Fine (sz, \<lparr>sc_key = ss_key p, sc_seq = ss_seq p, sc_body = ss_body p\<rparr>)"
  using assms
  by (auto simp: ss_decode_def sc_decode_def ss_head_size_def Let_def split: if_splits option.splits)

lemma sc_round_trip:
  assumes "\<And>b xs. ser b = Some xs \<Longrightarrow> parse xs = Some b"
    and "sc_encode ser pt p mem n = Fine (sz, mem')" "sz \<noteq> -1" "0 \<le> n" "n \<le> int (length mem)"
    and "0 \<le> pt" "pt < 65536"
  shows "sc_decode parse pt mem' sz q = Fine (sz, p) \<and> peek32 12 mem' = peek32 12 mem"
proof -
  let ?p = "\<lparr>ss_key = sc_key p, ss_seq = sc_seq p, ss_tick = ntoh_int32 (peek32 12 mem), ss_body = sc_body p\<rparr>"
  let ?q = "\<lparr>ss_key = sc_key q, ss_seq = sc_seq q, ss_tick = 0, ss_body = sc_body q\<rparr>"
  have e: "ss_encode ser pt ?p mem n = (sz, mem')"
    using sc_encode_is_ss_encode [OF assms(4,5), of ser pt p] assms(2) by simp
  have c: "body_codec ser parse (\<lambda>b. int (length (the (ser b))))"
    using assms(1) by unfold_locales simp_all
  note d = body_codec.ss_round_trip [OF c e assms(3,5,6,7), of ?q]
  have sz: "16 \<le> sz" using e assms(3) by (auto simp: ss_encode_def ss_head_size_def Let_def split: if_splits option.splits
      dest: serialize_body_Some)
  from d have "sz \<le> int (length mem')"
    using sz by (auto simp: ss_decode_def ss_head_size_def Let_def split: if_splits option.splits)
  then have "sc_decode parse pt mem' sz q = Fine (sz, p)"
    using sc_decode_is_ss_decode [OF _ _ d, of q] sz by (simp add: ss_head_size_def)
  moreover have "ntoh_int32 (peek32 12 mem') = ntoh_int32 (peek32 12 mem)"
    using d sz by (auto simp: ss_decode_def ss_head_size_def Let_def split: if_splits option.splits)
  then have "peek32 12 mem' = peek32 12 mem" by (metis hton_ntoh)
  ultimately show ?thesis by simp
qed

lemma negative_size_passes: "n < 0 \<Longrightarrow> sc_encode ser pt p mem n = OutOfBounds"
  by (simp add: sc_encode_def)

end
