(* ===== verification/LoginFlow.thy ===== *)
theory LoginFlow
  imports GateClient
begin

text \<open>
  The way of a login request through the system: \<open>cs_packet::encode\<close> into the send buffer of the
  client's \<open>tcp_data_handler\<close>, any number of partial writes, a stream that TCP cuts as it likes, the
  framing of the gate with its policy test, and the decoding in \<open>process_player_login\<close>. Shown: the gate
  answers exactly the requests that arrived completely, in their order, and keeps the rest for later.
\<close>

section \<open>The sender\<close>

text \<open>
  \<open>encode\<close> as \<open>send(packet)\<close> calls it on \<open>n\<close> bytes of free space; \<open>raw n\<close> is what stands there before.
\<close>

definition cs_encoder ::
  "('b \<Rightarrow> byte list option) \<Rightarrow> int \<Rightarrow> (int \<Rightarrow> byte list) \<Rightarrow> 'b cs_packet \<Rightarrow> int \<Rightarrow> byte list option" where
  "cs_encoder ser pt raw p n =
     (case cs_encode ser pt p (raw n) n of (sz, mem) \<Rightarrow> if sz < 1 then None else Some (take (nat sz) mem))"

text \<open>What happens to the client's connection: a packet is sent, or the socket can be written again.\<close>

datatype 'b sender_step =
    Post send_result bool "'b cs_packet" bool
  | Writable send_result bool

text \<open>
  A run of the sender: how it ended, the bytes the socket took, the packets that \<open>send\<close> accepted. An
  error event ends the run, \<open>handle_error\<close> closes the connection.
\<close>

fun sender_run ::
  "('b \<Rightarrow> byte list option) \<Rightarrow> ('b \<Rightarrow> int) \<Rightarrow> int \<Rightarrow> (int \<Rightarrow> byte list) \<Rightarrow> (int \<Rightarrow> alloc_result) \<Rightarrow>
   'b sender_step list \<Rightarrow> tcp_handler \<Rightarrow> reactor \<Rightarrow>
   outcome \<times> byte list \<times> 'b cs_packet list \<times> tcp_handler \<times> reactor" where
  "sender_run ser byte_size pt raw alloc [] h r = (Done, [], [], h, r)"
| "sender_run ser byte_size pt raw alloc (Post res ok p delay # xs) h r =
     (case tcp_send_packet alloc res ok (cs_encode_size byte_size pt p) (cs_encoder ser pt raw p) delay h r of
        (ret, ev, out, h1, r1) \<Rightarrow>
          let posted = (if ret = 0 then [p] else []) in
          case ev of
            Event e \<Rightarrow> (Event e, out, posted, h1, r1)
          | Done \<Rightarrow> (case sender_run ser byte_size pt raw alloc xs h1 r1 of
                       (x, out2, ps, h2, r2) \<Rightarrow> (x, out @ out2, posted @ ps, h2, r2)))"
| "sender_run ser byte_size pt raw alloc (Writable res ok # xs) h r =
     (case on_write res ok (id_fd h) h r of
        (ev, out, h1, r1) \<Rightarrow>
          case ev of
            Event e \<Rightarrow> (Event e, out, [], h1, r1)
          | Done \<Rightarrow> (case sender_run ser byte_size pt raw alloc xs h1 r1 of
                       (x, out2, ps, h2, r2) \<Rightarrow> (x, out @ out2, ps, h2, r2)))"

section \<open>Frames\<close>

text \<open>The bytes of one login request, as the gate takes them.\<close>

definition login_frame :: "(byte list \<Rightarrow> 'b option) \<Rightarrow> 'b cs_packet \<Rightarrow> byte list \<Rightarrow> 'b cs_packet \<Rightarrow> bool" where
  "login_frame parse request f p \<longleftrightarrow>
     12 \<le> length f \<and> length f \<le> 10240 \<and> uint (ntoh_int16 (peek16 0 f)) = int (length f)
     \<and> uint (ntoh_int16 (peek16 2 f)) = cs_player_login_request_type
     \<and> cs_decode parse cs_player_login_request_type f (int (length f)) request = Fine (int (length f), p)"

text \<open>The body fits into what the gate accepts as a packet.\<close>

definition small_body :: "('b \<Rightarrow> byte list option) \<Rightarrow> 'b cs_packet \<Rightarrow> bool" where
  "small_body ser p \<longleftrightarrow> (case ser (cs_body p) of None \<Rightarrow> True | Some xs \<Rightarrow> length xs \<le> 10228)"

lemma login_type: "cs_player_login_request_type = 4" "cs_head_have_plus 4" "cs_head_size 4 = 12"
  by (simp_all add: msg_defs head_size_defs cs_head_have_plus_def)

lemma encode_needs_room:
  assumes "cs_encode ser pt p mem n = (sz, mem')" "sz \<noteq> -1" "n \<le> int (length mem)"
  shows "\<exists>xs. ser (cs_body p) = Some xs \<and> sz = cs_head_size (word_of_int pt) + int (length xs)
    \<and> sz \<le> n \<and> length mem' = length mem"
proof -
  from assms(1,2) obtain mem1 pos where b: "sz = cs_head_size (word_of_int pt) + pos"
      "serialize_body ser (cs_body p) (cs_head_size (word_of_int pt)) mem n = Some (mem1, pos)"
      "mem' = (let mem2 = poke16 2 (hton_int16 (word_of_int pt)) (poke16 0 (hton_int16 (word_of_int sz)) mem1)
               in if cs_head_have_plus (word_of_int pt)
                  then poke32 8 (hton_int32 (cs_seq p)) (poke16 6 (hton_int16 (cs_reserved p))
                         (poke16 4 (hton_int16 (cs_code p)) mem2))
                  else mem2)"
    by (auto simp: cs_encode_def Let_def split: if_splits option.splits)
  from serialize_body_Some [OF b(2)] obtain xs where xs: "ser (cs_body p) = Some xs"
      "mem1 = blit mem (nat (cs_head_size (word_of_int pt))) xs" "pos = int (length xs)" "sz \<le> n"
    unfolding b(1) by blast
  have "length mem1 = length mem"
    using xs b(1) assms(3) cs_head_size_bounds [of "word_of_int pt"] unfolding xs(2)
    by (intro length_blit) linarith
  moreover have "4 \<le> length mem" "cs_head_have_plus (word_of_int pt) \<Longrightarrow> 12 \<le> length mem"
    using xs(3,4) b(1) assms(3) by (auto simp: head_size_defs split: if_splits)
  ultimately have "length mem' = length mem"
    unfolding b(3) Let_def by (cases "cs_head_have_plus (word_of_int pt)") (simp_all add: length_poke)
  with xs b(1) show ?thesis by simp
qed

lemma encoded_login_frame:
  assumes codec: "\<And>b xs. ser b = Some xs \<Longrightarrow> parse xs = Some b"
    and raw: "length (raw n) = nat n" and small: "small_body ser p"
    and enc: "cs_encoder ser cs_player_login_request_type raw p n = Some f"
  shows "login_frame parse request f p \<and> int (length f) \<le> n"
proof -
  obtain sz mem where e: "cs_encode ser 4 p (raw n) n = (sz, mem)" by fastforce
  with enc have sz: "1 \<le> sz" "f = take (nat sz) mem" by (auto simp: cs_encoder_def login_type split: if_splits)
  have n: "0 < n" using e sz by (auto simp: cs_encode_def login_type Let_def split: if_splits)
  then have room: "n \<le> int (length (raw n))" using raw by simp
  from encode_needs_room [OF e _ room] sz obtain xs where
    xs: "ser (cs_body p) = Some xs" "sz = 12 + int (length xs)" "sz \<le> n" "length mem = length (raw n)"
    by (auto simp: login_type)
  have len: "length f = nat sz" using xs raw n by (simp add: sz(2))
  then have f: "int (length f) = sz" "12 \<le> length f" "length f \<le> 10240"
    using xs small by (simp_all add: small_body_def)
  have c: "body_codec ser parse (\<lambda>b. int (length (the (ser b))))"
    using codec by unfold_locales simp_all
  have "cs_decode parse 4 mem sz request = Fine (sz, p)"
    by (rule body_codec.cs_round_trip [OF c e _ room]) (use sz in \<open>simp_all add: login_type\<close>)
  moreover have "mem = f @ drop (nat sz) mem" by (simp add: sz(2))
  ultimately have d: "cs_decode parse 4 (f @ drop (nat sz) mem) sz request = Fine (sz, p)" by simp
  then have h: "uint (ntoh_int16 (peek16 0 f)) = sz" "uint (ntoh_int16 (peek16 2 f)) = 4"
    using f xs(2) by (auto simp: cs_decode_def login_type Let_def block_simps split: if_splits option.splits)
  have "cs_decode parse 4 f sz request = Fine (sz, p)"
    using cs_decode_append [of "\<lparr>pi_size = sz, pi_type = 4, pi_data = f\<rparr>" f parse 4 "drop (nat sz) mem" request]
      h d f xs(2) by simp
  then show ?thesis using f h xs(3) by (simp add: login_frame_def login_type)
qed

text \<open>A run of the sender puts the frames of the accepted packets on the wire, in their order.\<close>

lemma sender_run_frames:
  assumes codec: "\<And>b xs. ser b = Some xs \<Longrightarrow> parse xs = Some b"
    and raw: "\<And>n. length (raw n) = nat n" and al: "alloc_sound alloc"
    and "buf_inv (sbuf h)" "0 < max_write_size h"
    and "sender_run ser byte_size cs_player_login_request_type raw alloc steps h r = (x, out, ps, h', r')"
    and "list_all (\<lambda>s. case s of Post res ok p delay \<Rightarrow> small_body ser p | Writable res ok \<Rightarrow> True) steps"
  shows "\<exists>fs. list_all2 (login_frame parse request) fs ps
    \<and> out @ pending (sbuf h') = pending (sbuf h) @ concat fs"
  using assms(4-)
proof (induction steps arbitrary: h r x out ps h' r')
  case (Cons s steps)
  show ?case
  proof (cases s)
    case (Writable res ok)
    obtain ev o1 h1 r1 where w: "on_write res ok (id_fd h) h r = (ev, o1, h1, r1)" by (metis prod_cases4)
    note ok = on_write_stream_lemma [OF Cons.prems(1,2) w] on_write_keeps [OF w]
    show ?thesis
    proof (cases ev)
      case Done
      obtain x2 o2 ps2 h2 r2 where
        "sender_run ser byte_size cs_player_login_request_type raw alloc steps h1 r1 = (x2, o2, ps2, h2, r2)"
        by (metis prod_cases5)
      with Cons.IH [OF _ _ this] Cons.prems w ok Done show ?thesis by (auto simp: Writable)
    qed (use Cons.prems(3) w ok Writable in \<open>auto intro: exI [of _ "[]"]\<close>)
  next
    case (Post res ok p delay)
    let ?enc = "cs_encoder ser cs_player_login_request_type raw p"
    have frame: "login_frame parse request bs p \<and> int (length bs) \<le> n" if "?enc n = Some bs" for n bs
      using encoded_login_frame [where ser = ser and parse = parse, OF codec raw _ that] Cons.prems(4) Post by auto
    then have enc: "bs \<noteq> [] \<and> int (length bs) \<le> n" if "?enc n = Some bs" for n bs
      using frame [OF that] by (auto simp: login_frame_def)
    obtain ret ev o1 h1 r1 where t: "tcp_send_packet alloc res ok (cs_encode_size byte_size cs_player_login_request_type p)
        ?enc delay h r = (ret, ev, o1, h1, r1)" by (metis prod_cases5)
    note sent = send_packet_stream [OF Cons.prems(1) al Cons.prems(2) enc t]
    obtain fs1 where fs1: "list_all2 (login_frame parse request) fs1 (if ret = 0 then [p] else [])"
      "o1 @ pending (sbuf h1) = pending (sbuf h) @ concat fs1"
    proof (cases "ret = 0")
      case True
      with sent obtain n bs where "?enc n = Some bs" "o1 @ pending (sbuf h1) = pending (sbuf h) @ bs" by auto
      then show ?thesis using that [of "[bs]"] frame True by simp
    qed (use sent that [of "[]"] in auto)
    show ?thesis
    proof (cases ev)
      case Done
      obtain x2 o2 ps2 h2 r2 where s2:
        "sender_run ser byte_size cs_player_login_request_type raw alloc steps h1 r1 = (x2, o2, ps2, h2, r2)"
        by (metis prod_cases5)
      from Cons.IH [OF _ _ s2] sent Cons.prems(2,4) obtain fs2 where
        "list_all2 (login_frame parse request) fs2 ps2" "o2 @ pending (sbuf h2) = pending (sbuf h1) @ concat fs2"
        by auto
      moreover have "list_all2 (login_frame parse request) (fs1 @ fs2) ((if ret = 0 then [p] else []) @ ps2)"
        by (rule list_all2_appendI [OF fs1(1) calculation(1)])
      moreover have "(o1 @ o2) @ pending (sbuf h2) = pending (sbuf h) @ concat (fs1 @ fs2)"
        using fs1(2) calculation(2) by (metis append.assoc concat_append)
      ultimately show ?thesis using Cons.prems(3) t s2 Done by (auto simp: Post Let_def)
    qed (use Cons.prems(3) t fs1 Post in \<open>auto simp: Let_def\<close>)
  qed
qed (auto intro: exI [of _ "[]"])

section \<open>The receiver\<close>

abbreviation no_checks :: gate_config where
  "no_checks \<equiv> \<lparr>cfg_check_threshold = False, cfg_check_seq = False\<rparr>"

definition replied :: "byte list \<Rightarrow> nat \<Rightarrow> client \<Rightarrow> client" where
  "replied rep k c = c\<lparr>outbox := outbox c @ replicate k rep\<rparr>"

lemma replied_simps [simp]: "replied rep 0 c = c" "m_policy_status (replied rep k c) = m_policy_status c"
    "replied rep k (replied rep (Suc 0) c) = replied rep (Suc k) c"
  by (simp_all add: replied_def)

lemma login_frame_processed:
  assumes f: "login_frame parse request f p" and c: "m_policy_status c \<noteq> 1"
    and P: "P = gate_process_packet no_checks now m parse request rep"
  shows "frame_run gate_head_info P c (f @ ys) = frame_run gate_head_info P (replied rep 1 c) ys"
proof -
  let ?i = "\<lparr>pi_size = int (length f), pi_type = 4, pi_data = f @ ys\<rparr>"
  have f4: "4 \<le> length f" "length f \<le> 10240" "uint (ntoh_int16 (peek16 0 f)) = int (length f)"
    "uint (ntoh_int16 (peek16 2 f)) = 4" using f by (simp_all add: login_frame_def login_type)
  then have i: "gate_head_info c (f @ ys) = (0, ?i, c)"
    by (simp add: gate_head_info_cases block_simps)
  have ne: "f @ ys \<noteq> []" using f4(1) by auto
  have "cs_decode parse 4 (f @ ys) (int (length f)) request = Fine (int (length f), p)"
    using cs_decode_append [of "\<lparr>pi_size = int (length f), pi_type = 4, pi_data = f\<rparr>" f parse 4 ys request] f f4
    by (simp add: login_frame_def login_type)
  then have p: "P c ?i = (0, replied rep 1 c)"
    using c by (simp add: P gate_process_packet_def gate_process_def process_player_login_def login_type replied_def)
  have "frame_run gate_head_info P c (f @ ys) = frame_run gate_head_info P (replied rep 1 c) (drop (length f) (f @ ys))"
    using frame_run_step [where info = gate_head_info and proc = P, OF ne i _ _ _ p] f4(1,2)
    by (simp add: MAX_PACKET_def)
  then show ?thesis by simp
qed

lemma login_frames_processed:
  assumes P: "P = gate_process_packet no_checks now m parse request rep"
  shows "list_all2 (login_frame parse request) fs ps \<Longrightarrow> m_policy_status c \<noteq> 1 \<Longrightarrow>
    frame_run gate_head_info P c (concat fs @ ys) = frame_run gate_head_info P (replied rep (length fs) c) ys"
proof (induction arbitrary: c rule: list_all2_induct)
  case (Cons f fs p ps)
  then show ?case using login_frame_processed [OF Cons.hyps(1) _ P, of c "concat fs @ ys"] by simp
qed simp

text \<open>The beginning of a frame waits for the rest, and is no policy request.\<close>

lemma login_frame_waits:
  assumes f: "login_frame parse request (ys @ zs) p" and ne: "zs \<noteq> []"
  shows "frame_run gate_head_info P c ys = (Done, ys, c) \<and> no_angle ys"
proof -
  have l: "4 \<le> length (ys @ zs)" "length (ys @ zs) \<le> 10240"
    and s: "uint (ntoh_int16 (peek16 0 (ys @ zs))) = int (length (ys @ zs))"
    using f by (simp_all add: login_frame_def)
  have "fst (gate_head_info c (ys @ zs)) \<noteq> -4"
    using l s by (simp add: gate_head_info_cases)
  then have "no_angle ys" using angle_is_too_long [OF l(1)] by (cases ys) (auto simp: no_angle_def)
  moreover have "frame_run gate_head_info P c ys = (Done, ys, c)" if y: "ys \<noteq> []"
  proof (cases "length ys < 4")
    case True
    then have "gate_head_info c ys = (0, packet_info_zero\<lparr>pi_size := 4\<rparr>, c)" by (simp add: gate_head_info_cases)
    from frame_run_wait [where info = gate_head_info, OF y this] True show ?thesis
      by (simp add: MAX_PACKET_def packet_info_zero_def)
  next
    case False
    then have "gate_head_info c ys = (0, \<lparr>pi_size = int (length (ys @ zs)),
        pi_type = uint (ntoh_int16 (peek16 2 ys)), pi_data = ys\<rparr>, c)"
      using s l by (simp add: gate_head_info_cases block_simps)
    from frame_run_wait [where info = gate_head_info, OF y this] False l ne show ?thesis
      by (cases zs) (auto simp: MAX_PACKET_def)
  qed
  ultimately show ?thesis by (cases "ys = []") simp_all
qed

text \<open>A prefix of a list of frames: some whole frames and the beginning of the next.\<close>

lemma prefix_of_frames:
  assumes "out @ queued = concat fs"
  shows "\<exists>k rest. k \<le> length fs \<and> out = concat (take k fs) @ rest
    \<and> (rest = [] \<and> (queued = [] \<longrightarrow> k = length fs) \<or> k < length fs \<and> queued \<noteq> [] \<and> (\<exists>zs. zs \<noteq> [] \<and> fs ! k = rest @ zs))"
  using assms
proof (induction fs arbitrary: out)
  case (Cons f fs)
  show ?case
  proof (cases "length f \<le> length out")
    case True
    define out' where "out' = drop (length f) out"
    have "take (length f) out = f" "out' @ queued = concat fs"
      using arg_cong [OF Cons.prems, of "take (length f)"] arg_cong [OF Cons.prems, of "drop (length f)"] True
      by (simp_all add: out'_def)
    then have o: "out = f @ out'" "out' @ queued = concat fs" by (metis append_take_drop_id out'_def)+
    from Cons.IH [OF o(2)] obtain k rest where "k \<le> length fs" "out' = concat (take k fs) @ rest"
      "rest = [] \<and> (queued = [] \<longrightarrow> k = length fs) \<or> k < length fs \<and> queued \<noteq> [] \<and> (\<exists>zs. zs \<noteq> [] \<and> fs ! k = rest @ zs)"
      by blast
    then show ?thesis by (intro exI [of _ "Suc k"] exI [of _ rest]) (auto simp: o(1))
  next
    case False
    then obtain zs where z: "f = out @ zs" "zs \<noteq> []"
      using Cons.prems by (auto simp: append_eq_append_conv2)
    moreover have "queued \<noteq> []" using Cons.prems z by auto
    ultimately show ?thesis by (intro exI [of _ 0] exI [of _ out]) auto
  qed
qed simp

section \<open>Properties\<close>

lemma whole_no_checks: "whole_packets no_checks = gate_process_packet no_checks"
  by (simp add: fun_eq_iff whole_packets_def)

text \<open>C7: A login request finds its way. Let a client send login requests with bodies of at most 10228 bytes
  through an empty, open \<open>tcp_data_handler\<close> (the body parser reads back what the serializer writes), with any partial writes, delays, failed allocations and errors of the
  socket; let TCP cut the bytes the socket took in any pieces, with any memory behind them at a gate whose
  rate and sequence checks are off. Then those bytes are the frames \<open>fs\<close> of the requests that \<open>send\<close>
  accepted, in order and up to the point where the socket stopped; the gate frames them without an
  error, answers each of the \<open>k\<close> requests whose frame has arrived in full exactly once, and keeps the
  proper beginning of the next frame. When nothing is left in the send buffer, all accepted requests are
  answered and no rest remains.\<close>

theorem login_requests_answered:
  assumes "\<And>b xs. ser b = Some xs \<Longrightarrow> parse xs = Some b"
    and "\<And>n. length (raw n) = nat n" and "alloc_sound alloc"
    and "buf_inv (sbuf h)" "pending (sbuf h) = []" "0 < max_write_size h"
    and "list_all (\<lambda>s. case s of Post res ok p delay \<Rightarrow> small_body ser p | Writable res ok \<Rightarrow> True) steps"
    and "sender_run ser byte_size cs_player_login_request_type raw alloc steps h r = (x, out, ps, h', r')"
    and "concat (map fst xs) = out" "m_policy_status c \<noteq> 1"
  shows "\<exists>fs k rest. list_all2 (login_frame parse request) fs ps \<and> out @ pending (sbuf h') = concat fs
    \<and> k \<le> length fs \<and> out = concat (take k fs) @ rest
    \<and> (rest = [] \<or> k < length fs \<and> (\<exists>zs. zs \<noteq> [] \<and> fs ! k = rest @ zs))
    \<and> gate_reads (\<lambda>behind. gate_process_packet no_checks now behind parse request rep) c [] xs = (Done, rest, replied rep k c)
    \<and> (pending (sbuf h') = [] \<longrightarrow> k = length ps \<and> rest = [])"
proof -
  let ?P = "gate_process_packet no_checks now [] parse request rep"
  obtain fs where fs: "list_all2 (login_frame parse request) fs ps" "out @ pending (sbuf h') = concat fs"
    using sender_run_frames [where ser = ser and parse = parse and request = request, OF assms(1,2,3,4,6,8,7)] assms(5)
    by auto
  from prefix_of_frames [OF fs(2)] obtain k rest where k: "k \<le> length fs" "out = concat (take k fs) @ rest"
    and rest: "rest = [] \<and> (pending (sbuf h') = [] \<longrightarrow> k = length fs)
      \<or> k < length fs \<and> pending (sbuf h') \<noteq> [] \<and> (\<exists>zs. zs \<noteq> [] \<and> fs ! k = rest @ zs)" by blast
  have len: "length fs = length ps" using fs(1) by (rule list_all2_lengthD)
  have wait: "frame_run gate_head_info ?P c' rest = (Done, rest, c') \<and> no_angle rest" for c'
  proof (cases "rest = []")
    case False
    with rest obtain zs where "k < length fs" "zs \<noteq> []" "fs ! k = rest @ zs" by blast
    with list_all2_nthD [OF fs(1), of k] show ?thesis using login_frame_waits by metis
  qed (simp add: no_angle_def)
  have "list_all2 (login_frame parse request) (take k fs) (take k ps)" using fs(1) by simp
  from login_frames_processed [OF refl this assms(10), of now "[]" rep rest] k(1) wait
  have "frame_run gate_head_info ?P c (concat (map fst xs)) = (Done, rest, replied rep k c)"
    by (simp add: k(2) assms(9) min_def)
  then have "gate_reads (\<lambda>behind. gate_process_packet no_checks now behind parse request rep) c [] xs = (Done, rest, replied rep k c)"
    using gate_reads_stream [of no_checks now "[]" parse request rep c "[]" xs rest "replied rep k c"] wait [of c]
    by (simp add: whole_no_checks)
  with fs k rest len show ?thesis by (intro exI [of _ fs] exI [of _ k] exI [of _ rest]) auto
qed

definition sample_login :: "byte list cs_packet" where
  "sample_login = \<lparr>cs_code = 0, cs_reserved = 0, cs_seq = 1, cs_body = [7, 7, 7]\<rparr>"

definition raw0 :: "int \<Rightarrow> byte list" where "raw0 n = replicate (nat n) 0"

theorem login_requests_answered_witness:
  "\<exists>x out ps h' r'. sender_run Some (\<lambda>b. int (length b)) cs_player_login_request_type raw0 sample_alloc
      [Post (Sent 5) True sample_login False, Writable (Sent 100) True] sample_handler sample_reactor = (x, out, ps, h', r')
    \<and> ps = [sample_login] \<and> length out = 15
    \<and> gate_reads (\<lambda>behind. gate_process_packet no_checks 0 behind Some sample_login [1, 2]) sample_client []
        [(take 3 out, [60, 112]), (drop 3 out, [])] = (Done, [], replied [1, 2] 1 sample_client)"
proof -
  let ?size = "\<lambda>b. int (length b)"
  let ?enc = "cs_encoder Some 4 raw0 sample_login"
  let ?f = "[0, 15, 0, 4, 0, 0, 0, 0, 0, 0, 0, 1, 7, 7, 7] :: byte list"
  have need: "cs_encode_size ?size 4 sample_login = 15"
    by (simp add: cs_encode_size_def sample_login_def login_type)
  have enc: "?enc 23 = Some ?f"
    by (simp add: cs_encoder_def cs_encode_def sample_login_def raw0_def login_type serialize_body_def put_bytes_def
        aliased_buf_new_def tellp_def seekoff_def Let_def blit_def poke16_def poke32_def le16_def le32_def
        hton_int16_def hton_int32_def bswap_16_def bswap_32_def)
  obtain sb where e: "ensure_space sample_alloc 15 (sbuf sample_handler) = (0, sb)" and sp: "space_size sb = 23"
    by (simp add: ensure_space_def sample_handler_def space_size_def buffer_resize_def capacity_def sample_alloc_def Let_def)
  have sb: "buf_inv sb" "pending sb = []"
    using ensure_space_ok [OF sample_handler_inv(1) alloc_total_sound [OF sample_alloc_total] e] sample_handler_inv by auto
  obtain q sb2 where q: "push_data (int (length ?f)) (store_at_space ?f sb) = (q, sb2)" by fastforce
  from buffer_fill [OF sb(1) _ _ q] sp sb have sb2: "buf_inv sb2" "pending sb2 = ?f" by simp_all
  let ?h = "sample_handler\<lparr>sbuf := sb2\<rparr>"
  obtain x1 o1 h1 r1 where w1: "on_write (Sent 5) True 3 ?h
      (snd (mod_handler True 3 (Some (self sample_handler)) (EVENT_READ OR EVENT_WRITE) sample_reactor)) = (x1, o1, h1, r1)"
    by (metis prod_cases4)
  have mw: "max_write_size sample_handler = 16777216" by (simp add: sample_handler_def tcp_new_def MAX_WRITE_SIZE_def)
  have o1: "x1 = Done" "o1 = take 5 ?f" using on_write_sent [OF _ _ w1] sb2 mw by simp_all
  have h1: "buf_inv (sbuf h1)" "pending (sbuf h1) = drop 5 ?f" "max_write_size h1 = 16777216" "id_fd h1 = 3"
    using on_write_stream_lemma [OF _ _ w1] on_write_keeps [OF w1] sb2 mw o1 sample_handler_inv(4) by simp_all
  obtain x2 o2 h2 r2 where w2: "on_write (Sent 100) True 3 h1 r1 = (x2, o2, h2, r2)" by (metis prod_cases4)
  have o2: "x2 = Done" "o2 = drop 5 ?f" using on_write_sent [OF h1(1) _ w2] h1 by simp_all
  have empty: "pending (sbuf h2) = []" using on_write_stream_lemma [OF h1(1) _ w2] h1 o2 by simp
  have small: "list_all (\<lambda>s. case s of Post res ok p delay \<Rightarrow> small_body Some p | Writable res ok \<Rightarrow> True)
      [Post (Sent 5) True sample_login False, Writable (Sent 100) True]"
    by (simp add: small_body_def sample_login_def)
  have parse: "Some b = Some xs \<Longrightarrow> Some xs = Some b" for b xs :: "byte list" by simp
  have raw: "length (raw0 n) = nat n" for n by (simp add: raw0_def)
  have cut: "concat (map fst [(take 3 ?f, [60, 112]), (drop 3 ?f, [] :: byte list)]) = ?f" by simp
  have idle: "m_policy_status sample_client \<noteq> 1" by (simp add: sample_client_def client_new_def)
  have run: "sender_run Some ?size cs_player_login_request_type raw0 sample_alloc
      [Post (Sent 5) True sample_login False, Writable (Sent 100) True] sample_handler sample_reactor
      = (Done, ?f, [sample_login], h2, r2)"
    using e sp enc q[simplified] w1 o1 w2 o2 h1 need sample_handler_inv(4)
    by (simp add: login_type tcp_send_packet_def Let_def)
  obtain k rest where "gate_reads (\<lambda>behind. gate_process_packet no_checks 0 behind Some sample_login [1, 2]) sample_client []
        [(take 3 ?f, [60, 112]), (drop 3 ?f, [])] = (Done, rest, replied [1, 2] k sample_client)
    \<and> (pending (sbuf h2) = [] \<longrightarrow> k = length [sample_login] \<and> rest = [])"
    using login_requests_answered [where parse = Some and ser = Some and now = 0 and rep = "[1, 2]" and request = sample_login, OF parse raw alloc_total_sound [OF sample_alloc_total] sample_handler_inv(1,2,3) small run cut idle]
    by blast
  with empty have g: "gate_reads (\<lambda>behind. gate_process_packet no_checks 0 behind Some sample_login [1, 2]) sample_client []
      [(take 3 ?f, [60, 112]), (drop 3 ?f, [])] = (Done, [], replied [1, 2] 1 sample_client)"
    by (metis One_nat_def length_Cons list.size(3))
  show ?thesis
    by (intro exI [of _ Done] exI [of _ ?f] exI [of _ "[sample_login]"] exI [of _ h2] exI [of _ r2] conjI run g) simp_all
qed

end
