(* ===== verification/GateSession.thy ===== *)
theory GateSession
  imports GateApp LoginFlow
begin

text \<open>
  The events of one connection of the gate server with everything they reach: \<open>tcp_data_handler::on_read\<close> and
  \<open>on_write\<close>, the virtual methods of \<open>ClientConnection\<close>, the answers they send through the send buffer of the
  same object, and \<open>on_event\<close>, which closes the connection and gives the object back. \<open>GateClient\<close> collects the
  answers in \<open>outbox\<close>; here they go to the socket, and a send that fails closes the connection in the middle
  of the read event. Shown: without such a failure any sequence of events does what \<open>GateClient\<close> says, and the
  answers leave in order; what happens with one, for either value of \<open>m_readall_flag\<close>.
\<close>

section \<open>State\<close>

text \<open>
  \<open>g_hnd p\<close> is the \<open>tcp_data_handler\<close> part of the object at \<open>p\<close>; it exists as long as \<open>conns (g_app w) p\<close> does.
  \<open>g_wire p\<close> is what the sockets of \<open>p\<close> accepted, \<open>g_closed\<close> the descriptors that were closed, \<open>g_answers\<close> the answers
  that \<open>send\<close> and \<open>epoll_ctl\<close> are going to give; when they run out, \<open>send\<close> would block.
\<close>

record session_world =
  g_app :: gate_app
  g_hnd :: "nat \<Rightarrow> tcp_handler"
  g_reactor :: reactor
  g_wire :: "nat \<Rightarrow> byte list"
  g_closed :: "int list"
  g_answers :: "(send_result \<times> bool) list"

text \<open>
  What stays fixed during the event: the allocator, the configuration, \<open>time(0)\<close>, the memory behind the receive
  block, the parser of the request body, and \<open>encode_size\<close> and \<open>encode\<close> of the response.
\<close>

record 'b session_env =
  e_alloc :: "int \<Rightarrow> alloc_result"
  e_cfg :: gate_config
  e_now :: int
  e_beyond :: "byte list"
  e_parse :: "byte list \<Rightarrow> 'b option"
  e_request :: "'b cs_packet"
  e_need :: int
  e_encode :: "int \<Rightarrow> byte list option"

definition next_answer :: "session_world \<Rightarrow> (send_result \<times> bool) \<times> session_world" where
  "next_answer w = (case g_answers w of [] \<Rightarrow> ((SendErr EAGAIN, True), w) | x # xs \<Rightarrow> (x, w\<lparr>g_answers := xs\<rparr>))"

definition set_client :: "nat \<Rightarrow> client \<Rightarrow> session_world \<Rightarrow> session_world" where
  "set_client p c w = w\<lparr>g_app := update_client p (\<lambda>u. c) (g_app w)\<rparr>"

definition set_rbuf :: "nat \<Rightarrow> buffer \<Rightarrow> session_world \<Rightarrow> session_world" where
  "set_rbuf p b w = w\<lparr>g_hnd := (g_hnd w)(p := (g_hnd w p)\<lparr>rbuf := b\<rparr>)\<rparr>"

text \<open>The memory behind the unread bytes: the free part of the block, then what lies beyond it.\<close>

definition behind_data :: "'b session_env \<Rightarrow> buffer \<Rightarrow> byte list" where
  "behind_data env b = drop (nat (m_space b - m_begin b)) (block b) @ e_beyond env"

section \<open>Closing\<close>

text \<open>\<open>ClientConnection::on_event\<close> with \<open>fini()\<close> of the handler.\<close>

definition session_event :: "nat \<Rightarrow> session_world \<Rightarrow> session_world checked" where
  "session_event p w =
     (case on_event p (g_app w) of
        OutOfBounds \<Rightarrow> OutOfBounds
      | Fine a \<Rightarrow> case tcp_fini False (g_hnd w p) (g_reactor w) of (h, r, cl) \<Rightarrow>
          Fine (w\<lparr>g_app := a, g_hnd := (g_hnd w)(p := h), g_reactor := r, g_closed := g_closed w @ cl\<rparr>))"

section \<open>Sending\<close>

text \<open>\<open>send(data, size, 0)\<close> of the object at \<open>p\<close>.\<close>

definition session_send :: "'b session_env \<Rightarrow> byte list \<Rightarrow> nat \<Rightarrow> session_world \<Rightarrow> int \<times> session_world" where
  "session_send env data p w =
     (case next_answer w of ((res, ok), w1) \<Rightarrow>
      case tcp_send (e_alloc env) res ok data False (g_hnd w1 p) (g_reactor w1) of (ret, out, h, r) \<Rightarrow>
        (ret, w1\<lparr>g_hnd := (g_hnd w1)(p := h), g_reactor := r, g_wire := (g_wire w1)(p := g_wire w1 p @ out)\<rparr>))"

text \<open>\<open>send(packet*, 0)\<close>: an error of \<open>send\<close> inside \<open>on_write\<close> closes the connection.\<close>

definition session_send_packet :: "'b session_env \<Rightarrow> nat \<Rightarrow> session_world \<Rightarrow> (int \<times> session_world) checked" where
  "session_send_packet env p w =
     (case next_answer w of ((res, ok), w1) \<Rightarrow>
      case tcp_send_packet (e_alloc env) res ok (e_need env) (e_encode env) False (g_hnd w1 p) (g_reactor w1) of
        (ret, ev, out, h, r) \<Rightarrow>
          let w2 = w1\<lparr>g_hnd := (g_hnd w1)(p := h), g_reactor := r, g_wire := (g_wire w1)(p := g_wire w1 p @ out)\<rparr>
          in case ev of
               Done \<Rightarrow> Fine (ret, w2)
             | Event e \<Rightarrow> (case session_event p w2 of OutOfBounds \<Rightarrow> OutOfBounds | Fine w3 \<Rightarrow> Fine (ret, w3)))"

section \<open>The packet\<close>

text \<open>\<open>process_player_login\<close>; the result of \<open>send\<close> is not looked at.\<close>

definition session_login :: "'b session_env \<Rightarrow> nat \<Rightarrow> packet_info \<Rightarrow> session_world \<Rightarrow> (int \<times> session_world) checked" where
  "session_login env p pinfo w =
     (case cs_decode (e_parse env) cs_player_login_request_type (pi_data pinfo) (pi_size pinfo) (e_request env) of
        OutOfBounds \<Rightarrow> OutOfBounds
      | Fine (n, q) \<Rightarrow>
          if n \<noteq> pi_size pinfo then Fine (-1, w)
          else case session_send_packet env p w of
                 OutOfBounds \<Rightarrow> OutOfBounds
               | Fine (ret, w1) \<Rightarrow> Fine (0, w1))"

text \<open>\<open>process_packet\<close> of the object at \<open>p\<close>, whose receive buffer is \<open>b\<close>.\<close>

definition session_process ::
  "'b session_env \<Rightarrow> nat \<Rightarrow> packet_info \<Rightarrow> session_world \<Rightarrow> (int \<times> session_world) checked" where
  "session_process env p pinfo w =
     (case conns (g_app w) p of
        None \<Rightarrow> OutOfBounds
      | Some c \<Rightarrow>
          if m_policy_status c = 1
          then (case session_send env POLICY_RESPONSE p w of (ret, w1) \<Rightarrow>
                  Fine (0, set_client p (c\<lparr>m_policy_status := 2\<rparr>) w1))
          else let (pass, c1) = (if cfg_check_threshold (e_cfg env)
                                 then check_threshold (e_now env) (pi_type pinfo) c else (True, c)) in
            if \<not> pass then Fine (0, set_client p c1 w)
            else let (pass2, c2) = (if cfg_check_seq (e_cfg env)
                     then check_seq (sint (ntoh_int32 (peek32 8 (pi_data pinfo @ behind_data env (rbuf (g_hnd w p)))))) c1
                     else (True, c1)) in
              if \<not> pass2 then Fine (-1, set_client p c2 w)
              else if pi_type pinfo = cs_player_login_request_type
              then session_login env p pinfo (set_client p c2 w)
              else Fine (0, set_client p c2 w))"

text \<open>The receive buffer after a packet: as it was, or cleared because the connection was closed.\<close>

lemma on_write_frame:
  "on_write res ok fd h r = (x, out, h', r') \<Longrightarrow> h' = h\<lparr>sbuf := sbuf h'\<rparr>"
  by (auto simp: on_write_def Let_def split: if_splits send_result.splits)

lemma tcp_send_frame:
  "tcp_send alloc res ok data delay h r = (ret, out, h', r') \<Longrightarrow> h' = h\<lparr>sbuf := sbuf h'\<rparr>"
  by (auto simp: tcp_send_def Let_def split: if_splits send_result.splits prod.splits)

lemma tcp_send_packet_frame:
  assumes "tcp_send_packet alloc res ok need encode delay h r = (ret, ev, out, h', r')"
  shows "h' = h\<lparr>sbuf := sbuf h'\<rparr>"
proof -
  have w: "h2 = h1\<lparr>sbuf := sbuf h2\<rparr>" if "on_write res ok fd h1 r1 = (x, o2, h2, r2)" for fd h1 r1 x o2 h2 r2
    using that by (rule on_write_frame)
  show ?thesis
    using assms by (auto simp: tcp_send_packet_def Let_def split: if_splits prod.splits option.splits dest!: w)
qed

lemma next_answer_app:
  "next_answer w = (a, w1) \<Longrightarrow> g_app w1 = g_app w \<and> g_hnd w1 = g_hnd w \<and> g_reactor w1 = g_reactor w
     \<and> g_wire w1 = g_wire w \<and> g_closed w1 = g_closed w"
  by (auto simp: next_answer_def split: list.splits)

lemma session_event_rbuf:
  "session_event p w = Fine w' \<Longrightarrow>
    rbuf (g_hnd w' p) = rbuf (g_hnd w p) \<or> rbuf (g_hnd w' p) = buffer_clear (rbuf (g_hnd w p))"
  by (auto simp: session_event_def tcp_fini_def split: checked.splits if_splits)

lemma sends_keep_rbuf:
  "tcp_send alloc res ok data delay h r = (ret, out, h', r') \<Longrightarrow> rbuf h' = rbuf h"
  "tcp_send_packet alloc res ok need encode delay h r = (ret, ev, out, h', r') \<Longrightarrow> rbuf h' = rbuf h"
  by (metis tcp_send_frame tcp_handler.select_convs(2) tcp_handler.surjective tcp_handler.update_convs(3))
    (metis tcp_send_packet_frame tcp_handler.select_convs(2) tcp_handler.surjective tcp_handler.update_convs(3))

lemma set_client_simps [simp]:
  "g_hnd (set_client p c w) = g_hnd w" "g_reactor (set_client p c w) = g_reactor w"
  "g_wire (set_client p c w) = g_wire w" "g_closed (set_client p c w) = g_closed w"
  "g_answers (set_client p c w) = g_answers w" "g_app (set_client p c w) = update_client p (\<lambda>u. c) (g_app w)"
  by (simp_all add: set_client_def)

lemma session_send_packet_rbuf:
  assumes "session_send_packet env p w = Fine (ret, w')"
  shows "rbuf (g_hnd w' p) = rbuf (g_hnd w p) \<or> rbuf (g_hnd w' p) = buffer_clear (rbuf (g_hnd w p))"
  using assms
  by (auto simp: session_send_packet_def Let_def split: prod.splits outcome.splits checked.splits
      dest!: next_answer_app sends_keep_rbuf(2) session_event_rbuf)

lemma session_process_rbuf:
  assumes "session_process env p pinfo w = Fine (ret, w')"
  shows "rbuf (g_hnd w' p) = rbuf (g_hnd w p) \<or> rbuf (g_hnd w' p) = buffer_clear (rbuf (g_hnd w p))"
proof -
  have s: "rbuf (g_hnd w2 p) = rbuf (g_hnd w1 p)" if "session_send env data p w1 = (r, w2)" for data w1 r w2
    using that by (auto simp: session_send_def split: prod.splits dest!: next_answer_app sends_keep_rbuf(1))
  have l: "rbuf (g_hnd w2 p) = rbuf (g_hnd w1 p) \<or> rbuf (g_hnd w2 p) = buffer_clear (rbuf (g_hnd w1 p))"
    if "session_login env p pinfo w1 = Fine (r, w2)" for w1 r w2
    using that session_send_packet_rbuf
    by (fastforce simp: session_login_def split: checked.splits prod.splits if_splits)
  show ?thesis
    using assms s by (auto simp: session_process_def Let_def split: option.splits prod.splits if_splits dest!: l)
qed

section \<open>The read event\<close>

text \<open>
  The inner loop of \<open>on_read\<close>. The answer tells whether \<open>on_read\<close> goes on behind the loop; it does not when
  \<open>handle_error\<close> was called in it. Every turn uses members of the object.
\<close>

definition leave_closed :: "nat \<Rightarrow> session_world \<Rightarrow> (bool \<times> session_world) checked" where
  "leave_closed p w = (case session_event p w of OutOfBounds \<Rightarrow> OutOfBounds | Fine w1 \<Rightarrow> Fine (False, w1))"

lemma pop_after_packet:
  assumes "b' = b \<or> b' = buffer_clear b" "0 < data_size b" "1 \<le> n" "n \<le> data_size b"
  shows "data_size (snd (pop_data n b')) < data_size b"
  using assms pop_data_shrinks [of n b] by (auto simp: pop_data_def data_size_def buffer_clear_def)

function session_parse :: "'b session_env \<Rightarrow> nat \<Rightarrow> session_world \<Rightarrow> (bool \<times> session_world) checked" where
  "session_parse env p w =
     (case conns (g_app w) p of
        None \<Rightarrow> OutOfBounds
      | Some c \<Rightarrow>
          let b = rbuf (g_hnd w p) in
          if data_size b > 0
          then (case gate_packet_info (behind_data env b) c (pending b) of (ret, pinfo, c1) \<Rightarrow>
            let w1 = set_client p c1 w in
            if ret \<noteq> 0 then leave_closed p w1
            else if pi_size pinfo < 1 \<or> pi_size pinfo > 4194304 then leave_closed p w1
            else if data_size b \<ge> pi_size pinfo
            then (case session_process env p pinfo w1 of
                    OutOfBounds \<Rightarrow> OutOfBounds
                  | Fine (ret2, w2) \<Rightarrow>
                      if ret2 \<noteq> 0 then leave_closed p w2
                      else if conns (g_app w2) p = None then OutOfBounds
                      else session_parse env p (set_rbuf p (snd (pop_data (pi_size pinfo) (rbuf (g_hnd w2 p)))) w2))
            else if space_size b < pi_size pinfo - data_size b
            then (case buffer_resize (e_alloc env (capacity b + pi_size pinfo)) (capacity b + pi_size pinfo) b of
                    (ret3, b3) \<Rightarrow>
                      if ret3 \<noteq> 0 then leave_closed p (set_rbuf p b3 w1) else Fine (True, set_rbuf p b3 w1))
            else Fine (True, w1))
          else Fine (True, w))"
  by pat_completeness auto

termination
proof (relation "measure (\<lambda>(env, p, w). nat (data_size (rbuf (g_hnd w p))))", goal_cases)
  case (2 env p w c b ret y pinfo c1 w1 r ret2 w2)
  then have "rbuf (g_hnd w2 p) = b \<or> rbuf (g_hnd w2 p) = buffer_clear b"
    using session_process_rbuf [of env p pinfo w1 ret2 w2] by simp
  from pop_after_packet [OF this, of "pi_size pinfo"] 2 show ?case
    by (simp add: set_rbuf_def)
qed simp

declare session_parse.simps [simp del]

text \<open>
  \<open>on_read(fd)\<close>. The parameter \<open>fd\<close> is the descriptor the reactor called with; when the object has closed it in the
  meantime, \<open>recv\<close> fails (\<open>EBADF\<close>, 9).
\<close>

definition session_recv :: "int \<Rightarrow> tcp_handler \<Rightarrow> socket_in \<Rightarrow> recv_result \<times> socket_in" where
  "session_recv fd h s =
     (if id_fd h = fd then recv (nat (space_size (rbuf h))) s else (RecvErr (EOTHER 9), s))"

definition return_closed :: "nat \<Rightarrow> session_world \<Rightarrow> socket_in \<Rightarrow> (session_world \<times> socket_in) checked" where
  "return_closed p w s = (case session_event p w of OutOfBounds \<Rightarrow> OutOfBounds | Fine w1 \<Rightarrow> Fine (w1, s))"

function session_read :: "'b session_env \<Rightarrow> nat \<Rightarrow> int \<Rightarrow> session_world \<Rightarrow> socket_in \<Rightarrow> (session_world \<times> socket_in) checked" where
  "session_read env p fd w s =
     (if conns (g_app w) p = None then OutOfBounds
      else case session_recv fd (g_hnd w p) s of
        (Received xs, s1) \<Rightarrow>
          if xs = [] then return_closed p w s1
          else (case session_parse env p
                  (set_rbuf p (snd (push_data (int (length xs)) (store_at_space xs (rbuf (g_hnd w p))))) w) of
                  OutOfBounds \<Rightarrow> OutOfBounds
                | Fine (go, w2) \<Rightarrow>
                    if \<not> go then Fine (w2, s1)
                    else let w3 = set_rbuf p (buffer_adjust (rbuf (g_hnd w2 p))) w2 in
                      if readall_flag (g_hnd w3 p) then session_read env p fd w3 s1 else Fine (w3, s1))
      | (RecvErr e, s1) \<Rightarrow>
          if e \<noteq> EAGAIN \<and> e \<noteq> EINTR then return_closed p w s1 else Fine (w, s1))"
  by pat_completeness auto
termination
  by (relation "measure (\<lambda>(env, p, fd, w, s). length (stream s))")
    (auto simp: session_recv_def recv_def stream_def split: list.splits sock_end.splits if_splits
      dest: length_drop_segment)

declare session_read.simps [simp del]

section \<open>Sending without a failure\<close>

text \<open>An answer of the socket that is no failure; a connection that can be written to.\<close>

definition soft :: "send_result \<times> bool \<Rightarrow> bool" where
  "soft a = (case fst a of Sent n \<Rightarrow> True | SendErr e \<Rightarrow> e = EAGAIN \<or> e = EINTR)"

definition writable :: "nat \<Rightarrow> session_world \<Rightarrow> bool" where
  "writable p w \<longleftrightarrow> 0 \<le> id_fd (g_hnd w p) \<and> buf_inv (sbuf (g_hnd w p)) \<and> 0 < max_write_size (g_hnd w p)
     \<and> list_all soft (g_answers w)"

text \<open>What the object said: the bytes the socket took and those that wait.\<close>

definition said :: "nat \<Rightarrow> session_world \<Rightarrow> byte list" where
  "said p w = g_wire w p @ pending (sbuf (g_hnd w p))"

text \<open>The encoder of the response writes \<open>rep\<close> wherever \<open>encode_size\<close> says there is room.\<close>

definition replies :: "'b session_env \<Rightarrow> byte list \<Rightarrow> bool" where
  "replies env rep \<longleftrightarrow> 1 \<le> e_need env \<and> (\<forall>n \<ge> e_need env. e_encode env n = Some rep)
     \<and> (\<forall>n bs. e_encode env n = Some bs \<longrightarrow> bs \<noteq> [] \<and> int (length bs) \<le> n)"

text \<open>The object is in the table of the reactor under its descriptor; the table and the watched descriptors are the same.\<close>

definition registered :: "nat \<Rightarrow> session_world \<Rightarrow> bool" where
  "registered p w \<longleftrightarrow> reactor_inv (g_reactor w) \<and> self (g_hnd w p) = p
     \<and> handler_at (g_reactor w) (id_fd (g_hnd w p)) = Some p \<and> interest (g_reactor w) (id_fd (g_hnd w p)) \<noteq> None"

definition same_table :: "reactor \<Rightarrow> reactor \<Rightarrow> bool" where
  "same_table r r' \<longleftrightarrow> (reactor_inv r \<longrightarrow> reactor_inv r') \<and> handler_at r' = handler_at r \<and> dom (interest r') = dom (interest r)"

lemma same_table_refl [simp]: "same_table r r"
  by (simp add: same_table_def)

lemma same_table_trans: "same_table r1 r2 \<Longrightarrow> same_table r2 r3 \<Longrightarrow> same_table r1 r3"
  by (simp add: same_table_def)

lemma mod_same_table:
  assumes "handler_at r fd = Some p" "interest r fd \<noteq> None"
  shows "same_table r (snd (mod_handler ok fd (Some p) ev r))"
proof -
  have "map_option (\<lambda>hs. hs[nat fd := Some p]) (m_handlers r) = m_handlers r"
    using assms(1) by (auto simp: handler_at_cases split: option.splits) (metis list_update_id option.distinct(1))
  moreover have "reactor_inv r \<longrightarrow> reactor_inv (snd (mod_handler ok fd (Some p) ev r))"
    using reactor_inv_mod by (metis prod.collapse)
  ultimately show ?thesis
    using assms(2) by (auto simp: same_table_def mod_handler_def set_handler_def handler_at_cases fun_eq_iff)
qed

lemma on_write_table:
  assumes "on_write res ok (id_fd h) h r = (x, out, h', r')" "handler_at r (id_fd h) = Some (self h)" "interest r (id_fd h) \<noteq> None"
  shows "same_table r r'"
proof -
  have "r' = r \<or> r' = snd (mod_handler ok (id_fd h) (Some (self h)) EVENT_READ r)"
    using assms(1) by (auto simp: on_write_def Let_def split: if_splits send_result.splits)
  then show ?thesis using mod_same_table [OF assms(2,3)] by auto
qed

lemma tcp_send_table:
  assumes "tcp_send alloc res ok data delay h r = (ret, out, h', r')" "handler_at r (id_fd h) = Some (self h)"
    and "interest r (id_fd h) \<noteq> None"
  shows "same_table r r'"
proof -
  have "r' = r \<or> r' = snd (mod_handler ok (id_fd h) (Some (self h)) (EVENT_READ OR EVENT_WRITE) r)"
    using assms(1) by (auto simp: tcp_send_def Let_def split: if_splits send_result.splits prod.splits)
  then show ?thesis using mod_same_table [OF assms(2,3)] by auto
qed

lemma tcp_send_packet_table:
  assumes "tcp_send_packet alloc res ok need encode delay h r = (ret, ev, out, h', r')" "handler_at r (id_fd h) = Some (self h)"
    and "interest r (id_fd h) \<noteq> None"
  shows "same_table r r'"
proof -
  define r1 where "r1 = snd (mod_handler ok (id_fd h) (Some (self h)) (EVENT_READ OR EVENT_WRITE) r)"
  note m = mod_same_table [OF assms(2,3), of ok "EVENT_READ OR EVENT_WRITE", folded r1_def]
  have r1: "handler_at r1 (id_fd h) = Some (self h)" "interest r1 (id_fd h) \<noteq> None"
    using m assms(2,3) by (auto simp: same_table_def dom_def set_eq_iff)
  have "r' = r \<or> r' = r1 \<or> (\<exists>b x o1 h2. on_write res ok (id_fd h) (h\<lparr>sbuf := b\<rparr>) r1 = (x, o1, h2, r'))"
    using assms(1) by (auto simp: tcp_send_packet_def Let_def r1_def split: if_splits option.splits prod.splits)
  then show ?thesis
  proof (elim disjE exE)
    fix b x o1 h2 assume w: "on_write res ok (id_fd h) (h\<lparr>sbuf := b\<rparr>) r1 = (x, o1, h2, r')"
    show ?thesis using same_table_trans [OF m on_write_table [of res ok "h\<lparr>sbuf := b\<rparr>"]] w r1 by simp
  qed (simp_all add: m)
qed

text \<open>A step that spoke \<open>xs\<close> and otherwise left everything but the client data of the object alone.\<close>

definition spoke :: "nat \<Rightarrow> byte list \<Rightarrow> session_world \<Rightarrow> session_world \<Rightarrow> bool" where
  "spoke p xs w w' \<longleftrightarrow> said p w' = said p w @ xs \<and> writable p w' \<and> g_closed w' = g_closed w
     \<and> (\<exists>c. g_app w' = update_client p (\<lambda>u. c) (g_app w))
     \<and> (\<exists>rb sb. g_hnd w' p = (g_hnd w p)\<lparr>rbuf := rb, sbuf := sb\<rparr>)
     \<and> (\<forall>q. q \<noteq> p \<longrightarrow> g_hnd w' q = g_hnd w q \<and> g_wire w' q = g_wire w q)
     \<and> (registered p w \<longrightarrow> same_table (g_reactor w) (g_reactor w'))"

lemma registered_kept:
  assumes "registered p w" "g_hnd w' p = (g_hnd w p)\<lparr>rbuf := rb, sbuf := sb\<rparr>" "same_table (g_reactor w) (g_reactor w')"
  shows "registered p w'"
  using assms by (auto simp: registered_def same_table_def dom_def set_eq_iff)

lemma spoke_trans:
  assumes "spoke p xs w1 w2" "spoke p ys w2 w3"
  shows "spoke p (xs @ ys) w1 w3"
proof -
  have "update_client p (\<lambda>u. c2) (update_client p (\<lambda>u. c1) a) = update_client p (\<lambda>u. c2) a" for c1 c2 a
    by (simp add: update_client_def option.map_comp comp_def)
  then have a: "\<exists>c. g_app w3 = update_client p (\<lambda>u. c) (g_app w1)" using assms by (auto simp: spoke_def)
  obtain rb sb where h2: "g_hnd w2 p = (g_hnd w1 p)\<lparr>rbuf := rb, sbuf := sb\<rparr>" using assms(1) by (auto simp: spoke_def)
  have t: "registered p w1 \<longrightarrow> same_table (g_reactor w1) (g_reactor w3)"
  proof
    assume r: "registered p w1"
    then have "same_table (g_reactor w1) (g_reactor w2)" using assms(1) by (simp add: spoke_def)
    moreover from registered_kept [OF r h2 this] have "same_table (g_reactor w2) (g_reactor w3)"
      using assms(2) by (simp add: spoke_def)
    ultimately show "same_table (g_reactor w1) (g_reactor w3)" by (rule same_table_trans)
  qed
  have "\<exists>rb sb. g_hnd w3 p = (g_hnd w1 p)\<lparr>rbuf := rb, sbuf := sb\<rparr>" using assms(2) h2 by (auto simp: spoke_def)
  then show ?thesis using assms a t by (simp add: spoke_def)
qed

lemma update_client_same:
  "conns a p = Some c \<Longrightarrow> update_client p (\<lambda>u. c) a = a"
  by (simp add: update_client_def fun_upd_idem)

lemma handler_buffers:
  "\<exists>rb sb. h = (h :: tcp_handler)\<lparr>rbuf := rb, sbuf := sb\<rparr>"
  "\<exists>rb sb. h\<lparr>rbuf := b\<rparr> = h\<lparr>rbuf := rb, sbuf := sb\<rparr>"
  "\<exists>rb sb. h\<lparr>sbuf := b\<rparr> = h\<lparr>rbuf := rb, sbuf := sb\<rparr>"
  by (cases h, force)+

lemma spoke_refl: "writable p w \<Longrightarrow> conns (g_app w) p = Some c \<Longrightarrow> spoke p [] w w"
  unfolding spoke_def by (metis append_Nil2 update_client_same handler_buffers(1) same_table_refl)

lemma spoke_set_client: "writable p w \<Longrightarrow> spoke p [] w (set_client p c w)"
  by (auto simp: spoke_def said_def writable_def handler_buffers(1))

lemma set_rbuf_simps [simp]:
  "g_app (set_rbuf p b w) = g_app w" "g_reactor (set_rbuf p b w) = g_reactor w"
  "g_wire (set_rbuf p b w) = g_wire w" "g_closed (set_rbuf p b w) = g_closed w"
  "g_answers (set_rbuf p b w) = g_answers w" "g_hnd (set_rbuf p b w) p = (g_hnd w p)\<lparr>rbuf := b\<rparr>"
  "q \<noteq> p \<Longrightarrow> g_hnd (set_rbuf p b w) q = g_hnd w q"
  by (simp_all add: set_rbuf_def)

lemma spoke_set_rbuf:
  assumes "writable p w" "conns (g_app w) p = Some c"
  shows "spoke p [] w (set_rbuf p b w)"
  unfolding spoke_def using assms(1) update_client_same [of "g_app w", OF assms(2)] handler_buffers(2) [where h = "g_hnd w p" and b = b]
  by (auto simp: writable_def said_def intro: exI [of _ c])

lemma spoke_keeps:
  assumes "spoke p xs w w'"
  shows "writable p w'" "id_fd (g_hnd w' p) = id_fd (g_hnd w p)" "readall_flag (g_hnd w' p) = readall_flag (g_hnd w p)"
  using assms by (auto simp: spoke_def)

lemma ensure_space_total:
  assumes "buf_inv b" "alloc_total alloc" "ensure_space alloc n b = (ret, b')"
  shows "ret = 0"
proof (cases "space_size b < n")
  case True
  have "0 < capacity b + n" "capacity b \<le> capacity b + n" using True buf_inv_sizes [OF assms(1)] by linarith+
  from resize_total [OF assms(1,2) this] show ?thesis using assms(3) True by (auto simp: ensure_space_def)
next
  case False
  then show ?thesis using assms(3) by (simp add: ensure_space_def)
qed

lemma on_write_soft: "soft (res, ok) \<Longrightarrow> on_write res ok' fd h r = (x, out, h', r') \<Longrightarrow> x = Done"
  by (auto simp: on_write_def soft_def Let_def split: if_splits send_result.splits)

lemma tcp_send_soft:
  assumes "soft (res, ok)" "alloc_total alloc" "buf_inv (sbuf h)" "0 \<le> id_fd h"
    and "tcp_send alloc res ok' data delay h r = (ret, out, h', r')"
  shows "ret = 0"
proof -
  obtain rr sb where e: "ensure_space alloc (int (length data)) (sbuf h) = (rr, sb)" by fastforce
  with ensure_space_total [OF assms(3,2)] have "rr = 0" by blast
  with e have e0: "ensure_space alloc (int (length data)) (sbuf h) = (0, sb)" by simp
  have fd: "\<not> id_fd h < 0" using assms(4) by simp
  show ?thesis
    using assms(5) assms(1) unfolding tcp_send_cases [OF fd e0] send_tail_def soft_def
    by (cases res) (auto split: if_splits)
qed

lemma tcp_send_packet_soft:
  assumes "soft (res, ok)" "alloc_total alloc" "buf_inv (sbuf h)" "0 \<le> id_fd h" "1 \<le> need"
    and "\<And>n. need \<le> n \<Longrightarrow> encode n = Some rep"
    and "tcp_send_packet alloc res ok' need encode False h r = (ret, ev, out, h', r')"
  shows "ret = 0 \<and> ev = Done"
proof -
  obtain rr sb where e: "ensure_space alloc need (sbuf h) = (rr, sb)" by fastforce
  with ensure_space_total [OF assms(3,2)] have r0: "rr = 0" by blast
  with ensure_space_ok [OF assms(3) alloc_total_sound [OF assms(2)] e] assms(6)
  have "encode (space_size sb) = Some rep" by blast
  define h1 where "h1 = h\<lparr>sbuf := snd (push_data (int (length rep)) (store_at_space rep sb))\<rparr>"
  define r1 where "r1 = snd (mod_handler ok' (id_fd h) (Some (self h)) (EVENT_READ OR EVENT_WRITE) r)"
  obtain x o1 h2 r2 where ow: "on_write res ok' (id_fd h1) h1 r1 = (x, o1, h2, r2)" by (metis prod_cases4)
  have "(ret, ev, out, h', r') = (0, x, o1, h2, r2)"
    using assms(4,5,7) e r0 \<open>encode (space_size sb) = Some rep\<close> ow
    by (simp add: tcp_send_packet_def Let_def h1_def r1_def)
  then show ?thesis using on_write_soft [OF assms(1) ow] by simp
qed

lemma next_answer_soft:
  assumes "next_answer w = (a, w1)" "list_all soft (g_answers w)"
  shows "soft a" "list_all soft (g_answers w1)"
  using assms by (auto simp: next_answer_def soft_def split: list.splits)

text \<open>What one \<open>send\<close> says, in both forms; neither closes the connection.\<close>

lemma spoke_send:
  assumes "writable p w" "conns (g_app w) p = Some c" "next_answer w = (a, w1)"
    and "h' = (g_hnd w p)\<lparr>sbuf := sbuf h'\<rparr>" "buf_inv (sbuf h')"
    and "out @ pending (sbuf h') = pending (sbuf (g_hnd w p)) @ xs"
    and "registered p w \<Longrightarrow> same_table (g_reactor w) r'"
  shows "spoke p xs w (w1\<lparr>g_hnd := (g_hnd w1)(p := h'), g_reactor := r', g_wire := (g_wire w1)(p := g_wire w1 p @ out)\<rparr>)"
proof -
  note n = next_answer_app [OF assms(3)] next_answer_soft [OF assms(3)]
  obtain sb where h: "h' = (g_hnd w p)\<lparr>sbuf := sb\<rparr>" using assms(4) by blast
  have "buf_inv sb" "out @ pending sb = pending (sbuf (g_hnd w p)) @ xs" using assms(5,6) by (simp_all add: h)
  then show ?thesis
    unfolding spoke_def using n assms(1,7) update_client_same [OF assms(2)] handler_buffers(3) [where h = "g_hnd w p" and b = sb]
    by (auto simp: h said_def writable_def intro: exI [of _ c])
qed

lemma session_send_soft:
  assumes "writable p w" "conns (g_app w) p = Some c" "alloc_total (e_alloc env)"
  shows "\<exists>w'. session_send env data p w = (0, w') \<and> spoke p data w w' \<and> g_app w' = g_app w
    \<and> rbuf (g_hnd w' p) = rbuf (g_hnd w p)"
proof -
  have wr: "buf_inv (sbuf (g_hnd w p))" "0 \<le> id_fd (g_hnd w p)" "list_all soft (g_answers w)"
    using assms(1) by (simp_all add: writable_def)
  obtain res ok w1 where na: "next_answer w = ((res, ok), w1)" by (metis prod.exhaust)
  note n = next_answer_app [OF na] next_answer_soft [OF na wr(3)]
  obtain ret out h' r' where s: "tcp_send (e_alloc env) res ok data False (g_hnd w p) (g_reactor w) = (ret, out, h', r')"
    by (metis prod_cases4)
  have "ret = 0" by (rule tcp_send_soft [OF n(2) assms(3) wr(1,2) s])
  moreover have "registered p w \<Longrightarrow> same_table (g_reactor w) r'"
    using tcp_send_table [OF s] by (auto simp: registered_def)
  ultimately show ?thesis
    using tcp_send_stream_lemma [OF wr(1) alloc_total_sound [OF assms(3)] s] tcp_send_frame [OF s] sends_keep_rbuf(1) [OF s]
      spoke_send [OF assms(1,2) na, of h' out data r'] na n(1) s
    by (simp add: session_send_def)
qed

lemma session_send_packet_soft:
  assumes "writable p w" "conns (g_app w) p = Some c" "alloc_total (e_alloc env)" "replies env rep"
  shows "\<exists>w'. session_send_packet env p w = Fine (0, w') \<and> spoke p rep w w' \<and> g_app w' = g_app w
    \<and> rbuf (g_hnd w' p) = rbuf (g_hnd w p)"
proof -
  have wr: "buf_inv (sbuf (g_hnd w p))" "0 \<le> id_fd (g_hnd w p)" "list_all soft (g_answers w)" "0 < max_write_size (g_hnd w p)"
    using assms(1) by (simp_all add: writable_def)
  have rep: "1 \<le> e_need env" "\<And>n. e_need env \<le> n \<Longrightarrow> e_encode env n = Some rep"
    "\<And>n bs. e_encode env n = Some bs \<Longrightarrow> bs \<noteq> [] \<and> int (length bs) \<le> n"
    using assms(4) by (simp_all add: replies_def)
  obtain res ok w1 where na: "next_answer w = ((res, ok), w1)" by (metis prod.exhaust)
  note n = next_answer_app [OF na] next_answer_soft [OF na wr(3)]
  obtain ret ev out h' r' where s: "tcp_send_packet (e_alloc env) res ok (e_need env) (e_encode env) False (g_hnd w p)
      (g_reactor w) = (ret, ev, out, h', r')"
    by (metis prod_cases5)
  have table: "registered p w \<Longrightarrow> same_table (g_reactor w) r'"
    using tcp_send_packet_table [OF s] by (auto simp: registered_def)
  have fine: "ret = 0" "ev = Done"
    using tcp_send_packet_soft [OF n(2) assms(3) wr(1,2) rep(1,2) s] by simp_all
  have st: "buf_inv (sbuf h')" "\<exists>n bs. e_encode env n = Some bs \<and> e_need env \<le> n
      \<and> out @ pending (sbuf h') = pending (sbuf (g_hnd w p)) @ bs"
    using send_packet_stream [OF wr(1) alloc_total_sound [OF assms(3)] wr(4) rep(3) s] fine(1) by simp_all
  then have "out @ pending (sbuf h') = pending (sbuf (g_hnd w p)) @ rep" using rep(2) by fastforce
  with st tcp_send_packet_frame [OF s] sends_keep_rbuf(2) [OF s] fine table
  show ?thesis using spoke_send [OF assms(1,2) na, of h' out rep r'] na n(1) s
    by (simp add: session_send_packet_def Let_def)
qed

section \<open>A packet without a failure\<close>

text \<open>The connection of \<open>GateClient\<close> whose answers are collected, with what the object at \<open>p\<close> holds instead.\<close>

definition client_at :: "nat \<Rightarrow> byte list list \<Rightarrow> client \<Rightarrow> session_world \<Rightarrow> bool" where
  "client_at p os c w \<longleftrightarrow> conns (g_app w) p = Some (c\<lparr>outbox := os\<rparr>)"

lemma client_at_set: "client_at p os c w \<Longrightarrow> client_at p os c' (set_client p (c'\<lparr>outbox := os\<rparr>) w)"
  by (simp add: client_at_def update_client_def)

text \<open>What \<open>process_packet\<close> of \<open>GateClient\<close> does to the collected answers.\<close>

definition spec_proc :: "'b session_env \<Rightarrow> byte list \<Rightarrow> byte list \<Rightarrow> client proc_fn" where
  "spec_proc env m rep = gate_process_packet (plain (e_cfg env)) (e_now env) m (e_parse env) (e_request env) rep"

lemma check_threshold_outbox:
  "check_threshold now msg (c\<lparr>outbox := os\<rparr>) = (case check_threshold now msg c of (ok, c') \<Rightarrow> (ok, c'\<lparr>outbox := os\<rparr>))"
  "check_threshold now msg c = (ok, c') \<Longrightarrow> outbox c' = outbox c"
  by (auto simp: check_threshold_def Let_def)

lemma session_process_soft:
  assumes "writable p w" "client_at p os c w" "alloc_total (e_alloc env)" "replies env rep" "\<not> cfg_check_seq (e_cfg env)"
    and "spec_proc env m rep c pinfo = (0, c2)"
  shows "\<exists>w2 xs. session_process env p pinfo w = Fine (0, w2) \<and> spoke p (concat xs) w w2 \<and> client_at p os c2 w2
    \<and> outbox c2 = outbox c @ xs \<and> rbuf (g_hnd w2 p) = rbuf (g_hnd w p)"
proof (cases "m_policy_status c = 1")
  case True
  note c = assms(2) [unfolded client_at_def]
  obtain w1 where w1: "session_send env POLICY_RESPONSE p w = (0, w1)" "spoke p POLICY_RESPONSE w w1"
    "g_app w1 = g_app w" "rbuf (g_hnd w1 p) = rbuf (g_hnd w p)"
    using session_send_soft [OF assms(1) c assms(3)] by blast
  have c2: "c2 = c\<lparr>outbox := outbox c @ [POLICY_RESPONSE], m_policy_status := 2\<rparr>"
    using assms(6) True by (simp add: spec_proc_def gate_process_packet_def gate_process_def)
  let ?w2 = "set_client p (c2\<lparr>outbox := os\<rparr>) w1"
  have "spoke p (POLICY_RESPONSE @ []) w ?w2"
    using spoke_trans [OF w1(2) spoke_set_client] spoke_keeps(1) [OF w1(2)] by blast
  moreover have "(c\<lparr>outbox := os\<rparr>)\<lparr>m_policy_status := 2\<rparr> = c2\<lparr>outbox := os\<rparr>" by (cases c) (simp add: c2)
  then have "session_process env p pinfo w = Fine (0, ?w2)"
    using c w1(1) True by (simp add: session_process_def)
  moreover have "client_at p os c2 ?w2" using c w1(3) by (simp add: client_at_def update_client_def)
  ultimately show ?thesis using w1(4) by (intro exI [of _ ?w2] exI [of _ "[POLICY_RESPONSE]"]) (simp add: c2)
next
  case False
  note c = assms(2) [unfolded client_at_def]
  define t where "t = (if cfg_check_threshold (e_cfg env) then check_threshold (e_now env) (pi_type pinfo) c else (True, c))"
  obtain pass c1 where t: "t = (pass, c1)" by fastforce
  have o1: "outbox c1 = outbox c" using t check_threshold_outbox(2) by (auto simp: t_def split: if_splits)
  have t': "(if cfg_check_threshold (e_cfg env) then check_threshold (e_now env) (pi_type pinfo) (c\<lparr>outbox := os\<rparr>)
      else (True, c\<lparr>outbox := os\<rparr>)) = (pass, c1\<lparr>outbox := os\<rparr>)"
    using t by (auto simp: t_def check_threshold_outbox(1))
  let ?w1 = "set_client p (c1\<lparr>outbox := os\<rparr>) w"
  have s1: "spoke p [] w ?w1" by (rule spoke_set_client [OF assms(1)])
  have ca1: "client_at p os c1 ?w1" by (rule client_at_set [OF assms(2)])
  have spec: "spec_proc env m rep c pinfo = (case (if \<not> pass then Fine (0, c1)
      else if pi_type pinfo = cs_player_login_request_type then process_player_login (e_parse env) (e_request env) rep c1 pinfo
      else Fine (0, c1)) of Fine r \<Rightarrow> r | OutOfBounds \<Rightarrow> (-1, c))"
    using False t by (cases pass) (simp_all add: spec_proc_def gate_process_packet_def gate_process_def t_def [symmetric] Let_def)
  have sess: "session_process env p pinfo w = (if \<not> pass then Fine (0, ?w1)
      else if pi_type pinfo = cs_player_login_request_type then session_login env p pinfo ?w1 else Fine (0, ?w1))"
    using c False t' assms(5) by (cases pass) (simp_all add: session_process_def Let_def)
  show ?thesis
  proof (cases "pass \<and> pi_type pinfo = cs_player_login_request_type")
    case False
    then have "c2 = c1" using assms(6) spec by (auto split: if_splits)
    with False sess s1 ca1 o1 show ?thesis by (intro exI [of _ ?w1] exI [of _ "[]"]) auto
  next
    case True
    with assms(6) spec obtain q where d: "cs_decode (e_parse env) cs_player_login_request_type (pi_data pinfo) (pi_size pinfo)
        (e_request env) = Fine (pi_size pinfo, q)" and c2: "c2 = c1\<lparr>outbox := outbox c1 @ [rep]\<rparr>"
      by (auto simp: process_player_login_def split: checked.splits if_splits)
    obtain w2 where w2: "session_send_packet env p ?w1 = Fine (0, w2)" "spoke p rep ?w1 w2" "g_app w2 = g_app ?w1"
      "rbuf (g_hnd w2 p) = rbuf (g_hnd w p)"
      using session_send_packet_soft [OF spoke_keeps(1) [OF s1] ca1 [unfolded client_at_def] assms(3,4)] by auto
    have "client_at p os c2 w2" using ca1 w2(3) by (simp add: client_at_def c2)
    moreover have "spoke p rep w w2" using spoke_trans [OF s1 w2(2)] by simp
    ultimately show ?thesis
      using True sess d w2 o1 by (intro exI [of _ w2] exI [of _ "[rep]"]) (simp add: session_login_def c2)
  qed
qed

section \<open>A read event without a failure\<close>

lemma gate_head_info_client:
  "gate_head_info c bs = (ret, pinfo, c1) \<Longrightarrow> c1 = c \<and> gate_head_info c' bs = (ret, pinfo, c')"
  by (auto simp: gate_head_info_cases split: if_splits)

text \<open>The first packet of a stream that is framed to its end.\<close>

lemma first_packet:
  assumes "frame_run gate_head_info P c bs = (Done, rest, c')" "no_angle rest" "bs \<noteq> []"
  shows "\<exists>pinfo. (\<forall>u m. gate_packet_info m u bs = (0, pinfo, u)) \<and> 1 \<le> pi_size pinfo \<and> pi_size pinfo \<le> MAX_PACKET
    \<and> ((\<exists>c2. pi_size pinfo \<le> int (length bs) \<and> P c pinfo = (0, c2)
        \<and> frame_run gate_head_info P c2 (drop (nat (pi_size pinfo)) bs) = (Done, rest, c'))
     \<or> int (length bs) < pi_size pinfo \<and> rest = bs \<and> c' = c)"
proof -
  obtain ret pinfo c1 where i: "gate_head_info c bs = (ret, pinfo, c1)" by (cases "gate_head_info c bs")
  note ic = gate_head_info_client [OF i]
  obtain ret2 c2 where pr: "P c pinfo = (ret2, c2)" by fastforce
  note run = assms(1) [unfolded frame_run.simps [of gate_head_info P c bs], simplified assms(3) i, simplified]
  have r: "ret = 0" "1 \<le> pi_size pinfo" "pi_size pinfo \<le> MAX_PACKET" using run by (auto split: if_splits)
  have "gate_packet_info m u bs = (0, pinfo, u)" for m u
    using policy_needs_angle [OF done_no_angle [OF assms(1,2)] assms(3)] ic r(1) by simp
  moreover have "(\<exists>c2. pi_size pinfo \<le> int (length bs) \<and> P c pinfo = (0, c2)
        \<and> frame_run gate_head_info P c2 (drop (nat (pi_size pinfo)) bs) = (Done, rest, c'))
     \<or> int (length bs) < pi_size pinfo \<and> rest = bs \<and> c' = c"
    using run r ic pr by (auto split: if_splits)
  ultimately show ?thesis using r by blast
qed

text \<open>The inner loop: packets are taken while they are complete; what they answer is said.\<close>

definition parse_result :: "nat \<Rightarrow> byte list list \<Rightarrow> byte list \<Rightarrow> client \<Rightarrow> client \<Rightarrow> session_world \<Rightarrow> session_world \<Rightarrow> bool" where
  "parse_result p os rest c c' w w' \<longleftrightarrow> client_at p os c' w' \<and> buf_inv (rbuf (g_hnd w' p))
     \<and> pending (rbuf (g_hnd w' p)) = rest \<and> 0 < space_size (rbuf (g_hnd w' p))
     \<and> (\<exists>xs. outbox c' = outbox c @ xs \<and> spoke p (concat xs) w w')"

lemma parse_resultI:
  assumes "spoke p (concat xs) w w'" "client_at p os c' w'" "outbox c' = outbox c @ xs" "rbuf (g_hnd w' p) = b'"
    and "buf_inv b'" "pending b' = rest" "0 < space_size b'"
  shows "parse_result p os rest c c' w w'"
  using assms by (auto simp: parse_result_def)

lemma parse_result_trans:
  assumes "spoke p (concat xs) w w1" "outbox c1 = outbox c @ xs" "parse_result p os rest c1 c' w1 w'"
  shows "parse_result p os rest c c' w w'"
proof -
  obtain ys where "outbox c' = outbox c1 @ ys" "spoke p (concat ys) w1 w'" using assms(3) by (auto simp: parse_result_def)
  then show ?thesis
    using assms spoke_trans [OF assms(1), of "concat ys" w']
    by (auto simp: parse_result_def intro!: exI [of _ "xs @ ys"])
qed

lemma set_client_at: "client_at p os c w \<Longrightarrow> set_client p (c\<lparr>outbox := os\<rparr>) w = w"
  by (simp add: client_at_def set_client_def update_client_same)

lemma session_parse_soft:
  assumes "writable p w" "client_at p os c w" "alloc_total (e_alloc env)" "replies env rep" "\<not> cfg_check_seq (e_cfg env)"
    and "buf_inv (rbuf (g_hnd w p))" "0 < capacity (rbuf (g_hnd w p))"
    and "frame_run gate_head_info (spec_proc env m rep) c (pending (rbuf (g_hnd w p))) = (Done, rest, c')" "no_angle rest"
  shows "\<exists>w'. session_parse env p w = Fine (True, w') \<and> parse_result p os rest c c' w w'"
  using assms(1,2,6-8)
proof (induction "length (pending (rbuf (g_hnd w p)))" arbitrary: w c rule: less_induct)
  case less
  note wr = less.prems(1) and ca = less.prems(2) and inv = less.prems(3) and cap = less.prems(4) and fr = less.prems(5)
  define b where "b = rbuf (g_hnd w p)"
  note bb = b_def [symmetric]
  note len = length_pending [OF inv, unfolded bb]
  have c0: "conns (g_app w) p = Some (c\<lparr>outbox := os\<rparr>)" using ca by (simp add: client_at_def)
  show ?case
  proof (cases "pending b = []")
    case True
    then have "session_parse env p w = Fine (True, w)"
      using c0 len by (subst session_parse.simps) (simp add: bb)
    moreover have "0 < space_size b" using True inv cap by (simp add: bb empty_space)
    ultimately show ?thesis
      using fr True spoke_refl [OF wr c0] ca inv
      by (intro exI [of _ w]) (simp add: parse_resultI [where xs = "[]" and b' = b] bb)
  next
    case ne: False
    then have pos: "0 < data_size b" using len by (cases "pending b") auto
    obtain pinfo where i: "\<forall>u m. gate_packet_info m u (pending b) = (0, pinfo, u)"
      "1 \<le> pi_size pinfo" "pi_size pinfo \<le> MAX_PACKET"
      and alt: "(\<exists>c2. pi_size pinfo \<le> int (length (pending b)) \<and> spec_proc env m rep c pinfo = (0, c2)
          \<and> frame_run gate_head_info (spec_proc env m rep) c2 (drop (nat (pi_size pinfo)) (pending b)) = (Done, rest, c'))
        \<or> int (length (pending b)) < pi_size pinfo \<and> rest = pending b \<and> c' = c"
      using first_packet [OF fr [unfolded bb] assms(9) ne] by blast
    have step: "session_parse env p w =
        (if data_size b \<ge> pi_size pinfo
         then (case session_process env p pinfo w of
                 OutOfBounds \<Rightarrow> OutOfBounds
               | Fine (ret2, w2) \<Rightarrow>
                   if ret2 \<noteq> 0 then leave_closed p w2
                   else if conns (g_app w2) p = None then OutOfBounds
                   else session_parse env p (set_rbuf p (snd (pop_data (pi_size pinfo) (rbuf (g_hnd w2 p)))) w2))
         else if space_size b < pi_size pinfo - data_size b
         then (case buffer_resize (e_alloc env (capacity b + pi_size pinfo)) (capacity b + pi_size pinfo) b of
                 (ret3, b3) \<Rightarrow> if ret3 \<noteq> 0 then leave_closed p (set_rbuf p b3 w) else Fine (True, set_rbuf p b3 w))
         else Fine (True, w))"
      using c0 pos i set_client_at [OF ca]
      by (subst session_parse.simps) (simp add: bb MAX_PACKET_def Let_def split: prod.split)
    from alt show ?thesis
    proof (elim disjE exE conjE)
      fix c2 assume full: "pi_size pinfo \<le> int (length (pending b))" and sp: "spec_proc env m rep c pinfo = (0, c2)"
        and fr2: "frame_run gate_head_info (spec_proc env m rep) c2 (drop (nat (pi_size pinfo)) (pending b)) = (Done, rest, c')"
      obtain w2 xs where w2: "session_process env p pinfo w = Fine (0, w2)" "spoke p (concat xs) w w2" "client_at p os c2 w2"
        "outbox c2 = outbox c @ xs" "rbuf (g_hnd w2 p) = b"
        using session_process_soft [OF wr ca assms(3-5) sp] by (auto simp: bb)
      from pop_data_ret [of b "pi_size pinfo"] i(2) full inv obtain b1 where b1: "pop_data (pi_size pinfo) b = (0, b1)" by (auto simp: bb)
      from pop_data_ok [of b, OF _ b1] inv have b1_ok: "buf_inv b1" "pending b1 = drop (nat (pi_size pinfo)) (pending b)"
          "capacity b1 = capacity b" by (simp_all add: bb)
      define w3 where "w3 = set_rbuf p b1 w2"
      have s3: "spoke p (concat xs) w w3"
        using spoke_trans [OF w2(2) spoke_set_rbuf [OF spoke_keeps(1) [OF w2(2)] w2(3) [unfolded client_at_def]], of b1]
        by (simp add: w3_def)
      have "conns (g_app w2) p = Some (c2\<lparr>outbox := os\<rparr>)" using w2(3) by (simp add: client_at_def)
      then have go: "session_parse env p w = session_parse env p w3"
        using step full len w2(1,5) b1 by (simp add: w3_def)
      have h3: "rbuf (g_hnd w3 p) = b1" "client_at p os c2 w3" using w2(3) by (simp_all add: w3_def client_at_def)
      have "length (pending (rbuf (g_hnd w3 p))) < length (pending (rbuf (g_hnd w p)))"
        using b1_ok i(2) ne by (simp add: h3 bb)
      from less.hyps [OF this spoke_keeps(1) [OF s3] h3(2)] b1_ok cap fr2
      obtain w' where "session_parse env p w3 = Fine (True, w')" "parse_result p os rest c2 c' w3 w'"
        by (auto simp: h3(1) bb)
      then show ?thesis using go parse_result_trans [OF s3 w2(4)] by auto
    next
      assume wait: "int (length (pending b)) < pi_size pinfo" "rest = pending b" "c' = c"
      show ?thesis
      proof (cases "space_size b < pi_size pinfo - data_size b")
        case True
        obtain ret3 b3 where r: "buffer_resize (e_alloc env (capacity b + pi_size pinfo)) (capacity b + pi_size pinfo) b = (ret3, b3)"
          by fastforce
        from grow_room [OF _ assms(3) _ i(2) _ r] inv cap wait len
        have g: "ret3 = 0" "buf_inv b3" "pending b3 = pending b" "0 < space_size b3" by (auto simp: bb)
        have "session_parse env p w = Fine (True, set_rbuf p b3 w)" using step wait len True r g(1) by simp
        moreover have "parse_result p os rest c c' w (set_rbuf p b3 w)"
          using spoke_set_rbuf [OF wr c0, of b3] ca g wait
          by (intro parse_resultI [where xs = "[]" and b' = b3]) (simp_all add: client_at_def)
        ultimately show ?thesis by blast
      next
        case False
        then have "session_parse env p w = Fine (True, w)" using step wait len by simp
        moreover have "parse_result p os rest c c' w w"
          using spoke_refl [OF wr c0] ca inv wait False len
          by (intro parse_resultI [where xs = "[]" and b' = b]) (simp_all add: bb)
        ultimately show ?thesis by blast
      qed
    qed
  qed
qed

text \<open>One turn of \<open>on_read\<close>, when the socket has data.\<close>

lemma session_read_turn:
  assumes "segments s = y # ys" "[] \<notin> set (segments s)" "conns (g_app w) p = Some c" "id_fd (g_hnd w p) = fd"
    and "buf_inv (rbuf (g_hnd w p))" "0 < space_size (rbuf (g_hnd w p))"
  obtains xs s1 b1 where "xs \<noteq> []" "stream s = xs @ stream s1" "[] \<notin> set (segments s1)" "sock_end s1 = sock_end s"
    "buf_inv b1" "pending b1 = pending (rbuf (g_hnd w p)) @ xs" "capacity b1 = capacity (rbuf (g_hnd w p))"
    "length xs \<le> nat (space_size (rbuf (g_hnd w p)))" "recv (nat (space_size (rbuf (g_hnd w p)))) s = (Received xs, s1)"
    "session_read env p fd w s =
       (case session_parse env p (set_rbuf p b1 w) of
          OutOfBounds \<Rightarrow> OutOfBounds
        | Fine (go, w2) \<Rightarrow>
            if \<not> go then Fine (w2, s1)
            else let w3 = set_rbuf p (buffer_adjust (rbuf (g_hnd w2 p))) w2 in
              if readall_flag (g_hnd w3 p) then session_read env p fd w3 s1 else Fine (w3, s1))"
proof -
  define b where "b = rbuf (g_hnd w p)"
  have sp: "0 < nat (space_size b)" and inv: "buf_inv b" using assms(5,6) by (simp_all add: b_def)
  obtain res s1 where r: "recv (nat (space_size b)) s = (res, s1)" by fastforce
  with recv_segment [OF assms(1,2) sp r] obtain xs where xs: "res = Received xs" "xs \<noteq> []" "length xs \<le> nat (space_size b)"
      "stream s = xs @ stream s1" "[] \<notin> set (segments s1)" "sock_end s1 = sock_end s"
    by auto
  obtain ret b1 where pd: "push_data (int (length xs)) (store_at_space xs b) = (ret, b1)" by fastforce
  with buffer_fill [OF inv xs(2) _ pd] xs(3) sp
  have b1: "buf_inv b1" "pending b1 = pending b @ xs" "capacity b1 = capacity b" by auto
  have "session_read env p fd w s =
       (case session_parse env p (set_rbuf p b1 w) of
          OutOfBounds \<Rightarrow> OutOfBounds
        | Fine (go, w2) \<Rightarrow>
            if \<not> go then Fine (w2, s1)
            else let w3 = set_rbuf p (buffer_adjust (rbuf (g_hnd w2 p))) w2 in
              if readall_flag (g_hnd w3 p) then session_read env p fd w3 s1 else Fine (w3, s1))"
    using assms(3,4) r xs(1,2) pd
    by (subst session_read.simps) (simp add: session_recv_def b_def [symmetric])
  with that [of xs s1 b1] r xs b1 show ?thesis unfolding b_def by blast
qed

lemma session_read_empty:
  assumes "segments s = []" "would_block s" "conns (g_app w) p = Some c" "id_fd (g_hnd w p) = fd"
  shows "session_read env p fd w s = Fine (w, s)"
  using assms by (subst session_read.simps) (auto simp: session_recv_def recv_empty would_block_def)

text \<open>
  One event: it stops in front of a settled rest, from which the stream goes on as before; it takes bytes when there
  are any, and all of them when \<open>m_readall_flag\<close> is set. The gate clears the flag when it accepts a client.
\<close>

lemma session_read_soft:
  assumes "alloc_total (e_alloc env)" "replies env rep" "\<not> cfg_check_seq (e_cfg env)" "no_angle rest"
    and "writable p w" "client_at p os c w" "id_fd (g_hnd w p) = fd"
    and "buf_inv (rbuf (g_hnd w p))" "0 < space_size (rbuf (g_hnd w p))" "would_block s"
    and "frame_run gate_head_info (spec_proc env m rep) c (pending (rbuf (g_hnd w p))) = (Done, pending (rbuf (g_hnd w p)), c)"
    and "frame_run gate_head_info (spec_proc env m rep) c (pending (rbuf (g_hnd w p)) @ stream s) = (Done, rest, c')"
  shows "\<exists>w' s' rest1 c1. session_read env p fd w s = Fine (w', s') \<and> parse_result p os rest1 c c1 w w' \<and> would_block s'
    \<and> frame_run gate_head_info (spec_proc env m rep) c1 rest1 = (Done, rest1, c1)
    \<and> frame_run gate_head_info (spec_proc env m rep) c1 (rest1 @ stream s') = (Done, rest, c')
    \<and> length (stream s') \<le> length (stream s) - 1 \<and> (readall_flag (g_hnd w p) \<longrightarrow> stream s' = [])"
  using assms(5-12)
proof (induction "length (stream s)" arbitrary: w c s rule: less_induct)
  case less
  note wr = less.prems(1) and ca = less.prems(2) and fd = less.prems(3)
    and inv = less.prems(4) and sp = less.prems(5) and wb = less.prems(6) and settled = less.prems(7) and fr = less.prems(8)
  let ?P = "spec_proc env m rep"
  have c0: "conns (g_app w) p = Some (c\<lparr>outbox := os\<rparr>)" using ca by (simp add: client_at_def)
  show ?case
  proof (cases "segments s")
    case Nil
    then have e: "stream s = []" by (simp add: stream_def)
    have "parse_result p os (pending (rbuf (g_hnd w p))) c c w w"
      using spoke_refl [OF wr c0] ca inv sp by (intro parse_resultI [where xs = "[]"]) simp_all
    then show ?thesis using session_read_empty [OF Nil wb c0 fd] e settled fr wb
      by (intro exI [of _ w] exI [of _ s] exI [of _ "pending (rbuf (g_hnd w p))"] exI [of _ c]) simp
  next
    case (Cons y ys)
    from wb have ne: "[] \<notin> set (segments s)" by (simp add: would_block_def)
    obtain xs s1 b1 where t: "xs \<noteq> []" "stream s = xs @ stream s1" "[] \<notin> set (segments s1)" "sock_end s1 = sock_end s"
      "buf_inv b1" "pending b1 = pending (rbuf (g_hnd w p)) @ xs" "capacity b1 = capacity (rbuf (g_hnd w p))"
      and eq: "session_read env p fd w s =
       (case session_parse env p (set_rbuf p b1 w) of
          OutOfBounds \<Rightarrow> OutOfBounds
        | Fine (go, w2) \<Rightarrow>
            if \<not> go then Fine (w2, s1)
            else let w3 = set_rbuf p (buffer_adjust (rbuf (g_hnd w2 p))) w2 in
              if readall_flag (g_hnd w3 p) then session_read env p fd w3 s1 else Fine (w3, s1))"
      by (rule session_read_turn [OF Cons ne c0 fd inv sp])
    let ?w1 = "set_rbuf p b1 w"
    have s1: "spoke p [] w ?w1" by (rule spoke_set_rbuf [OF wr c0])
    have cap: "0 < capacity b1" using sp t(7) buf_inv_sizes [OF inv] by linarith
    have all: "frame_run gate_head_info ?P c (pending b1 @ stream s1) = (Done, rest, c')"
      using fr t(2,6) by simp
    obtain r1 c1 where f: "frame_run gate_head_info ?P c (pending b1) = (Done, r1, c1)"
      and g: "frame_run gate_head_info ?P c1 (r1 @ stream s1) = (Done, rest, c')"
      using all gate.frame_run_append [of "e_cfg env" "e_now env" m "e_parse env" "e_request env" rep c "pending b1" "stream s1"]
      unfolding spec_proc_def by (auto split: prod.splits outcome.splits)
    have na: "no_angle r1" using done_no_angle [OF g assms(4)] by (cases r1) (auto simp: no_angle_def)
    from session_parse_soft [OF spoke_keeps(1) [OF s1] _ assms(1-3) _ _ _ na, of os c m c1] t(5) cap f ca
    obtain w2 where w2: "session_parse env p ?w1 = Fine (True, w2)" "parse_result p os r1 c c1 ?w1 w2"
      by (auto simp: client_at_def)
    obtain ys where o: "outbox c1 = outbox c @ ys" "spoke p (concat ys) ?w1 w2" and r: "client_at p os c1 w2"
      "buf_inv (rbuf (g_hnd w2 p))" "pending (rbuf (g_hnd w2 p)) = r1" "0 < space_size (rbuf (g_hnd w2 p))"
      using w2(2) by (auto simp: parse_result_def)
    define w3 where "w3 = set_rbuf p (buffer_adjust (rbuf (g_hnd w2 p))) w2"
    have s3: "spoke p (concat ys) w w3"
      using spoke_trans [OF spoke_trans [OF s1 o(2)] spoke_set_rbuf [OF spoke_keeps(1) [OF o(2)] r(1) [unfolded client_at_def]]]
      by (simp add: w3_def)
    note k3 = spoke_keeps [OF s3]
    note adj = buffer_adjust_ok [OF r(2)]
    have h3: "rbuf (g_hnd w3 p) = buffer_adjust (rbuf (g_hnd w2 p))" "client_at p os c1 w3"
      using r(1) by (simp_all add: w3_def client_at_def)
    have go: "session_read env p fd w s =
        (if readall_flag (g_hnd w p) then session_read env p fd w3 s1 else Fine (w3, s1))"
      using eq w2(1) k3(3) by (simp add: w3_def Let_def)
    have lt: "length (stream s1) < length (stream s)" using t(1,2) by simp
    have wb1: "would_block s1" using wb t(3,4) by (simp add: would_block_def)
    have st1: "frame_run gate_head_info ?P c1 r1 = (Done, r1, c1)"
      using f gate.frame_run_done_idem unfolding spec_proc_def by blast
    show ?thesis
    proof (cases "readall_flag (g_hnd w p)")
      case True
      from less.hyps [OF lt k3(1) h3(2)] k3(2,3) fd True adj r(3,4) wb1 g st1
      obtain w' s' rest2 c2 where "session_read env p fd w3 s1 = Fine (w', s')" "parse_result p os rest2 c1 c2 w3 w'"
        "would_block s'" "frame_run gate_head_info ?P c2 rest2 = (Done, rest2, c2)"
        "frame_run gate_head_info ?P c2 (rest2 @ stream s') = (Done, rest, c')" "stream s' = []"
        by (auto simp: h3(1))
      then show ?thesis using go True lt parse_result_trans [OF s3 o(1)]
        by (intro exI [of _ w'] exI [of _ s'] exI [of _ rest2] exI [of _ c2]) auto
    next
      case False
      have "parse_result p os r1 c c1 w w3"
        using parse_resultI [OF s3 h3(2) o(1) h3(1)] adj r(3,4) by simp
      then show ?thesis using go False lt wb1 st1 g
        by (intro exI [of _ w3] exI [of _ s1] exI [of _ r1] exI [of _ c1]) auto
    qed
  qed
qed

section \<open>The write event\<close>

text \<open>\<open>on_write(fd)\<close> as the reactor calls it.\<close>

definition session_write :: "nat \<Rightarrow> int \<Rightarrow> session_world \<Rightarrow> session_world checked" where
  "session_write p fd w =
     (if conns (g_app w) p = None then OutOfBounds
      else case next_answer w of ((res, ok), w1) \<Rightarrow>
        case on_write res ok fd (g_hnd w1 p) (g_reactor w1) of (ev, out, h, r) \<Rightarrow>
          let w2 = w1\<lparr>g_hnd := (g_hnd w1)(p := h), g_reactor := r, g_wire := (g_wire w1)(p := g_wire w1 p @ out)\<rparr>
          in case ev of Done \<Rightarrow> Fine w2 | Event e \<Rightarrow> session_event p w2)"

text \<open>Without a failure bytes move from the send buffer to the wire.\<close>

lemma session_write_soft:
  assumes "writable p w" "conns (g_app w) p = Some c" "id_fd (g_hnd w p) = fd"
  shows "\<exists>w'. session_write p fd w = Fine w' \<and> spoke p [] w w' \<and> g_app w' = g_app w
    \<and> rbuf (g_hnd w' p) = rbuf (g_hnd w p)"
proof -
  have wr: "buf_inv (sbuf (g_hnd w p))" "list_all soft (g_answers w)" "0 < max_write_size (g_hnd w p)"
    using assms(1) by (simp_all add: writable_def)
  obtain res ok w1 where na: "next_answer w = ((res, ok), w1)" by (metis prod.exhaust)
  note n = next_answer_app [OF na] next_answer_soft [OF na wr(2)]
  obtain ev out h' r' where s: "on_write res ok fd (g_hnd w p) (g_reactor w) = (ev, out, h', r')" by (metis prod_cases4)
  have "ev = Done" by (rule on_write_soft [OF n(2) s])
  moreover have "rbuf h' = rbuf (g_hnd w p)" using on_write_frame [OF s] by (metis tcp_handler.select_convs(2)
        tcp_handler.surjective tcp_handler.update_convs(3))
  moreover have "registered p w \<Longrightarrow> same_table (g_reactor w) r'"
    using on_write_table [OF s [folded assms(3)]] by (auto simp: registered_def)
  ultimately show ?thesis
    using spoke_send [OF assms(1,2) na on_write_frame [OF s], of out "[]" r'] on_write_stream_lemma [OF wr(1,3) s] na n(1) s assms(2)
    by (simp add: session_write_def)
qed

section \<open>Events of one connection without a failure\<close>

datatype session_ev = ReadEvent | WriteEvent

text \<open>What the reactor reports for one connection, in any order.\<close>

fun session_events ::
  "'b session_env \<Rightarrow> nat \<Rightarrow> int \<Rightarrow> session_ev list \<Rightarrow> session_world \<Rightarrow> socket_in \<Rightarrow> (session_world \<times> socket_in) checked" where
  "session_events env p fd [] w s = Fine (w, s)"
| "session_events env p fd (ReadEvent # evs) w s =
     (case session_read env p fd w s of OutOfBounds \<Rightarrow> OutOfBounds | Fine (w1, s1) \<Rightarrow> session_events env p fd evs w1 s1)"
| "session_events env p fd (WriteEvent # evs) w s =
     (case session_write p fd w of OutOfBounds \<Rightarrow> OutOfBounds | Fine w1 \<Rightarrow> session_events env p fd evs w1 s)"

definition reads :: "session_ev list \<Rightarrow> nat" where
  "reads evs = length (filter (\<lambda>e. e = ReadEvent) evs)"

lemma session_events_soft:
  assumes "alloc_total (e_alloc env)" "replies env rep" "\<not> cfg_check_seq (e_cfg env)" "no_angle rest"
    and "writable p w" "client_at p os c w" "id_fd (g_hnd w p) = fd"
    and "buf_inv (rbuf (g_hnd w p))" "0 < space_size (rbuf (g_hnd w p))" "would_block s"
    and "frame_run gate_head_info (spec_proc env m rep) c (pending (rbuf (g_hnd w p))) = (Done, pending (rbuf (g_hnd w p)), c)"
    and "frame_run gate_head_info (spec_proc env m rep) c (pending (rbuf (g_hnd w p)) @ stream s) = (Done, rest, c')"
  shows "\<exists>w' s' rest1 c1. session_events env p fd evs w s = Fine (w', s') \<and> parse_result p os rest1 c c1 w w'
    \<and> frame_run gate_head_info (spec_proc env m rep) c1 rest1 = (Done, rest1, c1)
    \<and> frame_run gate_head_info (spec_proc env m rep) c1 (rest1 @ stream s') = (Done, rest, c')
    \<and> length (stream s') \<le> length (stream s) - reads evs"
  using assms(5-12)
proof (induction evs arbitrary: w c s)
  case Nil
  have "conns (g_app w) p = Some (c\<lparr>outbox := os\<rparr>)" using Nil.prems(2) by (simp add: client_at_def)
  then have "parse_result p os (pending (rbuf (g_hnd w p))) c c w w"
    using spoke_refl [OF Nil.prems(1)] Nil.prems(2,4,5) by (intro parse_resultI [where xs = "[]"]) simp_all
  then show ?case using Nil.prems(7,8)
    by (intro exI [of _ w] exI [of _ s] exI [of _ "pending (rbuf (g_hnd w p))"] exI [of _ c]) (simp add: reads_def)
next
  case (Cons e evs)
  note wr = Cons.prems(1) and ca = Cons.prems(2) and fd = Cons.prems(3)
  show ?case
  proof (cases e)
    case ReadEvent
    obtain w1 s1 rest1 c1 where r: "session_read env p fd w s = Fine (w1, s1)" "parse_result p os rest1 c c1 w w1" "would_block s1"
      "frame_run gate_head_info (spec_proc env m rep) c1 rest1 = (Done, rest1, c1)"
      "frame_run gate_head_info (spec_proc env m rep) c1 (rest1 @ stream s1) = (Done, rest, c')"
      "length (stream s1) \<le> length (stream s) - 1"
      using session_read_soft [OF assms(1-4) Cons.prems] by blast
    obtain xs where o: "outbox c1 = outbox c @ xs" "spoke p (concat xs) w w1" and pr: "client_at p os c1 w1"
      "buf_inv (rbuf (g_hnd w1 p))" "pending (rbuf (g_hnd w1 p)) = rest1" "0 < space_size (rbuf (g_hnd w1 p))"
      using r(2) by (auto simp: parse_result_def)
    note k = spoke_keeps [OF o(2)]
    from Cons.IH [OF k(1) pr(1) _ pr(2,4) r(3)] k(2) fd r(4,5)
    obtain w' s' rest2 c2 where i: "session_events env p fd evs w1 s1 = Fine (w', s')" "parse_result p os rest2 c1 c2 w1 w'"
      "frame_run gate_head_info (spec_proc env m rep) c2 rest2 = (Done, rest2, c2)"
      "frame_run gate_head_info (spec_proc env m rep) c2 (rest2 @ stream s') = (Done, rest, c')"
      "length (stream s') \<le> length (stream s1) - reads evs"
      by (auto simp: pr(3))
    moreover have "length (stream s') \<le> length (stream s) - reads (e # evs)"
      using i(5) r(6) ReadEvent by (auto simp: reads_def)
    ultimately show ?thesis
      using r(1) ReadEvent parse_result_trans [OF o(2,1)]
      by (intro exI [of _ w'] exI [of _ s'] exI [of _ rest2] exI [of _ c2]) auto
  next
    case WriteEvent
    obtain w1 where w1: "session_write p fd w = Fine w1" "spoke p [] w w1" "g_app w1 = g_app w" "rbuf (g_hnd w1 p) = rbuf (g_hnd w p)"
      using session_write_soft [OF wr ca [unfolded client_at_def] fd] by blast
    note k = spoke_keeps [OF w1(2)]
    have ca1: "client_at p os c w1" using ca w1(3) by (simp add: client_at_def)
    have fd1: "id_fd (g_hnd w1 p) = fd" using k(2) fd by simp
    obtain w' s' rest2 c2 where i: "session_events env p fd evs w1 s = Fine (w', s')" "parse_result p os rest2 c c2 w1 w'"
      "frame_run gate_head_info (spec_proc env m rep) c2 rest2 = (Done, rest2, c2)"
      "frame_run gate_head_info (spec_proc env m rep) c2 (rest2 @ stream s') = (Done, rest, c')"
      "length (stream s') \<le> length (stream s) - reads evs"
      using Cons.IH [OF k(1) ca1 fd1, unfolded w1(4), OF Cons.prems(4-8)] by blast
    then show ?thesis
      using w1(1) WriteEvent parse_result_trans [where xs = "[]", OF _ _ i(2)] w1(2)
      by (intro exI [of _ w'] exI [of _ s'] exI [of _ rest2] exI [of _ c2]) (auto simp: reads_def)
  qed
qed

section \<open>A send that fails\<close>

text \<open>\<open>on_event\<close> gives the object to the pool, or deletes it when the pool is full.\<close>

lemma on_event_result:
  assumes "conns a p = Some c"
  shows "\<exists>a'. on_event p a = Fine a'
    \<and> conn_pool a' = (if length (conn_pool a) > 100 then conn_pool a else conn_pool a @ [p])
    \<and> conns a' p = (if length (conn_pool a) > 100 then None else Some (client_reset c))"
proof -
  have "client_reset (c\<lparr>m_status := STATUS_DEFAULT\<rparr>) = client_reset c" by (simp add: client_reset_def)
  then show ?thesis
    using assms by (simp add: on_event_def Let_def free_connection_def update_client_def set_user_connection_def
        set_role_connection_def)
qed

lemma session_event_result:
  assumes "conns (g_app w) p = Some c"
  shows "\<exists>w'. session_event p w = Fine w'
    \<and> conn_pool (g_app w') = (if length (conn_pool (g_app w)) > 100 then conn_pool (g_app w) else conn_pool (g_app w) @ [p])
    \<and> conns (g_app w') p = (if length (conn_pool (g_app w)) > 100 then None else Some (client_reset c))
    \<and> readall_flag (g_hnd w' p) = readall_flag (g_hnd w p)
    \<and> (0 \<le> id_fd (g_hnd w p) \<longrightarrow> id_fd (g_hnd w' p) = -1 \<and> rbuf (g_hnd w' p) = buffer_clear (rbuf (g_hnd w p))
        \<and> g_closed w' = g_closed w @ [id_fd (g_hnd w p)])
    \<and> (id_fd (g_hnd w p) < 0 \<longrightarrow> g_closed w' = g_closed w)"
  using on_event_result [OF assms] by (auto simp: session_event_def tcp_fini_def)

text \<open>A packet whose bytes the socket refuses: \<open>send\<close> answers 0, the connection is closed.\<close>

lemma tcp_send_packet_hard:
  assumes "e \<noteq> EAGAIN" "e \<noteq> EINTR" "alloc_total alloc" "buf_inv (sbuf h)" "0 \<le> id_fd h" "1 \<le> need"
    and "\<And>n. need \<le> n \<Longrightarrow> encode n = Some rep" and "\<And>n bs. encode n = Some bs \<Longrightarrow> bs \<noteq> [] \<and> int (length bs) \<le> n"
    and "tcp_send_packet alloc (SendErr e) ok need encode False h r = (ret, ev, out, h', r')"
  shows "ret = 0 \<and> ev = Event ERROR_TYPE_SYSTEM \<and> out = []"
proof -
  obtain rr sb where e: "ensure_space alloc need (sbuf h) = (rr, sb)" by fastforce
  with ensure_space_total [OF assms(4,3)] have r0: "rr = 0" by blast
  note room = ensure_space_ok [OF assms(4) alloc_total_sound [OF assms(3)] e]
  have enc: "encode (space_size sb) = Some rep" using room r0 assms(7) by blast
  obtain q sb2 where q: "push_data (int (length rep)) (store_at_space rep sb) = (q, sb2)" by fastforce
  with buffer_fill [OF _ _ _ q] room assms(8) [OF enc] have sb2: "buf_inv sb2" "pending sb2 \<noteq> []" by auto
  then have "data_size sb2 > 0" by (simp add: data_size_pos_iff)
  then have "on_write (SendErr e) ok fd (h\<lparr>sbuf := sb2\<rparr>) r1 = (Event ERROR_TYPE_SYSTEM, [], h\<lparr>sbuf := sb2\<rparr>, r1)" for fd r1
    using assms(1,2) by (simp add: on_write_def Let_def)
  then show ?thesis using assms(5,6,9) e r0 enc q by (simp add: tcp_send_packet_def Let_def)
qed

lemma session_send_packet_hard:
  assumes "conns (g_app w) p = Some c" "alloc_total (e_alloc env)" "replies env rep"
    and "0 \<le> id_fd (g_hnd w p)" "buf_inv (sbuf (g_hnd w p))"
    and "g_answers w = (SendErr e, ok) # answers" "e \<noteq> EAGAIN" "e \<noteq> EINTR"
  shows "\<exists>w'. session_send_packet env p w = Fine (0, w')
    \<and> conn_pool (g_app w') = (if length (conn_pool (g_app w)) > 100 then conn_pool (g_app w) else conn_pool (g_app w) @ [p])
    \<and> conns (g_app w') p = (if length (conn_pool (g_app w)) > 100 then None else Some (client_reset c))
    \<and> readall_flag (g_hnd w' p) = readall_flag (g_hnd w p) \<and> id_fd (g_hnd w' p) = -1
    \<and> rbuf (g_hnd w' p) = buffer_clear (rbuf (g_hnd w p)) \<and> g_closed w' = g_closed w @ [id_fd (g_hnd w p)]
    \<and> g_wire w' = g_wire w"
proof -
  define w1 where "w1 = w\<lparr>g_answers := answers\<rparr>"
  have na: "next_answer w = ((SendErr e, ok), w1)" using assms(6) by (simp add: next_answer_def w1_def)
  obtain ret ev out h' r' where s: "tcp_send_packet (e_alloc env) (SendErr e) ok (e_need env) (e_encode env) False (g_hnd w p)
      (g_reactor w) = (ret, ev, out, h', r')" by (metis prod_cases5)
  have rep: "1 \<le> e_need env" "\<And>n. e_need env \<le> n \<Longrightarrow> e_encode env n = Some rep"
    "\<And>n bs. e_encode env n = Some bs \<Longrightarrow> bs \<noteq> [] \<and> int (length bs) \<le> n"
    using assms(3) by (simp_all add: replies_def)
  have sent: "ret = 0" "ev = Event ERROR_TYPE_SYSTEM" "out = []"
    using tcp_send_packet_hard [OF assms(7,8,2,5,4) rep s] by simp_all
  obtain sb where h: "h' = (g_hnd w p)\<lparr>sbuf := sb\<rparr>" using tcp_send_packet_frame [OF s] by blast
  define w2 where "w2 = w1\<lparr>g_hnd := (g_hnd w)(p := h'), g_reactor := r', g_wire := (g_wire w)(p := g_wire w p @ [])\<rparr>"
  have w2: "conns (g_app w2) p = Some c" "g_app w2 = g_app w" "g_hnd w2 p = h'" "g_closed w2 = g_closed w"
    using assms(1) by (simp_all add: w2_def w1_def)
  obtain w3 where w3: "session_event p w2 = Fine w3"
    "conn_pool (g_app w3) = (if length (conn_pool (g_app w)) > 100 then conn_pool (g_app w) else conn_pool (g_app w) @ [p])"
    "conns (g_app w3) p = (if length (conn_pool (g_app w)) > 100 then None else Some (client_reset c))"
    "readall_flag (g_hnd w3 p) = readall_flag (g_hnd w p)" "id_fd (g_hnd w3 p) = -1"
    "rbuf (g_hnd w3 p) = buffer_clear (rbuf (g_hnd w p))" "g_closed w3 = g_closed w @ [id_fd (g_hnd w p)]"
    using session_event_result [OF w2(1)] assms(4) unfolding w2(2-4) h by auto
  have "g_wire w3 = g_wire w"
    using w3(1) by (auto simp: session_event_def w2_def w1_def split: checked.splits prod.splits)
  moreover have "session_send_packet env p w = Fine (0, w3)"
    using na s sent w3(1) by (simp add: session_send_packet_def w2_def w1_def)
  ultimately show ?thesis using w3 by blast
qed

text \<open>The first packet of the buffer is a login request, and the socket refuses the answer.\<close>

definition refused_login :: "'b session_env \<Rightarrow> nat \<Rightarrow> byte list \<Rightarrow> session_world \<Rightarrow> bool" where
  "refused_login env p f w \<longleftrightarrow>
     (\<exists>q. login_frame (e_parse env) (e_request env) f q) \<and> e_cfg env = no_checks
     \<and> (\<exists>c. conns (g_app w) p = Some c \<and> m_policy_status c \<noteq> 1)
     \<and> 0 \<le> id_fd (g_hnd w p) \<and> buf_inv (sbuf (g_hnd w p))
     \<and> (\<exists>e ok answers. g_answers w = (SendErr e, ok) # answers \<and> e \<noteq> EAGAIN \<and> e \<noteq> EINTR)"

lemma login_frame_info:
  assumes "login_frame parse request f q"
  shows "gate_packet_info m c (f @ ys) = (0, \<lparr>pi_size = int (length f), pi_type = 4, pi_data = f @ ys\<rparr>, c)"
    and "cs_decode parse 4 (f @ ys) (int (length f)) request = Fine (int (length f), q)" "4 \<le> length f" "length f \<le> 10240"
proof -
  let ?i = "\<lparr>pi_size = int (length f), pi_type = 4, pi_data = f @ ys\<rparr>"
  have f4: "4 \<le> length f" "length f \<le> 10240" "uint (ntoh_int16 (peek16 0 f)) = int (length f)"
    "uint (ntoh_int16 (peek16 2 f)) = 4" using assms by (simp_all add: login_frame_def login_type)
  then have i: "gate_head_info c (f @ ys) = (0, ?i, c)" by (simp add: gate_head_info_cases block_simps)
  then have "no_angle (f @ ys)"
    using angle_is_too_long [of "f @ ys" c] f4(1) by (auto simp: no_angle_def)
  then show "gate_packet_info m c (f @ ys) = (0, ?i, c)"
    using policy_needs_angle [of "f @ ys" m c] i f4(1) by (cases f) auto
  show "cs_decode parse 4 (f @ ys) (int (length f)) request = Fine (int (length f), q)"
    using cs_decode_append [of "\<lparr>pi_size = int (length f), pi_type = 4, pi_data = f\<rparr>" f parse 4 ys request] assms f4
    by (simp add: login_frame_def login_type)
qed (use assms in \<open>simp_all add: login_frame_def login_type\<close>)

lemma parse_refused:
  assumes "refused_login env p f w" "alloc_total (e_alloc env)" "replies env rep"
    and "buf_inv (rbuf (g_hnd w p))" "pending (rbuf (g_hnd w p)) = f @ ys" "conns (g_app w) p = Some c"
  shows "if length (conn_pool (g_app w)) > 100 then session_parse env p w = OutOfBounds
    else \<exists>w'. session_parse env p w = Fine (True, w') \<and> conn_pool (g_app w') = conn_pool (g_app w) @ [p]
      \<and> conns (g_app w') p = Some (client_reset c) \<and> readall_flag (g_hnd w' p) = readall_flag (g_hnd w p)
      \<and> id_fd (g_hnd w' p) = -1 \<and> g_closed w' = g_closed w @ [id_fd (g_hnd w p)] \<and> g_wire w' = g_wire w"
proof -
  define b where "b = rbuf (g_hnd w p)"
  note bb = b_def [symmetric]
  obtain q where f: "login_frame (e_parse env) (e_request env) f q" using assms(1) by (auto simp: refused_login_def)
  note fi = login_frame_info [OF f]
  have cfg: "e_cfg env = no_checks" and pol: "m_policy_status c \<noteq> 1" and fd: "0 \<le> id_fd (g_hnd w p)"
    and sb: "buf_inv (sbuf (g_hnd w p))" using assms(1,6) by (auto simp: refused_login_def)
  obtain e ok answers where ans: "g_answers w = (SendErr e, ok) # answers" "e \<noteq> EAGAIN" "e \<noteq> EINTR"
    using assms(1) by (auto simp: refused_login_def)
  have size: "data_size b = int (length f) + int (length ys)" using length_pending [OF assms(4)] assms(5) by (simp add: bb)
  have same: "set_client p c w = w" using assms(6) by (simp add: set_client_def update_client_same)
  obtain w2 where w2: "session_send_packet env p w = Fine (0, w2)"
    "conn_pool (g_app w2) = (if length (conn_pool (g_app w)) > 100 then conn_pool (g_app w) else conn_pool (g_app w) @ [p])"
    "conns (g_app w2) p = (if length (conn_pool (g_app w)) > 100 then None else Some (client_reset c))"
    "readall_flag (g_hnd w2 p) = readall_flag (g_hnd w p)" "id_fd (g_hnd w2 p) = -1" "rbuf (g_hnd w2 p) = buffer_clear b"
    "g_closed w2 = g_closed w @ [id_fd (g_hnd w p)]" "g_wire w2 = g_wire w"
    using session_send_packet_hard [OF assms(6,2,3) fd sb ans] by (auto simp: bb)
  have pr: "session_process env p \<lparr>pi_size = int (length f), pi_type = 4, pi_data = f @ ys\<rparr> w = Fine (0, w2)"
    using assms(6) pol cfg same fi(2) w2(1) by (simp add: session_process_def session_login_def login_type)
  have cleared: "data_size (buffer_clear b) = 0" "snd (pop_data (int (length f)) (buffer_clear b)) = buffer_clear b"
    using fi(3) by (auto simp: buffer_clear_def data_size_def pop_data_def)
  have ne: "f \<noteq> []" using fi(3) by auto
  have p: "session_parse env p w = (if conns (g_app w2) p = None then OutOfBounds
      else session_parse env p (set_rbuf p (buffer_clear b) w2))"
    using assms(5,6) size fi(1,3,4) same pr w2(6) cleared(2) ne
    by (subst session_parse.simps) (simp add: bb Let_def)
  show ?thesis
  proof (cases "length (conn_pool (g_app w)) > 100")
    case True
    then show ?thesis using p w2(3) by simp
  next
    case False
    define w3 where "w3 = set_rbuf p (buffer_clear b) w2"
    have "session_parse env p w3 = Fine (True, w3)"
      using w2(3) False cleared(1) by (subst session_parse.simps) (simp add: w3_def)
    then have "session_parse env p w = Fine (True, w3)" using p w2(3) False by (simp add: w3_def)
    then show ?thesis using w2 False by (simp add: w3_def)
  qed
qed

text \<open>A write event that fails gives the object back once.\<close>

lemma session_write_hard:
  assumes "conns (g_app w) p = Some c" "g_answers w = (SendErr e, ok) # answers" "e \<noteq> EAGAIN" "e \<noteq> EINTR"
    and "0 < data_size (sbuf (g_hnd w p))" "length (conn_pool (g_app w)) \<le> 100"
  shows "\<exists>w'. session_write p fd w = Fine w' \<and> conn_pool (g_app w') = conn_pool (g_app w) @ [p]"
proof -
  define w1 where "w1 = w\<lparr>g_answers := answers\<rparr>"
  have na: "next_answer w = ((SendErr e, ok), w1)" using assms(2) by (simp add: next_answer_def w1_def)
  have ow: "on_write (SendErr e) ok fd (g_hnd w p) (g_reactor w) = (Event ERROR_TYPE_SYSTEM, [], g_hnd w p, g_reactor w)"
    using assms(3-5) by (simp add: on_write_def Let_def)
  have same: "w1\<lparr>g_hnd := g_hnd w, g_reactor := g_reactor w\<rparr> = w1" by (simp add: w1_def)
  have w1: "conns (g_app w1) p = Some c" "g_app w1 = g_app w" "g_hnd w1 = g_hnd w" "g_reactor w1 = g_reactor w"
    using assms(1) by (simp_all add: w1_def)
  from session_event_result [OF w1(1)] assms(6) obtain w' where
    "session_event p w1 = Fine w'" "conn_pool (g_app w') = conn_pool (g_app w) @ [p]"
    unfolding w1(2) by auto
  moreover have "session_write p fd w = session_event p (w1\<lparr>g_hnd := g_hnd w, g_reactor := g_reactor w\<rparr>)"
    using na ow assms(1) w1(3,4) by (simp add: session_write_def)
  ultimately show ?thesis unfolding same by auto
qed

text \<open>\<open>GateApp\<close> notes in \<open>conn_open\<close> which objects hold a descriptor; closing and speaking keep the two in step.\<close>

definition open_ok :: "session_world \<Rightarrow> bool" where
  "open_ok w \<longleftrightarrow> (\<forall>q. conn_open (g_app w) q \<longleftrightarrow> conns (g_app w) q \<noteq> None \<and> 0 \<le> id_fd (g_hnd w q))"

lemma on_event_open_flag:
  "on_event p a = Fine a' \<Longrightarrow> conn_open a' = (conn_open a)(p := False) \<and> (\<forall>q. q \<noteq> p \<longrightarrow> conns a' q = conns a q)"
  by (auto simp: on_event_def Let_def free_connection_def update_client_def set_user_connection_def
      set_role_connection_def split: option.splits if_splits)

lemma session_event_open_ok:
  assumes "open_ok w" "session_event p w = Fine w'"
  shows "open_ok w' \<and> \<not> conn_open (g_app w') p"
proof -
  obtain a h r cl where e: "on_event p (g_app w) = Fine a" "tcp_fini False (g_hnd w p) (g_reactor w) = (h, r, cl)"
    "g_app w' = a" "g_hnd w' = (g_hnd w)(p := h)"
    using assms(2) by (auto simp: session_event_def split: checked.splits prod.splits)
  have "id_fd h < 0" using e(2) by (auto simp: tcp_fini_def split: if_splits)
  then show ?thesis using assms(1) on_event_open_flag [OF e(1)] unfolding open_ok_def e(3,4) by auto
qed

lemma spoke_open_ok:
  assumes "open_ok w" "spoke p xs w w'"
  shows "open_ok w'"
proof -
  obtain c where "g_app w' = update_client p (\<lambda>u. c) (g_app w)" using assms(2) by (auto simp: spoke_def)
  moreover have "id_fd (g_hnd w' q) = id_fd (g_hnd w q)" for q
    using assms(2) spoke_keeps(2) [OF assms(2)] by (cases "q = p") (auto simp: spoke_def)
  ultimately show ?thesis using assms(1) by (auto simp: open_ok_def update_client_def)
qed

section \<open>Properties\<close>


text \<open>A gate with one client at address 3 and descriptor 3, and one login request on the wire.\<close>

definition sample_session_env :: "byte list session_env" where
  "sample_session_env = \<lparr>e_alloc = sample_alloc, e_cfg = no_checks, e_now = 0, e_beyond = [], e_parse = Some,
     e_request = sample_login, e_need = 2, e_encode = (\<lambda>n. if 2 \<le> n then Some [1, 2] else None)\<rparr>"

definition sample_session_world :: "(send_result \<times> bool) list \<Rightarrow> session_world" where
  "sample_session_world answers = \<lparr>g_app = (app_new 5)\<lparr>conns := [3 \<mapsto> sample_client], conn_open := (\<lambda>q. q = 3)\<rparr>,
     g_hnd = (\<lambda>q. sample_handler\<lparr>readall_flag := False,
       rbuf := \<lparr>m_begin = 128, m_end = 192, m_data = 128, m_space = 128, block = replicate 64 0\<rparr>\<rparr>),
     g_reactor = sample_reactor, g_wire = (\<lambda>q. []), g_closed = [], g_answers = answers\<rparr>"

definition sample_frame :: "byte list" where
  "sample_frame = [0, 15, 0, 4, 0, 0, 0, 0, 0, 0, 0, 1, 7, 7, 7]"

lemma sample_frame_ok: "login_frame Some sample_login sample_frame sample_login"
proof -
  have "cs_encoder Some cs_player_login_request_type raw0 sample_login 23 = Some sample_frame"
    by (simp add: cs_encoder_def cs_encode_def sample_login_def raw0_def login_type serialize_body_def put_bytes_def
        aliased_buf_new_def tellp_def seekoff_def Let_def blit_def poke16_def poke32_def le16_def le32_def
        hton_int16_def hton_int32_def bswap_16_def bswap_32_def sample_frame_def)
  from encoded_login_frame [OF _ _ _ this, of Some sample_login] show ?thesis
    by (simp add: raw0_def small_body_def sample_login_def)
qed

lemma sample_env_facts:
  "alloc_total (e_alloc sample_session_env)" "replies sample_session_env [1, 2]" "\<not> cfg_check_seq (e_cfg sample_session_env)"
  using sample_alloc_total by (simp_all add: sample_session_env_def replies_def)

lemma sample_gate_facts:
  "conns (g_app (sample_session_world answers)) 3 = Some sample_client" "id_fd (g_hnd (sample_session_world answers) 3) = 3"
  "\<not> readall_flag (g_hnd (sample_session_world answers) 3)" "buf_inv (sbuf (g_hnd (sample_session_world answers) 3))"
  "buf_inv (rbuf (g_hnd (sample_session_world answers) 3))" "pending (rbuf (g_hnd (sample_session_world answers) 3)) = []"
  "space_size (rbuf (g_hnd (sample_session_world answers) 3)) = 64" "conn_pool (g_app (sample_session_world answers)) = []"
  "writable 3 (sample_session_world answers) \<longleftrightarrow> list_all soft answers" "said 3 (sample_session_world answers) = []"
  by (simp_all add: sample_session_world_def sample_handler_def tcp_new_def MAX_WRITE_SIZE_def buf_inv_def pending_def region_def
      space_size_def writable_def app_new_def said_def)


text \<open>C14: A failed answer closes the connection inside the read event. Let the first packet of the event be a login
  request, whatever follows it, and let the socket refuse the answer with an error. \<open>send\<close> then closes the
  descriptor and gives the object back, while \<open>on_read\<close> is still running. If the pool is full the object is deleted
  and \<open>on_read\<close> uses it afterwards. Otherwise, as \<open>m_readall_flag\<close> is not set for a client of the gate, \<open>on_read\<close>
  ends and the object is pooled once; with the flag set it would read the closed descriptor, fail and give
  the object back a second time, so that the pool holds it twice, or holds a deleted object.\<close>

theorem failed_answer_closes:
  assumes "refused_login env p f w" "alloc_total (e_alloc env)" "replies env rep"
    and "buf_inv (rbuf (g_hnd w p))" "pending (rbuf (g_hnd w p)) = []"
    and "segments s = (f @ ys) # later" "[] \<notin> set (segments s)" "int (length (f @ ys)) \<le> space_size (rbuf (g_hnd w p))"
  shows "if length (conn_pool (g_app w)) > 100 then session_read env p (id_fd (g_hnd w p)) w s = OutOfBounds
    else \<exists>w' s'. session_read env p (id_fd (g_hnd w p)) w s = Fine (w', s')
      \<and> g_closed w' = g_closed w @ [id_fd (g_hnd w p)] \<and> g_wire w' = g_wire w
      \<and> (if \<not> readall_flag (g_hnd w p)
         then conn_pool (g_app w') = conn_pool (g_app w) @ [p] \<and> conns (g_app w') p \<noteq> None
         else if length (conn_pool (g_app w)) < 100 then conn_pool (g_app w') = conn_pool (g_app w) @ [p, p]
         else p \<in> set (conn_pool (g_app w')) \<and> conns (g_app w') p = None)"
proof -
  define fd where "fd = id_fd (g_hnd w p)"
  obtain q c where f: "login_frame (e_parse env) (e_request env) f q" and c: "conns (g_app w) p = Some c"
    and fd0: "0 \<le> fd" using assms(1) by (auto simp: refused_login_def fd_def)
  have ne: "f @ ys \<noteq> []" using login_frame_info(3) [OF f] by auto
  have sp: "0 < space_size (rbuf (g_hnd w p))" using assms(8) ne by (cases "f @ ys") auto
  obtain xs s1 b1 where t: "buf_inv b1" "pending b1 = pending (rbuf (g_hnd w p)) @ xs"
      "recv (nat (space_size (rbuf (g_hnd w p)))) s = (Received xs, s1)"
    and eq: "session_read env p fd w s =
       (case session_parse env p (set_rbuf p b1 w) of
          OutOfBounds \<Rightarrow> OutOfBounds
        | Fine (go, w2) \<Rightarrow>
            if \<not> go then Fine (w2, s1)
            else let w3 = set_rbuf p (buffer_adjust (rbuf (g_hnd w2 p))) w2 in
              if readall_flag (g_hnd w3 p) then session_read env p fd w3 s1 else Fine (w3, s1))"
    by (rule session_read_turn [OF assms(6,7) c fd_def [symmetric] assms(4) sp])
  define w1 where "w1 = set_rbuf p b1 w"
  have xs: "xs = f @ ys" using t(3) assms(6,8) by (simp add: recv_def)
  have w1: "refused_login env p f w1" "rbuf (g_hnd w1 p) = b1" "conns (g_app w1) p = Some c" "g_app w1 = g_app w"
    "id_fd (g_hnd w1 p) = fd" "readall_flag (g_hnd w1 p) = readall_flag (g_hnd w p)" "g_closed w1 = g_closed w" "g_wire w1 = g_wire w"
    using assms(1) c by (simp_all add: refused_login_def w1_def fd_def)
  have "pending (rbuf (g_hnd w1 p)) = f @ ys" using t(2) xs assms(5) by (simp add: w1)
  note pr = parse_refused [OF w1(1) assms(2,3) _ this w1(3), unfolded w1, OF t(1)]
  show ?thesis
  proof (cases "length (conn_pool (g_app w)) > 100")
    case True
    then show ?thesis using pr eq by (simp add: w1_def fd_def)
  next
    case False
    then obtain w2 where w2: "session_parse env p w1 = Fine (True, w2)" "conn_pool (g_app w2) = conn_pool (g_app w) @ [p]"
      "conns (g_app w2) p = Some (client_reset c)" "readall_flag (g_hnd w2 p) = readall_flag (g_hnd w p)"
      "id_fd (g_hnd w2 p) = -1" "g_closed w2 = g_closed w @ [fd]" "g_wire w2 = g_wire w"
      using pr w1(6) by auto
    define w3 where "w3 = set_rbuf p (buffer_adjust (rbuf (g_hnd w2 p))) w2"
    have go: "session_read env p fd w s = (if readall_flag (g_hnd w p) then session_read env p fd w3 s1 else Fine (w3, s1))"
      using eq w2(1,4) by (simp add: w1_def w3_def Let_def)
    have w3: "conns (g_app w3) p = Some (client_reset c)" "id_fd (g_hnd w3 p) = -1" "g_closed w3 = g_closed w @ [fd]"
      "g_wire w3 = g_wire w" "conn_pool (g_app w3) = conn_pool (g_app w) @ [p]"
      using w2 by (simp_all add: w3_def)
    have again: "session_read env p fd w3 s1 = return_closed p w3 s1"
      using w3(1,2) fd0 by (subst session_read.simps) (simp add: session_recv_def)
    obtain w4 where w4: "session_event p w3 = Fine w4" "conn_pool (g_app w4) =
        (if length (conn_pool (g_app w3)) > 100 then conn_pool (g_app w3) else conn_pool (g_app w3) @ [p])"
      "conns (g_app w4) p = (if length (conn_pool (g_app w3)) > 100 then None else Some (client_reset (client_reset c)))"
      "g_closed w4 = g_closed w @ [fd]"
      using session_event_result [OF w3(1)] w3(2,3) by auto
    moreover have "g_wire w4 = g_wire w"
      using w4(1) w3(4) by (auto simp: session_event_def split: checked.splits prod.splits)
    ultimately show ?thesis
      using go again False w3 by (auto simp: return_closed_def fd_def)
  qed
qed

theorem failed_answer_closes_witness:
  "\<exists>w' s'. session_read sample_session_env 3 3 (sample_session_world [(SendErr (EOTHER 32), True)])
      \<lparr>segments = [sample_frame], sock_end = SockErr EAGAIN\<rparr> = Fine (w', s')
    \<and> conn_pool (g_app w') = [3] \<and> g_closed w' = [3]"
proof -
  let ?w = "sample_session_world [(SendErr (EOTHER 32), True)]"
  let ?s = "\<lparr>segments = [sample_frame], sock_end = SockErr EAGAIN\<rparr>"
  note facts = sample_gate_facts [of "[(SendErr (EOTHER 32), True)]"]
  have "g_answers ?w = [(SendErr (EOTHER 32), True)]" "m_policy_status sample_client \<noteq> 1"
    "e_parse sample_session_env = Some" "e_request sample_session_env = sample_login" "e_cfg sample_session_env = no_checks"
    by (simp_all add: sample_session_world_def sample_client_def client_new_def sample_session_env_def)
  then have "refused_login sample_session_env 3 sample_frame ?w"
    unfolding refused_login_def using sample_frame_ok facts(1,2,4) by (auto simp del: fun_upd_apply)
  moreover have "g_closed ?w = []" by (simp add: sample_session_world_def)
  moreover have "segments ?s = (sample_frame @ []) # []" "[] \<notin> set (segments ?s)"
    "int (length (sample_frame @ [])) \<le> space_size (rbuf (g_hnd ?w 3))"
    unfolding facts by (simp_all add: sample_frame_def)
  ultimately show ?thesis
    using failed_answer_closes [of sample_session_env 3 sample_frame ?w "[1, 2]" ?s "[]" "[]",
        OF _ sample_env_facts(1,2) facts(5,6)] facts(3) unfolding facts
    by (metis append_Nil list.size(3) zero_less_numeral not_less_zero)
qed

text \<open>What a double entry would mean: the next two clients are given the same object.\<close>

lemma double_entry_shared:
  assumes "conn_pool a = ps @ [p, p]"
  shows "\<exists>a1 a2. alloc_connection q raw a = (p, a1) \<and> alloc_connection q raw a1 = (p, a2)"
  using assms by (simp add: alloc_connection_def butlast_append)

end
