(* ===== verification/GateSystem.thy ===== *)
theory GateSystem
  imports GateSession Acceptor
begin

text \<open>
  The gate server as one transition system: accepting clients, the events the reactor reports for their
  descriptors, their idle timers, an error of the listener, a reload and the delayed stop, on the state of \<open>GateSession\<close>
  (application, handlers, reactor) and the acceptor. Each step calls the code of the handlers in full. Shown: the pool,
  the connection objects, their descriptors, the table of the reactor and the interest set always agree, so that every
  event reaches an allocated, open connection, and a freed one is touched only when a send fails inside a read event
  while the pool is full; the accept and idle steps are those of \<open>GateApp\<close>.
\<close>

section \<open>Accepting, errors and idle timers\<close>

text \<open>
  \<open>ClientAcceptor::on_connection\<close> with \<open>init\<close> of the handler. \<open>p\<close> and \<open>raw\<close> are the address and the memory of a new
  object, \<open>ok\<close> the answer of \<open>epoll_ctl\<close>.
\<close>

definition session_accept ::
  "'b session_env \<Rightarrow> nat \<Rightarrow> client \<Rightarrow> bool \<Rightarrow> int \<Rightarrow> byte list \<Rightarrow> int \<Rightarrow> bool \<Rightarrow> session_world \<Rightarrow> int \<times> session_world" where
  "session_accept env p raw ok fd ip run_ms timer_ok w =
     (if is_online_threshold (g_app w) then (-1, w)
      else case alloc_connection p raw (g_app w) of (conn, a1) \<Rightarrow>
        let h0 = (if conn_pool (g_app w) = [] then tcp_new conn else g_hnd w conn) in
        case tcp_init (e_alloc env) (e_alloc env) ok (e_now env) fd 10240 h0 (g_reactor w) of (ret, h, r) \<Rightarrow>
          if ret \<noteq> 0
          then (-1, w\<lparr>g_app := free_connection conn a1, g_hnd := (g_hnd w)(conn := h), g_reactor := r\<rparr>)
          else (0, w\<lparr>g_app := update_client conn (\<lambda>u. on_connect (e_now env) run_ms timer_ok (set_login_ip ip u))
                        (a1\<lparr>conn_open := (conn_open a1)(conn := True)\<rparr>),
                     g_hnd := (g_hnd w)(conn := h\<lparr>readall_flag := False\<rparr>), g_reactor := r,
                     g_wire := (g_wire w)(conn := [])\<rparr>))"

lemma session_accept_app:
  assumes "session_accept env p raw ok fd ip run_ms timer_ok w = (ret, w')"
  shows "\<exists>init_ok. on_connection p raw init_ok ip (e_now env) run_ms timer_ok (g_app w) = (ret, g_app w')"
proof -
  obtain conn a1 where a: "alloc_connection p raw (g_app w) = (conn, a1)" by fastforce
  define h0 where "h0 = (if conn_pool (g_app w) = [] then tcp_new conn else g_hnd w conn)"
  obtain rt h r where i: "tcp_init (e_alloc env) (e_alloc env) ok (e_now env) fd 10240 h0 (g_reactor w) = (rt, h, r)"
    by (metis prod_cases3)
  have "on_connection p raw (rt = 0) ip (e_now env) run_ms timer_ok (g_app w) = (ret, g_app w')"
    using assms a i by (auto simp: session_accept_def on_connection_def h0_def [symmetric] split: if_splits)
  then show ?thesis by blast
qed

text \<open>\<open>on_idle_timeout\<close> with the closing of the handler.\<close>

definition session_idle :: "int \<Rightarrow> int \<Rightarrow> bool \<Rightarrow> nat \<Rightarrow> session_world \<Rightarrow> session_world checked" where
  "session_idle now run_ms timer_ok p w =
     (case conns (g_app w) p of
        None \<Rightarrow> OutOfBounds
      | Some c \<Rightarrow>
          let w1 = set_client p (c\<lparr>idle_expires := None\<rparr>) w in
          if m_status c < STATUS_PREPARE then session_event p w1
          else if now - m_heart_time c > 180 then session_event p w1
          else Fine (if timer_ok then set_client p (c\<lparr>idle_expires := Some (run_ms + 50000)\<rparr>) w1 else w1))"

lemma session_idle_app:
  assumes "session_idle now run_ms timer_ok p w = Fine w'"
  shows "on_idle_timeout now run_ms timer_ok p (g_app w) = Fine (g_app w')"
proof -
  obtain c where c: "conns (g_app w) p = Some c"
    using assms by (auto simp: session_idle_def split: option.splits)
  have u: "update_client p (\<lambda>u. u\<lparr>idle_expires := None\<rparr>) (g_app w) = update_client p (\<lambda>u. c\<lparr>idle_expires := None\<rparr>) (g_app w)"
    "update_client p (\<lambda>u. u\<lparr>idle_expires := Some (run_ms + 50000)\<rparr>) (update_client p (\<lambda>u. c\<lparr>idle_expires := None\<rparr>) (g_app w))
      = update_client p (\<lambda>u. c\<lparr>idle_expires := Some (run_ms + 50000)\<rparr>) (update_client p (\<lambda>u. c\<lparr>idle_expires := None\<rparr>) (g_app w))"
    using c by (simp_all add: update_client_def)
  have e: "on_event p (g_app v) = Fine (g_app w')" if "session_event p v = Fine w'" for v
    using that by (auto simp: session_event_def split: checked.splits prod.splits)
  show ?thesis
    using assms c u e [of "set_client p (c\<lparr>idle_expires := None\<rparr>) w"]
    by (auto simp: session_idle_def on_idle_timeout_def Let_def split: if_splits)
qed

section \<open>The invariant\<close>

text \<open>
  \<open>lst\<close> is the listener, the only handler that is no connection, \<open>lfd\<close> its descriptor, negative when it is closed. A
  connection object is at its own address in the table of the reactor exactly while it holds a descriptor.
\<close>

definition handler_ok :: "nat \<Rightarrow> tcp_handler \<Rightarrow> bool" where
  "handler_ok p h \<longleftrightarrow> self h = p \<and> buf_inv (rbuf h) \<and> buf_inv (sbuf h) \<and> 0 < max_write_size h \<and> \<not> readall_flag h"

definition sys_ok :: "handler \<Rightarrow> int \<Rightarrow> session_world \<Rightarrow> bool" where
  "sys_ok lst lfd w \<longleftrightarrow> pool_ok (g_app w) \<and> open_ok w \<and> reactor_inv (g_reactor w) \<and> conns (g_app w) lst = None
     \<and> (\<forall>p. conns (g_app w) p \<noteq> None \<longrightarrow> handler_ok p (g_hnd w p))
     \<and> (\<forall>p. conn_open (g_app w) p \<longrightarrow> handler_at (g_reactor w) (id_fd (g_hnd w p)) = Some p
          \<and> interest (g_reactor w) (id_fd (g_hnd w p)) \<noteq> None)
     \<and> (\<forall>fd. interest (g_reactor w) fd \<noteq> None \<longrightarrow> fd = lfd \<or> (\<exists>p. conn_open (g_app w) p \<and> id_fd (g_hnd w p) = fd))
     \<and> (0 \<le> lfd \<longrightarrow> handler_at (g_reactor w) lfd = Some lst \<and> interest (g_reactor w) lfd \<noteq> None)"

lemma sys_okD:
  assumes "sys_ok lst lfd w"
  shows "pool_ok (g_app w)" "open_ok w" "reactor_inv (g_reactor w)" "conns (g_app w) lst = None"
    "conns (g_app w) p \<noteq> None \<Longrightarrow> handler_ok p (g_hnd w p)"
    "conn_open (g_app w) p \<Longrightarrow> handler_at (g_reactor w) (id_fd (g_hnd w p)) = Some p
       \<and> interest (g_reactor w) (id_fd (g_hnd w p)) \<noteq> None"
    "interest (g_reactor w) fd \<noteq> None \<Longrightarrow> fd = lfd \<or> (\<exists>p. conn_open (g_app w) p \<and> id_fd (g_hnd w p) = fd)"
    "0 \<le> lfd \<Longrightarrow> handler_at (g_reactor w) lfd = Some lst \<and> interest (g_reactor w) lfd \<noteq> None"
  using assms unfolding sys_ok_def by blast+

lemma sys_ok_cong:
  "g_app w' = g_app w \<Longrightarrow> g_hnd w' = g_hnd w \<Longrightarrow> g_reactor w' = g_reactor w \<Longrightarrow> sys_ok lst lfd w' = sys_ok lst lfd w"
  by (simp only: sys_ok_def open_ok_def)

lemma sys_ok_answers [simp]: "sys_ok lst lfd (w\<lparr>g_answers := xs\<rparr>) = sys_ok lst lfd w"
  by (rule sys_ok_cong) simp_all

text \<open>An open connection: allocated and registered.\<close>

lemma sys_ok_open:
  assumes "sys_ok lst lfd w" "conn_open (g_app w) p"
  shows "\<exists>c. conns (g_app w) p = Some c \<and> m_uid c = 0" "registered p w" "0 \<le> id_fd (g_hnd w p)" "handler_ok p (g_hnd w p)"
proof -
  note d = sys_okD [OF assms(1)]
  obtain c where c: "conns (g_app w) p = Some c" "m_uid c = 0" using pool_ok_open [OF d(1) assms(2)] by blast
  then show "\<exists>c. conns (g_app w) p = Some c \<and> m_uid c = 0" by blast
  show h: "handler_ok p (g_hnd w p)" using d(5) [of p] c by simp
  show "registered p w" using d(3,6) assms(2) h by (simp add: registered_def handler_ok_def)
  show "0 \<le> id_fd (g_hnd w p)" using d(2) assms(2) by (simp add: open_ok_def)
qed

lemma same_descriptor:
  assumes "sys_ok lst lfd w" "conn_open (g_app w) p" "conn_open (g_app w) q" "id_fd (g_hnd w p) = id_fd (g_hnd w q)"
  shows "p = q"
  using sys_okD(6) [OF assms(1,2)] sys_okD(6) [OF assms(1,3)] assms(4) by (metis option.inject)

text \<open>What a step may do that leaves the connections and their descriptors as they are.\<close>

lemma sys_ok_same:
  assumes "sys_ok lst lfd w" "pool_ok (g_app w')" "conn_open (g_app w') = conn_open (g_app w)"
    and "\<And>q. conns (g_app w') q = None \<longleftrightarrow> conns (g_app w) q = None" "\<And>q. id_fd (g_hnd w' q) = id_fd (g_hnd w q)"
    and "\<And>q. conns (g_app w) q \<noteq> None \<Longrightarrow> handler_ok q (g_hnd w' q)" "same_table (g_reactor w) (g_reactor w')"
  shows "sys_ok lst lfd w'"
proof -
  note d = sys_okD [OF assms(1)]
  have "open_ok w'" using d(2) by (simp add: open_ok_def assms(3-5))
  moreover have "interest (g_reactor w') fd \<noteq> None \<longleftrightarrow> interest (g_reactor w) fd \<noteq> None" for fd
    using assms(7) by (auto simp: same_table_def dom_def set_eq_iff)
  moreover have "handler_at (g_reactor w') = handler_at (g_reactor w)" "reactor_inv (g_reactor w')"
    using assms(7) d(3) by (simp_all add: same_table_def)
  ultimately show ?thesis using d(4-8) assms(2,6) unfolding sys_ok_def by (simp add: assms(3-5))
qed

lemma sys_ok_hnd:
  assumes "sys_ok lst lfd w" "handler_ok p h" "id_fd h = id_fd (g_hnd w p)" "same_table (g_reactor w) r"
    and "g_app w' = g_app w" "g_hnd w' = (g_hnd w)(p := h)" "g_reactor w' = r"
  shows "sys_ok lst lfd w'"
  using sys_okD(1,5) [OF assms(1)] assms(2-4) by (intro sys_ok_same [OF assms(1)]) (simp_all add: assms(5-7))

lemma sys_ok_set_rbuf:
  assumes "sys_ok lst lfd w" "conns (g_app w) p \<noteq> None" "buf_inv b"
  shows "sys_ok lst lfd (set_rbuf p b w)"
proof (rule sys_ok_hnd [OF assms(1)])
  show "g_hnd (set_rbuf p b w) = (g_hnd w)(p := (g_hnd w p)\<lparr>rbuf := b\<rparr>)" by (simp add: set_rbuf_def)
  show "handler_ok p ((g_hnd w p)\<lparr>rbuf := b\<rparr>)" using sys_okD(5) [OF assms(1,2)] assms(3) by (simp add: handler_ok_def)
qed simp_all

lemma sys_ok_set_client:
  assumes "sys_ok lst lfd w" "conn_open (g_app w) p" "m_uid c = 0"
  shows "sys_ok lst lfd (set_client p c w)"
proof (rule sys_ok_same [OF assms(1)])
  show "pool_ok (g_app (set_client p c w))"
    unfolding set_client_simps by (rule update_open_ok [OF sys_okD(1) [OF assms(1)] assms(2)]) (use pool_ok_open [OF sys_okD(1) [OF assms(1)] assms(2)] assms(3) in auto)
qed (use sys_okD(5) [OF assms(1)] in \<open>simp_all add: update_client_def\<close>)

text \<open>Closing takes the object out of the table.\<close>

lemma del_handler_table:
  assumes "reactor_inv r" "interest r fd \<noteq> None"
  shows "reactor_inv (del_handler fd r)" "interest (del_handler fd r) = (interest r)(fd := None)"
    "fd' \<noteq> fd \<Longrightarrow> interest r fd' \<noteq> None \<Longrightarrow> handler_at (del_handler fd r) fd' = handler_at r fd'"
proof -
  note i = interest_registered [OF assms]
  show "reactor_inv (del_handler fd r)" by (rule reactor_inv_del [OF assms(1)])
  show "interest (del_handler fd r) = (interest r)(fd := None)" using i by (simp add: del_handler_def)
  assume "fd' \<noteq> fd" "interest r fd' \<noteq> None"
  then show "handler_at (del_handler fd r) fd' = handler_at r fd'"
    using i interest_registered [OF assms(1), of fd']
    by (auto simp: del_handler_def handler_at_cases set_handler_def nth_list_update nat_eq_iff split: option.splits)
qed

lemma session_event_parts:
  assumes "session_event p w = Fine w'"
  obtains h r cl where "on_event p (g_app w) = Fine (g_app w')" "tcp_fini False (g_hnd w p) (g_reactor w) = (h, r, cl)"
    "g_hnd w' = (g_hnd w)(p := h)" "g_reactor w' = r"
  using assms by (auto simp: session_event_def split: checked.splits prod.splits)

lemma sys_ok_event:
  assumes "sys_ok lst lfd w" "conn_open (g_app w) p"
  shows "\<exists>w'. session_event p w = Fine w' \<and> sys_ok lst lfd w' \<and> \<not> conn_open (g_app w') p
    \<and> rbuf (g_hnd w' p) = buffer_clear (rbuf (g_hnd w p)) \<and> (conns (g_app w') p = None \<longleftrightarrow> length (conn_pool (g_app w)) > 100)"
proof -
  note d = sys_okD [OF assms(1)] and o = sys_ok_open [OF assms]
  obtain c where c: "conns (g_app w) p = Some c" using o(1) by blast
  obtain w' where w': "session_event p w = Fine w'" "conns (g_app w') p = None \<longleftrightarrow> length (conn_pool (g_app w)) > 100"
    using session_event_result [OF c] by auto
  obtain h r cl where e: "on_event p (g_app w) = Fine (g_app w')" "tcp_fini False (g_hnd w p) (g_reactor w) = (h, r, cl)"
    "g_hnd w' = (g_hnd w)(p := h)" "g_reactor w' = r"
    by (rule session_event_parts [OF w'(1)])
  let ?fd = "id_fd (g_hnd w p)"
  have h: "h = (g_hnd w p)\<lparr>id_fd := -1, id_timestamp := 0, has_reactor := False,
      rbuf := buffer_clear (rbuf (g_hnd w p)), sbuf := buffer_clear (sbuf (g_hnd w p))\<rparr>" "r = del_handler ?fd (g_reactor w)"
    using e(2) o(3) by (simp_all add: tcp_fini_def)
  note flags = on_event_open_flag [OF e(1)]
  have own: "handler_at (g_reactor w) ?fd = Some p" "interest (g_reactor w) ?fd \<noteq> None" using d(6) [OF assms(2)] by simp_all
  note del = del_handler_table [OF d(3) own(2)]
  have lst: "lst \<noteq> p" using d(4) c by auto
  have other: "q \<noteq> p \<and> conn_open (g_app w) q \<and> id_fd (g_hnd w q) \<noteq> ?fd" if "conn_open (g_app w') q" for q
    using that flags same_descriptor [OF assms(1,2), of q] by (auto split: if_splits)
  have "pool_ok (g_app w')" using on_event_open [OF d(1) assms(2)] e(1) by auto
  moreover have opened: "open_ok w' \<and> \<not> conn_open (g_app w') p" by (rule session_event_open_ok [OF d(2) w'(1)])
  moreover have "reactor_inv (g_reactor w')" unfolding e(4) h(2) by (rule del(1))
  moreover have "conns (g_app w') lst = None" using flags lst d(4) by simp
  moreover have "handler_ok q (g_hnd w' q)" if "conns (g_app w') q \<noteq> None" for q
  proof (cases "q = p")
    case True
    then show ?thesis using o(4) buffer_clear_ok by (simp add: e(3) h(1) handler_ok_def)
  next
    case False
    then show ?thesis using d(5) [of q] that flags by (simp add: e(3))
  qed
  moreover have "handler_at (g_reactor w') (id_fd (g_hnd w' q)) = Some q \<and> interest (g_reactor w') (id_fd (g_hnd w' q)) \<noteq> None"
    if "conn_open (g_app w') q" for q
    using other [OF that] d(6) [of q] del(2,3) by (simp add: e(3,4) h(2))
  moreover have "fd = lfd \<or> (\<exists>q. conn_open (g_app w') q \<and> id_fd (g_hnd w' q) = fd)"
    if "interest (g_reactor w') fd \<noteq> None" for fd
  proof -
    have fd: "fd \<noteq> ?fd" "interest (g_reactor w) fd \<noteq> None" using that del(2) by (auto simp: e(4) h(2) split: if_splits)
    then show ?thesis using d(7) [OF fd(2)] flags by (auto simp: e(3))
  qed
  moreover have "handler_at (g_reactor w') lfd = Some lst \<and> interest (g_reactor w') lfd \<noteq> None" if "0 \<le> lfd"
  proof -
    have "lfd \<noteq> ?fd" using d(8) [OF that] own(1) lst by auto
    then show ?thesis using d(8) [OF that] del(2,3) by (simp add: e(4) h(2))
  qed
  ultimately have sys: "sys_ok lst lfd w'" unfolding sys_ok_def by blast
  have "rbuf (g_hnd w' p) = buffer_clear (rbuf (g_hnd w p))" by (simp add: e(3) h(1))
  then show ?thesis using w' sys opened by (intro exI [of _ w'] conjI) simp_all
qed

section \<open>Sending\<close>

text \<open>What the code relies on: a sound allocator, and an encoder that stays in the space it is given.\<close>

definition env_ok :: "'b session_env \<Rightarrow> bool" where
  "env_ok env \<longleftrightarrow> alloc_sound (e_alloc env) \<and> (\<forall>n bs. e_encode env n = Some bs \<longrightarrow> bs \<noteq> [] \<and> int (length bs) \<le> n)"

text \<open>
  The object whose event runs. Either it stays open (\<open>live\<close>, \<open>goes_on\<close>), or a failing send closed it (\<open>shut\<close>): then
  it was deleted exactly when the pool held more than 100 objects.
\<close>

definition live :: "handler \<Rightarrow> int \<Rightarrow> nat \<Rightarrow> session_world \<Rightarrow> bool" where
  "live lst lfd p w \<longleftrightarrow> sys_ok lst lfd w \<and> conn_open (g_app w) p"

definition goes_on :: "nat \<Rightarrow> session_world \<Rightarrow> session_world \<Rightarrow> bool" where
  "goes_on p w w' \<longleftrightarrow> conn_pool (g_app w') = conn_pool (g_app w) \<and> rbuf (g_hnd w' p) = rbuf (g_hnd w p)
     \<and> (list_all soft (g_answers w) \<longrightarrow> list_all soft (g_answers w'))"

definition shut :: "handler \<Rightarrow> int \<Rightarrow> nat \<Rightarrow> session_world \<Rightarrow> session_world \<Rightarrow> bool" where
  "shut lst lfd p w w' \<longleftrightarrow> sys_ok lst lfd w' \<and> \<not> conn_open (g_app w') p \<and> \<not> list_all soft (g_answers w)
     \<and> rbuf (g_hnd w' p) = buffer_clear (rbuf (g_hnd w p)) \<and> (conns (g_app w') p = None \<longleftrightarrow> length (conn_pool (g_app w)) > 100)"

lemma goes_on_refl: "goes_on p w w"
  by (simp add: goes_on_def)

lemma goes_on_trans: "goes_on p w1 w2 \<Longrightarrow> goes_on p w2 w3 \<Longrightarrow> goes_on p w1 w3"
  by (simp add: goes_on_def)

lemma goes_on_shut: "goes_on p w1 w2 \<Longrightarrow> shut lst lfd p w2 w3 \<Longrightarrow> shut lst lfd p w1 w3"
  by (auto simp: goes_on_def shut_def)

lemma live_set_client:
  assumes "live lst lfd p w" "m_uid c = 0"
  shows "live lst lfd p (set_client p c w)" "goes_on p w (set_client p c w)" "conns (g_app (set_client p c w)) p = Some c"
  using assms sys_ok_set_client [of lst lfd w p c] sys_ok_open(1) [of lst lfd w p]
  by (auto simp: live_def goes_on_def update_client_def)

lemma live_set_rbuf: "live lst lfd p w \<Longrightarrow> buf_inv b \<Longrightarrow> live lst lfd p (set_rbuf p b w)"
  using sys_ok_set_rbuf [of lst lfd w p b] sys_ok_open(1) [of lst lfd w p] by (auto simp: live_def)

lemma liveD:
  assumes "live lst lfd p w"
  shows "\<exists>c. conns (g_app w) p = Some c \<and> m_uid c = 0" "handler_ok p (g_hnd w p)" "registered p w" "0 \<le> id_fd (g_hnd w p)"
  using assms sys_ok_open [of lst lfd w p] by (auto simp: live_def)

text \<open>The common part of all sends and of the write event.\<close>

lemma live_sent:
  assumes "live lst lfd p w" "next_answer w = (a, w1)" "h = (g_hnd w p)\<lparr>sbuf := sbuf h\<rparr>" "buf_inv (sbuf h)"
    and "same_table (g_reactor w) r"
  shows "live lst lfd p (w1\<lparr>g_hnd := (g_hnd w1)(p := h), g_reactor := r, g_wire := (g_wire w1)(p := g_wire w1 p @ out)\<rparr>)"
    and "goes_on p w (w1\<lparr>g_hnd := (g_hnd w1)(p := h), g_reactor := r, g_wire := (g_wire w1)(p := g_wire w1 p @ out)\<rparr>)"
proof -
  note n = next_answer_app [OF assms(2)] next_answer_soft(2) [OF assms(2)]
  obtain sb where h: "h = (g_hnd w p)\<lparr>sbuf := sb\<rparr>" "buf_inv sb" using assms(3,4) by simp
  then have "handler_ok p h" "id_fd h = id_fd (g_hnd w p)" using liveD(2) [OF assms(1)] by (simp_all add: handler_ok_def)
  then show "live lst lfd p (w1\<lparr>g_hnd := (g_hnd w1)(p := h), g_reactor := r, g_wire := (g_wire w1)(p := g_wire w1 p @ out)\<rparr>)"
    using sys_ok_hnd [OF _ _ _ assms(5), of lst lfd p h] n(1) assms(1) unfolding live_def by simp
  show "goes_on p w (w1\<lparr>g_hnd := (g_hnd w1)(p := h), g_reactor := r, g_wire := (g_wire w1)(p := g_wire w1 p @ out)\<rparr>)"
    using n h(1) by (simp add: goes_on_def)
qed

lemma live_event:
  assumes "live lst lfd p w1" "goes_on p w w1" "\<not> list_all soft (g_answers w)"
  shows "\<exists>w'. session_event p w1 = Fine w' \<and> shut lst lfd p w w'"
  using sys_ok_event [of lst lfd w1 p] assms by (auto simp: live_def goes_on_def shut_def)

lemma session_send_any:
  assumes "live lst lfd p w" "env_ok env"
  shows "\<exists>ret w'. session_send env data p w = (ret, w') \<and> live lst lfd p w' \<and> goes_on p w w' \<and> g_app w' = g_app w"
proof -
  have inv: "buf_inv (sbuf (g_hnd w p))" using liveD(2) [OF assms(1)] by (simp add: handler_ok_def)
  obtain res ok w1 where na: "next_answer w = ((res, ok), w1)" by (metis prod.exhaust)
  note n = next_answer_app [OF na]
  obtain ret out h r where s: "tcp_send (e_alloc env) res ok data False (g_hnd w p) (g_reactor w) = (ret, out, h, r)"
    by (metis prod_cases4)
  have al: "alloc_sound (e_alloc env)" using assms(2) by (simp add: env_ok_def)
  have "same_table (g_reactor w) r" using tcp_send_table [OF s] liveD(3) [OF assms(1)] by (simp add: registered_def)
  from live_sent [OF assms(1) na tcp_send_frame [OF s] _ this, of out] show ?thesis
    using tcp_send_stream_lemma [OF inv al s] na n s by (simp add: session_send_def)
qed

lemma tcp_send_packet_soft_event:
  assumes "soft (res, ok)" "tcp_send_packet alloc res ok' need encode False h r = (ret, ev, out, h', r')"
  shows "ev = Done"
  using assms(2) on_write_soft [OF assms(1)]
  by (auto simp: tcp_send_packet_def Let_def split: if_splits option.splits prod.splits)

lemma session_send_packet_any:
  assumes "live lst lfd p w" "env_ok env"
  shows "\<exists>ret w'. session_send_packet env p w = Fine (ret, w')
    \<and> ((live lst lfd p w' \<and> goes_on p w w' \<and> g_app w' = g_app w) \<or> shut lst lfd p w w')"
proof -
  have inv: "buf_inv (sbuf (g_hnd w p))" "0 < max_write_size (g_hnd w p)" using liveD(2) [OF assms(1)] by (simp_all add: handler_ok_def)
  have al: "alloc_sound (e_alloc env)" and enc: "\<And>n bs. e_encode env n = Some bs \<Longrightarrow> bs \<noteq> [] \<and> int (length bs) \<le> n"
    using assms(2) by (simp_all add: env_ok_def)
  obtain res ok w1 where na: "next_answer w = ((res, ok), w1)" by (metis prod.exhaust)
  note n = next_answer_app [OF na]
  obtain ret ev out h r where s: "tcp_send_packet (e_alloc env) res ok (e_need env) (e_encode env) False (g_hnd w p)
      (g_reactor w) = (ret, ev, out, h, r)"
    by (metis prod_cases5)
  define w2 where "w2 = w1\<lparr>g_hnd := (g_hnd w1)(p := h), g_reactor := r, g_wire := (g_wire w1)(p := g_wire w1 p @ out)\<rparr>"
  have t: "same_table (g_reactor w) r" using tcp_send_packet_table [OF s] liveD(3) [OF assms(1)] by (simp add: registered_def)
  have "buf_inv (sbuf h)" using send_packet_stream [OF inv(1) al inv(2) enc s] by blast
  note sent = live_sent [OF assms(1) na tcp_send_packet_frame [OF s] this t, of out, folded w2_def]
  have eq: "session_send_packet env p w = (case ev of Done \<Rightarrow> Fine (ret, w2)
      | Event e \<Rightarrow> (case session_event p w2 of OutOfBounds \<Rightarrow> OutOfBounds | Fine w3 \<Rightarrow> Fine (ret, w3)))"
    using na n s by (cases ev) (simp_all add: session_send_packet_def w2_def Let_def)
  show ?thesis
  proof (cases ev)
    case Done
    moreover have "g_app w2 = g_app w" using n by (simp add: w2_def)
    ultimately show ?thesis using eq sent by simp
  next
    case (Event e)
    then have "\<not> soft (res, ok)" using tcp_send_packet_soft_event [OF _ s] by blast
    then have "\<not> list_all soft (g_answers w)" using next_answer_soft(1) [OF na] by blast
    from live_event [OF sent this] show ?thesis using eq Event by auto
  qed
qed

section \<open>Packets\<close>

text \<open>A packet as \<open>get_packet_info\<close> describes it: the decoder stays inside it.\<close>

definition framed :: "packet_info \<Rightarrow> bool" where
  "framed pinfo \<longleftrightarrow> pi_size pinfo = uint (ntoh_int16 (peek16 0 (pi_data pinfo))) \<and> pi_size pinfo \<le> int (length (pi_data pinfo))"

lemma decode_in_bounds: "framed pinfo \<Longrightarrow> cs_decode parse pt (pi_data pinfo) (pi_size pinfo) request \<noteq> OutOfBounds"
  by (auto simp: framed_def cs_decode_def Let_def split: option.splits)

lemma gate_packet_framed:
  assumes "gate_packet_info m c bs = (0, pinfo, c1)" "pi_size pinfo \<le> int (length bs)"
  shows "m_policy_status c1 = 1 \<or> framed pinfo"
  using assms by (auto simp: gate_packet_info_def gate_head_info_cases framed_def packet_info_zero_def split: if_splits)

lemma session_login_any:
  assumes "live lst lfd p w" "env_ok env" "framed pinfo"
  shows "\<exists>ret w'. session_login env p pinfo w = Fine (ret, w')
    \<and> ((live lst lfd p w' \<and> goes_on p w w') \<or> (ret = 0 \<and> shut lst lfd p w w'))"
proof -
  obtain n q where d: "cs_decode (e_parse env) cs_player_login_request_type (pi_data pinfo) (pi_size pinfo) (e_request env) = Fine (n, q)"
    using decode_in_bounds [OF assms(3)] by (metis checked.exhaust surj_pair)
  obtain ret w' where "session_send_packet env p w = Fine (ret, w')"
    "(live lst lfd p w' \<and> goes_on p w w') \<or> shut lst lfd p w w'"
    using session_send_packet_any [OF assms(1,2)] by blast
  then show ?thesis using d assms(1) goes_on_refl by (auto simp: session_login_def)
qed

lemma check_uid:
  "check_threshold now msg c = (pass, c') \<Longrightarrow> m_uid c' = m_uid c" "check_seq sn c = (pass, c') \<Longrightarrow> m_uid c' = m_uid c"
  by (auto simp: check_threshold_def check_seq_def Let_def split: if_splits)

lemma session_process_any:
  assumes "live lst lfd p w" "conns (g_app w) p = Some c" "env_ok env" "m_policy_status c = 1 \<or> framed pinfo"
  shows "\<exists>ret w'. session_process env p pinfo w = Fine (ret, w')
    \<and> ((live lst lfd p w' \<and> goes_on p w w') \<or> (ret = 0 \<and> shut lst lfd p w w'))"
proof (cases "m_policy_status c = 1")
  case True
  obtain ret w1 where w1: "session_send env POLICY_RESPONSE p w = (ret, w1)" "live lst lfd p w1" "goes_on p w w1"
    using session_send_any [OF assms(1,3)] by blast
  have "m_uid (c\<lparr>m_policy_status := 2\<rparr>) = 0" using liveD(1) [OF assms(1)] assms(2) by simp
  note set = live_set_client [OF w1(2) this]
  show ?thesis using True assms(2) w1(1) set(1) goes_on_trans [OF w1(3) set(2)] by (simp add: session_process_def)
next
  case False
  then have fr: "framed pinfo" using assms(4) by simp
  have uid: "m_uid c = 0" using liveD(1) [OF assms(1)] assms(2) by simp
  note set = live_set_client [OF assms(1)]
  obtain pass c1 where t: "(if cfg_check_threshold (e_cfg env) then check_threshold (e_now env) (pi_type pinfo) c else (True, c)) = (pass, c1)"
    by fastforce
  obtain pass2 c2 where q: "(if cfg_check_seq (e_cfg env)
      then check_seq (sint (ntoh_int32 (peek32 8 (pi_data pinfo @ behind_data env (rbuf (g_hnd w p)))))) c1 else (True, c1)) = (pass2, c2)"
    by fastforce
  have u: "m_uid c1 = 0" "m_uid c2 = 0" using t q check_uid uid by (auto split: if_splits)
  have eq: "session_process env p pinfo w = (if \<not> pass then Fine (0, set_client p c1 w)
      else if \<not> pass2 then Fine (-1, set_client p c2 w)
      else if pi_type pinfo = cs_player_login_request_type then session_login env p pinfo (set_client p c2 w)
      else Fine (0, set_client p c2 w))"
    using assms(2) False t q by (cases pass) (simp_all add: session_process_def Let_def)
  obtain ret w' where l: "session_login env p pinfo (set_client p c2 w) = Fine (ret, w')"
    "(live lst lfd p w' \<and> goes_on p (set_client p c2 w) w') \<or> (ret = 0 \<and> shut lst lfd p (set_client p c2 w) w')"
    using session_login_any [OF set(1) [OF u(2)] assms(3) fr] by blast
  have "(live lst lfd p w' \<and> goes_on p w w') \<or> (ret = 0 \<and> shut lst lfd p w w')"
    using l(2) goes_on_trans [OF set(2) [OF u(2)]] goes_on_shut [OF set(2) [OF u(2)]] by blast
  then show ?thesis using eq l(1) set(1,2) [OF u(1)] set(1,2) [OF u(2)] by simp
qed

section \<open>Read and write events\<close>

lemma leave_closed_any: "live lst lfd p w \<Longrightarrow> \<exists>w'. leave_closed p w = Fine (False, w') \<and> sys_ok lst lfd w'"
  using sys_ok_event [of lst lfd w p] by (auto simp: leave_closed_def live_def)

lemma return_closed_any: "live lst lfd p w \<Longrightarrow> \<exists>w'. return_closed p w s = Fine (w', s) \<and> sys_ok lst lfd w'"
  using sys_ok_event [of lst lfd w p] by (auto simp: return_closed_def live_def)

lemma pop_data_inv: "buf_inv b \<Longrightarrow> buf_inv (snd (pop_data n b))"
  using pop_data_ok [of b n] by (cases "pop_data n b") (auto simp: pop_data_def Let_def split: if_splits)

lemma pop_data_cleared: "snd (pop_data n (buffer_clear b)) = buffer_clear b" "data_size (buffer_clear b) = 0"
  by (simp_all add: pop_data_def data_size_def buffer_clear_def)

lemma resize_inv:
  assumes "buf_inv b" "alloc_sound alloc" "0 < n" "buffer_resize (alloc n) n b = (ret, b')"
  shows "buf_inv b'"
proof (cases "ret = 0")
  case True
  then show ?thesis using buffer_resize_ok [OF assms(1) _ _ assms(3)] assms(2-4) by (auto simp: alloc_sound_def)
next
  case False
  then show ?thesis using buffer_resize_keeps [OF assms(4)] assms(1) by simp
qed

text \<open>
  How a read event may end that began in \<open>w\<close>: in order, or, when a send failed and the pool was full, in freed memory.
\<close>

definition parse_end :: "handler \<Rightarrow> int \<Rightarrow> nat \<Rightarrow> session_world \<Rightarrow> (bool \<times> session_world) checked \<Rightarrow> bool" where
  "parse_end lst lfd p w res \<longleftrightarrow> (case res of
       OutOfBounds \<Rightarrow> \<not> list_all soft (g_answers w) \<and> length (conn_pool (g_app w)) > 100
     | Fine (go, w') \<Rightarrow> sys_ok lst lfd w' \<and> (go \<longrightarrow> conns (g_app w') p \<noteq> None))"

lemma parse_end_stay: "live lst lfd p v \<Longrightarrow> parse_end lst lfd p w (Fine (True, v))"
  using liveD(1) [of lst lfd p v] by (auto simp: parse_end_def live_def)

lemma parse_end_leave: "live lst lfd p v \<Longrightarrow> parse_end lst lfd p w (leave_closed p v)"
  using leave_closed_any [of lst lfd p v] by (auto simp: parse_end_def)

lemma parse_end_back:
  assumes "parse_end lst lfd p v res" "conn_pool (g_app v) = conn_pool (g_app w)"
    and "list_all soft (g_answers w) \<Longrightarrow> list_all soft (g_answers v)"
  shows "parse_end lst lfd p w res"
  using assms by (auto simp: parse_end_def split: checked.splits)

text \<open>The packet closed the connection: the loop stops at the cleared buffer, unless the object is gone.\<close>

lemma parse_end_shut:
  assumes "shut lst lfd p w w2" "buf_inv (rbuf (g_hnd w p))"
  shows "parse_end lst lfd p w (if conns (g_app w2) p = None then OutOfBounds
    else session_parse env p (set_rbuf p (snd (pop_data n (rbuf (g_hnd w2 p)))) w2))"
proof (cases "conns (g_app w2) p = None")
  case True
  then show ?thesis using assms(1) by (simp add: parse_end_def shut_def)
next
  case False
  define b where "b = buffer_clear (rbuf (g_hnd w p))"
  have b: "rbuf (g_hnd w2 p) = b" "buf_inv b" using assms buffer_clear_ok by (simp_all add: shut_def b_def)
  have "session_parse env p (set_rbuf p b w2) = Fine (True, set_rbuf p b w2)"
    using False by (subst session_parse.simps) (auto simp: b_def pop_data_cleared)
  moreover have "sys_ok lst lfd (set_rbuf p b w2)" using sys_ok_set_rbuf [OF _ False b(2)] assms(1) by (simp add: shut_def)
  moreover have "snd (pop_data n (rbuf (g_hnd w2 p))) = b" unfolding b(1) by (simp add: b_def pop_data_cleared)
  ultimately show ?thesis using False by (auto simp: parse_end_def)
qed

lemma session_parse_any:
  assumes "live lst lfd p w" "env_ok env"
  shows "parse_end lst lfd p w (session_parse env p w)"
  using assms(1)
proof (induction "nat (data_size (rbuf (g_hnd w p)))" arbitrary: w rule: less_induct)
  case less
  note lv = less.prems
  define b where "b = rbuf (g_hnd w p)"
  note bb = b_def [symmetric]
  have inv: "buf_inv b" using liveD(2) [OF lv] by (simp add: b_def handler_ok_def)
  obtain c where c: "conns (g_app w) p = Some c" "m_uid c = 0" using liveD(1) [OF lv] by blast
  show ?case
  proof (cases "data_size b > 0")
    case False
    then have "session_parse env p w = Fine (True, w)" using c by (subst session_parse.simps) (simp add: bb)
    then show ?thesis using parse_end_stay [OF lv] by simp
  next
    case True
    obtain ret pinfo c1 where i: "gate_packet_info (behind_data env b) c (pending b) = (ret, pinfo, c1)"
      by (metis prod_cases3)
    have u1: "m_uid c1 = 0"
      using i c(2) by (auto simp: gate_packet_info_def gate_head_info_cases split: if_splits)
    define w1 where "w1 = set_client p c1 w"
    note l1 = live_set_client [OF lv u1, folded w1_def]
    have step: "session_parse env p w =
        (if ret \<noteq> 0 \<or> pi_size pinfo < 1 \<or> pi_size pinfo > 4194304 then leave_closed p w1
         else if data_size b \<ge> pi_size pinfo
         then (case session_process env p pinfo w1 of
                 OutOfBounds \<Rightarrow> OutOfBounds
               | Fine (ret2, w2) \<Rightarrow>
                   if ret2 \<noteq> 0 then leave_closed p w2
                   else if conns (g_app w2) p = None then OutOfBounds
                   else session_parse env p (set_rbuf p (snd (pop_data (pi_size pinfo) (rbuf (g_hnd w2 p)))) w2))
         else if space_size b < pi_size pinfo - data_size b
         then (case buffer_resize (e_alloc env (capacity b + pi_size pinfo)) (capacity b + pi_size pinfo) b of
                 (ret3, b3) \<Rightarrow> if ret3 \<noteq> 0 then leave_closed p (set_rbuf p b3 w1) else Fine (True, set_rbuf p b3 w1))
         else Fine (True, w1))"
      using c True i by (subst session_parse.simps) (simp add: bb w1_def Let_def split: prod.split)
    consider (bad) "ret \<noteq> 0 \<or> pi_size pinfo < 1 \<or> pi_size pinfo > 4194304"
      | (full) "ret = 0" "1 \<le> pi_size pinfo" "pi_size pinfo \<le> 4194304" "pi_size pinfo \<le> data_size b"
      | (wait) "ret = 0" "1 \<le> pi_size pinfo" "pi_size pinfo \<le> 4194304" "\<not> pi_size pinfo \<le> data_size b" by linarith
    then show ?thesis
    proof cases
      case bad
      then show ?thesis using step parse_end_leave [OF l1(1)] by simp
    next
      case full
      have ok: "m_policy_status c1 = 1 \<or> framed pinfo"
        using gate_packet_framed [OF i [unfolded full(1)]] full(4) length_pending [OF inv] by simp
      obtain ret2 w2 where w2: "session_process env p pinfo w1 = Fine (ret2, w2)"
        "(live lst lfd p w2 \<and> goes_on p w1 w2) \<or> (ret2 = 0 \<and> shut lst lfd p w1 w2)"
        using session_process_any [OF l1(1,3) assms(2) ok] by blast
      let ?w3 = "set_rbuf p (snd (pop_data (pi_size pinfo) (rbuf (g_hnd w2 p)))) w2"
      have eq: "session_parse env p w = (if ret2 \<noteq> 0 then leave_closed p w2
          else if conns (g_app w2) p = None then OutOfBounds else session_parse env p ?w3)"
        using step full w2(1) by simp
      from w2(2) show ?thesis
      proof
        assume "ret2 = 0 \<and> shut lst lfd p w1 w2"
        then have "ret2 = 0" "shut lst lfd p w w2" using goes_on_shut [OF l1(2)] by blast+
        then show ?thesis using parse_end_shut [of lst lfd p w w2 env] inv eq by (simp add: bb)
      next
        assume a: "live lst lfd p w2 \<and> goes_on p w1 w2"
        then have g: "goes_on p w w2" "live lst lfd p w2" using goes_on_trans [OF l1(2)] by blast+
        have b2: "rbuf (g_hnd w2 p) = b" using g(1) by (simp add: goes_on_def b_def)
        show ?thesis
        proof (cases "ret2 = 0")
          case True
          have l3: "live lst lfd p ?w3" unfolding b2 by (rule live_set_rbuf [OF g(2) pop_data_inv [OF inv]])
          have "nat (data_size (rbuf (g_hnd ?w3 p))) < nat (data_size (rbuf (g_hnd w p)))"
            using pop_data_shrinks [OF full(2,4)] \<open>data_size b > 0\<close> by (simp add: bb b2)
          from less.hyps [OF this l3] have "parse_end lst lfd p w (session_parse env p ?w3)"
            by (rule parse_end_back) (use g(1) in \<open>simp_all add: goes_on_def\<close>)
          then show ?thesis using eq True liveD(1) [OF g(2)] by auto
        next
          case False
          then show ?thesis using eq parse_end_leave [OF g(2)] by simp
        qed
      qed
    next
      case wait
      obtain ret3 b3 where r: "buffer_resize (e_alloc env (capacity b + pi_size pinfo)) (capacity b + pi_size pinfo) b = (ret3, b3)"
        by fastforce
      have al: "alloc_sound (e_alloc env)" using assms(2) by (simp add: env_ok_def)
      have "0 < capacity b + pi_size pinfo" using buf_inv_order [OF inv] wait(2) by (simp add: capacity_def)
      note l3 = live_set_rbuf [OF l1(1) resize_inv [OF inv al this r]]
      show ?thesis using step wait r parse_end_stay [OF l1(1)] parse_end_stay [OF l3] parse_end_leave [OF l3] by simp
    qed
  qed
qed

lemma session_read_any:
  assumes "live lst lfd p w" "env_ok env"
  shows "(\<exists>w' s'. session_read env p (id_fd (g_hnd w p)) w s = Fine (w', s') \<and> sys_ok lst lfd w')
    \<or> (session_read env p (id_fd (g_hnd w p)) w s = OutOfBounds \<and> \<not> list_all soft (g_answers w)
      \<and> length (conn_pool (g_app w)) > 100)"
proof -
  obtain c where c: "conns (g_app w) p = Some c" using liveD(1) [OF assms(1)] by blast
  define b where "b = rbuf (g_hnd w p)"
  have inv: "buf_inv b" using liveD(2) [OF assms(1)] by (simp add: b_def handler_ok_def)
  obtain res s1 where r: "recv (nat (space_size b)) s = (res, s1)" by fastforce
  let ?fd = "id_fd (g_hnd w p)"
  have step: "session_read env p ?fd w s = (case res of
        Received xs \<Rightarrow>
          if xs = [] then return_closed p w s1
          else (case session_parse env p (set_rbuf p (snd (push_data (int (length xs)) (store_at_space xs b))) w) of
                  OutOfBounds \<Rightarrow> OutOfBounds
                | Fine (go, w2) \<Rightarrow>
                    if \<not> go then Fine (w2, s1)
                    else let w3 = set_rbuf p (buffer_adjust (rbuf (g_hnd w2 p))) w2 in
                      if readall_flag (g_hnd w3 p) then session_read env p ?fd w3 s1 else Fine (w3, s1))
      | RecvErr e \<Rightarrow> if e \<noteq> EAGAIN \<and> e \<noteq> EINTR then return_closed p w s1 else Fine (w, s1))"
    using c r by (subst session_read.simps) (simp add: session_recv_def b_def split: recv_result.split)
  show ?thesis
  proof (cases "\<exists>xs. res = Received xs \<and> xs \<noteq> []")
    case False
    then show ?thesis
      using step assms(1) return_closed_any [OF assms(1), of s1] by (cases res) (auto simp: live_def)
  next
    case True
    then obtain xs where xs: "res = Received xs" "xs \<noteq> []" by blast
    then have le: "int (length xs) \<le> space_size b"
      using r by (cases "0 \<le> space_size b") (auto simp: recv_def split: list.splits sock_end.splits if_splits)
    obtain q b1 where pd: "push_data (int (length xs)) (store_at_space xs b) = (q, b1)" by fastforce
    have "buf_inv b1" using buffer_fill [OF inv xs(2) le pd] by simp
    note lv = live_set_rbuf [OF assms(1) this]
    show ?thesis
    proof (cases "session_parse env p (set_rbuf p b1 w)")
      case OutOfBounds
      then have "session_read env p ?fd w s = OutOfBounds" using step xs pd by simp
      then show ?thesis using OutOfBounds session_parse_any [OF lv assms(2)] by (simp add: parse_end_def)
    next
      case (Fine x)
      obtain go w2 where x: "x = (go, w2)" by fastforce
      have w2: "sys_ok lst lfd w2" "go \<Longrightarrow> conns (g_app w2) p \<noteq> None"
        using session_parse_any [OF lv assms(2)] by (simp_all add: parse_end_def Fine x)
      show ?thesis
      proof (cases go)
        case False
        then show ?thesis using step xs pd Fine x w2 by simp
      next
        case True
        note h = sys_okD(5) [OF w2(1) w2(2) [OF True]]
        let ?w3 = "set_rbuf p (buffer_adjust (rbuf (g_hnd w2 p))) w2"
        have "sys_ok lst lfd ?w3"
          using sys_ok_set_rbuf [OF w2(1) w2(2) [OF True]] buffer_adjust_ok [of "rbuf (g_hnd w2 p)"] h by (simp add: handler_ok_def)
        moreover have "session_read env p ?fd w s = Fine (?w3, s1)"
          using step xs pd Fine x True h by (simp add: Let_def handler_ok_def)
        ultimately show ?thesis by simp
      qed
    qed
  qed
qed

lemma session_write_any:
  assumes "live lst lfd p w"
  shows "\<exists>w'. session_write p (id_fd (g_hnd w p)) w = Fine w' \<and> sys_ok lst lfd w'"
proof -
  obtain c where c: "conns (g_app w) p = Some c" using liveD(1) [OF assms] by blast
  have wr: "buf_inv (sbuf (g_hnd w p))" "0 < max_write_size (g_hnd w p)" using liveD(2) [OF assms] by (simp_all add: handler_ok_def)
  obtain res ok w1 where na: "next_answer w = ((res, ok), w1)" by (metis prod.exhaust)
  note n = next_answer_app [OF na]
  obtain ev out h r where s: "on_write res ok (id_fd (g_hnd w p)) (g_hnd w p) (g_reactor w) = (ev, out, h, r)" by (metis prod_cases4)
  define w2 where "w2 = w1\<lparr>g_hnd := (g_hnd w1)(p := h), g_reactor := r, g_wire := (g_wire w1)(p := g_wire w1 p @ out)\<rparr>"
  have t: "same_table (g_reactor w) r" using on_write_table [OF s] liveD(3) [OF assms] by (simp add: registered_def)
  have "buf_inv (sbuf h)" using on_write_stream_lemma [OF wr s] by blast
  note sent = live_sent(1) [OF assms na on_write_frame [OF s] this t, of out, folded w2_def]
  have "session_write p (id_fd (g_hnd w p)) w = (case ev of Done \<Rightarrow> Fine w2 | Event e \<Rightarrow> session_event p w2)"
    using c na s n by (cases ev) (simp_all add: session_write_def w2_def Let_def)
  then show ?thesis using sent sys_ok_event [of lst lfd w2 p] by (cases ev) (auto simp: live_def)
qed

section \<open>Accepting keeps the invariant\<close>

lemma add_handler_others:
  assumes "reactor_inv r" "add_handler ok fd (Some h) ev r = (0, r')" "fd' \<noteq> fd" "interest r fd' \<noteq> None"
  shows "handler_at r' fd' = handler_at r fd'"
  using assms(2,3) interest_registered [OF assms(1,4)]
  by (auto simp: add_handler_def handler_at_cases set_handler_def nth_list_update nat_eq_iff split: if_splits option.splits)

lemma add_handler_refused: "add_handler ok fd h ev r = (ret, r') \<Longrightarrow> ret \<noteq> 0 \<Longrightarrow> r' = r"
  by (auto simp: add_handler_def split: if_splits)

lemma tcp_init_parts:
  assumes "tcp_init alloc alloc ok now fd n h r = (ret, h', r')" "buf_inv (rbuf h)" "buf_inv (sbuf h)" "alloc_sound alloc" "0 < n"
  shows "buf_inv (rbuf h') \<and> buf_inv (sbuf h') \<and> self h' = self h \<and> max_write_size h' = max_write_size h
    \<and> (if ret = 0 then 0 \<le> fd \<and> id_fd h' = fd \<and> add_handler ok fd (Some (self h)) EVENT_READ r = (0, r')
       else id_fd h' = id_fd h \<and> readall_flag h' = readall_flag h \<and> r' = r)"
proof -
  note rs = resize_inv [OF assms(2,4,5)] resize_inv [OF assms(3,4,5)]
  show ?thesis
    using assms(1-3) by (auto simp: tcp_init_def split: if_splits prod.splits dest: rs add_handler_refused)
qed

text \<open>The object that is taken: new, or the last one of the pool; it holds no descriptor.\<close>

lemma alloc_object:
  assumes "sys_ok lst lfd w" "conns (g_app w) p = None" "p \<noteq> lst" "alloc_connection p raw (g_app w) = (q, a1)"
    and "h0 = (if conn_pool (g_app w) = [] then tcp_new q else g_hnd w q)"
  shows "q \<noteq> lst" "\<not> conn_open (g_app w) q" "conn_open a1 = conn_open (g_app w)" "conns a1 q \<noteq> None"
    "r \<noteq> q \<Longrightarrow> conns a1 r = conns (g_app w) r" "handler_ok q h0"
    "id_fd h0 < 0"
proof -
  note d = sys_okD [OF assms(1)]
  have ex: "conns a1 q \<noteq> None" using limboD(6) [OF alloc_limbo [OF d(1) assms(2,4)]] by auto
  have fresh: "\<not> conn_open (g_app w) p" using pool_okD(1) [OF d(1), of p] assms(2) by (simp add: obj_ok_def)
  have pooled: "conns (g_app w) q \<noteq> None \<and> \<not> conn_open (g_app w) q" if "conn_pool (g_app w) \<noteq> []"
    using that assms(4) pool_okD(1) [OF d(1), of q] by (auto simp: alloc_connection_def obj_ok_def split: option.splits)
  have "(q \<noteq> lst \<and> \<not> conn_open (g_app w) q \<and> id_fd h0 < 0 \<and> handler_ok q h0)"
  proof (cases "conn_pool (g_app w) = []")
    case True
    then have "q = p" using assms(4) by (simp add: alloc_connection_def)
    then show ?thesis using True assms(3,5) fresh by (simp add: tcp_new_def MAX_WRITE_SIZE_def handler_ok_def)
  next
    case False
    note pq = pooled [OF False]
    have "q \<noteq> lst" using pq d(4) by auto
    moreover have "id_fd (g_hnd w q) < 0" using pq d(2) unfolding open_ok_def by (meson not_less)
    ultimately show ?thesis using pq d(5) [of q] False assms(5) by simp
  qed
  then show "q \<noteq> lst" "\<not> conn_open (g_app w) q" "id_fd h0 < 0"
    "handler_ok q h0" by simp_all
  show "conn_open a1 = conn_open (g_app w)" "r \<noteq> q \<Longrightarrow> conns a1 r = conns (g_app w) r"
    using assms(4) by (auto simp: alloc_connection_def split: if_splits)
  show "conns a1 q \<noteq> None" by (rule ex)
qed

lemma sys_ok_accept:
  assumes "sys_ok lst lfd w" "conns (g_app w) p = None" "p \<noteq> lst" "env_ok env"
    and "session_accept env p raw ok fd ip run_ms timer_ok w = (ret, w')"
  shows "sys_ok lst lfd w'"
proof (cases "is_online_threshold (g_app w)")
  case True
  then show ?thesis using assms(1,5) by (simp add: session_accept_def)
next
  case False
  note d = sys_okD [OF assms(1)]
  obtain q a1 where al: "alloc_connection p raw (g_app w) = (q, a1)" by fastforce
  define h0 where "h0 = (if conn_pool (g_app w) = [] then tcp_new q else g_hnd w q)"
  note obj = alloc_object [OF assms(1-3) al h0_def]
  obtain rt h r where i: "tcp_init (e_alloc env) (e_alloc env) ok (e_now env) fd 10240 h0 (g_reactor w) = (rt, h, r)"
    by (metis prod_cases3)
  have inv: "buf_inv (rbuf h0)" "buf_inv (sbuf h0)" "alloc_sound (e_alloc env)"
    using obj(6) assms(4) by (simp_all add: env_ok_def handler_ok_def)
  have "(0::int) < 10240" by simp
  note parts = tcp_init_parts [OF i inv this]
  have pool: "pool_ok (g_app w')" using session_accept_app [OF assms(5)] on_connection_ok [OF d(1) assms(2)] by blast
  have w': "if rt \<noteq> 0 then w' = w\<lparr>g_app := free_connection q a1, g_hnd := (g_hnd w)(q := h), g_reactor := r\<rparr>
      else w' = w\<lparr>g_app := update_client q (\<lambda>u. on_connect (e_now env) run_ms timer_ok (set_login_ip ip u))
                        (a1\<lparr>conn_open := (conn_open a1)(q := True)\<rparr>),
                     g_hnd := (g_hnd w)(q := h\<lparr>readall_flag := False\<rparr>), g_reactor := r,
                     g_wire := (g_wire w)(q := [])\<rparr>"
    using assms(5) False al i by (auto simp: session_accept_def h0_def [symmetric] split: if_splits)
  have opened: "conn_open (g_app w') x \<longleftrightarrow> (rt = 0 \<and> x = q) \<or> conn_open (g_app w) x" for x
    using w' obj(2,3) by (auto simp: free_connection_def update_client_def split: if_splits)
  have others: "conns (g_app w') x = conns (g_app w) x" if "x \<noteq> q" for x
    using w' obj(5) [OF that] that by (simp add: free_connection_def update_client_def split: if_splits)
  have objs: "conns (g_app w') x \<noteq> None \<Longrightarrow> x = q \<or> conns (g_app w) x \<noteq> None" for x
    using others by (cases "x = q") simp_all
  have hnd: "g_hnd w' x = (if x = q then (if rt = 0 then h\<lparr>readall_flag := False\<rparr> else h) else g_hnd w x)" "g_reactor w' = r" for x
    using w' by (auto split: if_splits)
  have alive: "rt = 0 \<Longrightarrow> conns (g_app w') q \<noteq> None" using w' obj(4) by (simp add: update_client_def)
  have reac: "reactor_inv r" "interest r = (if rt = 0 then (interest (g_reactor w))(fd \<mapsto> event_mask EVENT_READ) else interest (g_reactor w))"
    "rt = 0 \<Longrightarrow> handler_at r fd = Some q \<and> interest (g_reactor w) fd = None"
    "interest (g_reactor w) fd' \<noteq> None \<Longrightarrow> handler_at r fd' = handler_at (g_reactor w) fd'" for fd'
  proof -
    have a: "add_handler ok fd (Some q) EVENT_READ (g_reactor w) = (0, r)" if "rt = 0" using parts obj(6) that by (simp add: handler_ok_def)
    have e: "r = g_reactor w" if "rt \<noteq> 0" using parts that by simp
    show "reactor_inv r" using a e d(3) reactor_inv_add by (cases "rt = 0") auto
    show "interest r = (if rt = 0 then (interest (g_reactor w))(fd \<mapsto> event_mask EVENT_READ) else interest (g_reactor w))"
      "rt = 0 \<Longrightarrow> handler_at r fd = Some q \<and> interest (g_reactor w) fd = None"
      using add_handler_at [OF d(3) a] e by (cases "rt = 0"; simp)+
    show "interest (g_reactor w) fd' \<noteq> None \<Longrightarrow> handler_at r fd' = handler_at (g_reactor w) fd'"
      using add_handler_at [OF d(3) a] add_handler_others [OF d(3) a] e by (cases "rt = 0"; cases "fd' = fd") auto
  qed
  have "open_ok w'"
    unfolding open_ok_def
  proof
    show "conn_open (g_app w') x \<longleftrightarrow> conns (g_app w') x \<noteq> None \<and> 0 \<le> id_fd (g_hnd w' x)" for x
      using d(2) opened [of x] others [of x] hnd(1) [of x] alive obj(2,7) parts
      by (cases "x = q"; cases "rt = 0") (auto simp: open_ok_def)
  qed
  moreover have "conns (g_app w') lst = None" using others [of lst] obj(1) d(4) by simp
  moreover have "handler_ok x (g_hnd w' x)" if "conns (g_app w') x \<noteq> None" for x
    using that objs [of x] d(5) [of x] parts obj(6) by (auto simp: hnd handler_ok_def)
  moreover have "handler_at r (id_fd (g_hnd w' x)) = Some x \<and> interest r (id_fd (g_hnd w' x)) \<noteq> None"
    if "conn_open (g_app w') x" for x
  proof (cases "x = q")
    case True
    then show ?thesis using that opened obj(2) reac(2,3) parts by (auto simp: hnd)
  next
    case False
    then have "conn_open (g_app w) x" using that opened by simp
    from d(6) [OF this] show ?thesis using reac(2,4) False by (auto simp: hnd)
  qed
  moreover have "fd' = lfd \<or> (\<exists>x. conn_open (g_app w') x \<and> id_fd (g_hnd w' x) = fd')" if "interest r fd' \<noteq> None" for fd'
  proof (cases "rt = 0 \<and> fd' = fd")
    case True
    then show ?thesis using opened [of q] parts by (auto simp: hnd intro!: exI [of _ q])
  next
    case False
    then have "interest (g_reactor w) fd' \<noteq> None" using that reac(2) by (auto split: if_splits)
    from d(7) [OF this] show ?thesis
    proof
      assume "\<exists>x. conn_open (g_app w) x \<and> id_fd (g_hnd w x) = fd'"
      then obtain x where x: "conn_open (g_app w) x" "id_fd (g_hnd w x) = fd'" by blast
      then have "x \<noteq> q" using obj(2) by auto
      then show ?thesis using x opened [of x] hnd(1) [of x] by auto
    qed simp
  qed
  moreover have "handler_at r lfd = Some lst \<and> interest r lfd \<noteq> None" if "0 \<le> lfd"
    using d(8) [OF that] reac(2,4) by auto
  ultimately show ?thesis using pool reac(1) unfolding sys_ok_def hnd(2) by blast
qed

section \<open>The listener\<close>

text \<open>\<open>tcp_acceptor::on_error\<close> and \<open>GateApplication::on_delay_stop\<close> on the acceptor and the rest of the gate.\<close>

type_synonym gate_system = "acceptor \<times> session_world"

definition listener_error :: "gate_system \<Rightarrow> gate_system" where
  "listener_error s = (case s of (a, w) \<Rightarrow>
     case acceptor_fini a (g_reactor w) of (a', r, cl) \<Rightarrow> (a', w\<lparr>g_reactor := r, g_closed := g_closed w @ cl\<rparr>))"

definition system_stop :: "gate_system \<Rightarrow> gate_system" where
  "system_stop s = (case s of (a, w) \<Rightarrow>
     if is_shuting_down (g_app w) then (a, w) else listener_error (a, w\<lparr>g_app := on_delay_stop (g_app w)\<rparr>))"

text \<open>
  \<open>GateApplication::on_reload\<close> as far as it touches this state: the listener is closed and, if the file could
  be loaded and the logger started (\<open>loaded\<close>), opened again on the descriptor \<open>sfd\<close> that \<open>create_tcp_service\<close> gives;
  then the threshold is taken from the file. The settings, the logger and the addresses are in \<open>GateConfig\<close>.
\<close>

definition system_reload :: "bool \<Rightarrow> int \<Rightarrow> bool \<Rightarrow> int \<Rightarrow> gate_system \<Rightarrow> gate_system" where
  "system_reload loaded sfd ok threshold s =
     (case listener_error s of (a, w) \<Rightarrow>
        if \<not> loaded then (a, w)
        else case acceptor_init sfd ok a (g_reactor w) of (ret, a', r, cl) \<Rightarrow>
          let w1 = w\<lparr>g_reactor := r, g_closed := g_closed w @ cl\<rparr> in
          if ret \<noteq> 0 then (a', w1)
          else (a', w1\<lparr>g_app := (g_app w1)\<lparr>online_threshold := threshold, acceptor_open := True\<rparr>\<rparr>))"

text \<open>The turn of the accept loop for a new descriptor; it is closed here when \<open>on_connection\<close> refuses it.\<close>

definition listener_accept ::
  "'b session_env \<Rightarrow> nat \<Rightarrow> client \<Rightarrow> bool \<Rightarrow> int \<Rightarrow> byte list \<Rightarrow> int \<Rightarrow> bool \<Rightarrow> session_world \<Rightarrow> session_world" where
  "listener_accept env p raw ok fd ip run_ms timer_ok w =
     (case session_accept env p raw ok fd ip run_ms timer_ok w of (ret, w') \<Rightarrow>
        if ret \<noteq> 0 then w'\<lparr>g_closed := g_closed w' @ [fd]\<rparr> else w')"

definition system_ok :: "gate_system \<Rightarrow> bool" where
  "system_ok s \<longleftrightarrow> sys_ok (ac_self (fst s)) (ac_fd (fst s)) (snd s)"

lemma sys_ok_app:
  assumes "conns a = conns (g_app w)" "conn_open a = conn_open (g_app w)" "conn_pool a = conn_pool (g_app w)"
  shows "sys_ok lst lfd (w\<lparr>g_app := a\<rparr>) = sys_ok lst lfd w"
proof -
  have "pool_ok a = pool_ok (g_app w)" by (simp only: pool_ok_def obj_ok_def assms)
  then show ?thesis by (simp add: sys_ok_def open_ok_def assms)
qed

lemma system_ok_error:
  assumes "system_ok s"
  shows "system_ok (listener_error s)"
proof -
  obtain a w where s: "s = (a, w)" by fastforce
  have ok: "sys_ok (ac_self a) (ac_fd a) w" using assms by (simp add: system_ok_def s)
  show ?thesis
  proof (cases "0 \<le> ac_fd a")
    case True
    note d = sys_okD [OF ok]
    have l: "handler_at (g_reactor w) (ac_fd a) = Some (ac_self a)" "interest (g_reactor w) (ac_fd a) \<noteq> None"
      using d(8) [OF True] by simp_all
    note del = del_handler_table [OF d(3) l(2)]
    define w' where "w' = w\<lparr>g_reactor := del_handler (ac_fd a) (g_reactor w), g_closed := g_closed w @ [ac_fd a]\<rparr>"
    have "handler_at (g_reactor w') (id_fd (g_hnd w' p)) = Some p \<and> interest (g_reactor w') (id_fd (g_hnd w' p)) \<noteq> None"
      if "conn_open (g_app w') p" for p
    proof -
      have o: "conn_open (g_app w) p" using that by (simp add: w'_def)
      have "p \<noteq> ac_self a" using pool_ok_open [OF d(1) o] d(4) by auto
      then have "id_fd (g_hnd w p) \<noteq> ac_fd a" using d(6) [OF o] l(1) by auto
      then show ?thesis using d(6) [OF o] del(2,3) by (simp add: w'_def)
    qed
    moreover have "fd = -1 \<or> (\<exists>p. conn_open (g_app w') p \<and> id_fd (g_hnd w' p) = fd)" if "interest (g_reactor w') fd \<noteq> None" for fd
      using that d(7) [of fd] del(2) by (auto simp: w'_def split: if_splits)
    moreover have "pool_ok (g_app w')" "conns (g_app w') (ac_self a) = None" "reactor_inv (g_reactor w')"
      using d(1,4) del(1) by (simp_all add: w'_def)
    moreover have "open_ok w'" using d(2) by (simp add: open_ok_def w'_def)
    moreover have "handler_ok p (g_hnd w' p)" if "conns (g_app w') p \<noteq> None" for p using d(5) [of p] that by (simp add: w'_def)
    ultimately have "sys_ok (ac_self a) (-1) w'" unfolding sys_ok_def by simp
    then show ?thesis using True by (simp add: system_ok_def listener_error_def acceptor_fini_def s w'_def)
  next
    case False
    then have "listener_error s = (a, w)" by (simp add: listener_error_def acceptor_fini_def s)
    then show ?thesis using assms s by simp
  qed
qed

lemma system_ok_stop:
  assumes "system_ok s"
  shows "system_ok (system_stop s)"
proof -
  obtain a w where s: "s = (a, w)" by fastforce
  have "system_ok (a, w\<lparr>g_app := on_delay_stop (g_app w)\<rparr>)"
    using assms by (simp add: system_ok_def s sys_ok_app on_delay_stop_def)
  from system_ok_error [OF this] show ?thesis using assms by (simp add: system_stop_def s)
qed

text \<open>A listener that comes up beside the open connections.\<close>

lemma system_ok_listen:
  assumes "system_ok (a, w)" "ac_fd a < 0" "acceptor_init sfd ok a (g_reactor w) = (ret, a', r, cl)"
  shows "system_ok (a', w\<lparr>g_reactor := r\<rparr>)"
proof (cases "ret = 0")
  case False
  from acceptor_init_refused [OF assms(3) False assms(2)] assms(1) show ?thesis by simp
next
  case True
  have ok: "sys_ok (ac_self a) (ac_fd a) w" using assms(1) by (simp add: system_ok_def)
  note d = sys_okD [OF ok]
  from acceptor_init_opened [OF d(3) assms(3) [unfolded True]]
  have i: "0 \<le> sfd" "ac_self a' = ac_self a" "ac_fd a' = sfd" "reactor_inv r" "interest (g_reactor w) sfd = None"
    "interest r = (interest (g_reactor w))(sfd \<mapsto> EPOLLIN)" "handler_at r sfd = Some (ac_self a)" by simp_all
  have add: "add_handler ok sfd (Some (ac_self a)) EVENT_READ (g_reactor w) = (0, r)"
    using assms(3) True by (auto simp: acceptor_init_def split: if_splits prod.splits)
  have "handler_at r (id_fd (g_hnd w p)) = Some p \<and> interest r (id_fd (g_hnd w p)) \<noteq> None" if "conn_open (g_app w) p" for p
  proof -
    note o = d(6) [OF that]
    have "id_fd (g_hnd w p) \<noteq> sfd" using o i(5) by auto
    then show ?thesis using o add_handler_others [OF d(3) add] i(6) by simp
  qed
  moreover have "fd = sfd \<or> (\<exists>p. conn_open (g_app w) p \<and> id_fd (g_hnd w p) = fd)" if "interest r fd \<noteq> None" for fd
  proof (cases "fd = sfd")
    case False
    then have n: "interest (g_reactor w) fd \<noteq> None" using that i(6) by simp
    moreover have "fd \<noteq> ac_fd a" using interest_registered [OF d(3) n] assms(2) by auto
    ultimately show ?thesis using d(7) [of fd] by blast
  qed simp
  moreover have "open_ok (w\<lparr>g_reactor := r\<rparr>)" using d(2) by (simp add: open_ok_def)
  ultimately show ?thesis
    using d(1,4,5) i by (simp add: system_ok_def sys_ok_def)
qed

lemma listener_error_closed: "ac_fd (fst (listener_error s)) < 0"
  by (auto simp: listener_error_def acceptor_fini_def split: prod.splits)

lemma system_ok_reload:
  assumes "system_ok s"
  shows "system_ok (system_reload loaded sfd ok threshold s)"
proof -
  obtain a w where e: "listener_error s = (a, w)" by fastforce
  have ok: "system_ok (a, w)" "ac_fd a < 0"
    using system_ok_error [OF assms] listener_error_closed [of s] by (simp_all add: e)
  obtain ret a' r cl where i: "acceptor_init sfd ok a (g_reactor w) = (ret, a', r, cl)" by (metis prod_cases4)
  have l: "system_ok (a', w\<lparr>g_reactor := r\<rparr>)" by (rule system_ok_listen [OF ok i])
  have closed: "system_ok (a', v\<lparr>g_closed := xs\<rparr>) = system_ok (a', v)" for v xs
    by (simp add: system_ok_def) (rule sys_ok_cong, simp_all)
  have "system_ok (a', w\<lparr>g_reactor := r, g_closed := g_closed w @ cl\<rparr>)" using l closed [where v = "w\<lparr>g_reactor := r\<rparr>"] by simp
  then show ?thesis using ok(1) by (simp add: system_reload_def e i Let_def system_ok_def sys_ok_app)
qed

section \<open>Idle timers\<close>

lemma sys_ok_idle:
  assumes "sys_ok lst lfd w" "conns (g_app w) p = Some c" "idle_expires c \<noteq> None"
  shows "\<exists>w'. session_idle now run_ms timer_ok p w = Fine w' \<and> sys_ok lst lfd w'"
proof -
  have o: "conn_open (g_app w) p" by (rule pool_ok_timer [OF sys_okD(1) [OF assms(1)] assms(2,3)])
  have u: "m_uid c = 0" using sys_ok_open(1) [OF assms(1) o] assms(2) by simp
  define w1 where "w1 = set_client p (c\<lparr>idle_expires := None\<rparr>) w"
  have w1: "sys_ok lst lfd w1" "conn_open (g_app w1) p"
    unfolding w1_def using sys_ok_set_client [OF assms(1) o, of "c\<lparr>idle_expires := None\<rparr>"] u o
    by (simp_all add: update_client_def)
  have w2: "sys_ok lst lfd (set_client p (c\<lparr>idle_expires := Some (run_ms + 50000)\<rparr>) w1)"
    using sys_ok_set_client [OF w1] u by simp
  have "session_idle now run_ms timer_ok p w =
      (if m_status c < STATUS_PREPARE \<or> now - m_heart_time c > 180 then session_event p w1
       else Fine (if timer_ok then set_client p (c\<lparr>idle_expires := Some (run_ms + 50000)\<rparr>) w1 else w1))"
    using assms(2) by (simp add: session_idle_def w1_def Let_def)
  then show ?thesis using sys_ok_event [OF w1] w1 w2 by auto
qed

section \<open>Runs of the gate\<close>

text \<open>
  What \<open>run_once\<close> would call for a descriptor that the kernel watches: the entry of the table.
\<close>

definition reported :: "reactor \<Rightarrow> int \<Rightarrow> handler \<Rightarrow> bool" where
  "reported r fd h \<longleftrightarrow> interest r fd \<noteq> None \<and> handler_at r fd = Some h"

lemma reported_open:
  assumes "sys_ok lst lfd w" "reported (g_reactor w) fd p" "p \<noteq> lst"
  shows "conn_open (g_app w) p" "id_fd (g_hnd w p) = fd"
proof -
  note d = sys_okD [OF assms(1)]
  have r: "interest (g_reactor w) fd \<noteq> None" "handler_at (g_reactor w) fd = Some p" using assms(2) by (simp_all add: reported_def)
  have "0 \<le> fd" using interest_registered [OF d(3) r(1)] by simp
  then have "fd \<noteq> lfd" using d(8) r(2) assms(3) by auto
  then obtain q where q: "conn_open (g_app w) q" "id_fd (g_hnd w q) = fd" using d(7) [OF r(1)] by blast
  moreover have "q = p" using d(6) [OF q(1)] q(2) r(2) by simp
  ultimately show "conn_open (g_app w) p" "id_fd (g_hnd w p) = fd" by simp_all
qed

text \<open>The process starts with a new reactor and the listener in it.\<close>

definition world_new :: "int \<Rightarrow> reactor \<Rightarrow> session_world" where
  "world_new threshold r = \<lparr>g_app = app_new threshold, g_hnd = tcp_new, g_reactor = r, g_wire = (\<lambda>p. []), g_closed = [],
     g_answers = []\<rparr>"

text \<open>
  The events, each with an environment of its own: a client connects, at any address that holds no object; a
  connection is reported for reading or for writing, with any answers of the socket, or with an error; a running idle
  timer expires; the listener fails; the server is told to reload, with any outcome, or to stop. A run ends where a handler touches freed memory.
\<close>

inductive sys_step :: "'b cs_packet \<Rightarrow> gate_system \<Rightarrow> gate_system \<Rightarrow> bool" for request where
  accept: "0 \<le> ac_fd a \<Longrightarrow> conns (g_app w) p = None \<Longrightarrow> p \<noteq> ac_self a \<Longrightarrow> env_ok env \<Longrightarrow> e_request env = request \<Longrightarrow>
    sys_step request (a, w) (a, listener_accept env p raw ok fd ip run_ms timer_ok w)"
| readable: "reported (g_reactor w) fd p \<Longrightarrow> p \<noteq> ac_self a \<Longrightarrow> env_ok env \<Longrightarrow> e_request env = request \<Longrightarrow>
    session_read env p fd (w\<lparr>g_answers := xs\<rparr>) s = Fine (w', s') \<Longrightarrow> sys_step request (a, w) (a, w')"
| writable: "reported (g_reactor w) fd p \<Longrightarrow> p \<noteq> ac_self a \<Longrightarrow> session_write p fd (w\<lparr>g_answers := xs\<rparr>) = Fine w' \<Longrightarrow>
    sys_step request (a, w) (a, w')"
| failed: "reported (g_reactor w) fd p \<Longrightarrow> p \<noteq> ac_self a \<Longrightarrow> session_event p w = Fine w' \<Longrightarrow> sys_step request (a, w) (a, w')"
| idle: "conns (g_app w) p = Some c \<Longrightarrow> idle_expires c \<noteq> None \<Longrightarrow> session_idle now run_ms timer_ok p w = Fine w' \<Longrightarrow>
    sys_step request (a, w) (a, w')"
| listener: "sys_step request s (listener_error s)"
| reload: "sys_step request s (system_reload loaded sfd ok threshold s)"
| stop: "sys_step request s (system_stop s)"

inductive sys_reachable :: "'b cs_packet \<Rightarrow> int \<Rightarrow> gate_system \<Rightarrow> bool" for request threshold where
  start: "reactor_init ep mem maxfd reactor_new = (0, r0) \<Longrightarrow> acceptor_init sfd ok (acceptor_new lst) r0 = (0, a, r, cl) \<Longrightarrow>
    sys_reachable request threshold (a, world_new threshold r)"
| step: "sys_reachable request threshold s \<Longrightarrow> sys_step request s s' \<Longrightarrow> sys_reachable request threshold s'"

lemma system_ok_start:
  assumes "reactor_init ep mem maxfd reactor_new = (0, r0)" "acceptor_init sfd ok (acceptor_new lst) r0 = (0, a, r, cl)"
  shows "system_ok (a, world_new threshold r)"
proof -
  have "interest r0 = Map.empty" using assms(1) by (auto simp: reactor_init_def Let_def split: if_splits)
  then show ?thesis
    using acceptor_init_opened [OF reactor_inv_init [OF assms(1)] assms(2)] pool_ok_new [of threshold]
    by (simp add: system_ok_def sys_ok_def open_ok_def world_new_def acceptor_new_def) (simp add: app_new_def)
qed

text \<open>
  Reported events and timers leave everything in order again; only a read event may end in freed memory, when a
  send fails in it and the pool is full.
\<close>

lemma read_event_ok:
  assumes "sys_ok lst lfd w" "reported (g_reactor w) fd p" "p \<noteq> lst" "env_ok env"
  shows "(\<exists>w' s'. session_read env p fd (w\<lparr>g_answers := xs\<rparr>) s = Fine (w', s') \<and> sys_ok lst lfd w')
    \<or> (session_read env p fd (w\<lparr>g_answers := xs\<rparr>) s = OutOfBounds \<and> \<not> list_all soft xs \<and> length (conn_pool (g_app w)) > 100)"
proof -
  note r = reported_open [OF assms(1-3)]
  have "live lst lfd p (w\<lparr>g_answers := xs\<rparr>)" using assms(1) r by (simp add: live_def)
  from session_read_any [OF this assms(4), of s] show ?thesis by (simp add: r(2))
qed

lemma write_event_ok:
  assumes "sys_ok lst lfd w" "reported (g_reactor w) fd p" "p \<noteq> lst"
  shows "\<exists>w'. session_write p fd (w\<lparr>g_answers := xs\<rparr>) = Fine w' \<and> sys_ok lst lfd w'"
proof -
  note r = reported_open [OF assms]
  have "live lst lfd p (w\<lparr>g_answers := xs\<rparr>)" using assms(1) r by (simp add: live_def)
  from session_write_any [OF this] show ?thesis by (simp add: r(2))
qed

lemma error_event_ok:
  assumes "sys_ok lst lfd w" "reported (g_reactor w) fd p" "p \<noteq> lst"
  shows "\<exists>w'. session_event p w = Fine w' \<and> sys_ok lst lfd w'"
  using sys_ok_event [OF assms(1) reported_open(1) [OF assms]] by blast

lemma system_ok_step:
  assumes "sys_step request s s'" "system_ok s"
  shows "system_ok s'"
  using assms
proof cases
  case (accept a w p env raw ok fd ip run_ms timer_ok)
  obtain ret w1 where w1: "session_accept env p raw ok fd ip run_ms timer_ok w = (ret, w1)" by fastforce
  have "sys_ok (ac_self a) (ac_fd a) w1" using sys_ok_accept [OF _ _ _ _ w1] accept assms(2) by (simp add: system_ok_def)
  moreover have "sys_ok (ac_self a) (ac_fd a) (w1\<lparr>g_closed := cl\<rparr>) = sys_ok (ac_self a) (ac_fd a) w1" for cl
    by (rule sys_ok_cong) simp_all
  ultimately show ?thesis using accept(2) w1 by (simp add: system_ok_def listener_accept_def)
next
  case (readable w fd p a env xs s1 w' s2)
  then show ?thesis using read_event_ok [of "ac_self a" "ac_fd a" w fd p env xs s1] assms(2) by (auto simp: system_ok_def)
next
  case (writable w fd p a xs w')
  then show ?thesis using write_event_ok [of "ac_self a" "ac_fd a" w fd p xs] assms(2) by (auto simp: system_ok_def)
next
  case (failed w fd p a w')
  then show ?thesis using error_event_ok [of "ac_self a" "ac_fd a" w fd p] assms(2) by (auto simp: system_ok_def)
next
  case (idle w p c now run_ms timer_ok w' a)
  then show ?thesis using sys_ok_idle [of "ac_self a" "ac_fd a" w p c now run_ms timer_ok] assms(2) by (auto simp: system_ok_def)
next
  case listener
  then show ?thesis using system_ok_error [OF assms(2)] by simp
next
  case (reload loaded sfd ok threshold)
  then show ?thesis using system_ok_reload [OF assms(2)] by simp
next
  case stop
  then show ?thesis using system_ok_stop [OF assms(2)] by simp
qed

lemma system_ok_reachable: "sys_reachable request threshold s \<Longrightarrow> system_ok s"
  by (induction rule: sys_reachable.induct) (blast intro: system_ok_start system_ok_step)+

section \<open>What the invariant says\<close>

lemma system_watches:
  assumes "system_ok (a, w)"
  shows "interest (g_reactor w) fd \<noteq> None \<longleftrightarrow>
    0 \<le> fd \<and> fd = ac_fd a \<or> (\<exists>p. conn_open (g_app w) p \<and> id_fd (g_hnd w p) = fd)"
proof -
  note d = sys_okD [OF assms [unfolded system_ok_def fst_conv snd_conv]]
  show ?thesis using d(6-8) interest_registered [OF d(3), of fd] by blast
qed

lemma system_table:
  assumes "system_ok (a, w)" "conn_open (g_app w) p"
  shows "conns (g_app w) p \<noteq> None" "reported (g_reactor w) (id_fd (g_hnd w p)) p"
    "conn_open (g_app w) q \<Longrightarrow> id_fd (g_hnd w q) = id_fd (g_hnd w p) \<Longrightarrow> q = p"
proof -
  note ok = assms(1) [unfolded system_ok_def fst_conv snd_conv]
  show "conns (g_app w) p \<noteq> None" "reported (g_reactor w) (id_fd (g_hnd w p)) p"
    using sys_ok_open(1) [OF ok assms(2)] sys_okD(6) [OF ok assms(2)] by (auto simp: reported_def)
  show "conn_open (g_app w) q \<Longrightarrow> id_fd (g_hnd w q) = id_fd (g_hnd w p) \<Longrightarrow> q = p"
    using same_descriptor [OF ok _ assms(2)] by blast
qed

lemma system_pool:
  assumes "system_ok (a, w)" "p \<in> set (conn_pool (g_app w))"
  shows "conns (g_app w) p \<noteq> None \<and> \<not> conn_open (g_app w) p \<and> id_fd (g_hnd w p) < 0"
proof -
  note d = sys_okD [OF assms(1) [unfolded system_ok_def fst_conv snd_conv]]
  show ?thesis
    using assms(2) pool_okD(1) [OF d(1), of p] d(2) unfolding obj_ok_def open_ok_def by (auto split: option.splits)
qed

lemma system_objects:
  assumes "system_ok (a, w)"
  shows "conns (g_app w) p \<noteq> None \<longleftrightarrow> conn_open (g_app w) p \<or> p \<in> set (conn_pool (g_app w))"
  using pool_okD(1) [OF sys_okD(1) [OF assms [unfolded system_ok_def fst_conv snd_conv]], of p]
  by (auto simp: obj_ok_def split: option.splits)

text \<open>C5: The gate loses neither a connection object nor a descriptor, and uses a freed object in one situation
  only. In every state the gate can reach from its start by the events of its main loop, whatever the clients, the
  sockets, the timers, the listener and reloads do, up to the shutdown (\<open>gate_fini_terminates\<close>), the kernel watches exactly the listener, while it is open, and the descriptors of the open connections.
  No two connections share one, and the table of the reactor leads each of them back to its object. Every
  allocated object is either open or pooled; the pool holds no object twice, at most 101, and none that holds a
  descriptor. Every event that is reported for a descriptor, and every idle timer that runs, finds an allocated,
  open connection. Its handler ends without touching a freed object, unless a send in a read event fails while the
  pool is full (\<open>failed_answer_closes\<close> shows that it happens then).\<close>

theorem gate_system_invariant:
  assumes "sys_reachable request threshold (a, w)"
  shows "(\<forall>fd. interest (g_reactor w) fd \<noteq> None \<longleftrightarrow>
        0 \<le> fd \<and> fd = ac_fd a \<or> (\<exists>p. conn_open (g_app w) p \<and> id_fd (g_hnd w p) = fd))
    \<and> (\<forall>p. conn_open (g_app w) p \<longrightarrow> conns (g_app w) p \<noteq> None \<and> reported (g_reactor w) (id_fd (g_hnd w p)) p
        \<and> (\<forall>q. conn_open (g_app w) q \<and> id_fd (g_hnd w q) = id_fd (g_hnd w p) \<longrightarrow> q = p))
    \<and> (\<forall>p. conns (g_app w) p \<noteq> None \<longleftrightarrow> conn_open (g_app w) p \<or> p \<in> set (conn_pool (g_app w)))
    \<and> distinct (conn_pool (g_app w)) \<and> length (conn_pool (g_app w)) \<le> 101
    \<and> (\<forall>p \<in> set (conn_pool (g_app w)). conns (g_app w) p \<noteq> None \<and> \<not> conn_open (g_app w) p \<and> id_fd (g_hnd w p) < 0)
    \<and> (\<forall>fd p. reported (g_reactor w) fd p \<and> p \<noteq> ac_self a \<longrightarrow> conn_open (g_app w) p \<and> id_fd (g_hnd w p) = fd
        \<and> (\<forall>env xs s. env_ok env \<and> e_request env = request \<longrightarrow>
             session_read env p fd (w\<lparr>g_answers := xs\<rparr>) s = OutOfBounds \<longrightarrow>
             \<not> list_all soft xs \<and> length (conn_pool (g_app w)) = 101)
        \<and> (\<forall>xs. session_write p fd (w\<lparr>g_answers := xs\<rparr>) \<noteq> OutOfBounds) \<and> session_event p w \<noteq> OutOfBounds)
    \<and> (\<forall>p c now run_ms timer_ok. conns (g_app w) p = Some c \<and> idle_expires c \<noteq> None \<longrightarrow>
        session_idle now run_ms timer_ok p w \<noteq> OutOfBounds)"
proof -
  have sys: "system_ok (a, w)" by (rule system_ok_reachable [OF assms])
  note ok = sys [unfolded system_ok_def fst_conv snd_conv]
  note pool = pool_okD(2,3) [OF sys_okD(1) [OF ok]]
  have events: "conn_open (g_app w) p \<and> id_fd (g_hnd w p) = fd
      \<and> (\<forall>env xs s. env_ok env \<and> e_request env = request \<longrightarrow>
           session_read env p fd (w\<lparr>g_answers := xs\<rparr>) s = OutOfBounds \<longrightarrow>
           \<not> list_all soft xs \<and> length (conn_pool (g_app w)) = 101)
      \<and> (\<forall>xs. session_write p fd (w\<lparr>g_answers := xs\<rparr>) \<noteq> OutOfBounds) \<and> session_event p w \<noteq> OutOfBounds"
    if "reported (g_reactor w) fd p" "p \<noteq> ac_self a" for fd p
  proof -
    have "\<not> list_all soft xs \<and> length (conn_pool (g_app w)) = 101"
      if "env_ok env" "session_read env p fd (w\<lparr>g_answers := xs\<rparr>) s = OutOfBounds" for env :: "'a session_env" and xs s
      using read_event_ok [OF ok \<open>reported (g_reactor w) fd p\<close> \<open>p \<noteq> ac_self a\<close> that(1), of xs s] that(2) pool(2) by auto
    moreover have "session_write p fd (w\<lparr>g_answers := xs\<rparr>) \<noteq> OutOfBounds" for xs using write_event_ok [OF ok that, of xs] by auto
    moreover have "session_event p w \<noteq> OutOfBounds" using error_event_ok [OF ok that] by auto
    ultimately show ?thesis using reported_open [OF ok that] by blast
  qed
  have timers: "session_idle now run_ms timer_ok p w \<noteq> OutOfBounds"
    if "conns (g_app w) p = Some c" "idle_expires c \<noteq> None" for p c now run_ms timer_ok
    using sys_ok_idle [OF ok that] by (metis checked.distinct(1))
  show ?thesis
  proof (intro conjI, goal_cases)
    case 1
    show ?case by (intro allI system_watches [OF sys])
  next
    case 2
    show ?case using system_table [OF sys] by blast
  next
    case 3
    show ?case by (intro allI system_objects [OF sys])
  next
    case 4
    show ?case by (rule pool(1))
  next
    case 5
    show ?case by (rule pool(2))
  next
    case 6
    show ?case by (intro ballI system_pool [OF sys])
  next
    case 7
    show ?case by (intro allI impI, elim conjE) (rule events)
  next
    case 8
    show ?case by (intro allI impI, elim conjE) (rule timers)
  qed
qed

text \<open>A gate on a table of eight descriptors, with its listener on 3 and one client on 4.\<close>

definition sample_gate :: gate_system where
  "sample_gate =
     (let r0 = snd (reactor_init 5 True 8 reactor_new) in
      case acceptor_init 3 True (acceptor_new 1) r0 of (ret, a, r, cl) \<Rightarrow>
        (a, listener_accept sample_session_env 7 sample_client True 4 [] 0 True (world_new 5 r)))"

lemma sample_env_ok: "env_ok sample_session_env"
  using alloc_total_sound [OF sample_env_facts(1)] by (auto simp: env_ok_def sample_session_env_def split: if_splits)

lemma sample_gate_reachable: "sys_reachable sample_login 5 sample_gate"
proof -
  obtain r0 where r0: "reactor_init 5 True 8 reactor_new = (0, r0)"
    by (auto simp: reactor_init_def MIN_FD_SIZE_def reactor_new_def Let_def)
  obtain ret a r cl where i: "acceptor_init 3 True (acceptor_new 1) r0 = (ret, a, r, cl)" by (metis prod_cases4)
  have a: "ret = 0 \<and> ac_fd a = 3 \<and> ac_self a = 1"
    using i r0 by (auto simp: acceptor_init_def acceptor_new_def add_handler_def reactor_init_def MIN_FD_SIZE_def reactor_new_def Let_def
        split: if_splits)
  have "sys_reachable sample_login 5 (a, world_new 5 r)" using sys_reachable.start [OF r0] i a by blast
  moreover have "sys_step sample_login (a, world_new 5 r) (a, listener_accept sample_session_env 7 sample_client True 4 [] 0 True (world_new 5 r))"
    using a sample_env_ok by (intro sys_step.accept) (simp_all add: world_new_def app_new_def sample_session_env_def)
  ultimately show ?thesis using r0 i by (simp add: sample_gate_def sys_reachable.step)
qed

lemma sample_gate_open: "conn_open (g_app (snd sample_gate)) 7" "id_fd (g_hnd (snd sample_gate) 7) = 4"
  by (simp_all add: sample_gate_def reactor_init_def MIN_FD_SIZE_def reactor_new_def Let_def acceptor_init_def acceptor_new_def
      add_handler_def set_handler_def listener_accept_def session_accept_def is_online_threshold_def world_new_def app_new_def alloc_connection_def
      tcp_init_def tcp_new_def buffer_resize_def buffer_new_def sample_session_env_def sample_alloc_def update_client_def)

theorem gate_system_invariant_witness:
  "reported (g_reactor (snd sample_gate)) 4 7 \<and> session_event 7 (snd sample_gate) \<noteq> OutOfBounds
    \<and> session_read sample_session_env 7 4 ((snd sample_gate)\<lparr>g_answers := []\<rparr>) \<lparr>segments = [sample_frame], sock_end = SockErr EAGAIN\<rparr>
        \<noteq> OutOfBounds"
proof -
  obtain a w where s: "sample_gate = (a, w)" by fastforce
  have o: "conn_open (g_app w) 7" "id_fd (g_hnd w 7) = 4" using sample_gate_open by (simp_all add: s)
  have req: "e_request sample_session_env = sample_login" by (simp add: sample_session_env_def)
  note inv = gate_system_invariant [OF sample_gate_reachable [unfolded s]]
  have r: "reported (g_reactor w) 4 7" using inv o by metis
  have "7 \<noteq> ac_self a" using s by (auto simp: sample_gate_def acceptor_init_def acceptor_new_def Let_def split: prod.splits if_splits)
  then have "session_event 7 w \<noteq> OutOfBounds"
    "session_read sample_session_env 7 4 (w\<lparr>g_answers := []\<rparr>) \<lparr>segments = [sample_frame], sock_end = SockErr EAGAIN\<rparr> = OutOfBounds
      \<Longrightarrow> \<not> list_all soft []"
    using inv r sample_env_ok req by blast+
  then show ?thesis unfolding s snd_conv using r by auto
qed

end
