(* ===== verification/BitCount.thy ===== *)
theory BitCount
  imports Prelude
begin

text \<open>
  \<open>bit_count_32\<close> of \<open>public/str_util.h\<close>: counting the bits of a word in parallel, on fields of two, four
  and eight bits. Shown: the result is the number of bits that are set. The proof reads a word as its
  eight hexadecimal digits; no step carries from one digit into the next.
\<close>

definition bit_count_32 :: "u32 \<Rightarrow> int" where
  "bit_count_32 i0 =
     (let i1 = i0 - (drop_bit 1 i0 AND 0x55555555);
          i2 = (i1 AND 0x33333333) + (drop_bit 2 i1 AND 0x33333333)
      in uint (drop_bit 24 (((i2 + drop_bit 4 i2) AND 0xF0F0F0F) * 0x1010101)))"

section \<open>Hexadecimal digits\<close>

fun hexval :: "nat list \<Rightarrow> nat" where
  "hexval [] = 0"
| "hexval (d # ds) = d + 16 * hexval ds"

definition hexdigs :: "nat list \<Rightarrow> bool" where
  "hexdigs ds \<longleftrightarrow> (\<forall>d \<in> set ds. d < 16)"

lemma hexdigs_Cons [simp]: "hexdigs [] \<longleftrightarrow> True" "hexdigs (d # ds) \<longleftrightarrow> d < 16 \<and> hexdigs ds"
  by (simp_all add: hexdigs_def)

text \<open>A statement about a digit is checked on all sixteen.\<close>

lemma all_digits:
  "list_all P [0, 1, 2, 3, 4, 5, 6, 7, 8, 9, 10, 11, 12, 13, 14, 15] \<Longrightarrow> d < 16 \<Longrightarrow> P (d :: nat)"
proof -
  have "[0..<16] = [0, 1, 2, 3, 4, 5, 6, 7, 8, 9, 10, 11, 12, 13, 14, 15 :: nat]" by (simp add: upt_rec)
  then show "list_all P [0, 1, 2, 3, 4, 5, 6, 7, 8, 9, 10, 11, 12, 13, 14, 15] \<Longrightarrow> d < 16 \<Longrightarrow> P d"
    by (metis atLeastLessThan_iff atLeastLessThan_upt less_eq_nat.simps(1) list.pred_set)
qed

lemma hexval_bound: "hexdigs ds \<Longrightarrow> hexval ds < 16 ^ length ds"
  by (induction ds) auto

lemma hexval_digits: "n < 16 ^ k \<Longrightarrow> \<exists>ds. length ds = k \<and> hexdigs ds \<and> hexval ds = n"
proof (induction k arbitrary: n)
  case (Suc k)
  then have "n div 16 < 16 ^ k" by (simp add: less_mult_imp_div_less mult.commute)
  from Suc.IH [OF this] obtain ds where "length ds = k" "hexdigs ds" "hexval ds = n div 16" by blast
  then show ?case by (intro exI [of _ "n mod 16 # ds"]) simp
qed simp

lemma and_digit:
  fixes d m a b :: nat
  assumes "d < 16" "m < 16"
  shows "(d + 16 * a) AND (m + 16 * b) = (d AND m) + 16 * (a AND b)"
proof -
  let ?x = "(d + 16 * a) AND (m + 16 * b)"
  have "?x = take_bit 4 ?x + 16 * drop_bit 4 ?x"
    by (simp add: take_bit_eq_mod drop_bit_eq_div)
  also have "take_bit 4 ?x = d AND m"
    using assms by (simp only: take_bit_and) (simp add: take_bit_eq_mod)
  also have "drop_bit 4 ?x = a AND b"
    using assms by (simp only: drop_bit_and) (simp add: drop_bit_eq_div)
  finally show ?thesis .
qed

lemma hex_and:
  "length ds = length ms \<Longrightarrow> hexdigs ds \<Longrightarrow> hexdigs ms \<Longrightarrow>
   hexval ds AND hexval ms = hexval (map2 (AND) ds ms)"
  by (induction ds ms rule: list_induct2) (simp_all add: and_digit)

lemma hex_diff:
  "list_all2 (\<le>) es ds \<Longrightarrow> hexval es \<le> hexval ds \<and> hexval ds - hexval es = hexval (map2 (-) ds es)"
  by (induction rule: list_all2_induct) auto

lemma half_digit: "d < 16 \<Longrightarrow> (d div 2 + 8 * (h mod 2)) AND 5 = d div 2 AND (5 :: nat)"
  by (cases "even h"; rule all_digits [of _ d]) (simp_all add: even_iff_mod_2_eq_zero odd_iff_mod_2_eq_one)

lemma digit_bounds:
  assumes "d < (16 :: nat)"
  shows "d div 2 + 8 * (h mod 2) < 16" "d div 4 + 4 * (h mod 4) < 16"
proof -
  have "h mod 2 \<le> 1" "h mod 4 \<le> 3" "d div 2 \<le> 7" "d div 4 \<le> 3" using assms by simp_all
  then show "d div 2 + 8 * (h mod 2) < 16" "d div 4 + 4 * (h mod 4) < 16" by linarith+
qed

lemma hex_half:
  "hexdigs ds \<Longrightarrow> (hexval ds div 2) AND hexval (map (\<lambda>d. 5) ds) = hexval (map (\<lambda>d. (d div 2) AND 5) ds)"
proof (induction ds)
  case (Cons d ds)
  have "(d + 16 * hexval ds) div 2 = (d div 2 + 8 * (hexval ds mod 2)) + 16 * (hexval ds div 2)"
    using div_mult_self1 [of 2 d "8 * hexval ds"] mult_div_mod_eq [of 2 "hexval ds"] by linarith
  moreover have "\<dots> AND (5 + 16 * hexval (map (\<lambda>d. 5) ds))
      = ((d div 2 + 8 * (hexval ds mod 2)) AND 5) + 16 * ((hexval ds div 2) AND hexval (map (\<lambda>d. 5) ds))"
    by (rule and_digit [OF digit_bounds(1)]) (use Cons.prems in simp_all)
  ultimately show ?case using Cons.prems Cons.IH half_digit [of d "hexval ds"]
    by (simp only: hexval.simps list.map hexdigs_Cons)
qed simp

lemma quarter_digit:
  assumes "d < 16"
  shows "(d div 4 + 4 * h) AND 3 = d div (4 :: nat)"
proof -
  have "(d div 4 + 4 * h) AND mask 2 = d div 4"
    using assms by (simp only: flip: take_bit_eq_mask) (simp add: take_bit_eq_mod)
  then show ?thesis by (simp add: mask_eq_exp_minus_1)
qed

lemma hex_quarter:
  "hexdigs ds \<Longrightarrow> (hexval ds div 4) AND hexval (map (\<lambda>d. 3) ds) = hexval (map (\<lambda>d. d div 4) ds)"
proof (induction ds)
  case (Cons d ds)
  have "(d + 16 * hexval ds) div 4 = (d div 4 + 4 * (hexval ds mod 4)) + 16 * (hexval ds div 4)"
    using div_mult_self1 [of 4 d "4 * hexval ds"] mult_div_mod_eq [of 4 "hexval ds"] by linarith
  moreover have "\<dots> AND (3 + 16 * hexval (map (\<lambda>d. 3) ds))
      = ((d div 4 + 4 * (hexval ds mod 4)) AND 3) + 16 * ((hexval ds div 4) AND hexval (map (\<lambda>d. 3) ds))"
    by (rule and_digit [OF digit_bounds(2)]) (use Cons.prems in simp_all)
  ultimately show ?case using Cons.prems Cons.IH quarter_digit [of d "hexval ds mod 4"]
    by (simp only: hexval.simps list.map hexdigs_Cons)
qed simp

section \<open>Counting bits digit by digit\<close>

definition digit_ones :: "nat \<Rightarrow> nat" where
  "digit_ones d = length (filter (bit d) [0, 1, 2, 3])"

lemma bit_digit: "d < 16 \<Longrightarrow> bit (d + 16 * h) k = (if k < 4 then bit d k else bit h (k - 4))" for d :: nat
proof -
  assume d: "d < 16"
  show ?thesis
  proof (cases "k < 4")
    case True
    have "bit (take_bit 4 (d + 16 * h)) k = bit d k" using d by (simp add: take_bit_eq_mod)
    then show ?thesis using True by (simp add: bit_take_bit_iff)
  next
    case False
    have "bit (drop_bit 4 (d + 16 * h)) (k - 4) = bit h (k - 4)" using d by (simp add: drop_bit_eq_div)
    then show ?thesis using False by (simp add: bit_drop_bit_eq)
  qed
qed

lemma hex_ones:
  "hexdigs ds \<Longrightarrow> length (filter (bit (hexval ds)) [0..<4 * length ds]) = sum_list (map digit_ones ds)"
proof (induction ds)
  case (Cons d ds)
  have "[0..<4 * length (d # ds)] = [0, 1, 2, 3] @ map (\<lambda>k. k + 4) [0..<4 * length ds]"
  proof -
    have "[0..<4 * length (d # ds)] = [0..<4] @ [4..<4 + 4 * length ds]"
      using upt_add_eq_append [of 0 4 "4 * length ds"] by simp
    moreover have "[0..<4] = [0, 1, 2, 3 :: nat]" by (simp add: upt_rec)
    moreover have "[4..<4 + 4 * length ds] = map (\<lambda>k. k + 4) [0..<4 * length ds]"
      by (simp only: map_add_upt add.commute)
    ultimately show ?thesis by metis
  qed
  moreover have "filter (bit (hexval (d # ds))) (map (\<lambda>k. k + 4) [0..<4 * length ds])
      = map (\<lambda>k. k + 4) (filter (bit (hexval ds)) [0..<4 * length ds])"
    using Cons.prems by (simp add: filter_map o_def bit_digit)
  moreover have "filter (bit (hexval (d # ds))) [0, 1, 2, 3] = filter (bit d) [0, 1, 2, 3]"
    using Cons.prems by (intro filter_cong) (auto simp: bit_digit)
  ultimately show ?case using Cons by (simp only: filter_append length_append length_map) (simp add: digit_ones_def)
qed simp

lemma digit_steps:
  assumes "d < 16"
  shows "(d div 2) AND 5 \<le> d" "((d - ((d div 2) AND 5)) AND 3) + (d - ((d div 2) AND 5)) div 4 = digit_ones d"
    "digit_ones d \<le> 4" "d AND 15 = d"
proof -
  have "(d div 2) AND 5 \<le> d \<and> ((d - ((d div 2) AND 5)) AND 3) + (d - ((d div 2) AND 5)) div 4 = digit_ones d
      \<and> digit_ones d \<le> 4 \<and> d AND 15 = d"
    by (rule all_digits [OF _ assms]) (simp add: digit_ones_def bit_Suc_0_iff)
  then show "(d div 2) AND 5 \<le> d" "((d - ((d div 2) AND 5)) AND 3) + (d - ((d div 2) AND 5)) div 4 = digit_ones d"
    "digit_ones d \<le> 4" "d AND 15 = d" by blast+
qed

section \<open>The steps of the routine\<close>

lemma same_digits: "length ds = 8 \<Longrightarrow> map (\<lambda>d. x) ds = [x, x, x, x, x, x, x, x]"
proof -
  have "replicate 8 x = [x, x, x, x, x, x, x, x]" by (simp add: numeral_eq_Suc)
  then show "length ds = 8 \<Longrightarrow> map (\<lambda>d. x) ds = [x, x, x, x, x, x, x, x]" by (simp add: map_replicate_const)
qed

lemma first_step:
  assumes "hexdigs ds" "hexval ds = unat i" "length ds = 8"
  defines "es \<equiv> map (\<lambda>d. d - ((d div 2) AND 5)) ds"
  shows "unat (i - (drop_bit 1 i AND (0x55555555 :: u32))) = hexval es" "hexdigs es" "length es = 8"
proof -
  have m: "unat (0x55555555 :: u32) = hexval (map (\<lambda>d. 5) ds)"
    by (simp add: same_digits [OF assms(3)])
  have "unat (drop_bit 1 i AND (0x55555555 :: u32)) = (hexval ds div 2) AND hexval (map (\<lambda>d. 5) ds)"
    unfolding unsigned_and_eq m assms(2) by (simp add: unsigned_drop_bit_eq drop_bit_eq_div unat_div)
  also have "\<dots> = hexval (map (\<lambda>d. (d div 2) AND 5) ds)" by (rule hex_half [OF assms(1)])
  finally have sub: "unat (drop_bit 1 i AND (0x55555555 :: u32)) = hexval (map (\<lambda>d. (d div 2) AND 5) ds)" .
  have "list_all2 (\<le>) (map (\<lambda>d. (d div 2) AND 5) ds) ds"
    using assms(1) digit_steps(1) by (auto simp: hexdigs_def list_all2_conv_all_nth)
  note diff = hex_diff [OF this]
  have le: "drop_bit 1 i AND (0x55555555 :: u32) \<le> i"
    by (simp only: word_le_nat_alt sub assms(2) [symmetric] diff)
  have "map2 (-) ds (map (\<lambda>d. (d div 2) AND 5) ds) = es"
    unfolding es_def by (induction ds) simp_all
  then show "unat (i - (drop_bit 1 i AND (0x55555555 :: u32))) = hexval es"
    by (simp only: unat_sub [OF le] sub assms(2) [symmetric] diff)
  show "hexdigs es" using assms(1) by (auto simp: es_def hexdigs_def intro: le_less_trans [OF diff_le_self])
  show "length es = 8" using assms(3) by (simp add: es_def)
qed

lemma hex_add: "hexval (map f ds) + hexval (map g ds) = hexval (map (\<lambda>d. f d + g d) ds)"
  by (induction ds) simp_all

lemma second_step:
  assumes "hexdigs es" "hexval es = unat i" "length es = 8"
  defines "qs \<equiv> map (\<lambda>d. (d AND 3) + d div 4) es"
  assumes "hexdigs qs"
  shows "unat ((i AND (0x33333333 :: u32)) + (drop_bit 2 i AND 0x33333333)) = hexval qs"
proof -
  have m: "unat (0x33333333 :: u32) = hexval (map (\<lambda>d. 3) es)"
    by (simp add: same_digits [OF assms(3)])
  have "hexval es AND hexval (map (\<lambda>d. 3) es) = hexval (map2 (AND) es (map (\<lambda>d. 3) es))"
    by (rule hex_and) (use assms(1) in \<open>auto simp: hexdigs_def\<close>)
  also have "map2 (AND) es (map (\<lambda>d. 3) es) = map (\<lambda>d. d AND 3) es" by (induction es) simp_all
  finally have a: "unat (i AND (0x33333333 :: u32)) = hexval (map (\<lambda>d. d AND 3) es)"
    unfolding unsigned_and_eq m assms(2) .
  have "unat (drop_bit 2 i AND (0x33333333 :: u32)) = (hexval es div 4) AND hexval (map (\<lambda>d. 3) es)"
    unfolding unsigned_and_eq m assms(2) by (simp add: unsigned_drop_bit_eq drop_bit_eq_div unat_div)
  also have "\<dots> = hexval (map (\<lambda>d. d div 4) es)" by (rule hex_quarter [OF assms(1)])
  finally have b: "unat (drop_bit 2 i AND (0x33333333 :: u32)) = hexval (map (\<lambda>d. d div 4) es)" .
  have "hexval qs < 2 ^ LENGTH(32)" using hexval_bound [OF assms(5)] assms(3) by (simp add: qs_def)
  then show ?thesis
    using unat_add_lem [of "i AND (0x33333333 :: u32)" "drop_bit 2 i AND 0x33333333"]
    unfolding a b hex_add qs_def [symmetric] by simp
qed

lemma multiply_sums_bytes:
  assumes "s0 \<le> 8" "s1 \<le> 8" "s2 \<le> 8" "s3 \<le> (8 :: nat)"
  shows "(s0 + 256 * s1 + 65536 * s2 + 16777216 * s3) * 16843009 mod 4294967296 div 16777216 = s0 + s1 + s2 + s3"
proof -
  define low where "low = s0 + 256 * (s0 + s1) + 65536 * (s0 + s1 + s2)"
  define high where "high = (s1 + s2 + s3) + 256 * (s2 + s3) + 65536 * s3"
  define t where "t = s0 + s1 + s2 + s3"
  have l: "low < 16777216" and t: "t \<le> 32" using assms by (simp_all add: low_def t_def)
  have "(s0 + 256 * s1 + 65536 * s2 + 16777216 * s3) * 16843009 = (low + 16777216 * t) + high * 4294967296"
    unfolding low_def t_def high_def by simp
  moreover have "low + 16777216 * t < 4294967296" using l t by linarith
  ultimately have "(s0 + 256 * s1 + 65536 * s2 + 16777216 * s3) * 16843009 mod 4294967296 = low + 16777216 * t"
    by (simp only: mod_mult_self1 mod_less)
  moreover have "(low + 16777216 * t) div 16777216 = t" using l by simp
  ultimately show ?thesis by (simp only: t_def)
qed

lemma third_step:
  assumes "length qs = 8" "\<forall>q \<in> set qs. q \<le> 4" "unat i = hexval qs"
  shows "unat (drop_bit 24 (((i + drop_bit 4 i) AND (0xF0F0F0F :: u32)) * 0x1010101)) = sum_list qs"
proof -
  obtain a b c d e f g h where qs: "qs = [a, b, c, d, e, f, g, h]"
    using assms(1) by (auto simp: numeral_eq_Suc length_Suc_conv)
  have le: "a \<le> 4" "b \<le> 4" "c \<le> 4" "d \<le> 4" "e \<le> 4" "f \<le> 4" "g \<le> 4" "h \<le> 4" using assms(2) by (simp_all add: qs)
  let ?sums = "[a + b, b + c, c + d, d + e, e + f, f + g, g + h, h]"
  have dig: "hexdigs ?sums" using le by simp
  have "unat (drop_bit 4 i) = hexval [b, c, d, e, f, g, h]"
    using le by (simp add: unsigned_drop_bit_eq drop_bit_eq_div unat_div assms(3) qs)
  then have "unat i + unat (drop_bit 4 i) = hexval ?sums" by (simp add: assms(3) qs)
  moreover have "hexval ?sums < 2 ^ LENGTH(32)" using hexval_bound [OF dig] by simp
  ultimately have sum: "unat (i + drop_bit 4 i) = hexval ?sums"
    using unat_add_lem [of i "drop_bit 4 i"] by simp
  have "unat (0xF0F0F0F :: u32) = hexval [15, 0, 15, 0, 15, 0, 15, 0]" by simp
  then have "unat ((i + drop_bit 4 i) AND (0xF0F0F0F :: u32)) = hexval ?sums AND hexval [15, 0, 15, 0, 15, 0, 15, 0]"
    by (simp only: unsigned_and_eq sum)
  also have "\<dots> = hexval (map2 (AND) ?sums [15, 0, 15, 0, 15, 0, 15, 0])"
    by (rule hex_and) (use dig in simp_all)
  also have "\<dots> = hexval [a + b, 0, c + d, 0, e + f, 0, g + h, 0]"
    using le digit_steps(4) by simp
  also have "\<dots> = (a + b) + 256 * (c + d) + 65536 * (e + f) + 16777216 * (g + h)" by simp
  finally have x: "unat ((i + drop_bit 4 i) AND (0xF0F0F0F :: u32))
      = (a + b) + 256 * (c + d) + 65536 * (e + f) + 16777216 * (g + h)" .
  have "unat (drop_bit 24 (((i + drop_bit 4 i) AND (0xF0F0F0F :: u32)) * 0x1010101))
      = unat ((i + drop_bit 4 i) AND (0xF0F0F0F :: u32)) * 16843009 mod 4294967296 div 16777216"
    by (simp add: unsigned_drop_bit_eq drop_bit_eq_div unat_div unat_word_ariths)
  also have "\<dots> = (a + b) + (c + d) + (e + f) + (g + h)"
    unfolding x by (rule multiply_sums_bytes) (use le in simp_all)
  finally show ?thesis by (simp add: qs)
qed

section \<open>Property\<close>

text \<open>C39: \<open>bit_count_32\<close> counts: for every word the three masked additions and the multiplication give the
  number of positions whose bit is set.\<close>

theorem bit_count_counts: "bit_count_32 i = int (length (filter (bit i) [0..<32]))"
proof -
  have "unat i < 16 ^ 8" using unsigned_less [of i] by simp
  from hexval_digits [OF this] obtain ds where ds: "length ds = 8" "hexdigs ds" "hexval ds = unat i" by blast
  note one = first_step [OF ds(2,3,1)]
  have "map (\<lambda>d. (d AND 3) + d div 4) (map (\<lambda>d. d - ((d div 2) AND 5)) ds) = map digit_ones ds"
    using ds(2) digit_steps(2) by (auto simp: hexdigs_def)
  moreover have ones: "\<forall>q \<in> set (map digit_ones ds). q \<le> 4"
    using ds(2) digit_steps(3) by (auto simp: hexdigs_def)
  moreover have "hexdigs (map digit_ones ds)" using ones by (auto simp: hexdigs_def)
  ultimately have two: "unat ((i - (drop_bit 1 i AND (0x55555555 :: u32)) AND (0x33333333 :: u32))
      + (drop_bit 2 (i - (drop_bit 1 i AND (0x55555555 :: u32))) AND 0x33333333)) = hexval (map digit_ones ds)"
    using second_step [OF one(2) one(1) [symmetric] one(3)] by metis
  have "bit_count_32 i = int (sum_list (map digit_ones ds))"
    unfolding bit_count_32_def Let_def
    using third_step [OF _ ones two] ds(1) by (simp only: length_map uint_nat)
  also have "sum_list (map digit_ones ds) = length (filter (bit (unat i)) [0..<32])"
    using hex_ones [OF ds(2)] ds(1,3) by simp
  moreover have "bit (unat i) = bit i" by (rule ext) (simp add: bit_unsigned_iff)
  ultimately show ?thesis by simp
qed

end
