(* ===== verification/SystemUtil.thy ===== *)
theory SystemUtil
  imports Prelude
begin

text \<open>
  \<open>framework/system_util.cpp\<close>: the titles of threads and of the process, the lock file, the limit of
  open files and the step into the background. The kernel's answers are arguments; the memory of the
  process arguments and of the environment is a byte block that starts at \<open>argv[0]\<close>, and the open files
  of the process are a map from descriptors to names. Shown: setting the title writes inside the area of
  the arguments (and of the environment it has moved away) only, and every string of the environment
  reads as before.
\<close>

section \<open>Titles\<close>

text \<open>
  \<open>vsnprintf\<close> into an array of \<open>n\<close> bytes; \<open>text\<close> is what the format gives. The rest of the array is 0.
\<close>

definition vsn :: "nat \<Rightarrow> byte list \<Rightarrow> byte list" where
  "vsn n text = take (n - 1) (c_str text)"

definition set_thread_title :: "byte list \<Rightarrow> byte list" where
  "set_thread_title text = vsn 16 text"

text \<open>An entry of \<open>environ\<close>: an offset into the block, or a string that \<open>strdup\<close> allocated.\<close>

datatype env_ptr = InArea nat | OnHeap "byte list" | NullPtr

definition strlen_at :: "byte list \<Rightarrow> nat \<Rightarrow> nat" where
  "strlen_at mem off = length (c_str (drop off mem))"

definition env_string :: "byte list \<Rightarrow> env_ptr \<Rightarrow> byte list option" where
  "env_string mem p =
     (case p of InArea off \<Rightarrow> Some (c_str (drop off mem)) | OnHeap s \<Rightarrow> Some s | NullPtr \<Rightarrow> None)"

text \<open>
  The loop over \<open>environ\<close>: entries that follow each other in the block are copied to the heap; the first
  component is \<open>env_next\<close> at the end. \<open>dup s\<close> tells whether \<open>strdup\<close> has memory for \<open>s\<close>.
\<close>

fun move_env :: "(byte list \<Rightarrow> bool) \<Rightarrow> byte list \<Rightarrow> nat \<Rightarrow> env_ptr list \<Rightarrow> nat \<times> env_ptr list" where
  "move_env dup mem env_next (InArea off # es) =
     (if env_next = off
      then let s = c_str (drop off mem) in
        (case move_env dup mem (off + strlen_at mem off + 1) es of
           (n, es') \<Rightarrow> (n, (if dup s then OnHeap s else NullPtr) # es'))
      else (env_next, InArea off # es))"
| "move_env dup mem env_next es = (env_next, es)"

definition set_process_title ::
  "(byte list \<Rightarrow> bool) \<Rightarrow> byte list \<Rightarrow> nat list \<Rightarrow> env_ptr list \<Rightarrow> byte list \<Rightarrow> byte list \<times> env_ptr list" where
  "set_process_title dup mem argv env text =
     (let arg_end = last argv + strlen_at mem (last argv) + 1;
          title = vsn 256 text;
          tlen = length title + 1;
          (i, env') = (if arg_end < tlen \<and> env \<noteq> [] \<and> hd env = InArea arg_end
                       then move_env dup mem arg_end env else (arg_end, env))
      in (if tlen \<le> i then blit mem 0 (title @ replicate (i - tlen + 1) 0)
          else blit mem 0 (take (i - 1) title @ [0]),
          env'))"

section \<open>Descriptors\<close>

type_synonym fd_table = "int \<Rightarrow> string option"

text \<open>\<open>lock_file\<close>: \<open>fd\<close> is what \<open>open\<close> answered, \<open>locked\<close> whether \<open>flock\<close> gave the lock.\<close>

definition lock_file :: "int \<Rightarrow> bool \<Rightarrow> string \<Rightarrow> fd_table \<Rightarrow> int \<times> fd_table" where
  "lock_file fd locked filename t =
     (if fd < 0 then (-1, t)
      else let t1 = t(fd \<mapsto> filename) in if \<not> locked then (-1, t1) else (fd, t1))"

text \<open>
  The limit as the kernel keeps it, an unsigned number of 64 bits. \<open>ok\<close> tells whether the call succeeds.
\<close>

definition set_open_file_limit :: "int \<Rightarrow> bool \<Rightarrow> u64 \<Rightarrow> int \<times> u64" where
  "set_open_file_limit maxsize ok lim =
     (if maxsize < 0 then (-1, lim) else if ok then (0, word_of_int maxsize) else (-1, lim))"

definition get_open_file_limit :: "bool \<Rightarrow> u64 \<Rightarrow> int" where
  "get_open_file_limit ok lim = (if \<not> ok then -1 else to_int32 (uint lim))"

text \<open>
  \<open>daemon_init\<close> as one process sees it: the answers of the two \<open>fork\<close> calls, of \<open>sigaction\<close> and of
  \<open>chdir\<close>; \<open>null_fd\<close> is the answer of \<open>open\<close>. A parent leaves through \<open>_exit\<close>.
\<close>

datatype daemon_end = Exits | Returns int

record daemon_state =
  d_session :: bool
  d_hup_ignored :: bool
  d_at_root :: bool
  d_files :: fd_table

definition daemon_files :: "int \<Rightarrow> fd_table \<Rightarrow> fd_table" where
  "daemon_files fd t =
     (let t1 = t(fd \<mapsto> ''/dev/null'');
          t2 = t1(0 := t1 fd); t3 = t2(1 := t2 fd); t4 = t3(2 := t3 fd)
      in t4(fd := None))"

definition daemon_init ::
  "int \<Rightarrow> bool \<Rightarrow> int \<Rightarrow> bool \<Rightarrow> int \<Rightarrow> int \<Rightarrow> int \<Rightarrow> daemon_state \<Rightarrow> daemon_end \<times> daemon_state" where
  "daemon_init pid1 sig_ok pid2 chdir_ok null_fd nochdir noclose s =
     (if pid1 < 0 then (Returns (-1), s)
      else if pid1 \<noteq> 0 then (Exits, s)
      else let s1 = s\<lparr>d_session := True\<rparr> in
        if \<not> sig_ok then (Returns (-1), s1)
        else let s2 = s1\<lparr>d_hup_ignored := True\<rparr> in
          if pid2 < 0 then (Returns (-1), s2)
          else if pid2 \<noteq> 0 then (Exits, s2)
          else if nochdir = 0 \<and> \<not> chdir_ok then (Returns (-1), s2)
          else let s3 = (if nochdir = 0 then s2\<lparr>d_at_root := True\<rparr> else s2) in
            if noclose = 0
            then if null_fd < 0 then (Returns (-1), s3)
                 else (Returns 0, s3\<lparr>d_files := daemon_files null_fd (d_files s3)\<rparr>)
            else (Returns 0, s3))"

section \<open>The layout the kernel gives to arguments and environment\<close>

definition cstrings :: "byte list list \<Rightarrow> byte list" where
  "cstrings ss = concat (map (\<lambda>s. s @ [0]) ss)"

fun starts :: "nat \<Rightarrow> byte list list \<Rightarrow> nat list" where
  "starts off [] = []"
| "starts off (s # ss) = off # starts (off + length s + 1) ss"

lemma cstrings_Cons [simp]: "cstrings [] = []" "cstrings (s # ss) = s @ 0 # cstrings ss"
    "cstrings (xs @ ys) = cstrings xs @ cstrings ys"
  by (simp_all add: cstrings_def)

lemma read_string: "str_ok s \<Longrightarrow> length pre = off \<Longrightarrow> c_str (drop off (pre @ s @ 0 # rest)) = s"
  by (simp add: c_str_terminated)

lemma last_starts:
  assumes "ss \<noteq> []" "list_all str_ok ss" "length pre = off"
  shows "last (starts off ss) + strlen_at (pre @ cstrings ss @ rest) (last (starts off ss)) + 1
    = off + length (cstrings ss)"
  using assms
proof (induction ss arbitrary: off pre)
  case (Cons s ss)
  show ?case
  proof (cases ss)
    case Nil
    then show ?thesis using Cons.prems by (simp add: strlen_at_def c_str_terminated)
  next
    case (Cons s2 ss2)
    with Cons.IH [of "pre @ s @ [0]" "off + length s + 1"] Cons.prems show ?thesis by simp
  qed
qed simp

lemma env_reads:
  assumes "list_all str_ok ss" "length pre = off"
  shows "map (env_string (pre @ cstrings ss @ rest)) (map InArea (starts off ss)) = map Some ss"
  using assms
proof (induction ss arbitrary: off pre)
  case (Cons s ss)
  have e: "pre @ cstrings (s # ss) @ rest = (pre @ s @ [0]) @ cstrings ss @ rest" by simp
  have "env_string (pre @ cstrings (s # ss) @ rest) (InArea off) = Some s"
    using Cons.prems by (simp add: env_string_def c_str_terminated)
  moreover from Cons.IH [of "pre @ s @ [0]" "off + length s + 1"] Cons.prems
  have "map (env_string (pre @ cstrings (s # ss) @ rest)) (map InArea (starts (off + length s + 1) ss)) = map Some ss"
    unfolding e by simp
  ultimately show ?case by (simp only: starts.simps list.map)
qed simp

lemma move_env_all:
  assumes "list_all str_ok ss" "length pre = off" "dup = (\<lambda>s. True)"
  shows "move_env dup (pre @ cstrings ss @ rest) off (map InArea (starts off ss))
    = (off + length (cstrings ss), map OnHeap ss)"
  using assms(1,2)
proof (induction ss arbitrary: off pre)
  case (Cons s ss)
  have e: "pre @ cstrings (s # ss) @ rest = (pre @ s @ [0]) @ cstrings ss @ rest" by simp
  have "c_str (drop off (pre @ cstrings (s # ss) @ rest)) = s" using Cons.prems by (simp add: c_str_terminated)
  moreover from Cons.IH [of "pre @ s @ [0]" "off + length s + 1"] Cons.prems
  have "move_env dup (pre @ cstrings (s # ss) @ rest) (off + length s + 1) (map InArea (starts (off + length s + 1) ss))
      = (off + length s + 1 + length (cstrings ss), map OnHeap ss)"
    unfolding e by simp
  ultimately show ?case using assms(3)
    by (simp add: strlen_at_def Let_def del: cstrings_Cons drop_append) simp
qed simp

lemma title_string: "str_ok (vsn n msg)"
  by (auto simp: vsn_def str_ok_def c_str_def dest: in_set_takeD set_takeWhileD)

section \<open>Properties\<close>

text \<open>C40: Setting the process title is safe. Let the strings of the arguments and of the environment stand one behind
  the other, as the kernel lays them out, and let \<open>strdup\<close> have memory. Then for a title of any length the
  block keeps its size and everything behind the arguments and the environment its bytes, the title
  (at most 255 bytes of it, or as many as there is room for) is what now reads at \<open>argv[0]\<close>, and every
  string of the environment reads as before.\<close>

theorem process_title_safe:
  fixes args envs :: "byte list list" and rest msg :: "byte list"
  defines "mem \<equiv> cstrings args @ cstrings envs @ rest"
  assumes "args \<noteq> []" "list_all str_ok args" "list_all str_ok envs" "dup = (\<lambda>s. True)"
    and "set_process_title dup mem (starts 0 args) (map InArea (starts (length (cstrings args)) envs)) msg = (mem', env')"
  shows "\<exists>area. length mem' = length mem \<and> drop (length (cstrings args @ cstrings envs)) mem' = rest
    \<and> length (cstrings args) \<le> area \<and> area \<le> length (cstrings args @ cstrings envs)
    \<and> c_str mem' = take (area - 1) (vsn 256 msg) \<and> map (env_string mem') env' = map Some envs"
proof -
  let ?a = "length (cstrings args)" and ?t = "vsn 256 msg"
  let ?env = "map InArea (starts ?a envs)"
  have pos: "0 < ?a" using assms(2) by (cases args) simp_all
  have arg_end: "last (starts 0 args) + strlen_at mem (last (starts 0 args)) + 1 = ?a"
    using last_starts [OF assms(2,3), of "[]" 0 "cstrings envs @ rest"] by (simp add: mem_def)
  note run = assms(6) [unfolded set_process_title_def Let_def arg_end]
  have wrote: "length m = length mem \<and> drop i m = drop i mem \<and> c_str m = take (i - 1) ?t"
    if "0 < i" "i \<le> length mem"
      "m = (if length ?t + 1 \<le> i then blit mem 0 (?t @ replicate (i - (length ?t + 1) + 1) 0)
            else blit mem 0 (take (i - 1) ?t @ [0]))" for i m
  proof -
    have "str_ok (take (i - 1) ?t)" using title_string [of 256 msg] by (auto simp: str_ok_def dest: in_set_takeD)
    note c = c_str_terminated [OF title_string] c_str_terminated [OF this]
    have "\<exists>p. m = p @ drop i mem \<and> length p = i \<and> c_str m = take (i - 1) ?t"
    proof (cases "length ?t + 1 \<le> i")
      case True
      then have "m = (?t @ 0 # replicate (i - Suc (length ?t)) 0) @ drop i mem"
        using that(3) by (simp add: blit_def)
      then show ?thesis using True c(1) by (intro exI [of _ "?t @ 0 # replicate (i - Suc (length ?t)) 0"]) simp
    next
      case False
      then have "m = (take (i - 1) ?t @ [0]) @ drop i mem"
        using that(1,3) by (simp add: blit_def)
      then show ?thesis using False that(1) c(2) by (intro exI [of _ "take (i - 1) ?t @ [0]"]) simp
    qed
    then show ?thesis using that(2) by auto
  qed
  show ?thesis
  proof (cases "?a < length ?t + 1 \<and> envs \<noteq> []")
    case True
    then have h: "?a < length ?t + 1 \<and> ?env \<noteq> [] \<and> hd ?env = InArea ?a" by (cases envs) simp_all
    have mv: "move_env dup mem ?a ?env = (?a + length (cstrings envs), map OnHeap envs)"
      using move_env_all [OF assms(4) refl assms(5), of "cstrings args" rest] by (simp add: mem_def)
    have r: "env' = map OnHeap envs"
      "mem' = (let i = ?a + length (cstrings envs) in if length ?t + 1 \<le> i
            then blit mem 0 (?t @ replicate (i - (length ?t + 1) + 1) 0) else blit mem 0 (take (i - 1) ?t @ [0]))"
      using run [unfolded if_P [OF h] mv] by (simp_all only: prod.case prod.inject Let_def)
    from wrote [of "?a + length (cstrings envs)" mem'] r(2) pos
    show ?thesis
      by (intro exI [of _ "?a + length (cstrings envs)"]) (simp add: r(1) mem_def Let_def env_string_def)
  next
    case False
    then have h: "\<not> (?a < length ?t + 1 \<and> ?env \<noteq> [] \<and> hd ?env = InArea ?a)" by (cases envs) auto
    have r: "env' = ?env"
      "mem' = (if length ?t + 1 \<le> ?a
            then blit mem 0 (?t @ replicate (?a - (length ?t + 1) + 1) 0) else blit mem 0 (take (?a - 1) ?t @ [0]))"
      using run [unfolded if_not_P [OF h]] by (simp_all only: prod.case prod.inject)
    have w: "length mem' = length mem" "drop ?a mem' = cstrings envs @ rest" "c_str mem' = take (?a - 1) ?t"
      using wrote [OF pos _ r(2)] by (simp_all add: mem_def)
    then have m: "mem' = take ?a mem' @ cstrings envs @ rest" by (metis append_take_drop_id)
    have "map (env_string mem') ?env = map Some envs"
      using env_reads [OF assms(4), of "take ?a mem'" ?a rest] w(1) m by (simp add: mem_def)
    moreover have "drop (length (cstrings args @ cstrings envs)) mem' = rest"
      using arg_cong [OF w(2), of "drop (length (cstrings envs))"] by (simp add: add.commute)
    ultimately show ?thesis using w r(1) by (intro exI [of _ ?a]) simp
  qed
qed

theorem process_title_safe_witness:
  "\<exists>mem' env'. set_process_title (\<lambda>s. True) (cstrings [ascii ''g'', ascii ''c''] @ cstrings [ascii ''A=1'', ascii ''B''] @ [9])
       (starts 0 [ascii ''g'', ascii ''c'']) (map InArea (starts 4 [ascii ''A=1'', ascii ''B''])) (ascii ''gate 7'') = (mem', env')
     \<and> mem' = ascii ''gate 7'' @ [0, 0, 0, 0, 9] \<and> map (env_string mem') env' = map Some [ascii ''A=1'', ascii ''B'']"
proof -
  let ?args = "[ascii ''g'', ascii ''c'']" and ?envs = "[ascii ''A=1'', ascii ''B'']"
  let ?mem = "cstrings ?args @ cstrings ?envs @ [9]"
  obtain mem' env' where run: "set_process_title (\<lambda>s. True) ?mem (starts 0 ?args)
      (map InArea (starts (length (cstrings ?args)) ?envs)) (ascii ''gate 7'') = (mem', env')" by fastforce
  have ok: "list_all str_ok ?args" "list_all str_ok ?envs" by (simp_all add: ascii_def str_ok_def)
  from process_title_safe [OF _ ok refl run] have "map (env_string mem') env' = map Some ?envs" by blast
  moreover have "mem' = ascii ''gate 7'' @ [0, 0, 0, 0, 9]"
    using run by (simp add: set_process_title_def ascii_def strlen_at_def c_str_def vsn_def Let_def blit_def)
  moreover have "length (cstrings ?args) = 4" by (simp add: ascii_def)
  ultimately show ?thesis using run by auto
qed

section \<open>Facts behind the findings\<close>

text \<open>A file that another process has locked stays open: its descriptor is lost.\<close>

lemma lock_refused_leaks: "0 \<le> fd \<Longrightarrow> lock_file fd False name t = (-1, t(fd \<mapsto> name))"
  by (simp add: lock_file_def)

text \<open>An unlimited number of files is reported as an error.\<close>

lemma unlimited_is_error: "get_open_file_limit True (-1) = -1"
  by (simp add: get_open_file_limit_def to_int32_def unsigned_minus_1_eq_mask mask_eq_exp_minus_1)

text \<open>
  The process that goes on has left its session, ignores \<open>SIGHUP\<close> and has the null device as its
  standard files; but when one of them was closed before, it is closed again.
\<close>

lemma daemon_returns:
  assumes "daemon_init pid1 sig_ok pid2 chdir_ok null_fd nochdir noclose s = (Returns 0, s')"
  shows "pid1 = 0 \<and> pid2 = 0 \<and> d_session s' \<and> d_hup_ignored s' \<and> (nochdir = 0 \<longrightarrow> d_at_root s')
    \<and> (noclose = 0 \<longrightarrow> (\<forall>fd \<in> {0, 1, 2}. d_files s' fd = (if fd = null_fd then None else Some ''/dev/null'')))"
  using assms by (auto simp: daemon_init_def daemon_files_def Let_def split: if_splits)

end
