(* ===== verification/DateText.thy ===== *)
theory DateText
  imports TimeUtil
begin

text \<open>
  \<open>convert_string_to_time_t\<close> of \<open>public/str_util.cpp\<close>: \<open>sscanf\<close> with the format
  \<open>%4d%2d%2d %d:%d:%d\<close> and \<open>mktime\<close> on the six numbers, as the C library has them. The local zone is the
  constant offset of \<open>TimeUtil\<close>. Shown: a date written with leading zeros is read as the time it names,
  and the number of a day grows by one from each date of the calendar to the next.
\<close>

section \<open>sscanf\<close>

text \<open>
  One conversion \<open>%d\<close>, with a width when \<open>w\<close> is not \<open>None\<close>: the number and the rest of the input, or
  \<open>None\<close> when there are no digits. The number is cut to an \<open>int\<close> as in \<open>strtol\<close>.
\<close>

definition scan_int :: "nat option \<Rightarrow> byte list \<Rightarrow> (int \<times> byte list) option" where
  "scan_int w s =
     (let p = dropWhile is_space s;
          f = (case w of None \<Rightarrow> p | Some k \<Rightarrow> take k p);
          signed = (f \<noteq> [] \<and> (hd f = 45 \<or> hd f = 43));
          ds = takeWhile is_digit (if signed then tl f else f)
      in if ds = [] then None
         else Some (to_int32 (strtol (take (length ds + (if signed then 1 else 0)) f)),
                    drop (length ds + (if signed then 1 else 0)) p))"

definition skip_colon :: "byte list \<Rightarrow> byte list option" where
  "skip_colon s = (case s of [] \<Rightarrow> None | c # rest \<Rightarrow> if c = 58 then Some rest else None)"

text \<open>The whole format; \<open>None\<close> stands for fewer than six conversions.\<close>

definition scan_date :: "byte list \<Rightarrow> (int \<times> int \<times> int \<times> int \<times> int \<times> int) option" where
  "scan_date s =
     Option.bind (scan_int (Some 4) s) (\<lambda>(y, s1).
     Option.bind (scan_int (Some 2) s1) (\<lambda>(mo, s2).
     Option.bind (scan_int (Some 2) s2) (\<lambda>(d, s3).
     Option.bind (scan_int None (dropWhile is_space s3)) (\<lambda>(h, s4).
     Option.bind (skip_colon s4) (\<lambda>s5.
     Option.bind (scan_int None s5) (\<lambda>(mi, s6).
     Option.bind (skip_colon s6) (\<lambda>s7.
     Option.bind (scan_int None s7) (\<lambda>(sec, s8).
     Some (y, mo, d, h, mi, sec)))))))))"

section \<open>mktime\<close>

definition leap :: "int \<Rightarrow> bool" where
  "leap y \<longleftrightarrow> y mod 4 = 0 \<and> (y mod 100 \<noteq> 0 \<or> y mod 400 = 0)"

definition leaps_before :: "int \<Rightarrow> int" where
  "leaps_before y = (y - 1) div 4 - (y - 1) div 100 + (y - 1) div 400"

text \<open>Days before the month \<open>m\<close> (0 to 11), in a year that is no leap year.\<close>

definition days_before_month :: "int \<Rightarrow> int" where
  "days_before_month m = [0, 31, 59, 90, 120, 151, 181, 212, 243, 273, 304, 334] ! nat m"

text \<open>The day with the given year, month (0 to 11) and day of the month, counted from 1970-01-01.\<close>

definition day_number :: "int \<Rightarrow> int \<Rightarrow> int \<Rightarrow> int" where
  "day_number y m d =
     365 * (y - 1970) + (leaps_before y - leaps_before 1970)
     + days_before_month m + (if leap y \<and> 2 \<le> m then 1 else 0) + (d - 1)"

text \<open>\<open>tm_year\<close> is counted from 1900; a month outside the year moves the year.\<close>

definition mktime_tm :: "int \<Rightarrow> int \<Rightarrow> int \<Rightarrow> int \<Rightarrow> int \<Rightarrow> int \<Rightarrow> int \<Rightarrow> int" where
  "mktime_tm off tm_year tm_mon tm_mday tm_hour tm_min tm_sec =
     day_number (1900 + tm_year + tm_mon div 12) (tm_mon mod 12) tm_mday * SECONDS_OF_DAY
     + tm_hour * 3600 + tm_min * 60 + tm_sec - off"

definition convert_string_to_time_t :: "int \<Rightarrow> byte list \<Rightarrow> int" where
  "convert_string_to_time_t off time_string =
     (case scan_date (c_str time_string) of
        None \<Rightarrow> 0
      | Some (y, mo, d, h, mi, sec) \<Rightarrow> mktime_tm off (y - 1900) (mo - 1) d h mi sec)"

section \<open>The calendar\<close>

definition month_length :: "int \<Rightarrow> int \<Rightarrow> int" where
  "month_length y m =
     (if m = 1 then (if leap y then 29 else 28) else [31, 28, 31, 30, 31, 30, 31, 31, 30, 31, 30, 31] ! nat m)"

definition next_date :: "int \<times> int \<times> int \<Rightarrow> int \<times> int \<times> int" where
  "next_date t = (case t of (y, m, d) \<Rightarrow>
     if d < month_length y m then (y, m, d + 1) else if m < 11 then (y, m + 1, 1) else (y + 1, 0, 1))"

lemma div_step: "0 < n \<Longrightarrow> y div n = (y - 1) div n + (if y mod n = 0 then 1 else 0)" for y n :: int
proof -
  assume n: "0 < n"
  show ?thesis
  proof (cases "y mod n = 0")
    case True
    then have "y - 1 = (n - 1) + (y div n - 1) * n"
      using div_mult_mod_eq [of y n] by (simp add: algebra_simps)
    then have "(y - 1) div n = (n - 1 + (y div n - 1) * n) div n" by (simp only:)
    also have "\<dots> = y div n - 1" using n by (subst div_mult_self1) simp_all
    finally show ?thesis using True by simp
  next
    case False
    then have m: "0 \<le> y mod n - 1" "y mod n - 1 < n" using n pos_mod_sign [of n y] pos_mod_bound [of n y] by linarith+
    have "y - 1 = (y mod n - 1) + (y div n) * n" using div_mult_mod_eq [of y n] by linarith
    then have "(y - 1) div n = (y mod n - 1 + (y div n) * n) div n" by (simp only:)
    also have "\<dots> = y div n" using n m by (subst div_mult_self1) simp_all
    finally show ?thesis using False by simp
  qed
qed

lemma leap_year_step: "leaps_before (y + 1) = leaps_before y + (if leap y then 1 else 0)"
proof -
  have "4 dvd y" if "100 dvd y" by (rule dvd_trans [OF _ that]) simp
  moreover have "100 dvd y" if "400 dvd y" by (rule dvd_trans [OF _ that]) simp
  moreover have "y div n = (y - 1) div n + (if n dvd y then 1 else 0)" if "0 < n" for n
    using div_step [OF that, of y] by (simp only: mod_eq_0_iff_dvd)
  note this [of 4] this [of 100] this [of 400]
  moreover have "leap y \<longleftrightarrow> 4 dvd y \<and> (\<not> 100 dvd y \<or> 400 dvd y)"
    by (simp only: leap_def mod_eq_0_iff_dvd)
  moreover have "leaps_before (y + 1) = y div 4 - y div 100 + y div 400"
    by (simp only: leaps_before_def add_diff_cancel_right')
  ultimately show ?thesis
    unfolding leaps_before_def [of y] by (smt (verit))
qed

lemma month_cases: "0 \<le> m \<Longrightarrow> m < 12 \<Longrightarrow> m \<in> {0, 1, 2, 3, 4, 5, 6, 7, 8, 9, 10, 11 :: int}"
  by (simp, presburger)

lemma month_step:
  assumes "0 \<le> m" "m < 11"
  shows "days_before_month (m + 1) + (if leap y \<and> 2 \<le> m + 1 then 1 else 0)
    = days_before_month m + (if leap y \<and> 2 \<le> m then 1 else 0) + month_length y m"
  using month_cases [of m] assms by (auto simp: days_before_month_def month_length_def)

lemma day_number_next:
  assumes "0 \<le> m" "m < 12" "d \<le> month_length y m" "next_date (y, m, d) = (y', m', d')"
  shows "day_number y' m' d' = day_number y m d + 1"
proof -
  consider "d < month_length y m" | "d = month_length y m" "m < 11" | "d = month_length y m" "m = 11"
    using assms(2,3) by linarith
  then show ?thesis
  proof cases
    case 2
    with assms month_step [of m y] show ?thesis by (auto simp: next_date_def day_number_def split: if_splits)
  next
    case 3
    with assms leap_year_step [of y] show ?thesis
      by (auto simp: next_date_def day_number_def days_before_month_def month_length_def)
  qed (use assms in \<open>auto simp: next_date_def day_number_def\<close>)
qed

lemma day_number_epoch: "day_number 1970 0 1 = 0"
  by (simp add: day_number_def days_before_month_def)

section \<open>Reading what was written\<close>

text \<open>A number with leading zeros, and a date in the format that the function reads.\<close>

fun pad :: "nat \<Rightarrow> nat \<Rightarrow> byte list" where
  "pad 0 n = []"
| "pad (Suc k) n = pad k (n div 10) @ [48 + of_nat (n mod 10)]"

lemma pad_digits: "length (pad k n) = k" "c \<in> set (pad k n) \<Longrightarrow> is_digit c"
  by (induction k arbitrary: n) (auto simp: digit_byte(1))

lemma pad_value: "n < 10 ^ k \<Longrightarrow> digits_value (pad k n) = int n"
proof (induction k arbitrary: n)
  case (Suc k)
  then have "n div 10 < 10 ^ k" by (simp add: less_mult_imp_div_less mult.commute)
  from Suc.IH [OF this] show ?case
    by (simp add: digits_value_snoc digit_byte(2)) presburger
qed (simp add: digits_value_def)

lemma digit_not: "is_digit c \<Longrightarrow> \<not> is_space c \<and> c \<noteq> 45 \<and> c \<noteq> 43 \<and> c \<noteq> 0"
  by (auto simp: is_digit_def is_space_def word_le_nat_alt)

lemma pad_Cons:
  assumes "0 < k"
  obtains c cs where "pad k n = c # cs" "is_digit c"
  using pad_digits(1) [of k n] pad_digits(2) [of _ k n] assms that by (cases "pad k n") auto

lemma scan_pad:
  assumes k: "0 < k" "k \<le> 4" and n: "n < 10 ^ k"
    and w: "w = Some k \<or> w = None \<and> (rest = [] \<or> \<not> is_digit (hd rest))"
  shows "scan_int w (pad k n @ rest) = Some (int n, rest)"
proof -
  obtain c cs where c: "pad k n = c # cs" "is_digit c"
    using pad_Cons k(1) by blast
  note nc = digit_not [OF c(2)]
  have all: "takeWhile is_digit (pad k n) = pad k n"
    unfolding takeWhile_eq_all_conv using pad_digits(2) by blast
  moreover have "dropWhile is_space (pad k n @ rest) = pad k n @ rest" using nc c(1) by simp
  ultimately have all: "takeWhile is_digit (pad k n) = pad k n" "dropWhile is_space (pad k n @ rest) = pad k n @ rest" .
  define fld where "fld = (case w of None \<Rightarrow> pad k n @ rest | Some j \<Rightarrow> take j (pad k n @ rest))"
  have "fld = pad k n @ (case w of None \<Rightarrow> rest | Some j \<Rightarrow> [])"
    using w pad_digits(1) [of k n] by (auto simp: fld_def)
  then have f: "takeWhile is_digit fld = pad k n" "hd fld = c" "take k fld = pad k n"
    using w all(1) c(1) pad_digits(1) [of k n] pad_digits(2) [of _ k n] by (cases rest; auto simp: takeWhile_append)+
  have "(10 :: nat) ^ k \<le> 10 ^ 4" using k(2) by (intro power_increasing) simp_all
  then have "n < 10000" using n by simp
  moreover have cs: "takeWhile is_digit cs = cs" using all(1) c by simp
  ultimately have "to_int32 (strtol (pad k n)) = int n"
    using pad_value [OF n] nc c by (auto simp: strtol_def Let_def cs to_int32_id)
  moreover have "pad k n \<noteq> []" "length (pad k n) = k" using c(1) pad_digits(1) [of k n] by simp_all
  ultimately show ?thesis
    unfolding scan_int_def all(2) Let_def fld_def [symmetric] using nc f by simp
qed

definition date_text :: "nat \<Rightarrow> nat \<Rightarrow> nat \<Rightarrow> nat \<Rightarrow> nat \<Rightarrow> nat \<Rightarrow> byte list" where
  "date_text y m d h mi s =
     pad 4 y @ pad 2 m @ pad 2 d @ 32 # pad 2 h @ 58 # pad 2 mi @ 58 # pad 2 s"

text \<open>
  A date between the years 0 and 9999 that is written with leading zeros is read as the time it names.
\<close>

lemma date_text_read:
  assumes "y < 10000" "1 \<le> m" "m \<le> 12" "d < 100" "h < 100" "mi < 100" "s < 100"
  shows "convert_string_to_time_t off (date_text y m d h mi s)
    = day_number (int y) (int m - 1) (int d) * SECONDS_OF_DAY + int h * 3600 + int mi * 60 + int s - off"
proof -
  have "str_ok (date_text y m d h mi s)"
    using digit_not pad_digits(2) by (fastforce simp: str_ok_def date_text_def)
  moreover have "scan_date (date_text y m d h mi s) = Some (int y, int m, int d, int h, int mi, int s)"
  proof -
    have blank: "is_space 32" by (simp add: is_space_def)
    have sp: "dropWhile is_space (pad 2 h @ r) = pad 2 h @ r" for r
    proof -
      obtain c cs where "pad 2 h = c # cs" "is_digit c"
        using pad_Cons [of 2 h] by auto
      then show ?thesis using digit_not [of c] by simp
    qed
    have colon: "\<not> is_digit 58" by (simp add: is_digit_def)
    show ?thesis
      using assms scan_pad [of 4 y] scan_pad [of 2] colon scan_pad [of 2 s None "[]"]
      by (simp add: scan_date_def date_text_def blank sp skip_colon_def)
  qed
  moreover have "(int m - 1) div 12 = 0" "(int m - 1) mod 12 = int m - 1" using assms(2,3) by simp_all
  ultimately show ?thesis by (simp add: convert_string_to_time_t_def c_str_id mktime_tm_def)
qed

lemma new_year_2013: "convert_string_to_time_t 28800 (ascii ''20130101 0:0:0'') = 1356969600"
  by (simp add: convert_string_to_time_t_def scan_date_def scan_int_def ascii_def c_str_def is_space_def is_digit_def
      strtol_def digits_value_def Let_def to_int32_id skip_colon_def mktime_tm_def day_number_def leaps_before_def
      days_before_month_def SECONDS_OF_DAY_def)

end
