(* ===== verification/EncodeConverter.thy ===== *)
theory EncodeConverter
  imports Prelude
begin

text \<open>
  \<open>public/encode_converter.h\<close> and \<open>.cpp\<close>: a thin layer over \<open>iconv\<close>, which is a parameter: from the
  bytes of the input it may read and the room for the output it gives its result, the number of input
  bytes it used and the bytes it wrote. \<open>iconv_ok\<close> states that it stays inside both. Shown: what the
  layer passes on, and when the conversion of a string leaves its arrays.
\<close>

type_synonym iconv_fn = "byte list \<Rightarrow> nat \<Rightarrow> int \<times> nat \<times> byte list"

definition iconv_ok :: "iconv_fn \<Rightarrow> bool" where
  "iconv_ok cd \<longleftrightarrow> (\<forall>src room. case cd src room of (ret, used, out) \<Rightarrow> used \<le> length src \<and> length out \<le> room)"

definition MAX_CONVER_BUFFER :: nat where "MAX_CONVER_BUFFER = 10240"

text \<open>
  \<open>convert(char**, size_t*, char**, size_t*)\<close>: the memory from \<open>*inbuf\<close> and from \<open>*outbuf\<close> on; the four
  variables are advanced by what was used and written.
\<close>

definition convert_raw :: "iconv_fn \<Rightarrow> byte list \<Rightarrow> nat \<Rightarrow> byte list \<Rightarrow> nat \<Rightarrow>
    (int \<times> nat \<times> nat \<times> byte list) checked" where
  "convert_raw cd inmem inlen outmem outlen =
     (if inlen > length inmem \<or> outlen > length outmem then OutOfBounds
      else case cd (take inlen inmem) outlen of
             (ret, used, out) \<Rightarrow> Fine (ret, inlen - used, outlen - length out, blit outmem 0 out))"

text \<open>
  \<open>convert(char*, int, char*, int)\<close>. The lengths are \<open>int\<close> variables read through pointers to
  \<open>size_t\<close>: the upper halves are whatever stands behind them in memory, \<open>hi_in\<close> and \<open>hi_out\<close>.
\<close>

definition convert_buf :: "iconv_fn \<Rightarrow> u32 \<Rightarrow> u32 \<Rightarrow> byte list \<Rightarrow> u32 \<Rightarrow> byte list \<Rightarrow> u32 \<Rightarrow> (int \<times> byte list) checked" where
  "convert_buf cd hi_in hi_out inmem inlen outmem outlen =
     (if sint outlen < 0 \<or> unat outlen > length outmem then OutOfBounds
      else case convert_raw cd inmem (unat inlen + 2 ^ 32 * unat hi_in) (blit outmem 0 (replicate (unat outlen) 0))
                 (unat outlen + 2 ^ 32 * unat hi_out) of
             OutOfBounds \<Rightarrow> OutOfBounds
           | Fine (ret, inleft, outleft, outmem') \<Rightarrow> Fine (ret, outmem'))"

text \<open>\<open>convert(const std::string, std::string&)\<close>: the two arrays are local, \<open>dest\<close> is passed on as it is.\<close>

definition convert_string :: "iconv_fn \<Rightarrow> u32 \<Rightarrow> u32 \<Rightarrow> byte list \<Rightarrow> byte list \<Rightarrow> (int \<times> byte list) checked" where
  "convert_string cd hi_in hi_out src dest =
     (if length src \<ge> MAX_CONVER_BUFFER then Fine (-1, dest)
      else let in_buff = c_str src @ replicate (MAX_CONVER_BUFFER - length (c_str src)) 0 in
        case convert_buf cd hi_in hi_out in_buff (of_nat (length src)) (replicate MAX_CONVER_BUFFER 0)
               (of_nat MAX_CONVER_BUFFER) of
          OutOfBounds \<Rightarrow> OutOfBounds
        | Fine (ret, out) \<Rightarrow> Fine (ret, dest))"

lemma convert_raw_inside:
  assumes "iconv_ok cd" "inlen \<le> length inmem" "outlen \<le> length outmem"
  shows "\<exists>ret inleft outleft outmem'. convert_raw cd inmem inlen outmem outlen = Fine (ret, inleft, outleft, outmem')
    \<and> inleft \<le> inlen \<and> outleft \<le> outlen \<and> length outmem' = length outmem
    \<and> drop (outlen - outleft) outmem' = drop (outlen - outleft) outmem"
proof -
  obtain ret used out where cd: "cd (take inlen inmem) outlen = (ret, used, out)" by (metis prod_cases3)
  have "length out \<le> outlen" using assms(1) cd unfolding iconv_ok_def by (metis case_prod_conv)
  then show ?thesis using assms(2,3) by (simp add: convert_raw_def cd blit_def)
qed

text \<open>
  The conversion of a string stays inside its arrays exactly when the memory behind the two \<open>int\<close>
  parameters happens to hold 0; and whatever happens, the caller's \<open>dest\<close> is left as it was.
\<close>

lemma convert_string_outcome:
  assumes "iconv_ok cd" "length src < MAX_CONVER_BUFFER"
  shows "(if hi_in = 0 \<and> hi_out = 0 then \<exists>ret. convert_string cd hi_in hi_out src dest = Fine (ret, dest)
          else convert_string cd hi_in hi_out src dest = OutOfBounds)"
proof -
  have l: "length (c_str src) \<le> length src" by (simp add: c_str_def length_takeWhile_le)
  have m: "unat (of_nat MAX_CONVER_BUFFER :: u32) = 10240" "\<not> sint (of_nat MAX_CONVER_BUFFER :: u32) < 0"
    by (simp_all add: MAX_CONVER_BUFFER_def)
  have s: "unat (of_nat (length src) :: u32) = length src"
    using assms(2) by (simp add: unat_of_nat MAX_CONVER_BUFFER_def)
  let ?in = "c_str src @ replicate (MAX_CONVER_BUFFER - length (c_str src)) 0"
  let ?out = "blit (replicate MAX_CONVER_BUFFER 0) 0 (replicate 10240 0)"
  have len: "length ?in = 10240" "length ?out = 10240" using l assms(2) by (simp_all add: MAX_CONVER_BUFFER_def blit_def)
  show ?thesis
  proof (cases "hi_in = 0 \<and> hi_out = 0")
    case True
    have "length src \<le> length ?in" "10240 \<le> length ?out"
      unfolding len using assms(2) by (simp_all add: MAX_CONVER_BUFFER_def)
    from convert_raw_inside [OF assms(1) this] obtain ret a b c
      where "convert_raw cd ?in (length src) ?out 10240 = Fine (ret, a, b, c)" by blast
    then show ?thesis
      using True assms(2) by (simp add: convert_string_def convert_buf_def m s Let_def) (simp add: MAX_CONVER_BUFFER_def)
  next
    case False
    then have "0 < unat hi_in \<or> 0 < unat hi_out" by (auto simp: unat_gt_0)
    then have "length src + 2 ^ 32 * unat hi_in > 10240 \<or> 10240 + 2 ^ 32 * unat hi_out > (10240 :: nat)" by auto
    then have "length src + 2 ^ 32 * unat hi_in > length ?in \<or> 10240 + 2 ^ 32 * unat hi_out > length ?out"
      unfolding len .
    then have "convert_raw cd ?in (length src + 2 ^ 32 * unat hi_in) ?out (10240 + 2 ^ 32 * unat hi_out) = OutOfBounds"
      unfolding convert_raw_def by (rule if_P)
    then have "convert_string cd hi_in hi_out src dest = OutOfBounds"
      using assms(2) by (simp add: convert_string_def convert_buf_def m s Let_def)
    then show ?thesis unfolding if_not_P [OF False] .
  qed
qed

end
