(* ===== verification/Spec2Isabelle.thy ===== *)
theory Spec2Isabelle
  imports Prelude Buffer Framing Reactor TcpDataHandler Packet TimerWheel LinkRing Interfaces CircularQueue
    UnixConfig LruMap ObjectPool Counters Md5 StrUtil Base64 GateClient GateApp BenchClient TcpConnection Application Logger TimeUtil NameValue Acceptor Udp Network RingMem CombineString IdCounter
    Xml GateConfig BenchConfig ThreadNotify SsCodecs
    LoginFlow GateSession GateSystem BitCount SystemUtil DateText EncodeConverter
begin

text \<open>
  Verification of the server framework in \<open>framework/\<close>, of the helper classes in \<open>public/\<close> and of the two
  programs that are built on them, \<open>gate_server/\<close> and \<open>bench_client/\<close>.

  \<^bold>\<open>The program.\<close> A server is one object of a subclass of \<open>application\<close>. Its \<open>start\<close> runs one thread: each turn of
  the main loop lets \<open>epoll_reactor\<close> wait for events and call the handlers that are registered for the
  descriptors, then advances \<open>timer_manager\<close>, a timing wheel, to the present time, then looks at a status that
  signals and a delay timer set (run, reload, delayed stop, stop). A \<open>tcp_acceptor\<close> turns a listening
  descriptor into connections; a connection is a \<open>tcp_data_handler\<close> (or the older \<open>tcp_connection\<close>) with two
  \<open>buffer\<close>s: bytes that arrive are collected until \<open>get_packet_info\<close> sees a whole packet, which goes to
  \<open>process_packet\<close>; bytes that the socket does not take at once are queued and sent when it is writable again.
  Packets have the heads and the byte order of \<open>packet.h\<close> and \<open>game_packet.h\<close>, their bodies are protobuf messages.
  The gate server keeps a table of its clients by user and by role and a pool of connection objects, checks
  rate and sequence of the packets, answers logins and forwards answers. The bench client logs in
  many players at a gate.

  \<^bold>\<open>Theories and sources.\<close> A theory stands for one or two source files and opens with what it holds.
  Names are those of the source where HOL has not taken them.
  \<^item> Foundations. \<open>Prelude\<close>: C integers (conversions to narrower types, truncating division), byte blocks with
    \<open>memcpy\<close>, results of \<open>malloc\<close>, C strings, \<open>atoi\<close>, printing of numbers, the error codes of \<open>io_handler.h\<close>; the
    collections \<open>block_simps\<close> and \<open>c_int_simps\<close>. \<open>Interfaces\<close>: the contracts of containers.
  \<^item> Bytes and packets. \<open>Buffer\<close> (\<open>buffer.cpp\<close>), \<open>Framing\<close> (the virtual methods of a connection and the
    list specification \<open>frame_run\<close>), \<open>Packet\<close> and \<open>SsCodecs\<close> (\<open>packet.h\<close>, \<open>game_packet.h\<close>, \<open>aliased_buf.h\<close>,
    \<open>message.h\<close>).
  \<^item> Event loop. \<open>Reactor\<close> (\<open>epoll_reactor.cpp\<close>), \<open>TimerWheel\<close> and \<open>LinkRing\<close> (\<open>timer_manager.cpp\<close>, the slots as lists
    and as rings of pointers), \<open>Application\<close> (\<open>application.cpp\<close>), \<open>ThreadNotify\<close> (\<open>thread.cpp\<close>,
    \<open>notify_handler.cpp\<close>).
  \<^item> Network. \<open>Network\<close> (\<open>network_util.cpp\<close> on a table of open sockets), \<open>Acceptor\<close> (\<open>tcp_acceptor.cpp\<close>),
    \<open>TcpDataHandler\<close>, \<open>TcpConnection\<close>, \<open>Udp\<close> (\<open>udp_data_handler.cpp\<close>, \<open>udp_server.cpp\<close>).
  \<^item> Containers. \<open>CircularQueue\<close>, \<open>LruMap\<close> (its ring as a list and as pointers), \<open>ObjectPool\<close> (also \<open>fsm_manager\<close>), \<open>RingMem\<close> (\<open>ring_mem_buffer\<close>),
    \<open>Counters\<close> (thresholds, average counters, atomic integers, double buffers, id macros, comparators).
  \<^item> Text, files and configuration. \<open>UnixConfig\<close>, \<open>NameValue\<close> (\<open>namevalue_saver\<close>), \<open>Logger\<close> (\<open>day_roll_logger\<close>), \<open>Xml\<close>,
    \<open>CombineString\<close>, \<open>IdCounter\<close> (\<open>id_counter.cpp\<close>), \<open>StrUtil\<close>, \<open>Base64\<close>, \<open>BitCount\<close>, \<open>DateText\<close>
    (all four \<open>str_util\<close>), \<open>TimeUtil\<close>, \<open>Md5\<close>, \<open>EncodeConverter\<close>, \<open>SystemUtil\<close>.
  \<^item> Programs. \<open>GateClient\<close>, \<open>GateApp\<close>, \<open>GateConfig\<close> (\<open>client_connection.cpp\<close> and \<open>gate_application.cpp\<close> of the gate),
    \<open>GateSession\<close> (the events of a connection through handler, client, send buffer and pool), \<open>GateSystem\<close> (the
    whole gate as a transition system: listener, connections, timers, reload, stop),
    \<open>BenchClient\<close>, \<open>BenchConfig\<close> (the bench client), \<open>LoginFlow\<close> (a login from one to the other). This theory
    joins \<open>Network\<close>, \<open>Acceptor\<close>, \<open>TcpConnection\<close> and \<open>Reactor\<close> to the life of a listener and of a connection.

  \<^bold>\<open>How the code is rendered.\<close> An object is a record with the members of the class, a method a function from the
  old object (and the objects it calls, usually the reactor) to its result and the new ones; the body follows the
  order of the calls and early returns. What the kernel, the allocator, the clock or a subclass answers is an
  argument, so a statement holds for every answer that its hypotheses allow. Results keep the error
  numbers of the code; a handler that calls \<open>handle_error(e)\<close> and returns ends in \<open>Event e\<close>. An access outside a
  block is the value \<open>OutOfBounds\<close> of the type \<open>checked\<close>, or \<open>None\<close> where the text says so, never an
  unspecified byte: memory safety is proved as \<open>Fine\<close>. Integers stay in their width where they can leave it
  (\<open>to_int32\<close>, \<open>to_int16\<close>, words). Pointers into a block are offsets or addresses, and functions that mutate shared
  objects work on an explicit heap (\<open>LinkRing\<close>, \<open>LruMap\<close>, \<open>ObjectPool\<close>, \<open>GateApp\<close>). Interleavings are step relations
  (\<open>ring_step\<close>, \<open>run_step\<close>, \<open>thread_step\<close>, \<open>gate_step\<close>, \<open>sys_step\<close>) with invariants by rule induction.

  \<^bold>\<open>Interfaces.\<close> \<open>framer\<close> (in \<open>Framing\<close>) says what a connection class promises the receive loop: an answer does
  not change when more bytes arrive. It is interpreted on the classes of the gate and of the bench client.
  \<open>keyed_store\<close> and \<open>keyed_pool\<close> (a sublocale gives the former for the latter) are interpreted on
  \<open>unix_config\<close>, \<open>lru_map_container\<close> and \<open>object_pool\<close>, \<open>bounded_fifo\<close> on \<open>circular_queue\<close>, \<open>body_codec\<close> (in
  \<open>Packet\<close>) on the empty body and used for every body whose parser inverts its serialiser.

  \<^bold>\<open>What is shown.\<close> Each property states its own conditions; the main ones are named here.
  \<^item> Streams. The receive loop is the list specification for every input, segmentation and memory behind the
    unread bytes; for the class of the gate this excludes the policy request, and packets of less than 12 bytes
    where sequence numbers are checked. Sending is a byte pipe under any partial writes, and while
    \<open>epoll_ctl\<close> succeeds queued bytes are watched for writing, whichever version of \<open>send\<close> queued them. Encoding
    and decoding of packets are inverse. Logins sent to a gate without checks are answered exactly when
    all their bytes have arrived, once each and in order. \<open>tcp_connection\<close> reads as \<open>tcp_data_handler\<close> does, but for an
    empty socket and the limit on the size of a packet, which it lacks.
  \<^item> Event loop. Handler table and interest set agree. \<open>run_once\<close> is the replay of the requests that the bits of the
    events stand for: each reaches the handler that holds the slot at that moment, if one does; a callback
    that shuts the reactor down in the middle of a batch makes the code read through \<open>NULL\<close>. Timers fire
    exactly at their time and in order, whatever callbacks do to the wheel with timers less than \<open>2 ^ 31\<close> ms
    away. With a stop delay of at least 10 ms a stop signal ends the loop; the bodies of the virtual functions
    and of the callbacks are arguments.
  \<^item> Resources. Every accepted or created descriptor is taken or closed exactly once; in the gate as a whole,
    reloads included, the pool, the open connections, their descriptors, the table of the reactor and the
    interest set always agree, and a deleted connection is used in one situation only: a send fails inside a
    read event while the pool of objects is full. The end of the gate deletes each user and each pooled object
    once. The object pool deletes only what lives, for a client that deletes what \<open>add\<close> refuses and \<open>erase\<close> and \<open>clear\<close> let go.
  \<^item> Stored data. The hash table of \<open>unix_config\<close> is a map, and a dump of plain words loads back; what the load after a
    crash of \<open>namevalue_saver\<close> finds is stated for every step and for any value of the offset that the code
    does not initialise; log lines stay in their buffer while \<open>write\<close> takes what it is given; after a reload the
    settings, the address, the log and the delays of the gate are those of the file; base64 is inverse and safe on plain text.
  \<^item> Routines. MD5 is RFC 1321 however the message is fed; the parallel bit count counts; a process title
    stays in its area; a producer and a consumer thread see a FIFO as long as the ring is not overrun, and
    what a consumer function that refuses or throws loses or repeats is stated.
  \<^item> Deviations. Where the code does not do what it means to, a lemma under the heading \<open>Facts behind the
    findings\<close> (or the exception in a statement) shows it on the model.

  \<^bold>\<open>Bounds and termination.\<close> Loops over data are total functions with the length of the data, or the bytes left in
  the socket, as measure. The accept loops end because they count (32 calls per event, 256 in the template
  \<open>tcp_service_handler\<close>). The timer wheel and the shutdown of the gate run callbacks that may add work:
  they are \<open>partial_function (option)\<close>, as is the block loop of MD5 with its 32-bit counter, and that they return
  is proved. The event and client lists of a run are
  arguments, so nothing is cut off. A ring has at most \<open>2 ^ 31\<close> bytes, the wheel 14 bits per level:
  beyond that the code itself goes wrong, as the lemmas show. The one sum that is not taken in its width is
  that of \<open>ensure_space\<close> in \<open>Buffer\<close>, which the code takes in \<open>int\<close> and which matters for buffers of 2 GB.

  \<^bold>\<open>Not modelled.\<close> Generated protobuf classes (\<open>*.pb.*\<close>; bodies are parameters), the parser of pugixml and the other
  third-party libraries (their containers appear as maps), \<open>singleton.h\<close>, version headers and the unused
  \<open>my_errno\<close>; output on the terminal and the text of most log lines; system calls that only pass a value on
  (\<open>setsockopt\<close> tuning, address queries, signal masks, changing the directory). Of \<open>forward_packet\<close> and
  \<open>forward_cs_packet\<close> of the gate, whose sends are commented out, the head is modelled. In the generic handlers
  the callbacks of a read event are taken not to close or write through that same connection;
  \<open>GateSession\<close> does without that for the gate. A descriptor that was closed during a read event is not
  opened again before the event ends. The main loop reads
  the status once per turn; the lemmas about lost signals say what happens between.
\<close>

section \<open>The sockets of the process\<close>

text \<open>C30: The life of the listening socket, from \<open>create_tcp_service\<close> through \<open>tcp_acceptor::init\<close> and
  \<open>tcp_acceptor::fini\<close>, against the kernel and epoll: when \<open>init\<close> answers 0 the socket listens, is bound and
  is watched for reading; when it fails, at whichever call, everything is as before; and after \<open>fini\<close>
  the table of open sockets and the epoll set are those from before, whatever happened.\<close>

theorem listener_life:
  assumes "reactor_inv r" "net_ok a t"
    and "create_tcp_service a t = (sfd, t1)"
    and "acceptor_init sfd ok (acceptor_new me) r = (ret, ac, r1, closed)"
    and "acceptor_fini ac r1 = (ac2, r2, closed2)"
  shows "close_all (closed @ closed2) t1 = t \<and> interest r2 = interest r
    \<and> (if ret = 0
       then interest r1 = (interest r)(sfd \<mapsto> EPOLLIN) \<and> handler_at r1 sfd = Some me
         \<and> t1 = t(sfd \<mapsto> \<lparr>kind = TcpSock, nonblocking = a_fcntl a, reuse = a_reuse a, bound = True,
                            listening = True, connecting = False\<rparr>)
       else close_all closed t1 = t \<and> r1 = r)"
proof -
  from create_tcp_service_ok [OF assms(2,3)]
  have sock: "creates \<lparr>kind = TcpSock, nonblocking = a_fcntl a, reuse = a_reuse a, bound = True,
      listening = True, connecting = False\<rparr> a t sfd t1" .
  have fresh: "t (a_socket a) = None" using assms(2) by (simp add: net_ok_def)
  show ?thesis
  proof (cases "ret = 0")
    case True
    note o = acceptor_init_opened [OF assms(1) assms(4) [unfolded True]]
    then have "closed2 = [sfd] \<and> interest r2 = interest r"
      using acceptor_fini_closed [OF _ assms(5)] by (auto simp: fun_upd_idem)
    moreover have "t1(sfd := None) = t" using sock o fresh by (auto simp: creates_def fun_upd_idem)
    ultimately show ?thesis using True o sock by (simp add: close_all_def creates_def acceptor_new_def)
  next
    case False
    note r = acceptor_init_refused [OF assms(4) False]
    then have "closed2 = [] \<and> r2 = r1"
      using acceptor_fini_closed [OF _ assms(5)] assms(1) by (simp add: acceptor_new_def)
    then show ?thesis using False r sock fresh
      by (auto simp: acceptor_new_def close_all_def creates_def fun_upd_idem split: if_splits)
  qed
qed

definition sample_net :: net_answers where
  "sample_net = \<lparr>a_socket = 4, a_fcntl = True, a_reuse = True, a_bind = 0, a_listen = 0, a_connect = EINPROGRESS,
     a_select = 1, a_so_error = 0, a_close = 0\<rparr>"

definition sample_sockets :: sockets where
  "sample_sockets = [3 \<mapsto> sock_new UdpSock]"

lemma sample_net_ok: "net_ok sample_net sample_sockets"
  by (simp add: net_ok_def sample_net_def sample_sockets_def EINPROGRESS_def)

theorem listener_life_witness:
  "\<exists>t1 ac r1 ac2 r2. create_tcp_service sample_net sample_sockets = (4, t1)
     \<and> acceptor_init 4 True (acceptor_new 9) sample_reactor = (0, ac, r1, [])
     \<and> acceptor_fini ac r1 = (ac2, r2, [4]) \<and> interest r2 = interest sample_reactor
     \<and> close_all [4] t1 = sample_sockets"
proof -
  obtain t1 where c: "create_tcp_service sample_net sample_sockets = (4, t1)"
    by (simp add: create_tcp_service_def sample_net_def Let_def)
  obtain ac r1 where i: "acceptor_init 4 True (acceptor_new 9) sample_reactor = (0, ac, r1, [])" "ac_fd ac = 4"
    by (simp add: acceptor_init_def acceptor_new_def sample_reactor_def add_handler_def reactor_init_def
        reactor_new_def set_handler_def MIN_FD_SIZE_def Let_def)
  obtain ac2 r2 where f: "acceptor_fini ac r1 = (ac2, r2, [4])" using i(2) by (simp add: acceptor_fini_def)
  from listener_life [OF sample_reactor_inv(1) sample_net_ok c i(1) f] c i f show ?thesis by auto
qed

text \<open>C29: The life of a client connection, from \<open>create_tcp_client\<close> through \<open>tcp_connection::init\<close> and
  \<open>tcp_connection::fini\<close>, against the kernel and epoll: whether the connection came about or failed at any
  of its calls, in the end the table of open sockets and the epoll set are those from before, the
  processor heard of a disconnect exactly when it heard of the connection, and a second \<open>fini\<close>
  does nothing.\<close>

theorem client_socket_life:
  assumes "reactor_inv r" "net_ok a t" "alloc_ok 1024 ra" "alloc_ok 1024 sa"
    and "create_tcp_client a 0 t = Fine (sock, t1)"
    and "conn_init_host ra sa ok now sock (conn_new me) r = (ret, c1, r1, evs, closed)"
    and "conn_fini c1 r1 = (c2, r2, evs2, closed2)"
  shows "close_all (closed @ closed2) t1 = t \<and> interest r2 = interest r \<and> \<not> conn_connected c2
    \<and> evs @ evs2 = (if ret = 0 then [OnConnected, OnDisconnect] else [])
    \<and> conn_fini c2 r2 = (c2, r2, [], [])"
proof -
  from create_client_ok [OF assms(2) assms(5) [unfolded create_tcp_client_def]]
  have sock: "if sock < 0 then t1 = t else sock = a_socket a \<and> (\<exists>s. t1 = t(sock \<mapsto> s))"
    by (auto simp: creates_def split: if_splits)
  have fresh: "t (a_socket a) = None" using assms(2) by (simp add: net_ok_def)
  show ?thesis
  proof (cases "sock < 0")
    case True
    then have "ret = -2 \<and> c1 = conn_new me \<and> r1 = r \<and> evs = [] \<and> closed = []"
      using assms(6) by (simp add: conn_init_host_def conn_new_def)
    then show ?thesis using assms(7) sock True
      by (auto simp: conn_fini_def conn_new_def conn_connected_def close_all_def)
  next
    case False
    then have "close_all [sock] t1 = t" using sock fresh by (auto simp: close_all_def fun_upd_idem)
    with connection_closes_what_it_opens [OF assms(1,3,4) _ assms(6,7)] False show ?thesis by simp
  qed
qed

theorem client_socket_life_witness:
  "\<exists>t1 c1 r1 c2 r2. create_tcp_client sample_net 0 sample_sockets = Fine (4, t1)
     \<and> conn_init_host (Some (64, replicate 1024 0)) (Some (2048, replicate 1024 0)) True 7 4
         (conn_new 2) sample_reactor = (0, c1, r1, [OnConnected], [])
     \<and> conn_fini c1 r1 = (c2, r2, [OnDisconnect], [4]) \<and> close_all [4] t1 = sample_sockets"
proof -
  let ?ra = "Some (64, replicate 1024 (0 :: byte)) :: alloc_result"
  let ?sa = "Some (2048, replicate 1024 (0 :: byte)) :: alloc_result"
  obtain t1 where c: "create_tcp_client sample_net 0 sample_sockets = Fine (4, t1)"
    by (simp add: create_tcp_client_def create_client_def sample_net_def Let_def)
  have ok: "alloc_ok 1024 ?ra" "alloc_ok 1024 ?sa" by (simp_all add: alloc_ok_def)
  from connection_closes_what_it_opens_witness obtain c1 r1 c2 r2 where run:
    "conn_init_host ?ra ?sa True 7 4 (conn_new 2) sample_reactor = (0, c1, r1, [OnConnected], [])"
    "conn_fini c1 r1 = (c2, r2, [OnDisconnect], [4])" by blast
  from client_socket_life [OF sample_reactor_inv(1) sample_net_ok ok c run] c run show ?thesis by auto
qed

end
